(* ===== verification/Prelude.thy ===== *)
theory Prelude
  imports Main "HOL-Library.Word" "HOL-Library.Sublist"
begin

text \<open>
  What the component theories share: the names of the Go types of the models, the functions of
  Go's standard library that the sources call on byte strings, and the generic lemmas on lists
  that carry the component proofs.

  A Go \<open>string\<close> or \<open>[]byte\<close> that is read as text is a \<open>string\<close> of HOL (a list of 8-bit
  \<open>char\<close>s: Go indexes bytes, not runes). A wire byte is an \<open>8 word\<close>.
\<close>

section \<open>Types\<close>

type_synonym gostring = "string"
type_synonym byte = "8 word"

section \<open>Collections of the development\<close>

named_theorems go_strings "equations of the standard library's string functions"
named_theorems step_simps "unfolding of one step of a loop or of a state machine"

section \<open>Bytes of a string\<close>

abbreviation NUL :: char where "NUL \<equiv> CHR 0x00"
abbreviation TAB :: char where "TAB \<equiv> CHR 0x09"
abbreviation LF :: char where "LF \<equiv> CHR 0x0A"
abbreviation CR :: char where "CR \<equiv> CHR 0x0D"
abbreviation SP :: char where "SP \<equiv> CHR 0x20"
abbreviation DQUOTE :: char where "DQUOTE \<equiv> CHR 0x22"
abbreviation SQUOTE :: char where "SQUOTE \<equiv> CHR 0x27"
abbreviation BACKSLASH :: char where "BACKSLASH \<equiv> CHR 0x5C"

definition code_of :: "char \<Rightarrow> nat" where
  "code_of c = of_char c"

definition contains_any :: "gostring \<Rightarrow> gostring \<Rightarrow> bool" where
  "contains_any s chars \<longleftrightarrow> list_ex (\<lambda>c. List.member chars c) s"

lemma contains_any_iff: "contains_any s chars \<longleftrightarrow> (\<exists>c \<in> set s. c \<in> set chars)"
  by (auto simp: contains_any_def list_ex_iff)

lemma contains_any_Nil [simp]: "\<not> contains_any [] chars"
  by (simp add: contains_any_def)

lemma contains_any_Cons [simp]:
  "contains_any (c # s) chars \<longleftrightarrow> c \<in> set chars \<or> contains_any s chars"
  by (simp add: contains_any_def)

definition has_prefix :: "gostring \<Rightarrow> gostring \<Rightarrow> bool" where
  "has_prefix s p \<longleftrightarrow> take (length p) s = p"

fun contains :: "gostring \<Rightarrow> gostring \<Rightarrow> bool" where
  "contains [] p \<longleftrightarrow> p = []"
| "contains (c # cs) p \<longleftrightarrow> has_prefix (c # cs) p \<or> contains cs p"

definition has_suffix :: "gostring \<Rightarrow> gostring \<Rightarrow> bool" where
  "has_suffix s p \<longleftrightarrow> length p \<le> length s \<and> drop (length s - length p) s = p"

lemma has_prefix_iff: "has_prefix s p \<longleftrightarrow> (\<exists>r. s = p @ r)"
  unfolding has_prefix_def by (metis append_eq_conv_conj append_take_drop_id)

lemma has_suffix_iff: "has_suffix s p \<longleftrightarrow> (\<exists>r. s = r @ p)"
proof
  assume "has_suffix s p"
  then show "\<exists>r. s = r @ p"
    unfolding has_suffix_def by (metis append_take_drop_id)
qed (auto simp: has_suffix_def)

lemma has_prefix_single [simp]: "has_prefix (x # xs) [c] \<longleftrightarrow> x = c" "\<not> has_prefix [] (c # p)"
  by (auto simp: has_prefix_def)

section \<open>Splitting a list at the first element that fails a test\<close>

text \<open>
  A Go loop that moves an index past bytes of a class splits the string there:
  \<open>takeWhile\<close> is what the loop passed over, \<open>dropWhile\<close> is the rest.
\<close>

lemma take_drop_While [simp]: "takeWhile P xs @ dropWhile P xs = xs"
  by simp

lemma takeWhile_all [intro]: "c \<in> set (takeWhile P xs) \<Longrightarrow> P c"
  by (rule set_takeWhileD [THEN conjunct2])

lemma dropWhile_hd: "dropWhile P xs = y # ys \<Longrightarrow> \<not> P y"
  by (metis hd_dropWhile list.distinct(1) list.sel(1))

lemma takeWhile_nth_holds: "i < length (takeWhile P xs) \<Longrightarrow> P (xs ! i)"
  by (metis nth_mem set_takeWhileD takeWhile_nth)

lemma takeWhile_of_dropWhile: "takeWhile P (dropWhile P xs) = []"
  by (induction xs) auto

definition trim_right :: "(char \<Rightarrow> bool) \<Rightarrow> gostring \<Rightarrow> gostring" where
  "trim_right P s = rev (dropWhile P (rev s))"

definition right_run :: "(char \<Rightarrow> bool) \<Rightarrow> gostring \<Rightarrow> gostring" where
  "right_run P s = rev (takeWhile P (rev s))"

lemma trim_right_run [simp]: "trim_right P s @ right_run P s = s"
  unfolding trim_right_def right_run_def by (metis rev_append rev_rev_ident takeWhile_dropWhile_id)

lemma right_run_all: "c \<in> set (right_run P s) \<Longrightarrow> P c"
  by (auto simp: right_run_def dest: set_takeWhileD)

lemma trim_right_id: "s = [] \<or> \<not> P (last s) \<Longrightarrow> trim_right P s = s"
  by (cases s rule: rev_cases) (auto simp: trim_right_def)

lemma right_run_Nil: "s = [] \<or> \<not> P (last s) \<Longrightarrow> right_run P s = []"
  by (cases s rule: rev_cases) (auto simp: right_run_def)

text \<open>\<open>strings.Split\<close> at one byte and \<open>strings.Join\<close> with it.\<close>

fun split_at :: "char \<Rightarrow> gostring \<Rightarrow> gostring list" where
  "split_at d [] = [[]]"
| "split_at d (c # cs) =
     (if c = d then [] # split_at d cs
      else (case split_at d cs of [] \<Rightarrow> [[c]] | w # ws \<Rightarrow> (c # w) # ws))"

fun join_with :: "char \<Rightarrow> gostring list \<Rightarrow> gostring" where
  "join_with d [] = []"
| "join_with d [w] = w"
| "join_with d (w # v # ws) = w @ d # join_with d (v # ws)"

lemma split_at_nonempty [simp]: "split_at d s \<noteq> []"
  by (induction s) (auto split: list.splits)

lemma join_split [simp]: "join_with d (split_at d s) = s"
proof (induction s)
  case (Cons c cs)
  then show ?case
    by (cases "split_at d cs"; cases "tl (split_at d cs)") (auto split: list.splits)
qed simp

lemma split_at_clean: "w \<in> set (split_at d s) \<Longrightarrow> d \<notin> set w"
proof (induction s arbitrary: w)
  case (Cons c cs)
  obtain v vs where v: "split_at d cs = v # vs" by (meson neq_Nil_conv split_at_nonempty)
  show ?case using Cons v by (auto split: if_splits)
qed simp

lemma split_at_append: "d \<notin> set w \<Longrightarrow> split_at d (w @ d # s) = w # split_at d s"
  by (induction w) auto

lemma split_at_single: "d \<notin> set w \<Longrightarrow> split_at d w = [w]"
  by (induction w) auto

text \<open>\<open>strings.TrimPrefix\<close>, \<open>strings.TrimSuffix\<close>.\<close>

definition trim_prefix :: "gostring \<Rightarrow> gostring \<Rightarrow> gostring" where
  "trim_prefix s p = (if has_prefix s p then drop (length p) s else s)"

definition trim_suffix :: "gostring \<Rightarrow> gostring \<Rightarrow> gostring" where
  "trim_suffix s p = (if has_suffix s p then take (length s - length p) s else s)"

lemma split_at_set: "w \<in> set (split_at d s) \<Longrightarrow> set w \<subseteq> set s"
proof (induction s arbitrary: w)
  case (Cons c cs)
  obtain v vs where v: "split_at d cs = v # vs" by (meson neq_Nil_conv split_at_nonempty)
  have "set v \<subseteq> set cs" "u \<in> set vs \<Longrightarrow> set u \<subseteq> set cs" for u
    using Cons.IH v by auto
  then show ?case using Cons.prems v by (auto split: if_splits)
qed simp

section \<open>Reading a list by index\<close>

lemma drop_at: "i < length xs \<Longrightarrow> drop i xs = xs ! i # drop (Suc i) xs"
  by (rule Cons_nth_drop_Suc [symmetric])

lemma take_last: "n \<le> length xs \<Longrightarrow> drop (length xs - n) (ys @ xs) = drop (length xs - n) ys @ drop (length xs - n - length ys) xs"
  by simp

lemma ex_shift:
  fixes m n :: nat
  assumes "m \<le> n"
  shows "(\<exists>k \<le> n - m. P (k + m)) \<longleftrightarrow> (\<exists>k \<ge> m. k \<le> n \<and> P k)"
proof
  assume "\<exists>k \<le> n - m. P (k + m)"
  then obtain k where "k \<le> n - m" "P (k + m)" by blast
  then show "\<exists>k \<ge> m. k \<le> n \<and> P k" using assms by (intro exI [of _ "k + m"]) simp
next
  assume "\<exists>k \<ge> m. k \<le> n \<and> P k"
  then obtain k where "m \<le> k" "k \<le> n" "P k" by blast
  then show "\<exists>k \<le> n - m. P (k + m)" by (intro exI [of _ "k - m"]) simp
qed

lemma all_length_Suc:
  "(\<forall>xs. length xs = Suc n \<longrightarrow> P xs) \<longleftrightarrow> (\<forall>x ys. length ys = n \<longrightarrow> P (x # ys))"
  by (metis length_Cons length_Suc_conv)

text \<open>A loop that remembers the last index that passes.\<close>

lemma last_index:
  fixes P :: "nat \<Rightarrow> bool"
  shows "fold (\<lambda>i found. if P i then Some i else found) [0..<n] None = Some j \<Longrightarrow> j < n \<and> P j"
    and "fold (\<lambda>i found. if P i then Some i else found) [0..<n] None = None \<longleftrightarrow> (\<forall>i<n. \<not> P i)"
  by (induction n) (auto simp: less_Suc_eq split: if_splits)

section \<open>Files that are read line by line and written back\<close>

text \<open>
  The contract of a parser whose lines keep every byte: what is parsed and not touched is written
  back as it was, so an edit of one line leaves all other bytes of the file alone.
\<close>

locale lossless_file =
  fixes parse :: "gostring \<Rightarrow> 'line list"
    and render_line :: "'line \<Rightarrow> gostring"
  assumes lossless: "concat (map render_line (parse s)) = s"
begin

lemma parse_injective: "parse s = parse t \<Longrightarrow> s = t"
  by (metis lossless)

lemma parse_line_bytes: "l \<in> set (parse s) \<Longrightarrow> \<exists>before after. s = before @ render_line l @ after"
  by (metis (no_types, lifting) split_list lossless map_append list.map(2) concat_append concat.simps(2))

text \<open>Replacing line \<open>i\<close> keeps the bytes of all lines before it and behind it.\<close>

lemma edit_local:
  assumes "i < length (parse s)"
  defines "before \<equiv> concat (map render_line (take i (parse s)))"
    and "after \<equiv> concat (map render_line (drop (Suc i) (parse s)))"
  shows "concat (map render_line ((parse s)[i := l])) = before @ render_line l @ after"
    and "s = before @ render_line (parse s ! i) @ after"
proof -
  show "concat (map render_line ((parse s)[i := l])) = before @ render_line l @ after"
    using assms(1) by (simp add: upd_conv_take_nth_drop before_def after_def)
  have "parse s = take i (parse s) @ parse s ! i # drop (Suc i) (parse s)"
    using assms(1) by (rule id_take_nth_drop)
  from arg_cong [OF this, of "\<lambda>ls. concat (map render_line ls)"]
  show "s = before @ render_line (parse s ! i) @ after"
    by (simp add: lossless before_def after_def)
qed

end

end
