(* ===== verification/Sshmatch.thy ===== *)
theory Sshmatch
  imports Prelude
begin

text \<open>
  The pattern match of OpenSSH's match.c as internal/sshmatch/sshmatch.go has it: the wildcard
  match \<open>Pattern\<close> with its four loop variables, the pattern list with negation, and the ASCII
  lower-casing both share.
\<close>

section \<open>LowerASCII\<close>

definition is_upper_ascii :: "char \<Rightarrow> bool" where
  "is_upper_ascii c \<longleftrightarrow> 65 \<le> code_of c \<and> code_of c \<le> 90"

definition lower_byte :: "char \<Rightarrow> char" where
  "lower_byte c = (if is_upper_ascii c then char_of (code_of c + 32) else c)"

text \<open>The outer loop looks for the first upper-case letter; the inner one lowers from there.\<close>

fun LowerASCII :: "gostring \<Rightarrow> gostring" where
  "LowerASCII [] = []"
| "LowerASCII (c # cs) = (if is_upper_ascii c then map lower_byte (c # cs) else c # LowerASCII cs)"

lemma lower_byte_not_upper [simp]: "\<not> is_upper_ascii c \<Longrightarrow> lower_byte c = c"
  by (simp add: lower_byte_def)

lemma lower_byte_lower [simp]: "\<not> is_upper_ascii (lower_byte c)"
  by (auto simp: lower_byte_def is_upper_ascii_def code_of_def)

lemma LowerASCII_map: "LowerASCII s = map lower_byte s"
  by (induction s) auto

lemma length_LowerASCII [simp]: "length (LowerASCII s) = length s"
  by (simp add: LowerASCII_map)

lemma LowerASCII_idem [simp]: "LowerASCII (LowerASCII s) = LowerASCII s"
  by (simp add: LowerASCII_map)

section \<open>Pattern\<close>

text \<open>
  The loop of \<open>Pattern\<close>: \<open>pi\<close>, \<open>vi\<close> are patternIndex and valueIndex, \<open>star\<close> and \<open>resume\<close> are
  starIndex (\<open>-1\<close> before the first star) and resumeIndex. The cases stand in the order of the
  source's \<open>switch\<close>; the trailing loop over stars is the \<open>else\<close> branch.
\<close>

definition loop_ok :: "nat \<Rightarrow> nat \<Rightarrow> int \<Rightarrow> nat \<Rightarrow> bool" where
  "loop_ok pi vi star resume \<longleftrightarrow> star < int pi \<and> resume \<le> vi"

function pattern_loop :: "gostring \<Rightarrow> gostring \<Rightarrow> nat \<Rightarrow> nat \<Rightarrow> int \<Rightarrow> nat \<Rightarrow> bool" where
  "pattern_loop p v pi vi star resume =
     (if vi < length v then
        if pi < length p \<and> (p ! pi = CHR ''?'' \<or> p ! pi = v ! vi)
        then pattern_loop p v (pi + 1) (vi + 1) star resume
        else if pi < length p \<and> p ! pi = CHR ''*''
        then pattern_loop p v (pi + 1) vi (int pi) vi
        else if star \<ge> 0
        then pattern_loop p v (nat star + 1) (resume + 1) star (resume + 1)
        else False
      else dropWhile (\<lambda>c. c = CHR ''*'') (drop pi p) = [])"
  by pat_completeness auto
termination
  by (relation "measures [\<lambda>(p, v, pi, vi, star, resume). if loop_ok pi vi star resume then 0 else 1,
        \<lambda>(p, v, pi, vi, star, resume). nat (int (length p) - star),
        \<lambda>(p, v, pi, vi, star, resume). length v - resume,
        \<lambda>(p, v, pi, vi, star, resume). length v - vi]")
    (auto simp: loop_ok_def)

declare pattern_loop.simps [simp del]

definition Pattern :: "gostring \<Rightarrow> gostring \<Rightarrow> bool" where
  "Pattern p v = pattern_loop p v 0 0 (- 1) 0"

section \<open>The reference match\<close>

text \<open>What the doc comment promises: a star is any sequence, a question mark any one byte.\<close>

fun glob :: "gostring \<Rightarrow> gostring \<Rightarrow> bool" where
  "glob [] v \<longleftrightarrow> v = []"
| "glob (c # p) v \<longleftrightarrow>
     (if c = CHR ''*'' then glob p v \<or> (case v of [] \<Rightarrow> False | _ # v' \<Rightarrow> glob (c # p) v')
      else (case v of [] \<Rightarrow> False | x # v' \<Rightarrow> (c = CHR ''?'' \<or> c = x) \<and> glob p v'))"

lemma glob_star_drop: "glob (CHR ''*'' # p) v \<longleftrightarrow> (\<exists>k \<le> length v. glob p (drop k v))"
proof (induction v)
  case Nil
  then show ?case by simp
next
  case (Cons x v)
  have "glob (CHR ''*'' # p) (x # v) \<longleftrightarrow> glob p (x # v) \<or> (\<exists>k \<le> length v. glob p (drop k v))"
    using Cons by simp
  also have "\<dots> \<longleftrightarrow> (\<exists>k \<le> length (x # v). glob p (drop k (x # v)))"
    by (metis (no_types, lifting) Suc_le_mono drop0 drop_Suc_Cons le0 length_Cons not0_implies_Suc)
  finally show ?case .
qed

lemma glob_star_mono:
  assumes "j \<le> k" and "glob (CHR ''*'' # p) (drop k v)"
  shows "glob (CHR ''*'' # p) (drop j v)"
proof -
  obtain i where i: "i \<le> length (drop k v)" "glob p (drop (i + k) v)"
    using assms(2) unfolding glob_star_drop by auto
  show ?thesis
  proof (cases "k \<le> length v")
    case True
    with i assms(1) have "i + k - j \<le> length (drop j v)" "drop (i + k - j) (drop j v) = drop (i + k) v"
      by auto
    with i show ?thesis unfolding glob_star_drop by metis
  next
    case False
    then have "glob p (drop (length v - j) (drop j v))" using i assms(1) by (cases "j \<le> length v") auto
    then show ?thesis unfolding glob_star_drop by (metis diff_le_self length_drop le_refl)
  qed
qed

lemma glob_Nil_right: "glob p [] \<longleftrightarrow> dropWhile (\<lambda>c. c = CHR ''*'') p = []"
  by (induction p) auto

text \<open>A segment without a star uses up exactly its length.\<close>

lemma glob_segment:
  assumes "CHR ''*'' \<notin> set seg" and "glob (seg @ q) v"
  shows "length seg \<le> length v \<and> glob q (drop (length seg) v)"
  using assms by (induction seg arbitrary: v) (auto split: list.splits)

section \<open>The loop against the reference\<close>

text \<open>
  What a state of the loop still has to find: the rest of the pattern on the rest of the value,
  or, when a star was passed, the pattern after it at a later place than the last resume.
\<close>

definition loop_meaning :: "gostring \<Rightarrow> gostring \<Rightarrow> nat \<Rightarrow> nat \<Rightarrow> int \<Rightarrow> nat \<Rightarrow> bool" where
  "loop_meaning p v pi vi star resume \<longleftrightarrow>
     glob (drop pi p) (drop vi v) \<or>
     (star \<ge> 0 \<and> (\<exists>k > resume. k \<le> length v \<and> glob (drop (nat star + 1) p) (drop k v)))"

text \<open>The loop's invariant: since the last star the pattern and the value moved in step.\<close>

definition loop_inv :: "gostring \<Rightarrow> gostring \<Rightarrow> nat \<Rightarrow> nat \<Rightarrow> int \<Rightarrow> nat \<Rightarrow> bool" where
  "loop_inv p v pi vi star resume \<longleftrightarrow> vi \<le> length v \<and> pi \<le> length p \<and>
     (star \<ge> 0 \<longrightarrow> star < int pi \<and> nat star < length p \<and> p ! nat star = CHR ''*'' \<and> resume \<le> vi \<and>
        vi - resume = pi - nat star - 1 \<and> CHR ''*'' \<notin> set (take (pi - nat star - 1) (drop (nat star + 1) p)))"

lemma loop_meaning_resume:
  assumes "star \<ge> 0" and "resume < length v"
  shows "loop_meaning p v (nat star + 1) (resume + 1) star (resume + 1) \<longleftrightarrow>
    (\<exists>k > resume. k \<le> length v \<and> glob (drop (nat star + 1) p) (drop k v))" (is "_ \<longleftrightarrow> ?R")
proof
  assume "loop_meaning p v (nat star + 1) (resume + 1) star (resume + 1)"
  then show ?R using assms unfolding loop_meaning_def
    by (metis Suc_eq_plus1 Suc_leI Suc_lessD lessI)
next
  assume ?R
  then show "loop_meaning p v (nat star + 1) (resume + 1) star (resume + 1)"
    using assms unfolding loop_meaning_def by (metis Suc_eq_plus1 Suc_lessI)
qed

lemma loop_meaning_star:
  assumes "p ! pi = CHR ''*''" and "pi < length p" and "vi < length v"
  shows "loop_meaning p v (pi + 1) vi (int pi) vi \<longleftrightarrow> glob (drop pi p) (drop vi v)" (is "?L \<longleftrightarrow> ?R")
proof -
  have d: "drop pi p = CHR ''*'' # drop (pi + 1) p" using assms by (simp add: drop_at)
  have "?R \<longleftrightarrow> (\<exists>k \<le> length v - vi. glob (drop (pi + 1) p) (drop (k + vi) v))"
    unfolding d glob_star_drop by simp
  also have "\<dots> \<longleftrightarrow> (\<exists>k \<ge> vi. k \<le> length v \<and> glob (drop (pi + 1) p) (drop k v))"
    using assms(3) by (intro ex_shift) simp
  also have "\<dots> \<longleftrightarrow> ?L" using assms(3) unfolding loop_meaning_def
    by (auto simp: le_less)
  finally show ?thesis by simp
qed

lemma loop_meaning_match:
  assumes "pi < length p" and "vi < length v" and "p ! pi = CHR ''?'' \<or> p ! pi = v ! vi"
    and "p ! pi \<noteq> CHR ''*''"
  shows "loop_meaning p v pi vi star resume \<longleftrightarrow> loop_meaning p v (pi + 1) (vi + 1) star resume"
  using assms by (auto simp: loop_meaning_def drop_at)

lemma loop_star_forgets:
  assumes inv: "loop_inv p v pi vi star resume" and star: "star \<ge> 0" and pi: "pi < length p"
    and here: "p ! pi = CHR ''*''" and k: "resume < k" and m: "glob (drop (nat star + 1) p) (drop k v)"
  shows "glob (drop pi p) (drop vi v)"
proof -
  define n where "n = pi - nat star - 1"
  define seg where "seg = take n (drop (nat star + 1) p)"
  have n: "vi - resume = n" "resume \<le> vi" "nat star + 1 + n = pi" and clean: "CHR ''*'' \<notin> set seg"
    using inv star by (auto simp: loop_inv_def n_def seg_def)
  have rest: "drop pi p = CHR ''*'' # drop (pi + 1) p" using pi here by (simp add: drop_at)
  have split: "drop (nat star + 1) p = seg @ drop pi p"
    using n(3) by (metis append_take_drop_id drop_drop add.commute seg_def)
  have len: "length seg = n" using n(3) pi by (simp add: seg_def)
  from m clean have "glob (drop pi p) (drop (n + k) v)"
    unfolding split using glob_segment [of seg "drop pi p" "drop k v"] by (simp add: len add.commute)
  then show ?thesis using n k unfolding rest by (intro glob_star_mono [of vi "n + k"]) auto
qed

lemma loop_inv_match:
  assumes "loop_inv p v pi vi star resume" and "pi < length p" and "vi < length v" and "p ! pi \<noteq> CHR ''*''"
  shows "loop_inv p v (pi + 1) (vi + 1) star resume"
proof (cases "star \<ge> 0")
  case True
  define n where "n = pi - nat star - 1"
  have n: "star < int pi" "vi - resume = n" "resume \<le> vi" "nat star + 1 + n = pi"
    "CHR ''*'' \<notin> set (take n (drop (nat star + 1) p))"
    using assms(1) True by (auto simp: loop_inv_def n_def)
  have "take (Suc n) (drop (nat star + 1) p) = take n (drop (nat star + 1) p) @ [p ! pi]"
    using n(4) assms(2) by (simp add: take_Suc_conv_app_nth)
  moreover have "pi + 1 - nat star - 1 = Suc n" using n(4) by simp
  ultimately show ?thesis using assms n True by (simp add: loop_inv_def Suc_diff_le)
next
  case False
  then show ?thesis using assms by (simp add: loop_inv_def)
qed

lemma loop_inv_star:
  assumes "pi < length p" and "vi < length v" and "p ! pi = CHR ''*''"
  shows "loop_inv p v (pi + 1) vi (int pi) vi"
  using assms by (simp add: loop_inv_def)

lemma loop_inv_resume:
  assumes "loop_inv p v pi vi star resume" and "vi < length v" and "star \<ge> 0"
  shows "loop_inv p v (nat star + 1) (resume + 1) star (resume + 1)"
  using assms by (auto simp: loop_inv_def)

lemma loop_meaning_end:
  assumes inv: "loop_inv p v pi vi star resume" and vi: "vi = length v"
  shows "loop_meaning p v pi vi star resume \<longleftrightarrow> dropWhile (\<lambda>c. c = CHR ''*'') (drop pi p) = []"
proof -
  have "\<not> glob (drop (nat star + 1) p) (drop k v)" if "star \<ge> 0" "resume < k" "k \<le> length v" for k
  proof
    define n where "n = pi - nat star - 1"
    define seg where "seg = take n (drop (nat star + 1) p)"
    have n: "vi - resume = n" "nat star + 1 + n = pi" "pi \<le> length p" and clean: "CHR ''*'' \<notin> set seg"
      using inv that by (auto simp: loop_inv_def n_def seg_def)
    assume "glob (drop (nat star + 1) p) (drop k v)"
    then have "glob (seg @ drop n (drop (nat star + 1) p)) (drop k v)"
      unfolding seg_def append_take_drop_id .
    then have "length seg \<le> length (drop k v)" using glob_segment [OF clean] by blast
    then show False using n that vi by (simp add: seg_def)
  qed
  then show ?thesis using vi by (auto simp: loop_meaning_def glob_Nil_right)
qed

text \<open>
  Every state whose value has no star in it decides exactly what is left to find.
\<close>

lemma pattern_loop_exact:
  assumes "CHR ''*'' \<notin> set v" and "loop_inv p v pi vi star resume"
  shows "pattern_loop p v pi vi star resume \<longleftrightarrow> loop_meaning p v pi vi star resume"
  using assms
proof (induction p v pi vi star resume rule: pattern_loop.induct)
  case (1 p v pi vi star resume)
  note simps = pattern_loop.simps [of p v pi vi star resume]
  have nostar: "vi < length v \<Longrightarrow> v ! vi \<noteq> CHR ''*''" using "1.prems"(1) by (metis nth_mem)
  consider (stop) "\<not> vi < length v"
    | (m) "vi < length v" "pi < length p" "p ! pi = CHR ''?'' \<or> p ! pi = v ! vi" "p ! pi \<noteq> CHR ''*''"
    | (s) "vi < length v" "pi < length p" "p ! pi = CHR ''*''" "p ! pi \<noteq> v ! vi"
    | (r) "vi < length v" "\<not> (pi < length p \<and> (p ! pi = CHR ''?'' \<or> p ! pi = v ! vi \<or> p ! pi = CHR ''*''))" "star \<ge> 0"
    | (f) "vi < length v" "\<not> (pi < length p \<and> (p ! pi = CHR ''?'' \<or> p ! pi = v ! vi \<or> p ! pi = CHR ''*''))" "star < 0"
    using nostar by (cases "vi < length v"; cases "p ! pi = CHR ''*''"; cases "star \<ge> 0") (auto dest: not_sym)
  then show ?case
  proof cases
    case stop
    then have "vi = length v" using "1.prems" by (simp add: loop_inv_def)
    then show ?thesis using "1.prems" loop_meaning_end [of p v pi vi star resume] simps by simp
  next
    case m
    then show ?thesis using "1.IH"(1) "1.prems"(1) simps loop_inv_match [OF "1.prems"(2) m(2,1,4)]
        loop_meaning_match [OF m(2,1,3,4), of star resume] by simp
  next
    case s
    have "loop_meaning p v pi vi star resume \<longleftrightarrow> glob (drop pi p) (drop vi v)"
      using s loop_star_forgets [OF "1.prems"(2) _ s(2,3)] by (auto simp: loop_meaning_def)
    then show ?thesis using s "1.IH"(2) "1.prems" simps loop_inv_star [of pi p vi v]
      loop_meaning_star [of p pi vi v] by simp
  next
    case r
    have "\<not> glob (drop pi p) (drop vi v)" using r(1,2)
      by (cases "pi < length p") (auto simp: drop_at)
    moreover have "resume < length v" using "1.prems"(2) r by (auto simp: loop_inv_def)
    ultimately have "loop_meaning p v pi vi star resume \<longleftrightarrow>
        loop_meaning p v (nat star + 1) (resume + 1) star (resume + 1)"
      using r(3) loop_meaning_resume [of star resume v p] by (auto simp: loop_meaning_def)
    then show ?thesis using r "1.IH"(3) "1.prems" simps loop_inv_resume [of p v pi vi star resume] by auto
  next
    case f
    then have "\<not> glob (drop pi p) (drop vi v)"
      by (cases "pi < length p") (auto simp: drop_at)
    with f show ?thesis using simps by (auto simp: loop_meaning_def)
  qed
qed

text \<open>
  Whatever the loop accepts the reference accepts, for values with a star as well: there the
  loop only finds less, because a star of the pattern is first tried as a literal byte.
\<close>

lemma pattern_loop_sound:
  "pattern_loop p v pi vi star resume \<Longrightarrow> vi \<le> length v \<Longrightarrow> resume \<le> vi \<Longrightarrow>
   star < int pi \<Longrightarrow> (star \<ge> 0 \<Longrightarrow> nat star < length p \<and> p ! nat star = CHR ''*'') \<Longrightarrow>
   glob (drop pi p) (drop vi v) \<or>
   (star \<ge> 0 \<and> glob (drop (nat star) p) (drop resume v))"
proof (induction p v pi vi star resume rule: pattern_loop.induct)
  case (1 p v pi vi star resume)
  note simps = pattern_loop.simps [of p v pi vi star resume]
  consider (stop) "\<not> vi < length v"
    | (m) "vi < length v" "pi < length p" "p ! pi = CHR ''?'' \<or> p ! pi = v ! vi"
    | (s) "vi < length v" "pi < length p" "\<not> (p ! pi = CHR ''?'' \<or> p ! pi = v ! vi)" "p ! pi = CHR ''*''"
    | (r) "vi < length v" "\<not> (pi < length p \<and> (p ! pi = CHR ''?'' \<or> p ! pi = v ! vi \<or> p ! pi = CHR ''*''))"
    by blast
  then show ?case
  proof cases
    case stop
    then show ?thesis using "1.prems" simps by (simp add: glob_Nil_right)
  next
    case m
    then have "glob (drop (pi + 1) p) (drop (vi + 1) v) \<or> (star \<ge> 0 \<and> glob (drop (nat star) p) (drop resume v))"
      using "1.IH"(1) "1.prems" simps by simp
    moreover have "glob (drop pi p) (drop vi v)" if "glob (drop (pi + 1) p) (drop (vi + 1) v)"
    proof (cases "p ! pi = CHR ''*''")
      case True
      have "glob (CHR ''*'' # drop (pi + 1) p) (drop (vi + 1) v)" using that by simp
      then have "glob (CHR ''*'' # drop (pi + 1) p) (drop vi v)" by (rule glob_star_mono [rotated]) simp
      then show ?thesis using True m(2) by (simp add: drop_at [of pi p] del: glob.simps)
    next
      case False
      then show ?thesis using that m by (simp add: drop_at)
    qed
    ultimately show ?thesis by blast
  next
    case s
    then have "glob (drop (pi + 1) p) (drop vi v) \<or> glob (drop pi p) (drop vi v)"
      using "1.IH"(2) "1.prems" simps by simp
    then show ?thesis using s by (auto simp: drop_at [of pi p])
  next
    case r
    then have star: "star \<ge> 0" using "1.prems" simps by (auto split: if_splits)
    with r "1.prems" have res: "resume < length v" "drop (nat star) p = CHR ''*'' # drop (nat star + 1) p"
      by (auto simp: drop_at)
    from r star have "glob (drop (nat star + 1) p) (drop (resume + 1) v) \<or>
        glob (drop (nat star) p) (drop (resume + 1) v)"
      using "1.IH"(3) "1.prems" simps res by auto
    then have "glob (drop (nat star) p) (drop (resume + 1) v)" unfolding res by auto
    then show ?thesis using star glob_star_mono [of resume "resume + 1"] unfolding res by simp
  qed
qed

lemma Pattern_glob: "CHR ''*'' \<notin> set v \<Longrightarrow> Pattern p v \<longleftrightarrow> glob p v"
  by (simp add: Pattern_def pattern_loop_exact loop_inv_def loop_meaning_def)

lemma Pattern_sound: "Pattern p v \<Longrightarrow> glob p v"
  using pattern_loop_sound [of p v 0 0 "- 1" 0] by (simp add: Pattern_def)

section \<open>PatternList\<close>

datatype Case = CaseSensitive | IgnoreCase

definition fold_case :: "Case \<Rightarrow> gostring \<Rightarrow> gostring" where
  "fold_case sensitivity s = (if sensitivity = IgnoreCase then LowerASCII s else s)"

text \<open>The loop over the patterns, with its accumulator \<open>matched\<close>; \<open>value\<close> is already folded.\<close>

fun pattern_list_loop :: "Case \<Rightarrow> gostring \<Rightarrow> gostring list \<Rightarrow> bool \<Rightarrow> bool" where
  "pattern_list_loop sensitivity v [] matched = matched"
| "pattern_list_loop sensitivity v (q # qs) matched =
     (let pattern = fold_case sensitivity q
      in if has_prefix pattern ''!'' then
           (if Pattern (drop 1 pattern) v then False else pattern_list_loop sensitivity v qs matched)
         else if pattern \<noteq> [] \<and> Pattern pattern v
         then pattern_list_loop sensitivity v qs True
         else pattern_list_loop sensitivity v qs matched)"

definition PatternList :: "gostring list \<Rightarrow> gostring \<Rightarrow> Case \<Rightarrow> bool" where
  "PatternList patterns v sensitivity = pattern_list_loop sensitivity (fold_case sensitivity v) patterns False"

section \<open>Lists of patterns in which some are negated\<close>

text \<open>
  The contract of a list of patterns that several parts of the program read (a Host line, the
  host field of known_hosts, IgnoreUnknown, a Match criterion): one hit of a negated pattern
  refuses the value, otherwise one hit of a plain pattern accepts it.
\<close>

locale negatable_patterns =
  fixes decide :: "'p list \<Rightarrow> 'v \<Rightarrow> bool"
    and accepts :: "'p \<Rightarrow> 'v \<Rightarrow> bool"
    and refuses :: "'p \<Rightarrow> 'v \<Rightarrow> bool"
  assumes decide_iff: "decide ps v \<longleftrightarrow> (\<forall>p \<in> set ps. \<not> refuses p v) \<and> (\<exists>p \<in> set ps. accepts p v)"
begin

lemma order_irrelevant: "set ps = set qs \<Longrightarrow> decide ps v = decide qs v"
  by (simp add: decide_iff)

lemma refusal_wins: "p \<in> set ps \<Longrightarrow> refuses p v \<Longrightarrow> \<not> decide ps v"
  by (auto simp: decide_iff)

lemma empty_refuses: "\<not> decide [] v"
  by (simp add: decide_iff)

lemma decide_append:
  "decide (ps @ qs) v \<longleftrightarrow> (decide ps v \<and> (\<forall>q \<in> set qs. \<not> refuses q v)) \<or>
     (decide qs v \<and> (\<forall>p \<in> set ps. \<not> refuses p v))"
  by (auto simp: decide_iff)

lemma only_refusals: "(\<And>p. p \<in> set ps \<Longrightarrow> \<not> accepts p v) \<Longrightarrow> \<not> decide ps v"
  by (auto simp: decide_iff)

end

definition list_accepts :: "Case \<Rightarrow> gostring \<Rightarrow> gostring \<Rightarrow> bool" where
  "list_accepts sensitivity q v \<longleftrightarrow>
     q \<noteq> [] \<and> \<not> has_prefix q ''!'' \<and> Pattern (fold_case sensitivity q) (fold_case sensitivity v)"

definition list_refuses :: "Case \<Rightarrow> gostring \<Rightarrow> gostring \<Rightarrow> bool" where
  "list_refuses sensitivity q v \<longleftrightarrow>
     has_prefix q ''!'' \<and> Pattern (fold_case sensitivity (drop 1 q)) (fold_case sensitivity v)"

lemma lower_byte_eq_iff:
  assumes "code_of d < 65 \<or> (90 < code_of d \<and> code_of d < 97) \<or> 122 < code_of d"
  shows "lower_byte c = d \<longleftrightarrow> c = d"
proof (cases "is_upper_ascii c")
  case True
  then have "97 \<le> code_of (lower_byte c)" "code_of (lower_byte c) \<le> 122"
    by (auto simp: lower_byte_def is_upper_ascii_def code_of_def)
  then have "lower_byte c \<noteq> d" using assms by auto
  moreover have "c \<noteq> d" using True assms by (auto simp: is_upper_ascii_def)
  ultimately show ?thesis by simp
qed simp

lemma lower_byte_bang: "lower_byte c = CHR ''!'' \<longleftrightarrow> c = CHR ''!''"
  and lower_byte_star: "lower_byte c = CHR ''*'' \<longleftrightarrow> c = CHR ''*''"
  by (auto simp: lower_byte_eq_iff code_of_def)

lemma fold_case_bang: "has_prefix (fold_case sensitivity q) ''!'' = has_prefix q ''!''"
  by (cases q) (simp_all add: fold_case_def LowerASCII_map lower_byte_bang)

lemma fold_case_star: "CHR ''*'' \<in> set (fold_case sensitivity v) \<longleftrightarrow> CHR ''*'' \<in> set v"
proof (cases sensitivity)
  case IgnoreCase
  have "CHR ''*'' \<in> lower_byte ` set v \<longleftrightarrow> CHR ''*'' \<in> set v" by (metis imageE image_eqI lower_byte_star)
  then show ?thesis by (simp add: fold_case_def LowerASCII_map IgnoreCase)
qed (simp add: fold_case_def)

lemma fold_case_drop: "drop n (fold_case sensitivity q) = fold_case sensitivity (drop n q)"
  by (simp add: fold_case_def LowerASCII_map drop_map)

lemma fold_case_ignore: "fold_case IgnoreCase = LowerASCII"
  by (rule ext) (simp add: fold_case_def)

lemma fold_case_Nil [simp]: "fold_case sensitivity q = [] \<longleftrightarrow> q = []"
  by (simp add: fold_case_def LowerASCII_map)

lemma fold_case_idem [simp]: "fold_case sensitivity (fold_case sensitivity q) = fold_case sensitivity q"
  by (simp add: fold_case_def)

lemma pattern_list_loop_iff:
  "pattern_list_loop sensitivity (fold_case sensitivity v) qs matched \<longleftrightarrow>
     (\<forall>q \<in> set qs. \<not> list_refuses sensitivity q v) \<and>
     (matched \<or> (\<exists>q \<in> set qs. list_accepts sensitivity q v))"
  by (induction qs arbitrary: matched)
    (auto simp: Let_def list_accepts_def list_refuses_def fold_case_bang fold_case_drop)

lemma PatternList_iff:
  "PatternList qs v sensitivity \<longleftrightarrow>
     (\<forall>q \<in> set qs. \<not> list_refuses sensitivity q v) \<and> (\<exists>q \<in> set qs. list_accepts sensitivity q v)"
  by (simp add: PatternList_def pattern_list_loop_iff)

interpretation pl: negatable_patterns "\<lambda>qs v. PatternList qs v sensitivity"
  "list_accepts sensitivity" "list_refuses sensitivity" for sensitivity
  by unfold_locales (rule PatternList_iff)

lemma PatternList_fold_case:
  "PatternList (map (fold_case sensitivity) qs) (fold_case sensitivity v) sensitivity = PatternList qs v sensitivity"
  by (auto simp: PatternList_iff list_accepts_def list_refuses_def fold_case_bang fold_case_drop)

section \<open>Properties\<close>

text \<open>
  C9. On a value without a star the four-variable loop of \<open>Pattern\<close>, which remembers only the
  last star it passed, decides exactly the wildcard match of the doc comment: a star stands for
  any sequence, a question mark for one byte.
\<close>

theorem Pattern_exact:
  assumes "CHR ''*'' \<notin> set v"
  shows "Pattern p v \<longleftrightarrow> glob p v"
  using assms by (rule Pattern_glob)

theorem Pattern_exact_witness: "Pattern ''a*b?'' ''axbxbc'' \<longleftrightarrow> glob ''a*b?'' ''axbxbc''"
  by (rule Pattern_exact) simp

text \<open>
  For any value at all the loop accepts only what the reference accepts, but it is not
  complete: the pattern \<open>*\<close> refuses every value of two bytes or more that starts with a star,
  because the byte comparison stands before the test for the wildcard.
\<close>

theorem Pattern_sound_incomplete:
  "(Pattern p v \<longrightarrow> glob p v) \<and>
   \<not> Pattern ''*'' (CHR ''*'' # x # xs) \<and> glob ''*'' (CHR ''*'' # x # xs)"
proof -
  have "glob ''*'' ys" for ys by (induction ys) auto
  then show ?thesis by (auto simp: Pattern_sound) (simp add: Pattern_def pattern_loop.simps)
qed

theorem Pattern_sound_incomplete_witness: "glob ''a*'' ''ab'' \<and> \<not> Pattern ''*'' ''*a''"
proof -
  have "Pattern ''a*'' ''ab''" by (simp add: Pattern_def pattern_loop.simps)
  with Pattern_sound_incomplete [of "''a*''" "''ab''" "CHR ''a''" "[]"] show ?thesis by blast
qed

text \<open>
  C24. A pattern list accepts a star-free value exactly when no pattern behind a \<open>!\<close> matches it
  and some non-empty plain pattern does, up to ASCII case when asked; so neither the order of the
  patterns nor the spelling of the letters matters.
\<close>

theorem PatternList_correct:
  assumes "CHR ''*'' \<notin> set v" and "set qs = set qs'"
  shows "(PatternList qs v sensitivity \<longleftrightarrow>
      (\<forall>q \<in> set qs. \<not> (has_prefix q ''!'' \<and> glob (fold_case sensitivity (drop 1 q)) (fold_case sensitivity v))) \<and>
      (\<exists>q \<in> set qs. q \<noteq> [] \<and> \<not> has_prefix q ''!'' \<and> glob (fold_case sensitivity q) (fold_case sensitivity v))) \<and>
    PatternList qs v sensitivity = PatternList qs' v sensitivity \<and>
    PatternList (map LowerASCII qs) (LowerASCII v) IgnoreCase = PatternList qs v IgnoreCase"
proof (intro conjI)
  have "CHR ''*'' \<notin> set (fold_case sensitivity v)" using assms(1) by (simp add: fold_case_star)
  then show "PatternList qs v sensitivity \<longleftrightarrow>
      (\<forall>q \<in> set qs. \<not> (has_prefix q ''!'' \<and> glob (fold_case sensitivity (drop 1 q)) (fold_case sensitivity v))) \<and>
      (\<exists>q \<in> set qs. q \<noteq> [] \<and> \<not> has_prefix q ''!'' \<and> glob (fold_case sensitivity q) (fold_case sensitivity v))"
    by (auto simp: PatternList_iff list_accepts_def list_refuses_def Pattern_glob)
  show "PatternList qs v sensitivity = PatternList qs' v sensitivity"
    using assms(2) by (rule pl.order_irrelevant)
  show "PatternList (map LowerASCII qs) (LowerASCII v) IgnoreCase = PatternList qs v IgnoreCase"
    using PatternList_fold_case [of IgnoreCase] by (simp add: fold_case_ignore)
qed

theorem PatternList_correct_witness:
  "PatternList [''!*.EXAMPLE'', ''*''] ''db.local'' IgnoreCase \<and>
   \<not> PatternList [''!*.EXAMPLE'', ''*''] ''db.example'' IgnoreCase"
  using PatternList_correct [of "''db.local''" "[''!*.EXAMPLE'', ''*'']" _ IgnoreCase, OF _ refl]
    PatternList_correct [of "''db.example''" "[''!*.EXAMPLE'', ''*'']" _ IgnoreCase, OF _ refl]
  by (simp add: fold_case_def lower_byte_def is_upper_ascii_def code_of_def has_prefix_def char_of_def bit_0)

end
