(* ===== verification/ConfigSyntax.thy ===== *)
theory ConfigSyntax
  imports Sshmatch
begin

text \<open>
  The lossless syntax of ssh_config files, after internal/config: the argument splitter and the
  quoting of token.go, the line and file parser of line.go and parse.go, the Host and Match blocks
  and the comments attached to them of block.go.

  Where the Go code moves an index through a string, the model passes the rest of the string on:
  the byte count a reader returns stands for the end index.
\<close>

section \<open>Arguments\<close>

record Argument =
  argLead :: gostring
  argRaw :: gostring
  argValue :: gostring

definition isSpace :: "char \<Rightarrow> bool" where
  "isSpace c \<longleftrightarrow> c = SP \<or> c = TAB"

text \<open>\<open>None\<close> is the quote byte 0, outside of any quotation.\<close>

definition isEscaped :: "char \<Rightarrow> char option \<Rightarrow> bool" where
  "isEscaped c quote \<longleftrightarrow> (if c = SQUOTE \<or> c = DQUOTE \<or> c = BACKSLASH then True
     else if c = SP then quote = None else False)"

text \<open>The guards of the reader's \<open>switch\<close>, in its order.\<close>

definition escapes :: "char \<Rightarrow> gostring \<Rightarrow> char option \<Rightarrow> bool" where
  "escapes c cs quote \<longleftrightarrow> c = BACKSLASH \<and> (case cs of [] \<Rightarrow> False | d # _ \<Rightarrow> isEscaped d quote)"

definition breaks :: "char \<Rightarrow> char option \<Rightarrow> bool" where
  "breaks c quote \<longleftrightarrow> quote = None \<and> isSpace c"

definition opens :: "char \<Rightarrow> char option \<Rightarrow> bool" where
  "opens c quote \<longleftrightarrow> quote = None \<and> (c = DQUOTE \<or> c = SQUOTE)"

text \<open>One word: its value without quotes and escapes, the bytes it takes, and whether it closed.\<close>

function readWord :: "gostring \<Rightarrow> char option \<Rightarrow> gostring \<times> nat \<times> bool" where
  "readWord [] quote = ([], 0, quote = None)"
| "readWord (c # cs) quote =
     (if escapes c cs quote then
        (case readWord (tl cs) quote of (v, n, closed) \<Rightarrow> (hd cs # v, n + 2, closed))
      else if breaks c quote then ([], 0, True)
      else if opens c quote then
        (case readWord cs (Some c) of (v, n, closed) \<Rightarrow> (v, n + 1, closed))
      else if quote = Some c then
        (case readWord cs None of (v, n, closed) \<Rightarrow> (v, n + 1, closed))
      else (case readWord cs quote of (v, n, closed) \<Rightarrow> (c # v, n + 1, closed)))"
  by pat_completeness auto
termination
  by (relation "measure (\<lambda>(s, quote). length s)") auto

lemma escapes_nonempty: "escapes c cs quote \<Longrightarrow> 0 < length cs"
  by (cases cs) (auto simp: escapes_def)

lemma readWord_bound: "fst (snd (readWord s quote)) \<le> length s"
proof (induction s quote rule: readWord.induct)
  case (2 c cs quote)
  consider (escape) "escapes c cs quote" | (brk) "\<not> escapes c cs quote" "breaks c quote"
    | (opn) "\<not> escapes c cs quote" "\<not> breaks c quote" "opens c quote"
    | (cls) "\<not> escapes c cs quote" "\<not> breaks c quote" "\<not> opens c quote" "quote = Some c"
    | (plain) "\<not> escapes c cs quote" "\<not> breaks c quote" "\<not> opens c quote" "quote \<noteq> Some c"
    by blast
  then show ?case
  proof cases
    case escape
    then show ?thesis using "2.IH"(1) escapes_nonempty [OF escape] by (cases cs) (auto simp: case_prod_unfold)
  next
    case brk
    then show ?thesis by simp
  next
    case opn
    then show ?thesis using "2.IH"(2) by (simp add: case_prod_unfold)
  next
    case cls
    then show ?thesis using "2.IH"(3) by (simp add: case_prod_unfold)
  next
    case plain
    then show ?thesis using "2.IH"(4) by (simp add: case_prod_unfold)
  qed
qed simp

lemma readWord_progress:
  "readWord (c # cs) None = (v, n, closed) \<Longrightarrow> \<not> isSpace c \<Longrightarrow> 0 < n"
  by (auto simp: breaks_def split: prod.splits if_splits)

function splitArguments :: "gostring \<Rightarrow> (Argument list \<times> gostring) option" where
  "splitArguments input =
     (let lead = takeWhile isSpace input; rest = dropWhile isSpace input in
      case rest of
        [] \<Rightarrow> Some ([], lead)
      | c # _ \<Rightarrow>
          (if c = CHR ''#'' then
             (let comment = trim_right isSpace rest
              in Some ([\<lparr>argLead = lead, argRaw = comment, argValue = comment\<rparr>], right_run isSpace rest))
           else (case readWord rest None of (v, n, closed) \<Rightarrow>
             (if \<not> closed then None
              else (case splitArguments (drop n rest) of
                      None \<Rightarrow> None
                    | Some (arguments, trailing) \<Rightarrow>
                        Some (\<lparr>argLead = lead, argRaw = take n rest, argValue = v\<rparr> # arguments, trailing))))))"
  by pat_completeness auto
termination
proof (relation "measure length", goal_cases)
  case (2 input lead rest c cs v y n closed)
  have "\<not> isSpace c" using 2(2,3) by (metis dropWhile_hd)
  then have "0 < n" using 2(3,5-6) readWord_progress by metis
  then have "length (drop n rest) < length rest" using 2(3) by simp
  also have "\<dots> \<le> length input" unfolding 2(2) by (rule length_dropWhile_le)
  finally show ?case by simp
qed simp

declare splitArguments.simps [simp del]

section \<open>Writing a value as an argument\<close>

datatype config_error = ErrUnquotableValue

definition needsQuoting :: "gostring \<Rightarrow> bool" where
  "needsQuoting v \<longleftrightarrow> v = [] \<or> contains_any v [SP, TAB, DQUOTE, SQUOTE] \<or> has_prefix v ''#'' \<or>
     has_prefix v ''='' \<or> has_suffix v [BACKSLASH] \<or> contains v [BACKSLASH, BACKSLASH]"

definition must_double :: "gostring \<Rightarrow> bool" where
  "must_double cs \<longleftrightarrow> (case cs of [] \<Rightarrow> True | d # _ \<Rightarrow> d = BACKSLASH \<or> d = DQUOTE \<or> d = SQUOTE)"

fun quote_bytes :: "gostring \<Rightarrow> gostring" where
  "quote_bytes [] = []"
| "quote_bytes (c # cs) =
     (if c = DQUOTE then BACKSLASH # DQUOTE # quote_bytes cs
      else if c = BACKSLASH \<and> must_double cs then BACKSLASH # BACKSLASH # quote_bytes cs
      else c # quote_bytes cs)"

definition quoteArgument :: "gostring \<Rightarrow> gostring" where
  "quoteArgument v = DQUOTE # quote_bytes v @ [DQUOTE]"

definition RenderArgument :: "gostring \<Rightarrow> gostring \<Rightarrow> config_error + Argument" where
  "RenderArgument lead v =
     (if contains_any v [LF, CR, NUL] then Inl ErrUnquotableValue
      else Inr \<lparr>argLead = lead, argRaw = (if needsQuoting v then quoteArgument v else v), argValue = v\<rparr>)"

section \<open>Lines\<close>

datatype LineKind = LineBlank | LineComment | LineDirective | LineUnstructured

record Line =
  lineKind :: LineKind
  lineText :: gostring
  lineIndent :: gostring
  lineKeyword :: gostring
  lineSeparator :: gostring
  lineArguments :: "Argument list"
  lineTrailing :: gostring
  lineEnding :: gostring

text \<open>A composite literal that names only some fields leaves the others at their zero value.\<close>

definition verbatim_line :: "LineKind \<Rightarrow> gostring \<Rightarrow> gostring \<Rightarrow> Line" where
  "verbatim_line kind text ending = \<lparr>lineKind = kind, lineText = text, lineIndent = [], lineKeyword = [],
     lineSeparator = [], lineArguments = [], lineTrailing = [], lineEnding = ending\<rparr>"

definition RenderLine :: "Line \<Rightarrow> gostring" where
  "RenderLine l =
     (if lineKind l \<noteq> LineDirective then lineText l @ lineEnding l
      else lineIndent l @ lineKeyword l @ lineSeparator l @
        concat (map (\<lambda>a. argLead a @ argRaw a) (lineArguments l)) @ lineTrailing l @ lineEnding l)"

text \<open>\<open>Values\<close> returns nil both for no directive and for no value before a comment.\<close>

definition Values :: "Line \<Rightarrow> gostring list" where
  "Values l =
     (if lineKind l \<noteq> LineDirective then []
      else map argValue (takeWhile (\<lambda>a. \<not> has_prefix (argRaw a) ''#'') (lineArguments l)))"

definition is_keyword_byte :: "char \<Rightarrow> bool" where
  "is_keyword_byte c \<longleftrightarrow> \<not> isSpace c \<and> c \<noteq> CHR ''='' \<and> c \<noteq> DQUOTE"

text \<open>The blanks after the keyword, with at most one equals sign among them.\<close>

definition read_separator :: "gostring \<Rightarrow> gostring" where
  "read_separator s =
     (let blanks = takeWhile isSpace s; rest = dropWhile isSpace s in
      case rest of
        c # cs \<Rightarrow> if c = CHR ''='' then blanks @ c # takeWhile isSpace cs else blanks
      | [] \<Rightarrow> blanks)"

definition parseLine :: "gostring \<Rightarrow> gostring \<Rightarrow> Line" where
  "parseLine content ending =
     (let indent = takeWhile isSpace content; body = dropWhile isSpace content in
      if body = [] then verbatim_line LineBlank content ending
      else if hd body = CHR ''#'' then verbatim_line LineComment content ending
      else
        let keyword = takeWhile is_keyword_byte body; rest = dropWhile is_keyword_byte body in
        if keyword = [] then verbatim_line LineUnstructured content ending
        else
          let separator = read_separator rest in
          (case splitArguments (drop (length separator) rest) of
             None \<Rightarrow> verbatim_line LineUnstructured content ending
           | Some (arguments, trailing) \<Rightarrow>
               \<lparr>lineKind = LineDirective, lineText = [], lineIndent = indent, lineKeyword = keyword,
                lineSeparator = separator, lineArguments = arguments, lineTrailing = trailing,
                lineEnding = ending\<rparr>))"

section \<open>Files\<close>

definition splitLine :: "gostring \<Rightarrow> gostring \<times> gostring \<times> gostring" where
  "splitLine text =
     (case dropWhile (\<lambda>c. c \<noteq> LF) text of
        [] \<Rightarrow> (text, [], [])
      | _ # rest \<Rightarrow>
          (let content = takeWhile (\<lambda>c. c \<noteq> LF) text in
           if has_suffix content [CR] then (take (length content - 1) content, [CR, LF], rest)
           else (content, [LF], rest)))"

function Parse :: "gostring \<Rightarrow> Line list" where
  "Parse remaining =
     (if remaining = [] then []
      else (case splitLine remaining of (content, ending, rest) \<Rightarrow> parseLine content ending # Parse rest))"
  by pat_completeness auto
termination
proof (relation "measure length", goal_cases)
  case (2 remaining content x ending rest)
  have "length ys < length remaining" if "dropWhile P remaining = y # ys" for P and y :: char and ys
    using length_dropWhile_le [of P remaining] that by simp
  then show ?case using 2 by (auto simp: splitLine_def Let_def split: list.splits if_splits)
qed simp

declare Parse.simps [simp del]

definition Render :: "Line list \<Rightarrow> gostring" where
  "Render f = concat (map RenderLine f)"

section \<open>Nothing is lost\<close>

lemma splitArguments_render:
  "splitArguments input = Some (arguments, trailing) \<Longrightarrow>
   concat (map (\<lambda>a. argLead a @ argRaw a) arguments) @ trailing = input"
proof (induction input arbitrary: arguments trailing rule: splitArguments.induct)
  case (1 input)
  define lead rest where "lead = takeWhile isSpace input" and "rest = dropWhile isSpace input"
  have input: "input = lead @ rest" by (simp add: lead_def rest_def)
  note eq = "1.prems" [unfolded splitArguments.simps [of input] Let_def, folded lead_def rest_def]
  show ?case
  proof (cases rest)
    case Nil
    then show ?thesis using eq input by simp
  next
    case (Cons c cs)
    show ?thesis
    proof (cases "c = CHR ''#''")
      case True
      then show ?thesis using eq input Cons by auto
    next
      case False
      obtain v n where word: "readWord rest None = (v, n, True)"
        using eq Cons False by (auto split: prod.splits if_splits)
      obtain as where as: "splitArguments (drop n rest) = Some (as, trailing)"
        and arguments: "arguments = \<lparr>argLead = lead, argRaw = take n rest, argValue = v\<rparr> # as"
        using eq Cons False word by (auto split: option.splits)
      have "concat (map (\<lambda>a. argLead a @ argRaw a) as) @ trailing = drop n rest"
        using "1.IH" [OF lead_def rest_def Cons False word [symmetric] refl] as by simp
      then show ?thesis using arguments input by simp
    qed
  qed
qed

lemma read_separator_prefix: "read_separator s @ drop (length (read_separator s)) s = s"
proof -
  have "\<exists>r. s = read_separator s @ r"
  proof (cases "dropWhile isSpace s")
    case Nil
    then show ?thesis unfolding read_separator_def Let_def by (metis takeWhile_dropWhile_id list.simps(4))
  next
    case (Cons c cs)
    have whole: "s = takeWhile isSpace s @ c # cs" using Cons by (metis takeWhile_dropWhile_id)
    show ?thesis
    proof (cases "c = CHR ''=''")
      case True
      have "s = read_separator s @ dropWhile isSpace cs"
        using whole by (simp add: read_separator_def Let_def Cons True)
      then show ?thesis ..
    next
      case False
      then have "s = read_separator s @ c # cs"
        using whole by (simp add: read_separator_def Let_def Cons)
      then show ?thesis ..
    qed
  qed
  then show ?thesis by (metis append_eq_conv_conj)
qed

lemma RenderLine_verbatim [simp]: "kind \<noteq> LineDirective \<Longrightarrow> RenderLine (verbatim_line kind text ending) = text @ ending"
  by (simp add: RenderLine_def verbatim_line_def)

lemma RenderLine_parseLine: "RenderLine (parseLine content ending) = content @ ending"
proof -
  define indent body where "indent = takeWhile isSpace content" and "body = dropWhile isSpace content"
  define keyword rest where "keyword = takeWhile is_keyword_byte body" and "rest = dropWhile is_keyword_byte body"
  define separator where "separator = read_separator rest"
  have content: "content = indent @ keyword @ separator @ drop (length separator) rest"
    unfolding separator_def read_separator_prefix
    by (simp add: indent_def body_def keyword_def rest_def)
  note parse_line = parseLine_def [of content ending, unfolded Let_def,
    folded indent_def body_def, folded keyword_def rest_def, folded separator_def]
  show ?thesis
  proof (cases "splitArguments (drop (length separator) rest)")
    case None
    then show ?thesis
      by (simp add: parse_line flip: indent_def body_def keyword_def rest_def separator_def)
  next
    case (Some p)
    then obtain arguments trailing where p: "p = (arguments, trailing)" by force
    have args: "concat (map (\<lambda>a. argLead a @ argRaw a) arguments) @ trailing = drop (length separator) rest"
      using splitArguments_render Some p by blast
    have "indent @ keyword @ separator @ concat (map (\<lambda>a. argLead a @ argRaw a) arguments) @ trailing = content"
      unfolding args using content by simp
    then show ?thesis using Some p
      by (simp add: parse_line) (simp add: RenderLine_def)
  qed
qed

lemma splitLine_LF:
  assumes "LF \<notin> set pre"
  shows "splitLine (pre @ LF # rest) =
    (if has_suffix pre [CR] then (take (length pre - 1) pre, [CR, LF], rest) else (pre, [LF], rest))"
proof -
  have "takeWhile (\<lambda>c. c \<noteq> LF) (pre @ LF # rest) = pre" "dropWhile (\<lambda>c. c \<noteq> LF) (pre @ LF # rest) = LF # rest"
    using assms by (auto simp: takeWhile_append dropWhile_append)
  then show ?thesis by (simp add: splitLine_def Let_def)
qed

lemma splitLine_no_LF: "LF \<notin> set s \<Longrightarrow> splitLine s = (s, [], [])"
proof -
  assume "LF \<notin> set s"
  then have "dropWhile (\<lambda>c. c \<noteq> LF) s = []" by (auto simp: dropWhile_eq_Nil_conv)
  then show ?thesis by (simp only: splitLine_def list.case)
qed

lemma splitLine_concat:
  assumes "splitLine s = (content, ending, rest)"
  shows "content @ ending @ rest = s"
proof (cases "LF \<in> set s")
  case True
  then obtain pre post where s: "s = pre @ LF # post" "LF \<notin> set pre" by (meson split_list_first)
  show ?thesis
  proof (cases "has_suffix pre [CR]")
    case True
    then obtain r where "pre = r @ [CR]" by (auto simp: has_suffix_iff)
    then show ?thesis using assms s splitLine_LF [of pre post] True by auto
  next
    case False
    then show ?thesis using assms s splitLine_LF [of pre post] by auto
  qed
qed (use assms splitLine_no_LF in auto)

lemma Render_Parse_bytes: "concat (map RenderLine (Parse source)) = source"
proof (induction source rule: Parse.induct)
  case (1 source)
  show ?case
  proof (cases "source = []")
    case False
    obtain content ending rest where s: "splitLine source = (content, ending, rest)" by (metis prod_cases3)
    have "concat (map RenderLine (Parse rest)) = rest" using "1.IH" False s by simp
    then show ?thesis using False s splitLine_concat [OF s]
      by (simp add: Parse.simps [of source] RenderLine_parseLine)
  qed (simp add: Parse.simps)
qed

interpretation config_file: lossless_file Parse RenderLine
  by unfold_locales (rule Render_Parse_bytes)

section \<open>What is written as an argument is read back\<close>

text \<open>A reader that starts inside the double quotes takes the quoted bytes as the value.\<close>

lemma readWord_quoted:
  "readWord (quote_bytes v @ DQUOTE # rest) (Some DQUOTE) =
     (case readWord rest None of (w, n, closed) \<Rightarrow> (v @ w, length (quote_bytes v) + 1 + n, closed))"
proof (induction v)
  case Nil
  then show ?case by (simp add: escapes_def breaks_def opens_def case_prod_unfold)
next
  case (Cons c cs)
  consider (q) "c = DQUOTE" | (b) "c = BACKSLASH" "must_double cs"
    | (l) "c = BACKSLASH" "\<not> must_double cs" | (p) "c \<noteq> DQUOTE" "c \<noteq> BACKSLASH" by blast
  then show ?case
  proof cases
    case q
    then show ?thesis by (simp add: escapes_def isEscaped_def Cons.IH case_prod_unfold)
  next
    case b
    then show ?thesis by (simp add: escapes_def isEscaped_def Cons.IH case_prod_unfold)
  next
    case l
    then obtain d ds where d: "cs = d # ds" "d \<noteq> BACKSLASH" "d \<noteq> DQUOTE" "d \<noteq> SQUOTE"
      by (cases cs) (auto simp: must_double_def)
    then show ?thesis using l Cons.IH
      by (simp add: escapes_def isEscaped_def breaks_def opens_def case_prod_unfold)
  next
    case p
    then show ?thesis by (simp add: escapes_def breaks_def opens_def Cons.IH case_prod_unfold)
  qed
qed

lemma readWord_quoteArgument:
  "readWord (quoteArgument v @ rest) None =
     (case readWord rest None of (w, n, closed) \<Rightarrow> (v @ w, length (quoteArgument v) + n, closed))"
  by (simp add: quoteArgument_def readWord_quoted escapes_def breaks_def opens_def isSpace_def case_prod_unfold)

definition at_break :: "gostring \<Rightarrow> bool" where
  "at_break rest \<longleftrightarrow> rest = [] \<or> isSpace (hd rest)"

lemma readWord_at_break: "at_break rest \<Longrightarrow> readWord rest None = ([], 0, True)"
  by (cases rest) (auto simp: at_break_def escapes_def breaks_def isSpace_def)

definition plain_value :: "gostring \<Rightarrow> bool" where
  "plain_value v \<longleftrightarrow> \<not> contains_any v [SP, TAB, DQUOTE, SQUOTE] \<and> \<not> has_suffix v [BACKSLASH] \<and>
     \<not> contains v [BACKSLASH, BACKSLASH]"

lemma plain_value_Cons:
  assumes "plain_value (c # cs)"
  shows "c \<notin> {SP, TAB, DQUOTE, SQUOTE}" "plain_value cs \<or> cs = []"
    "c = BACKSLASH \<Longrightarrow> cs \<noteq> [] \<and> hd cs \<noteq> BACKSLASH"
proof -
  show "c \<notin> {SP, TAB, DQUOTE, SQUOTE}" using assms by (simp add: plain_value_def)
  have "has_suffix (c # cs) [BACKSLASH]" if "has_suffix cs [BACKSLASH]"
    using that by (auto simp: has_suffix_iff)
  then show "plain_value cs \<or> cs = []" using assms by (auto simp: plain_value_def)
  show "cs \<noteq> [] \<and> hd cs \<noteq> BACKSLASH" if "c = BACKSLASH"
    using assms that by (cases cs) (auto simp: plain_value_def has_suffix_def has_prefix_def)
qed

lemma readWord_plain:
  assumes "plain_value v" and "at_break rest"
  shows "readWord (v @ rest) None = (v, length v, True)"
  using assms(1)
proof (induction v)
  case Nil
  then show ?case using readWord_at_break [OF assms(2)] by simp
next
  case (Cons c cs)
  note c = plain_value_Cons [OF Cons.prems]
  have rec: "readWord (cs @ rest) None = (cs, length cs, True)"
    using c(2) Cons.IH readWord_at_break [OF assms(2)] by auto
  have "\<not> escapes c (cs @ rest) None"
  proof (cases cs)
    case Nil
    then show ?thesis using c(3) by (auto simp: escapes_def)
  next
    case (Cons d ds)
    then have "c = BACKSLASH \<Longrightarrow> d \<noteq> BACKSLASH" "d \<notin> {SP, TAB, DQUOTE, SQUOTE}"
      using c(3) plain_value_Cons(1) [of d ds] c(2) by auto
    then show ?thesis by (auto simp: escapes_def isEscaped_def Cons)
  qed
  moreover have "\<not> breaks c None" "\<not> opens c None" using c(1) by (auto simp: breaks_def opens_def isSpace_def)
  ultimately show ?case using rec by simp
qed

lemma RenderArgument_reads_back:
  assumes "RenderArgument lead v = Inr a" and "at_break rest"
  shows "readWord (argRaw a @ rest) None = (v, length (argRaw a), True)"
proof (cases "needsQuoting v")
  case True
  then have "argRaw a = quoteArgument v" using assms(1) by (auto simp: RenderArgument_def split: if_splits)
  then show ?thesis using readWord_at_break [OF assms(2)] by (simp add: readWord_quoteArgument)
next
  case False
  then have "argRaw a = v" "plain_value v"
    using assms(1) by (auto simp: RenderArgument_def needsQuoting_def plain_value_def split: if_splits)
  then show ?thesis using readWord_plain assms(2) by simp
qed

lemma RenderArgument_raw_start:
  assumes "RenderArgument lead v = Inr a"
  shows "\<exists>c cs. argRaw a = c # cs \<and> \<not> isSpace c \<and> c \<noteq> CHR ''#'' \<and> c \<noteq> CHR ''=''"
proof (cases "needsQuoting v")
  case True
  then have "argRaw a = quoteArgument v" using assms by (auto simp: RenderArgument_def split: if_splits)
  then show ?thesis by (simp add: quoteArgument_def isSpace_def)
next
  case False
  then have "argRaw a = v" using assms by (auto simp: RenderArgument_def split: if_splits)
  then show ?thesis using False by (cases v) (auto simp: needsQuoting_def isSpace_def)
qed

text \<open>
  An argument that a reader gives back as it is: blanks before it (only the first one of a line may
  have none), and raw bytes that start no comment and read as its value up to the next blank.
\<close>

definition reads_as_written :: "Argument \<Rightarrow> bool" where
  "reads_as_written a \<longleftrightarrow> list_all isSpace (argLead a) \<and>
     (\<exists>c cs. argRaw a = c # cs \<and> \<not> isSpace c \<and> c \<noteq> CHR ''#'') \<and>
     (\<forall>rest. at_break rest \<longrightarrow> readWord (argRaw a @ rest) None = (argValue a, length (argRaw a), True))"

definition separated :: "Argument list \<Rightarrow> bool" where
  "separated as \<longleftrightarrow> list_all (\<lambda>a. argLead a \<noteq> []) as"

text \<open>A comment in last place, as the splitter makes it: no blank at its end.\<close>

definition comment_tail :: "Argument list \<Rightarrow> bool" where
  "comment_tail comment \<longleftrightarrow> (case comment of
      [] \<Rightarrow> True
    | [a] \<Rightarrow> list_all isSpace (argLead a) \<and> argLead a \<noteq> [] \<and> has_prefix (argRaw a) ''#'' \<and>
        argValue a = argRaw a \<and> \<not> isSpace (last (argRaw a))
    | _ \<Rightarrow> False)"

definition render_arguments :: "Argument list \<Rightarrow> gostring" where
  "render_arguments as = concat (map (\<lambda>a. argLead a @ argRaw a) as)"

lemma render_arguments_simps [simp]:
  "render_arguments [] = []"
  "render_arguments (a # as) = argLead a @ argRaw a @ render_arguments as"
  "render_arguments (as @ bs) = render_arguments as @ render_arguments bs"
  by (simp_all add: render_arguments_def)

lemma takeWhile_isSpace_lead:
  assumes "list_all isSpace lead" and "rest = [] \<or> \<not> isSpace (hd rest)"
  shows "takeWhile isSpace (lead @ rest) = lead" "dropWhile isSpace (lead @ rest) = rest"
  using assms by (induction lead; cases rest; simp)+

lemma splitArguments_step:
  assumes "reads_as_written a" and "at_break rest"
  shows "splitArguments (argLead a @ argRaw a @ rest) =
    (case splitArguments rest of None \<Rightarrow> None | Some (as, trailing) \<Rightarrow> Some (a # as, trailing))"
proof -
  obtain c cs where c: "argRaw a = c # cs" "\<not> isSpace c" "c \<noteq> CHR ''#''"
    using assms(1) by (auto simp: reads_as_written_def)
  have "list_all isSpace (argLead a)" using assms(1) by (simp add: reads_as_written_def)
  then have lead: "takeWhile isSpace (argLead a @ argRaw a @ rest) = argLead a"
    "dropWhile isSpace (argLead a @ argRaw a @ rest) = argRaw a @ rest"
    using takeWhile_isSpace_lead [of "argLead a" "argRaw a @ rest"] c by auto
  have word: "readWord (argRaw a @ rest) None = (argValue a, length (argRaw a), True)"
    using assms by (simp add: reads_as_written_def)
  show ?thesis
    by (subst splitArguments.simps) (simp only: lead Let_def word, simp add: c split: option.splits)
qed

lemma at_break_separated:
  assumes "separated as" "list_all reads_as_written as" "at_break rest"
  shows "at_break (render_arguments as @ rest)"
proof (cases as)
  case (Cons a as')
  then obtain l ls where "argLead a = l # ls" using assms(1) by (cases "argLead a") (auto simp: separated_def)
  moreover have "list_all isSpace (argLead a)" using assms(2) Cons by (simp add: reads_as_written_def)
  ultimately show ?thesis using Cons by (simp add: at_break_def)
qed (simp add: assms)

lemma isSpace_runs:
  assumes "list_all isSpace t"
  shows "takeWhile isSpace t = t" "dropWhile isSpace t = []"
  using assms by (simp_all add: list_all_iff)

lemma trim_right_written:
  assumes "list_all isSpace t" and "s \<noteq> []" "\<not> isSpace (last s)"
  shows "trim_right isSpace (s @ t) = s" "right_run isSpace (s @ t) = t"
proof -
  obtain s' x where s: "s = s' @ [x]" "\<not> isSpace x" using assms(2,3) by (cases s rule: rev_exhaust) auto
  have "takeWhile isSpace (rev t @ x # rev s') = rev t" "dropWhile isSpace (rev t @ x # rev s') = x # rev s'"
    using takeWhile_isSpace_lead [of "rev t" "x # rev s'"] assms(1) s(2) by (auto simp: list_all_iff)
  then show "trim_right isSpace (s @ t) = s" "right_run isSpace (s @ t) = t"
    using s by (simp_all add: trim_right_def right_run_def)
qed

lemma splitArguments_comment_tail:
  assumes "comment_tail comment" and "list_all isSpace trailing"
  shows "splitArguments (render_arguments comment @ trailing) = Some (comment, trailing)"
proof (cases comment)
  case Nil
  have "splitArguments trailing = Some ([], trailing)"
    by (subst splitArguments.simps) (simp only: Let_def isSpace_runs [OF assms(2)] list.case)
  then show ?thesis using Nil by simp
next
  case (Cons a rest)
  then have [simp]: "rest = []" using assms by (cases rest) (auto simp: comment_tail_def)
  have a: "list_all isSpace (argLead a)" "has_prefix (argRaw a) ''#''" "argValue a = argRaw a"
    "\<not> isSpace (last (argRaw a))" using assms Cons by (auto simp: comment_tail_def)
  then obtain cs where raw: "argRaw a = CHR ''#'' # cs" by (auto simp: has_prefix_iff)
  have lead: "takeWhile isSpace (argLead a @ argRaw a @ trailing) = argLead a"
    "dropWhile isSpace (argLead a @ argRaw a @ trailing) = argRaw a @ trailing"
    using takeWhile_isSpace_lead [of "argLead a" "argRaw a @ trailing"] a raw by (auto simp: isSpace_def)
  have runs: "trim_right isSpace (argRaw a @ trailing) = argRaw a" "right_run isSpace (argRaw a @ trailing) = trailing"
    by (rule trim_right_written [OF assms(2)], simp add: raw, rule a(4))+
  have "\<lparr>argLead = argLead a, argRaw = argRaw a, argValue = argRaw a\<rparr> = a" using a(3) by (cases a) simp
  moreover have "splitArguments (argLead a @ argRaw a @ trailing) =
      Some ([\<lparr>argLead = argLead a, argRaw = argRaw a, argValue = argRaw a\<rparr>], trailing)"
    by (subst splitArguments.simps) (simp only: lead Let_def runs, simp add: raw)
  ultimately show ?thesis using Cons by simp
qed

lemma at_break_comment_tail:
  assumes "comment_tail comment" and "list_all isSpace trailing"
  shows "at_break (render_arguments comment @ trailing)"
proof (cases comment)
  case (Cons a rest)
  then have [simp]: "rest = []" using assms by (cases rest) (auto simp: comment_tail_def)
  have "list_all isSpace (argLead a)" "argLead a \<noteq> []" using assms Cons by (auto simp: comment_tail_def)
  then show ?thesis using Cons by (cases "argLead a") (auto simp: at_break_def)
next
  case Nil
  then show ?thesis using assms(2) by (cases trailing) (auto simp: at_break_def)
qed

lemma splitArguments_written:
  assumes "list_all reads_as_written as" and "separated (drop 1 as)" and "comment_tail comment"
    and "list_all isSpace trailing"
  shows "splitArguments (render_arguments as @ render_arguments comment @ trailing) = Some (as @ comment, trailing)"
  using assms(1,2)
proof (induction as)
  case Nil
  then show ?case using splitArguments_comment_tail [OF assms(3,4)] by simp
next
  case (Cons a as)
  have "at_break (render_arguments comment @ trailing)"
    by (rule at_break_comment_tail [OF assms(3,4)])
  then have "at_break (render_arguments as @ render_arguments comment @ trailing)"
    using Cons.prems at_break_separated [of as "render_arguments comment @ trailing"] by simp
  moreover have "separated (drop 1 as)" using Cons.prems(2) by (cases as) (auto simp: separated_def)
  ultimately show ?case using Cons splitArguments_step [of a] by simp
qed

section \<open>A directive line as the editor writes it\<close>

text \<open>
  \<open>directive_line\<close> is a line whose parts are what \<open>parseLine\<close> takes a line apart into.
\<close>

definition separator_ok :: "gostring \<Rightarrow> bool" where
  "separator_ok sep \<longleftrightarrow> (\<exists>blanks tail. list_all isSpace blanks \<and> list_all isSpace tail \<and>
     (sep = blanks \<and> blanks \<noteq> [] \<or> sep = blanks @ CHR ''='' # tail))"

definition keyword_ok :: "gostring \<Rightarrow> bool" where
  "keyword_ok k \<longleftrightarrow> k \<noteq> [] \<and> list_all is_keyword_byte k \<and> hd k \<noteq> CHR ''#''"

definition starts_plain :: "gostring \<Rightarrow> bool" where
  "starts_plain s \<longleftrightarrow> s = [] \<or> (\<not> isSpace (hd s) \<and> hd s \<noteq> CHR ''='')"

lemma read_separator_written:
  assumes "separator_ok sep" and "starts_plain rest"
  shows "read_separator (sep @ rest) = sep"
proof -
  obtain blanks tail where sp: "list_all isSpace blanks" "list_all isSpace tail"
    "sep = blanks \<or> sep = blanks @ CHR ''='' # tail" using assms(1) by (auto simp: separator_ok_def)
  have eq: "\<not> isSpace CHR ''=''" by (simp add: isSpace_def)
  have r: "rest = [] \<or> \<not> isSpace (hd rest)" using assms(2) by (auto simp: starts_plain_def)
  from sp(3) show ?thesis
  proof
    assume "sep = blanks"
    then show ?thesis using takeWhile_isSpace_lead [OF sp(1) r] assms(2)
      by (auto simp: read_separator_def Let_def starts_plain_def split: list.splits)
  next
    assume s: "sep = blanks @ CHR ''='' # tail"
    have "takeWhile isSpace (sep @ rest) = blanks" "dropWhile isSpace (sep @ rest) = CHR ''='' # tail @ rest"
      using takeWhile_isSpace_lead [OF sp(1), of "CHR ''='' # tail @ rest"] eq s by auto
    then show ?thesis using takeWhile_isSpace_lead [OF sp(2) r] s by (simp add: read_separator_def Let_def)
  qed
qed

lemma parseLine_written:
  assumes indent: "list_all isSpace indent" and keyword: "keyword_ok k" and sep: "separator_ok sep"
    and as: "list_all reads_as_written as" "separated (drop 1 as)" "comment_tail comment"
      "list_all isSpace trailing"
    and first: "as \<noteq> [] \<Longrightarrow> argLead (hd as) = [] \<and> hd (argRaw (hd as)) \<noteq> CHR ''=''"
      "as = [] \<Longrightarrow> comment = [] \<and> trailing = []"
  shows "parseLine (indent @ k @ sep @ render_arguments as @ render_arguments comment @ trailing) ending =
    \<lparr>lineKind = LineDirective, lineText = [], lineIndent = indent, lineKeyword = k, lineSeparator = sep,
     lineArguments = as @ comment, lineTrailing = trailing, lineEnding = ending\<rparr>"
proof -
  let ?args = "render_arguments as @ render_arguments comment @ trailing"
  obtain c k' where k: "k = c # k'" "is_keyword_byte c" "c \<noteq> CHR ''#''" "list_all is_keyword_byte k"
    using keyword by (cases k) (auto simp: keyword_ok_def)
  have args: "starts_plain ?args"
  proof (cases as)
    case (Cons a as')
    then show ?thesis using first as(1) by (auto simp: starts_plain_def reads_as_written_def)
  qed (use first in \<open>simp add: starts_plain_def\<close>)
  have body: "takeWhile isSpace (indent @ k @ sep @ ?args) = indent" "dropWhile isSpace (indent @ k @ sep @ ?args) = k @ sep @ ?args"
    using takeWhile_isSpace_lead [OF indent, of "k @ sep @ ?args"] k by (auto simp: is_keyword_byte_def)
  obtain s sep' where s: "sep = s # sep'" "\<not> is_keyword_byte s"
    using sep by (cases sep) (auto simp: separator_ok_def is_keyword_byte_def Cons_eq_append_conv)
  have kw: "takeWhile is_keyword_byte (k @ sep @ ?args) = k" "dropWhile is_keyword_byte (k @ sep @ ?args) = sep @ ?args"
    using k(4) s by (auto simp: list_all_iff takeWhile_append dropWhile_append)
  have "k @ sep @ ?args \<noteq> []" "hd (k @ sep @ ?args) \<noteq> CHR ''#''" "k \<noteq> []" using k by auto
  then show ?thesis unfolding parseLine_def Let_def body kw read_separator_written [OF sep args]
    using splitArguments_written [OF as] by simp
qed

lemma RenderArgument_reads_as_written:
  assumes "RenderArgument lead v = Inr a" and "list_all isSpace lead"
  shows "reads_as_written a" "argValue a = v" "argLead a = lead" "hd (argRaw a) \<noteq> CHR ''=''"
proof -
  obtain c cs where "argRaw a = c # cs" "\<not> isSpace c" "c \<noteq> CHR ''#''" "c \<noteq> CHR ''=''"
    using RenderArgument_raw_start [OF assms(1)] by blast
  moreover show v: "argValue a = v" "argLead a = lead"
    using assms(1) by (auto simp: RenderArgument_def split: if_splits)
  ultimately show "reads_as_written a" "hd (argRaw a) \<noteq> CHR ''=''"
    using RenderArgument_reads_back [OF assms(1)] assms(2) by (auto simp: reads_as_written_def)
qed

section \<open>Properties\<close>

text \<open>
  C10. Parsing never loses a byte: rendering the parsed file gives the source back, for every
  source. So two sources with the same lines are the same, and an edit of one line changes
  no byte of the lines before and behind it.
\<close>

theorem Parse_lossless:
  "Render (Parse source) = source \<and>
   (Parse source = Parse other \<longleftrightarrow> source = other) \<and>
   (\<forall>i < length (Parse source). \<forall>l. \<exists>before after.
      source = before @ RenderLine (Parse source ! i) @ after \<and>
      Render ((Parse source)[i := l]) = before @ RenderLine l @ after)"
proof (intro conjI)
  show "Render (Parse source) = source" by (simp add: Render_def config_file.lossless)
  show "Parse source = Parse other \<longleftrightarrow> source = other" by (metis config_file.parse_injective)
  show "\<forall>i < length (Parse source). \<forall>l. \<exists>before after.
      source = before @ RenderLine (Parse source ! i) @ after \<and>
      Render ((Parse source)[i := l]) = before @ RenderLine l @ after"
    using config_file.edit_local unfolding Render_def by blast
qed

theorem Parse_lossless_witness:
  "Render ((Parse ''a'')[0 := verbatim_line LineComment ''# b'' []]) = ''# b''"
proof -
  have p: "length (Parse ''a'') = 1" by (simp add: Parse.simps splitLine_def)
  then obtain before after where b: "''a'' = before @ RenderLine (Parse ''a'' ! 0) @ after"
    "Render ((Parse ''a'')[0 := verbatim_line LineComment ''# b'' []]) = before @ RenderLine (verbatim_line LineComment ''# b'' []) @ after"
    using Parse_lossless [of "''a''" "[]"] by (metis less_one)
  have "RenderLine (Parse ''a'' ! 0) = ''a''"
    by (simp add: Parse.simps splitLine_no_LF RenderLine_parseLine)
  then have "before = [] \<and> after = []" using b(1) by (cases before) auto
  then show ?thesis using b(2) by simp
qed

text \<open>
  C11. A value that \<open>RenderArgument\<close> accepts is read back by \<open>splitArguments\<close> as itself, whatever
  quotes, blanks, hashes and backslashes it holds and whatever written arguments follow it.
\<close>

theorem RenderArgument_roundtrip:
  assumes "length as = length vs" and "\<And>i. i < length vs \<Longrightarrow> RenderArgument [SP] (vs ! i) = Inr (as ! i)"
  shows "splitArguments (render_arguments as) = Some (as, []) \<and> map argValue as = vs"
proof
  have a: "reads_as_written a \<and> argLead a \<noteq> []" if a: "a \<in> set as" for a
  proof -
    obtain i where i: "i < length vs" "as ! i = a" using a assms(1) by (metis in_set_conv_nth)
    have "list_all isSpace [SP]" by (simp add: isSpace_def)
    then show ?thesis using RenderArgument_reads_as_written(1,3) [OF assms(2) [OF i(1)]] i(2) by simp
  qed
  then have "list_all reads_as_written as" "separated (drop 1 as)"
    by (auto simp: list_all_iff separated_def dest: in_set_dropD)
  then show "splitArguments (render_arguments as) = Some (as, [])"
    using splitArguments_written [of as "[]" "[]"] by (simp add: comment_tail_def)
  show "map argValue as = vs"
  proof (rule nth_equalityI)
    fix i
    assume "i < length (map argValue as)"
    then have i: "i < length vs" using assms(1) by simp
    have "list_all isSpace [SP]" by (simp add: isSpace_def)
    then have "argValue (as ! i) = vs ! i"
      by (rule RenderArgument_reads_as_written(2) [OF assms(2) [OF i]])
    then show "map argValue as ! i = vs ! i" using i assms(1) by simp
  qed (simp add: assms(1))
qed

theorem RenderArgument_roundtrip_witness:
  "splitArguments [SP, DQUOTE, CHR ''a'', SP, CHR ''b'', DQUOTE] =
     Some ([\<lparr>argLead = [SP], argRaw = [DQUOTE, CHR ''a'', SP, CHR ''b'', DQUOTE], argValue = ''a b''\<rparr>], [])"
proof -
  have "RenderArgument [SP] ''a b'' =
      Inr \<lparr>argLead = [SP], argRaw = [DQUOTE, CHR ''a'', SP, CHR ''b'', DQUOTE], argValue = ''a b''\<rparr>"
    by (simp add: RenderArgument_def needsQuoting_def quoteArgument_def)
  then show ?thesis
    using RenderArgument_roundtrip [of "[\<lparr>argLead = [SP], argRaw = [DQUOTE, CHR ''a'', SP, CHR ''b'', DQUOTE], argValue = ''a b''\<rparr>]" "[''a b'']"]
    by simp
qed

end
