(* ===== verification/ConfigBlocks.thy ===== *)
theory ConfigBlocks
  imports ConfigSyntax
begin

text \<open>
  Host and Match blocks over the lines of a file, and the comment lines attached to a header, after
  internal/config/line.go (EqualKeyword) and block.go. \<open>strings.ToLower\<close> needs Unicode's tables for
  bytes outside ASCII: it is the parameter \<open>to_lower\<close> of what uses it.
\<close>

section \<open>Keywords\<close>

text \<open>
  \<open>strings.EqualFold\<close> against an ASCII keyword. Under Unicode's simple folding two runes outside
  ASCII fold with ASCII letters: U+017F (bytes C5 BF) with s, and U+212A (bytes E2 84 AA) with k.
\<close>

function EqualKeyword :: "gostring \<Rightarrow> gostring \<Rightarrow> bool" where
  "EqualKeyword s [] \<longleftrightarrow> s = []"
| "EqualKeyword s (t # ts) \<longleftrightarrow>
     (case s of
        [] \<Rightarrow> False
      | c # cs \<Rightarrow>
          (if lower_byte c = lower_byte t then EqualKeyword cs ts
           else if lower_byte t = CHR ''s'' \<and> take 2 s = [CHR 0xC5, CHR 0xBF] then EqualKeyword (drop 2 s) ts
           else if lower_byte t = CHR ''k'' \<and> take 3 s = [CHR 0xE2, CHR 0x84, CHR 0xAA]
           then EqualKeyword (drop 3 s) ts
           else False))"
  by pat_completeness auto
termination by (relation "measure (\<lambda>(s, t). length t)") auto

section \<open>Blocks\<close>

datatype BlockKind = BlockGlobal | BlockHost | BlockMatch

record Pattern_arg =
  patRaw :: gostring
  patValue :: gostring
  patNegated :: bool
  patWildcard :: bool

record Criterion =
  critKeyword :: gostring
  critArgument :: gostring
  critNegated :: bool

record Block =
  blockKind :: BlockKind
  blockHeader :: int
  blockStart :: nat
  blockEnd :: nat
  blockPatterns :: "Pattern_arg list"
  blockCriteria :: "Criterion list"

definition matchCriteriaWithArgument :: "gostring list" where
  "matchCriteriaWithArgument =
     [''exec'', ''host'', ''localnetwork'', ''localuser'', ''originalhost'', ''tagged'', ''user'']"

definition parsePattern :: "gostring \<Rightarrow> Pattern_arg" where
  "parsePattern v =
     (let negated = has_prefix v ''!''; stripped = (if negated then drop 1 v else v)
      in \<lparr>patRaw = v, patValue = stripped, patNegated = negated, patWildcard = contains_any stripped ''*?''\<rparr>)"

definition parsePatterns :: "gostring list \<Rightarrow> Pattern_arg list" where
  "parsePatterns values = map parsePattern values"

text \<open>\<open>strings.Cut\<close> at an equals sign.\<close>

definition cut_equals :: "gostring \<Rightarrow> gostring \<times> gostring \<times> bool" where
  "cut_equals s = (let name = takeWhile (\<lambda>c. c \<noteq> CHR ''='') s in
     (name, drop (length name + 1) s, length name < length s))"

fun parseCriteria :: "(gostring \<Rightarrow> gostring) \<Rightarrow> gostring list \<Rightarrow> Criterion list" where
  "parseCriteria to_lower [] = []"
| "parseCriteria to_lower (v # vs) =
     (let negated = has_prefix v ''!''; keyword = (if negated then drop 1 v else v) in
      case cut_equals keyword of (name, argument, hasEquals) \<Rightarrow>
        (let key = to_lower name in
         if hasEquals then \<lparr>critKeyword = key, critArgument = argument, critNegated = negated\<rparr> # parseCriteria to_lower vs
         else if List.member matchCriteriaWithArgument key then
           (case vs of
              [] \<Rightarrow> [\<lparr>critKeyword = key, critArgument = [], critNegated = negated\<rparr>]
            | w # ws \<Rightarrow> \<lparr>critKeyword = key, critArgument = w, critNegated = negated\<rparr> # parseCriteria to_lower ws)
         else \<lparr>critKeyword = key, critArgument = [], critNegated = negated\<rparr> # parseCriteria to_lower vs))"

definition is_host_line :: "Line \<Rightarrow> bool" where
  "is_host_line l \<longleftrightarrow> lineKind l = LineDirective \<and> EqualKeyword (lineKeyword l) ''Host''"

definition is_match_line :: "Line \<Rightarrow> bool" where
  "is_match_line l \<longleftrightarrow> lineKind l = LineDirective \<and> EqualKeyword (lineKeyword l) ''Match''"

definition global_block :: Block where
  "global_block = \<lparr>blockKind = BlockGlobal, blockHeader = - 1, blockStart = 0, blockEnd = 0,
     blockPatterns = [], blockCriteria = []\<rparr>"

definition host_block :: "nat \<Rightarrow> Line \<Rightarrow> Block" where
  "host_block index l = \<lparr>blockKind = BlockHost, blockHeader = int index, blockStart = index + 1, blockEnd = 0,
     blockPatterns = parsePatterns (Values l), blockCriteria = []\<rparr>"

definition match_block :: "(gostring \<Rightarrow> gostring) \<Rightarrow> nat \<Rightarrow> Line \<Rightarrow> Block" where
  "match_block to_lower index l = \<lparr>blockKind = BlockMatch, blockHeader = int index, blockStart = index + 1,
     blockEnd = 0, blockPatterns = [], blockCriteria = parseCriteria to_lower (Values l)\<rparr>"

text \<open>The loop of \<open>Blocks\<close>: \<open>current\<close> is the last block of the slice, whose End is still open.\<close>

fun blocks_loop :: "(gostring \<Rightarrow> gostring) \<Rightarrow> Line list \<Rightarrow> nat \<Rightarrow> Block \<Rightarrow> Block list" where
  "blocks_loop to_lower [] index current = [current\<lparr>blockEnd := index\<rparr>]"
| "blocks_loop to_lower (l # ls) index current =
     (if is_host_line l then
        current\<lparr>blockEnd := index\<rparr> # blocks_loop to_lower ls (index + 1) (host_block index l)
      else if is_match_line l then
        current\<lparr>blockEnd := index\<rparr> # blocks_loop to_lower ls (index + 1) (match_block to_lower index l)
      else blocks_loop to_lower ls (index + 1) current)"

definition Blocks :: "(gostring \<Rightarrow> gostring) \<Rightarrow> Line list \<Rightarrow> Block list" where
  "Blocks to_lower f = blocks_loop to_lower f 0 global_block"

definition governs :: "Block \<Rightarrow> nat \<Rightarrow> bool" where
  "governs b line \<longleftrightarrow> blockHeader b = int line \<or> (blockStart b \<le> line \<and> line < blockEnd b)"

definition BlockAt :: "(gostring \<Rightarrow> gostring) \<Rightarrow> Line list \<Rightarrow> nat \<Rightarrow> Block" where
  "BlockAt to_lower f line =
     (let blocks = Blocks to_lower f
      in fold (\<lambda>b found. if governs b line then b else found) blocks (hd blocks))"

section \<open>The blocks tile the file\<close>

text \<open>Consecutive blocks: each ends at the header of the next, the last one at line \<open>n\<close>.\<close>

fun tiles :: "Block list \<Rightarrow> nat \<Rightarrow> bool" where
  "tiles [] n \<longleftrightarrow> False"
| "tiles [b] n \<longleftrightarrow> blockStart b \<le> blockEnd b \<and> blockEnd b = n"
| "tiles (b # c # bs) n \<longleftrightarrow> blockStart b \<le> blockEnd b \<and> blockHeader c = int (blockEnd b) \<and>
     blockStart c = blockEnd b + 1 \<and> tiles (c # bs) n"

lemma blocks_loop_Cons:
  "\<exists>b bs. blocks_loop to_lower ls index current = b # bs \<and> blockHeader b = blockHeader current \<and>
     blockStart b = blockStart current \<and> blockKind b = blockKind current"
  by (induction ls arbitrary: index) auto

lemma block_headers [simp]:
  "blockHeader (host_block i l) = int i" "blockStart (host_block i l) = i + 1" "blockKind (host_block i l) = BlockHost"
  "blockHeader (match_block to_lower i l) = int i" "blockStart (match_block to_lower i l) = i + 1"
  "blockKind (match_block to_lower i l) = BlockMatch"
  "blockHeader global_block = - 1" "blockStart global_block = 0" "blockKind global_block = BlockGlobal"
  by (simp_all add: host_block_def match_block_def global_block_def)

lemma tiles_Cons:
  assumes "tiles bs n" and "hd bs = c" and "blockStart b \<le> blockEnd b" and "blockHeader c = int (blockEnd b)"
    and "blockStart c = blockEnd b + 1"
  shows "tiles (b # bs) n"
  using assms by (cases bs) auto

lemma blocks_loop_tiles:
  "blockStart current \<le> index \<Longrightarrow> tiles (blocks_loop to_lower ls index current) (index + length ls)"
proof (induction ls arbitrary: index current)
  case (Cons l ls)
  have step: "tiles (current\<lparr>blockEnd := index\<rparr> # blocks_loop to_lower ls (index + 1) c) (index + length (l # ls))"
    if c: "blockHeader c = int index" "blockStart c = index + 1" for c
  proof -
    obtain b bs where b: "blocks_loop to_lower ls (index + 1) c = b # bs" "blockHeader b = int index" "blockStart b = index + 1"
      using blocks_loop_Cons [of to_lower ls "index + 1" c] c by auto
    have "tiles (b # bs) (index + length (l # ls))" using Cons.IH [of c "index + 1"] c b by simp
    then show ?thesis unfolding b using Cons.prems b by simp
  qed
  show ?case using step [of "host_block index l"] step [of "match_block to_lower index l"]
      Cons.IH [of current "index + 1"] Cons.prems by simp
qed simp

lemma tiles_governs_unique:
  assumes "tiles bs n" and "bs \<noteq> []" and "line < n"
    and "blockHeader (hd bs) = int line \<or> blockStart (hd bs) \<le> line"
    and "blockHeader (hd bs) < int (blockStart (hd bs))"
  shows "\<exists>!i. i < length bs \<and> governs (bs ! i) line"
  using assms
proof (induction bs n rule: tiles.induct)
  case (2 b n)
  then show ?case by (auto simp: governs_def)
next
  case (3 b c bs n)
  show ?case
  proof (cases "line < blockEnd b")
    case True
    have no: "\<not> governs ((c # bs) ! i) line" if "i < length (c # bs)" for i
    proof -
      have "\<forall>d \<in> set (c # bs). int line < blockHeader d \<and> line < blockStart d"
        using "3.prems"(1) True
      proof (induction bs arbitrary: b c)
        case (Cons d bs)
        then show ?case using Cons.IH [of c d] by auto
      qed auto
      then show ?thesis using that nth_mem [OF that] by (auto simp: governs_def)
    qed
    have here: "governs b line" using "3.prems" True by (auto simp: governs_def)
    show ?thesis
    proof (rule ex1I [of _ 0])
      show "i = 0" if "i < length (b # c # bs) \<and> governs ((b # c # bs) ! i) line" for i
        using that no by (cases i) auto
    qed (simp add: here)
  next
    case False
    have other: "\<not> governs b line" using "3.prems" False by (auto simp: governs_def)
    have "\<exists>!i. i < length (c # bs) \<and> governs ((c # bs) ! i) line"
    proof (rule "3.IH")
      have "blockEnd b = line \<or> blockEnd b + 1 \<le> line" using False by linarith
      then show "blockHeader (hd (c # bs)) = int line \<or> blockStart (hd (c # bs)) \<le> line"
        using "3.prems"(1) by auto
      show "tiles (c # bs) n" "c # bs \<noteq> []" "line < n" "blockHeader (hd (c # bs)) < int (blockStart (hd (c # bs)))"
        using "3.prems"(1,3) by simp_all
    qed
    then obtain i where i: "i < length (c # bs)" "governs ((c # bs) ! i) line"
      and unique: "\<And>j. j < length (c # bs) \<and> governs ((c # bs) ! j) line \<Longrightarrow> j = i" by blast
    show ?thesis
    proof (rule ex1I [of _ "Suc i"])
      show "Suc i < length (b # c # bs) \<and> governs ((b # c # bs) ! Suc i) line" using i by simp
    next
      fix j
      assume j: "j < length (b # c # bs) \<and> governs ((b # c # bs) ! j) line"
      then obtain k where "j = Suc k" using other by (cases j) auto
      then show "j = Suc i" using unique [of k] j by simp
    qed
  qed
qed simp

lemma Blocks_tiles: "tiles (Blocks to_lower f) (length f)"
  using blocks_loop_tiles [of global_block 0 to_lower f] by (simp add: Blocks_def)

lemma Blocks_hd:
  "Blocks to_lower f \<noteq> []" "blockHeader (hd (Blocks to_lower f)) = - 1"
  "blockStart (hd (Blocks to_lower f)) = 0" "blockKind (hd (Blocks to_lower f)) = BlockGlobal"
  using blocks_loop_Cons [of to_lower f 0 global_block] by (auto simp: Blocks_def)

lemma Blocks_governs_unique:
  "line < length f \<Longrightarrow> \<exists>!i. i < length (Blocks to_lower f) \<and> governs (Blocks to_lower f ! i) line"
  using tiles_governs_unique [OF Blocks_tiles] Blocks_hd [of to_lower f] by simp

lemma fold_last_hit:
  "(\<exists>b \<in> set bs. P b) \<Longrightarrow> fold (\<lambda>b found. if P b then b else found) bs d \<in> {b \<in> set bs. P b}"
proof (induction bs arbitrary: d)
  case (Cons b bs)
  have skip: "\<forall>c \<in> set cs. \<not> P c \<Longrightarrow> fold (\<lambda>b found. if P b then b else found) cs e = e" for cs e
    by (induction cs arbitrary: e) auto
  show ?case
  proof (cases "\<exists>c \<in> set bs. P c")
    case True
    then show ?thesis using Cons.IH by auto
  next
    case False
    then show ?thesis using Cons.prems skip [of bs] by auto
  qed
qed simp

lemma BlockAt_governs:
  assumes "line < length f"
  shows "BlockAt to_lower f line \<in> set (Blocks to_lower f) \<and> governs (BlockAt to_lower f line) line"
proof -
  have "\<exists>b \<in> set (Blocks to_lower f). governs b line"
    using Blocks_governs_unique [OF assms, of to_lower] by (metis nth_mem)
  from fold_last_hit [OF this, of "hd (Blocks to_lower f)"] show ?thesis
    by (simp add: BlockAt_def Let_def)
qed

text \<open>No Host or Match line lies inside a block's range, and every header line is one.\<close>

lemma blocks_loop_kinds:
  assumes "b \<in> set (blocks_loop to_lower ls index current)"
  shows "b = current\<lparr>blockEnd := blockEnd b\<rparr> \<or>
    (\<exists>i < length ls. blockHeader b = int (index + i) \<and> blockStart b = index + i + 1 \<and>
      (blockKind b = BlockHost \<and> is_host_line (ls ! i) \<and> blockPatterns b = parsePatterns (Values (ls ! i)) \<or>
       blockKind b = BlockMatch \<and> \<not> is_host_line (ls ! i) \<and> is_match_line (ls ! i) \<and>
         blockCriteria b = parseCriteria to_lower (Values (ls ! i))))"
  using assms
proof (induction ls arbitrary: index current)
  case (Cons l ls)
  let ?Q = "\<lambda>ls index i. blockHeader b = int (index + i) \<and> blockStart b = index + i + 1 \<and>
      (blockKind b = BlockHost \<and> is_host_line (ls ! i) \<and> blockPatterns b = parsePatterns (Values (ls ! i)) \<or>
       blockKind b = BlockMatch \<and> \<not> is_host_line (ls ! i) \<and> is_match_line (ls ! i) \<and>
         blockCriteria b = parseCriteria to_lower (Values (ls ! i)))"
  have shift: "\<exists>i < length (l # ls). ?Q (l # ls) index i" if h: "\<exists>i < length ls. ?Q ls (index + 1) i"
  proof -
    obtain i where "i < length ls" "?Q ls (index + 1) i" using h by blast
    then show ?thesis by (intro exI [of _ "Suc i"]) simp
  qed
  have here: "\<exists>i < length (l # ls). ?Q (l # ls) index i" if "?Q (l # ls) index 0"
    using that by (intro exI [of _ 0]) simp
  have opened: "\<exists>i < length (l # ls). ?Q (l # ls) index i"
    if "b \<in> set (blocks_loop to_lower ls (index + 1) c)"
      and "c = host_block index l \<and> is_host_line l \<or> c = match_block to_lower index l \<and> \<not> is_host_line l \<and> is_match_line l" for c
  proof -
    have "b = c\<lparr>blockEnd := blockEnd b\<rparr> \<or> (\<exists>i < length ls. ?Q ls (index + 1) i)"
      using Cons.IH [OF that(1)] by simp
    moreover have "?Q (l # ls) index 0" if "b = c\<lparr>blockEnd := blockEnd b\<rparr>"
    proof -
      have "blockHeader b = blockHeader c" "blockStart b = blockStart c" "blockKind b = blockKind c"
        "blockPatterns b = blockPatterns c" "blockCriteria b = blockCriteria c"
        by (subst that, simp)+
      then show ?thesis using \<open>c = _ \<and> _ \<or> _\<close> by (auto simp: host_block_def match_block_def)
    qed
    ultimately show ?thesis using here shift by blast
  qed
  show ?case
  proof (cases "is_host_line l \<or> is_match_line l")
    case True
    then consider "b = current\<lparr>blockEnd := index\<rparr>"
      | c where "b \<in> set (blocks_loop to_lower ls (index + 1) c)"
        "c = host_block index l \<and> is_host_line l \<or> c = match_block to_lower index l \<and> \<not> is_host_line l \<and> is_match_line l"
      using Cons.prems by (auto split: if_splits)
    then show ?thesis
    proof cases
      case 2
      then show ?thesis using opened by blast
    qed simp
  next
    case False
    then show ?thesis using Cons.IH [of "index + 1" current] Cons.prems shift by auto
  qed
qed simp

section \<open>The comment attached to a header\<close>

text \<open>The loop of \<open>CommentRun\<close>, down from the header to the first line that is no comment.\<close>

fun comment_start :: "Line list \<Rightarrow> nat \<Rightarrow> nat" where
  "comment_start f 0 = 0"
| "comment_start f (Suc n) = (if lineKind (f ! n) = LineComment then comment_start f n else Suc n)"

definition CommentRun :: "Line list \<Rightarrow> int \<Rightarrow> int" where
  "CommentRun f header =
     (if header < 0 \<or> header > int (length f) then header else int (comment_start f (nat header)))"

definition comment_line_text :: "Line \<Rightarrow> gostring" where
  "comment_line_text l =
     trim_prefix (trim_prefix (trim_suffix (trim_suffix (dropWhile isSpace (lineText l)) [LF]) [CR]) ''#'') [SP]"

definition CommentText :: "Line list \<Rightarrow> int \<Rightarrow> gostring" where
  "CommentText f header =
     (let start = CommentRun f header in
      if start = header then []
      else join_with LF (map comment_line_text (drop (nat start) (take (nat header) f))))"

fun replace_crlf :: "gostring \<Rightarrow> gostring" where
  "replace_crlf (c # d # cs) = (if c = CR \<and> d = LF then LF # replace_crlf cs else c # replace_crlf (d # cs))"
| "replace_crlf s = s"

definition comment_body :: "gostring \<Rightarrow> gostring" where
  "comment_body part =
     (let trimmed = trim_right isSpace part in
      if trimmed = [] then ''#''
      else if has_prefix trimmed ''#'' then trimmed
      else ''# '' @ trimmed)"

definition RenderComment :: "gostring \<Rightarrow> gostring \<Rightarrow> gostring \<Rightarrow> Line list" where
  "RenderComment s indent ending =
     (if s = [] then []
      else map (\<lambda>part. verbatim_line LineComment (indent @ comment_body part @ ending) [])
             (split_at LF (replace_crlf s)))"

lemma replace_crlf_id: "CR \<notin> set s \<Longrightarrow> replace_crlf s = s"
  by (induction s rule: replace_crlf.induct) auto

lemma comment_start_le: "comment_start f n \<le> n"
  by (induction n) (auto intro: le_SucI)

lemma comment_start_run:
  assumes "k \<le> n" and "\<And>i. k \<le> i \<Longrightarrow> i < n \<Longrightarrow> lineKind (f ! i) = LineComment"
  shows "comment_start f n = comment_start f k"
  using assms by (induction n) (auto simp: le_Suc_eq)

lemma comment_start_stop: "k = 0 \<or> lineKind (f ! (k - 1)) \<noteq> LineComment \<Longrightarrow> comment_start f k = k"
  by (cases k) auto

lemma trim_suffix_other: "\<not> has_suffix s p \<Longrightarrow> trim_suffix s p = s"
  by (simp add: trim_suffix_def)

lemma trim_suffix_append [simp]: "trim_suffix (s @ p) p = s"
  by (simp add: trim_suffix_def has_suffix_def)

text \<open>A part of a comment that the editor's normal form leaves alone: no trailing blank, no marker.\<close>

definition tidy_part :: "gostring \<Rightarrow> bool" where
  "tidy_part part \<longleftrightarrow> (part = [] \<or> (\<not> isSpace (last part) \<and> hd part \<noteq> CHR ''#'')) \<and> CR \<notin> set part \<and> LF \<notin> set part"

definition line_ending :: "gostring \<Rightarrow> bool" where
  "line_ending e \<longleftrightarrow> e = [LF] \<or> e = [CR, LF]"

lemma trim_endings:
  assumes "line_ending e" and "s = [] \<or> last s \<noteq> CR \<and> last s \<noteq> LF"
  shows "trim_suffix (trim_suffix (s @ e) [LF]) [CR] = s"
proof -
  have "trim_suffix s [CR] = s" using assms(2) by (intro trim_suffix_other) (auto simp: has_suffix_iff)
  moreover have "s @ [CR, LF] = (s @ [CR]) @ [LF]" by simp
  ultimately show ?thesis using assms(1) unfolding line_ending_def by (metis trim_suffix_append)
qed

lemma comment_line_text_written:
  assumes "list_all isSpace indent" and "line_ending e" and "s = [] \<or> last s \<noteq> CR \<and> last s \<noteq> LF"
  shows "comment_line_text (verbatim_line LineComment (indent @ (CHR ''#'' # s) @ e) []) = trim_prefix s [SP]"
proof -
  have "dropWhile isSpace (indent @ (CHR ''#'' # s) @ e) = (CHR ''#'' # s) @ e"
    using takeWhile_isSpace_lead(2) [OF assms(1), of "(CHR ''#'' # s) @ e"] by (simp add: isSpace_def)
  moreover have "trim_suffix (trim_suffix ((CHR ''#'' # s) @ e) [LF]) [CR] = CHR ''#'' # s"
    using assms(3) by (intro trim_endings [OF assms(2)]) (auto split: if_splits)
  ultimately show ?thesis
    by (simp add: comment_line_text_def verbatim_line_def trim_prefix_def)
qed

lemma comment_part_reads_back:
  assumes "tidy_part part" and "list_all isSpace indent" and "line_ending e"
  shows "comment_line_text (verbatim_line LineComment (indent @ comment_body part @ e) []) = part"
proof (cases "part = []")
  case True
  then show ?thesis using comment_line_text_written [OF assms(2,3), of "[]"]
    by (simp add: comment_body_def trim_right_def trim_prefix_def has_prefix_def)
next
  case False
  have trim: "trim_right isSpace part = part" using assms(1) by (intro trim_right_id) (auto simp: tidy_part_def)
  have "\<not> has_prefix part ''#''" using False assms(1) by (cases part) (auto simp: tidy_part_def)
  then have body: "comment_body part = CHR ''#'' # SP # part"
    using False by (simp add: comment_body_def trim Let_def)
  have "last part \<noteq> CR \<and> last part \<noteq> LF" using False assms(1) last_in_set [OF False] unfolding tidy_part_def by metis
  then show ?thesis unfolding body using comment_line_text_written [OF assms(2,3), of "SP # part"] False
    by (simp add: trim_prefix_def)
qed

lemma CommentText_written:
  assumes before: "before = [] \<or> lineKind (last before) \<noteq> LineComment"
    and comments: "cs \<noteq> []" "\<And>l. l \<in> set cs \<Longrightarrow> lineKind l = LineComment"
  shows "CommentText (before @ cs @ rest) (int (length before + length cs)) = join_with LF (map comment_line_text cs)"
proof -
  let ?f = "before @ cs @ rest"
  have "comment_start ?f (length before + length cs) = comment_start ?f (length before)"
    using comments(2) by (intro comment_start_run) (auto simp: nth_append)
  also have "\<dots> = length before"
    using before by (intro comment_start_stop) (auto simp: nth_append last_conv_nth)
  finally have "CommentRun ?f (int (length before + length cs)) = int (length before)"
    by (simp add: CommentRun_def nat_int_add)
  then show ?thesis using comments(1) by (simp add: CommentText_def Let_def nat_int_add)
qed

lemma RenderComment_kinds: "l \<in> set (RenderComment s indent ending) \<Longrightarrow> lineKind l = LineComment"
  by (auto simp: RenderComment_def verbatim_line_def split: if_splits)

lemma comment_reads_back:
  assumes "s \<noteq> []" and "CR \<notin> set s" and "\<And>part. part \<in> set (split_at LF s) \<Longrightarrow> tidy_part part"
    and "list_all isSpace indent" and "line_ending e"
    and "before = [] \<or> lineKind (last before) \<noteq> LineComment"
  shows "CommentText (before @ RenderComment s indent e @ rest)
           (int (length before + length (RenderComment s indent e))) = s"
proof -
  have "RenderComment s indent e \<noteq> []" using assms(1) by (simp add: RenderComment_def)
  then have "CommentText (before @ RenderComment s indent e @ rest)
      (int (length before + length (RenderComment s indent e))) =
      join_with LF (map comment_line_text (RenderComment s indent e))"
    using CommentText_written [OF assms(6)] RenderComment_kinds by blast
  also have "map comment_line_text (RenderComment s indent e) = split_at LF s"
    using assms(1-3) comment_part_reads_back [OF _ assms(4,5)]
    by (simp add: RenderComment_def replace_crlf_id map_idI)
  finally show ?thesis by simp
qed

section \<open>Properties\<close>

text \<open>
  C25. \<open>Blocks\<close> starts with the global block and tiles the file; every line belongs to exactly
  one block, and \<open>BlockAt\<close> returns that block. Every later block opens at a Host or Match line.
\<close>

theorem Blocks_partition:
  assumes "line < length f"
  shows "blockKind (hd (Blocks to_lower f)) = BlockGlobal \<and> tiles (Blocks to_lower f) (length f) \<and>
    (\<exists>!i. i < length (Blocks to_lower f) \<and> governs (Blocks to_lower f ! i) line) \<and>
    BlockAt to_lower f line \<in> set (Blocks to_lower f) \<and> governs (BlockAt to_lower f line) line \<and>
    (\<forall>b \<in> set (Blocks to_lower f). blockHeader b \<noteq> - 1 \<longrightarrow>
       (\<exists>i < length f. blockHeader b = int i \<and> (is_host_line (f ! i) \<or> is_match_line (f ! i))))"
proof (intro conjI ballI impI)
  show "\<exists>i < length f. blockHeader b = int i \<and> (is_host_line (f ! i) \<or> is_match_line (f ! i))"
    if "b \<in> set (Blocks to_lower f)" "blockHeader b \<noteq> - 1" for b
  proof -
    have "b \<noteq> global_block\<lparr>blockEnd := blockEnd b\<rparr>"
    proof
      assume "b = global_block\<lparr>blockEnd := blockEnd b\<rparr>"
      then have "blockHeader b = blockHeader global_block" by (metis Block.select_convs(2) Block.surjective Block.update_convs(4))
      with that(2) show False by simp
    qed
    then show ?thesis using blocks_loop_kinds [of b to_lower f 0 global_block] that(1)
      by (auto simp: Blocks_def)
  qed
qed (use assms Blocks_hd Blocks_tiles Blocks_governs_unique BlockAt_governs in blast)+

theorem Blocks_partition_witness:
  "\<exists>!i. i < length (Blocks id (Parse ''Host a'')) \<and> governs (Blocks id (Parse ''Host a'') ! i) 0"
proof -
  have "0 < length (Parse ''Host a'')" by (simp add: Parse.simps splitLine_def)
  from Blocks_partition [OF this, of id] show ?thesis by blast
qed

text \<open>
  C30. A comment text that is not empty, has no carriage return and whose lines carry no marker and no
  trailing blank is read back as it was typed, blank lines inside it included, whatever stands
  behind it and whatever but a comment stands before it.
\<close>

theorem comment_roundtrip:
  assumes "s \<noteq> []" and "CR \<notin> set s" and "\<forall>part \<in> set (split_at LF s). tidy_part part"
    and "list_all isSpace indent" and "line_ending e"
    and "before = [] \<or> lineKind (last before) \<noteq> LineComment"
  shows "CommentText (before @ RenderComment s indent e @ rest)
           (int (length before + length (RenderComment s indent e))) = s"
  using assms by (intro comment_reads_back) auto

theorem comment_roundtrip_witness:
  "CommentText (RenderComment (''a'' @ [LF, LF] @ ''b'') [TAB] [LF] @ [])
     (int (0 + length (RenderComment (''a'' @ [LF, LF] @ ''b'') [TAB] [LF]))) = ''a'' @ [LF, LF] @ ''b''"
  using comment_roundtrip [of "''a'' @ [LF, LF] @ ''b''" "[TAB]" "[LF]" "[]" "[]"]
  by (simp add: tidy_part_def isSpace_def line_ending_def)

text \<open>
  A comment that the user types with a marker of its own loses one marker at every save:
  the text \<open>## s\<close> is shown as \<open># s\<close> after the first save and as \<open>s\<close> after the second.
\<close>

theorem comment_markers_shrink:
  assumes "s \<noteq> []" and "tidy_part s" and "hd s \<noteq> SP"
  shows "CommentText (RenderComment (''## '' @ s) [] [LF]) 1 = ''# '' @ s \<and>
         CommentText (RenderComment (''# '' @ s) [] [LF]) 1 = s"
proof -
  have clean: "LF \<notin> set s" "CR \<notin> set s" "\<not> isSpace (last s)" "last s \<noteq> CR \<and> last s \<noteq> LF"
    using assms(1,2) last_in_set [OF assms(1)] unfolding tidy_part_def by metis+
  have read: "CommentText (RenderComment (CHR ''#'' # t) [] [LF]) 1 = trim_prefix t [SP]"
    if t: "LF \<notin> set t" "CR \<notin> set t" "t \<noteq> []" "last t = last s" for t
  proof -
    have "trim_right isSpace (CHR ''#'' # t) = CHR ''#'' # t" using t clean by (intro trim_right_id) simp
    then have r: "RenderComment (CHR ''#'' # t) [] [LF] = [verbatim_line LineComment ((CHR ''#'' # t) @ [LF]) []]"
      using t by (simp add: RenderComment_def replace_crlf_id split_at_single comment_body_def Let_def)
    have "CommentText [verbatim_line LineComment ((CHR ''#'' # t) @ [LF]) []] 1 =
        comment_line_text (verbatim_line LineComment ((CHR ''#'' # t) @ [LF]) [])"
      using CommentText_written [of "[]" "[verbatim_line LineComment ((CHR ''#'' # t) @ [LF]) []]" "[]"]
      by (simp add: verbatim_line_def)
    also have "\<dots> = trim_prefix t [SP]"
      using comment_line_text_written [of "[]" "[LF]" t] t clean by (simp add: line_ending_def)
    finally show ?thesis unfolding r .
  qed
  show ?thesis using read [of "''# '' @ s"] read [of "'' '' @ s"] clean assms
    by (simp add: trim_prefix_def)
qed

theorem comment_markers_shrink_witness:
  "CommentText (RenderComment ''## x'' [] [LF]) 1 = ''# x'' \<and> CommentText (RenderComment ''# x'' [] [LF]) 1 = ''x''"
  using comment_markers_shrink [of "''x''"] by (simp add: tidy_part_def isSpace_def)

text \<open>
  On ASCII keywords \<open>EqualKeyword\<close> is equality up to ASCII case, but outside ASCII it is
  wider: a keyword spelled with the long s (U+017F) opens a Host block.
\<close>

theorem EqualKeyword_ascii_and_beyond:
  assumes "\<forall>c \<in> set s. code_of c < 128"
  shows "(EqualKeyword s t \<longleftrightarrow> LowerASCII s = LowerASCII t) \<and>
    EqualKeyword ([CHR ''H'', CHR ''o'', CHR 0xC5, CHR 0xBF, CHR ''t'']) ''Host'' \<and>
    LowerASCII [CHR ''H'', CHR ''o'', CHR 0xC5, CHR 0xBF, CHR ''t''] \<noteq> LowerASCII ''Host''"
proof (intro conjI)
  show "EqualKeyword s t \<longleftrightarrow> LowerASCII s = LowerASCII t"
    using assms
  proof (induction s t rule: EqualKeyword.induct)
    case (2 s t ts)
    show ?case
    proof (cases s)
      case (Cons c cs)
      have "c \<noteq> CHR 0xC5" "c \<noteq> CHR 0xE2"
        using "2.prems" Cons by (auto simp: code_of_def)
      then show ?thesis using 2 Cons by (simp add: LowerASCII_map)
    qed (simp add: LowerASCII_map)
  qed (auto simp: LowerASCII_map)
qed (simp_all add: LowerASCII_map lower_byte_def is_upper_ascii_def code_of_def)

theorem EqualKeyword_ascii_and_beyond_witness: "EqualKeyword ''hOST'' ''Host'' \<longleftrightarrow> LowerASCII ''hOST'' = LowerASCII ''Host''"
proof -
  have "\<forall>c \<in> set ''hOST''. code_of c < 128" by (simp add: code_of_def)
  from EqualKeyword_ascii_and_beyond [OF this, of "''Host''"] show ?thesis by blast
qed

end
