(* ===== verification/ConfigUnknown.thy ===== *)
theory ConfigUnknown
  imports ConfigBlocks
begin

text \<open>
  Which directives OpenSSH would stop at, after internal/config/unknown_directive.go and the
  generated table of keywords: the state of the IgnoreUnknown values read so far, and the test that
  an unknown keyword is ignored for every host one may connect to.
\<close>

section \<open>Known keywords\<close>

definition openSSHKeywordNames :: "gostring list" where
  "openSSHKeywordNames = [
    ''addkeystoagent'', ''addressfamily'', ''afstokenpassing'', ''batchmode'', ''bindaddress'',
    ''bindinterface'', ''canonicaldomains'', ''canonicalizefallbacklocal'',
    ''canonicalizehostname'', ''canonicalizemaxdots'', ''canonicalizepermittedcnames'',
    ''casignaturealgorithms'', ''certificatefile'', ''challengeresponseauthentication'',
    ''channeltimeout'', ''checkhostip'', ''cipher'', ''ciphers'', ''clearallforwardings'',
    ''compression'', ''compressionlevel'', ''connectionattempts'', ''connecttimeout'',
    ''controlmaster'', ''controlpath'', ''controlpersist'', ''dsaauthentication'',
    ''dynamicforward'', ''enableescapecommandline'', ''enablesshkeysign'', ''escapechar'',
    ''exitonforwardfailure'', ''fallbacktorsh'', ''fingerprinthash'', ''forkafterauthentication'',
    ''forwardagent'', ''forwardx11'', ''forwardx11timeout'', ''forwardx11trusted'',
    ''gatewayports'', ''globalknownhostsfile'', ''globalknownhostsfile2'',
    ''gssapiauthentication'', ''gssapidelegatecredentials'', ''hashknownhosts'', ''host'',
    ''hostbasedacceptedalgorithms'', ''hostbasedauthentication'', ''hostbasedkeytypes'',
    ''hostkeyalgorithms'', ''hostkeyalias'', ''hostname'', ''identitiesonly'', ''identityagent'',
    ''identityfile'', ''identityfile2'', ''ignoreunknown'', ''include'', ''ipqos'',
    ''kbdinteractiveauthentication'', ''kbdinteractivedevices'', ''keepalive'',
    ''kerberosauthentication'', ''kerberostgtpassing'', ''kexalgorithms'', ''knownhostscommand'',
    ''localcommand'', ''localforward'', ''loglevel'', ''logverbose'', ''macs'', ''match'',
    ''nohostauthenticationforlocalhost'', ''numberofpasswordprompts'', ''obscurekeystroketiming'',
    ''passwordauthentication'', ''permitlocalcommand'', ''permitremoteopen'', ''pkcs11provider'',
    ''port'', ''preferredauthentications'', ''protocol'', ''proxycommand'', ''proxyjump'',
    ''proxyusefdpass'', ''pubkeyacceptedalgorithms'', ''pubkeyacceptedkeytypes'',
    ''pubkeyauthentication'', ''refuseconnection'', ''rekeylimit'', ''remotecommand'',
    ''remoteforward'', ''requesttty'', ''requiredrsasize'', ''revokedhostkeys'',
    ''rhostsauthentication'', ''rhostsrsaauthentication'', ''rsaauthentication'',
    ''securitykeyprovider'', ''sendenv'', ''serveralivecountmax'', ''serveraliveinterval'',
    ''sessiontype'', ''setenv'', ''skeyauthentication'', ''smartcarddevice'', ''stdinnull'',
    ''streamlocalbindmask'', ''streamlocalbindunlink'', ''stricthostkeychecking'',
    ''syslogfacility'', ''tag'', ''tcpkeepalive'', ''tisauthentication'', ''tunnel'',
    ''tunneldevice'', ''updatehostkeys'', ''useprivilegedport'', ''user'', ''userknownhostsfile'',
    ''userknownhostsfile2'', ''useroaming'', ''usersh'', ''verifyhostkeydns'', ''versionaddendum'',
    ''visualhostkey'', ''warnweakcrypto'', ''xauthlocation'']"

definition appleOpenSSHKeywords :: "gostring list" where
  "appleOpenSSHKeywords = [''usekeychain'']"

definition openSSHKnows :: "gostring \<Rightarrow> gostring \<Rightarrow> bool" where
  "openSSHKnows keyword goos =
     (let lowered = LowerASCII keyword
      in List.member openSSHKeywordNames lowered \<or>
         (goos = ''darwin'' \<and> List.member appleOpenSSHKeywords lowered))"

section \<open>The IgnoreUnknown values read so far\<close>

record ignoreUnknownState =
  iuConditional :: "gostring list"
  iuUnconditional :: gostring
  iuSettled :: bool

definition iu_empty :: ignoreUnknownState where
  "iu_empty = \<lparr>iuConditional = [], iuUnconditional = [], iuSettled = False\<rparr>"

definition iu_read :: "gostring list \<Rightarrow> bool \<Rightarrow> ignoreUnknownState \<Rightarrow> ignoreUnknownState" where
  "iu_read values unconditional s =
     (case values of
        [] \<Rightarrow> s
      | v # _ \<Rightarrow>
          (if iuSettled s then s
           else if unconditional then s\<lparr>iuUnconditional := v, iuSettled := True\<rparr>
           else s\<lparr>iuConditional := iuConditional s @ [v]\<rparr>))"

definition ignoreUnknownMatches :: "gostring \<Rightarrow> gostring \<Rightarrow> bool" where
  "ignoreUnknownMatches v loweredKeyword = PatternList (split_at CHR '','' v) loweredKeyword IgnoreCase"

fun all_match :: "gostring list \<Rightarrow> gostring \<Rightarrow> bool" where
  "all_match [] lowered = True"
| "all_match (v # vs) lowered = (if \<not> ignoreUnknownMatches v lowered then False else all_match vs lowered)"

definition ignoresEverywhere :: "ignoreUnknownState \<Rightarrow> gostring \<Rightarrow> bool" where
  "ignoresEverywhere s keyword =
     (if \<not> iuSettled s then False
      else let lowered = LowerASCII keyword in
        if \<not> ignoreUnknownMatches (iuUnconditional s) lowered then False
        else all_match (iuConditional s) lowered)"

section \<open>One directive line\<close>

datatype keyword_report = NoReport | UnknownDirective gostring

definition checkKeyword :: "gostring \<Rightarrow> Line \<Rightarrow> bool \<Rightarrow> ignoreUnknownState \<Rightarrow> keyword_report \<times> ignoreUnknownState" where
  "checkKeyword goos l unconditional s =
     (if LowerASCII (lineKeyword l) = ''ignoreunknown'' then (NoReport, iu_read (Values l) unconditional s)
      else if openSSHKnows (lineKeyword l) goos \<or> ignoresEverywhere s (lineKeyword l) then (NoReport, s)
      else (UnknownDirective (lineKeyword l), s))"

section \<open>Blocks that apply to every host\<close>

fun host_applies_everywhere :: "Pattern_arg list \<Rightarrow> bool \<Rightarrow> bool" where
  "host_applies_everywhere [] everyHost = everyHost"
| "host_applies_everywhere (p # ps) everyHost =
     (if patNegated p then False else host_applies_everywhere ps (everyHost \<or> patValue p = ''*''))"

definition blockAppliesEverywhere :: "Block \<Rightarrow> bool" where
  "blockAppliesEverywhere b =
     (case blockKind b of
        BlockHost \<Rightarrow> host_applies_everywhere (blockPatterns b) False
      | BlockMatch \<Rightarrow> (case blockCriteria b of
            [c] \<Rightarrow> critKeyword c = ''all'' \<and> \<not> critNegated c
          | _ \<Rightarrow> False)
      | BlockGlobal \<Rightarrow> True)"

text \<open>Header lines keep the zero value false.\<close>

definition mark_block :: "bool \<Rightarrow> Block \<Rightarrow> bool list \<Rightarrow> bool list" where
  "mark_block inherited b marks =
     map (\<lambda>(i, m). if blockStart b \<le> i \<and> i < blockEnd b then inherited \<and> blockAppliesEverywhere b else m)
       (enumerate 0 marks)"

definition unconditionalLines :: "(gostring \<Rightarrow> gostring) \<Rightarrow> Line list \<Rightarrow> bool \<Rightarrow> bool list" where
  "unconditionalLines to_lower f inherited =
     fold (mark_block inherited) (Blocks to_lower f) (replicate (length f) False)"

section \<open>What OpenSSH does with the values\<close>

text \<open>
  For one host the IgnoreUnknown lines that stand in an applying block take effect, and OpenSSH
  keeps the first value of them. An event is such a line: its values, whether it applies to every
  host, and whether it applies to the host at hand.
\<close>

type_synonym iu_event = "gostring list \<times> bool"

fun effective_value :: "(iu_event \<times> bool) list \<Rightarrow> gostring option" where
  "effective_value [] = None"
| "effective_value (((vs, everywhere), here) # es) =
     (if vs \<noteq> [] \<and> (everywhere \<or> here) then Some (hd vs) else effective_value es)"

definition host_ignores :: "(iu_event \<times> bool) list \<Rightarrow> gostring \<Rightarrow> bool" where
  "host_ignores es keyword \<longleftrightarrow>
     (case effective_value es of None \<Rightarrow> False | Some v \<Rightarrow> ignoreUnknownMatches v (LowerASCII keyword))"

definition iu_run :: "iu_event list \<Rightarrow> ignoreUnknownState \<Rightarrow> ignoreUnknownState" where
  "iu_run es s = fold (\<lambda>(vs, everywhere). iu_read vs everywhere) es s"

lemma all_match_iff: "all_match vs k \<longleftrightarrow> (\<forall>v \<in> set vs. ignoreUnknownMatches v k)"
  by (induction vs) auto

lemma ignoresEverywhere_iff:
  "ignoresEverywhere s k \<longleftrightarrow> iuSettled s \<and> ignoreUnknownMatches (iuUnconditional s) (LowerASCII k) \<and>
     (\<forall>v \<in> set (iuConditional s). ignoreUnknownMatches v (LowerASCII k))"
  by (simp add: ignoresEverywhere_def all_match_iff Let_def)

lemma iu_run_settled: "iuSettled s \<Longrightarrow> iu_run es s = s"
  by (induction es) (auto simp: iu_run_def iu_read_def split: list.splits)

lemma iu_run_simps [simp]:
  "iu_run [] s = s" "iu_run ((vs, everywhere) # es) s = iu_run es (iu_read vs everywhere s)"
  by (simp_all add: iu_run_def)

text \<open>
  From a state that is not settled: the values read so far and the first value any host may see
  among the events to come must all match.
\<close>

lemma iu_run_all_hosts:
  "\<not> iuSettled s \<Longrightarrow> ignoresEverywhere (iu_run es s) k \<longleftrightarrow>
     (\<forall>v \<in> set (iuConditional s). ignoreUnknownMatches v (LowerASCII k)) \<and>
     (\<forall>here. length here = length es \<longrightarrow> host_ignores (zip es here) k)"
proof (induction es arbitrary: s)
  case Nil
  then show ?case by (simp add: ignoresEverywhere_iff host_ignores_def)
next
  case (Cons e es)
  obtain vs everywhere where e: "e = (vs, everywhere)" by force
  have split: "(\<forall>here. length here = length (e # es) \<longrightarrow> host_ignores (zip (e # es) here) k) \<longleftrightarrow>
      (\<forall>h hs. length hs = length es \<longrightarrow> host_ignores ((e, h) # zip es hs) k)"
    by (simp add: all_length_Suc)
  show ?case
  proof (cases vs)
    case Nil
    then have "host_ignores ((e, h) # zip es hs) k = host_ignores (zip es hs) k" for h hs
      by (simp add: e host_ignores_def)
    then show ?thesis unfolding split using Cons Nil by (simp add: e iu_read_def)
  next
    case vs: (Cons v vs')
    have some: "\<exists>hs :: bool list. length hs = length es" by (rule Ex_list_of_length)
    show ?thesis
    proof (cases everywhere)
      case True
      have h: "host_ignores ((e, h) # zip es hs) k = ignoreUnknownMatches v (LowerASCII k)" for h hs
        using vs True by (simp add: e host_ignores_def)
      have "(\<forall>h hs. length hs = length es \<longrightarrow> host_ignores ((e, h) # zip es hs) k) \<longleftrightarrow>
          ignoreUnknownMatches v (LowerASCII k)"
        unfolding h using some by blast
      then show ?thesis unfolding split using vs True \<open>\<not> iuSettled s\<close>
        by (simp add: e iu_read_def iu_run_settled ignoresEverywhere_iff conj_commute)
    next
      case False
      have h: "host_ignores ((e, h) # zip es hs) k =
          (if h then ignoreUnknownMatches v (LowerASCII k) else host_ignores (zip es hs) k)" for h hs
        using vs False by (simp add: e host_ignores_def)
      have "(\<forall>h hs. length hs = length es \<longrightarrow> host_ignores ((e, h) # zip es hs) k) \<longleftrightarrow>
          ignoreUnknownMatches v (LowerASCII k) \<and> (\<forall>hs. length hs = length es \<longrightarrow> host_ignores (zip es hs) k)"
        unfolding h using some by (metis (full_types))
      then show ?thesis unfolding split
        using vs False \<open>\<not> iuSettled s\<close> Cons.IH [of "s\<lparr>iuConditional := iuConditional s @ [v]\<rparr>"]
        by (simp add: e iu_read_def ball_Un conj_ac)
    qed
  qed
qed

section \<open>Properties\<close>



lemma host_applies_everywhere_iff:
  "host_applies_everywhere ps b \<longleftrightarrow> (\<forall>p \<in> set ps. \<not> patNegated p) \<and> (b \<or> (\<exists>p \<in> set ps. patValue p = ''*''))"
  by (induction ps b rule: host_applies_everywhere.induct) auto

lemma glob_star_any: "glob ''*'' v"
  by (induction v) auto

text \<open>
  A Host block that is taken to apply to every host does match every host name without a
  star in it, whatever else its pattern list holds.
\<close>

theorem Host_block_everywhere_sound:
  assumes "blockKind b = BlockHost" and "blockPatterns b = parsePatterns vs" and "blockAppliesEverywhere b"
    and "CHR ''*'' \<notin> set v"
  shows "PatternList vs v CaseSensitive"
proof -
  have ps: "\<forall>q \<in> set vs. \<not> has_prefix q ''!''" "\<exists>q \<in> set vs. patValue (parsePattern q) = ''*''"
    using assms(1-3) by (auto simp: blockAppliesEverywhere_def host_applies_everywhere_iff parsePatterns_def
        parsePattern_def Let_def)
  then obtain q where "q \<in> set vs" "q = ''*''" by (auto simp: parsePattern_def Let_def)
  moreover have "Pattern ''*'' v" using assms(4) by (simp add: Pattern_glob glob_star_any del: glob.simps)
  ultimately show ?thesis using ps(1)
    by (auto simp: PatternList_iff list_accepts_def list_refuses_def fold_case_def)
qed

theorem Host_block_everywhere_sound_witness:
  "PatternList [''a'', ''*''] ''db'' CaseSensitive"
proof -
  let ?b = "(host_block 0 (parseLine ''Host a *'' []))\<lparr>blockPatterns := parsePatterns [''a'', ''*'']\<rparr>"
  have "blockKind ?b = BlockHost" "blockPatterns ?b = parsePatterns [''a'', ''*'']" "blockAppliesEverywhere ?b"
    by (simp_all add: host_block_def blockAppliesEverywhere_def parsePatterns_def parsePattern_def Let_def)
  then show ?thesis by (rule Host_block_everywhere_sound) simp
qed

end
