(* ===== verification/GoText.thy ===== *)
theory GoText
  imports Sshmatch
begin

text \<open>
  The functions of Go's packages strings, strconv and unicode that more than one component calls,
  on byte strings: \<open>strings.ToLower\<close> as far as a comparison with an ASCII name can see it,
  \<open>strings.TrimSpace\<close>, \<open>strings.Trim\<close>, \<open>strings.Fields\<close>, \<open>strings.Cut\<close>, \<open>strings.LastIndex\<close> and the
  decimal numbers of strconv.
\<close>

section \<open>Lower case\<close>

text \<open>
  Two runes outside ASCII have an ASCII lower case: U+0130 (bytes C4 B0) becomes i and U+212A
  (bytes E2 84 AA) becomes k. All other bytes outside ASCII stay outside ASCII, so for an ASCII
  name the result is equal to it exactly when that of \<open>strings.ToLower\<close> is.
\<close>

function ToLower :: "gostring \<Rightarrow> gostring" where
  "ToLower s =
     (case s of
        [] \<Rightarrow> []
      | c # cs \<Rightarrow>
          (if take 2 s = [CHR 0xC4, CHR 0xB0] then CHR ''i'' # ToLower (drop 2 s)
           else if take 3 s = [CHR 0xE2, CHR 0x84, CHR 0xAA] then CHR ''k'' # ToLower (drop 3 s)
           else lower_byte c # ToLower cs))"
  by pat_completeness auto
termination by (relation "measure length") auto

declare ToLower.simps [simp del]

definition is_ascii :: "gostring \<Rightarrow> bool" where
  "is_ascii s \<longleftrightarrow> list_all (\<lambda>c. of_char c < (128 :: nat)) s"

lemma ToLower_Nil [simp]: "ToLower [] = []"
  by (simp add: ToLower.simps)

lemma ToLower_ascii_Cons [simp]:
  assumes "of_char c < (128 :: nat)"
  shows "ToLower (c # cs) = lower_byte c # ToLower cs"
proof -
  have "c \<noteq> CHR 0xC4" "c \<noteq> CHR 0xE2" using assms by auto
  then show ?thesis by (subst ToLower.simps) simp
qed

lemma ToLower_ascii: "is_ascii s \<Longrightarrow> ToLower s = LowerASCII s"
  by (induction s) (simp_all add: is_ascii_def LowerASCII_map)

section \<open>White space\<close>

text \<open>The UTF-8 bytes of the runes of \<open>unicode.IsSpace\<close>.\<close>

definition white_runes :: "gostring list" where
  "white_runes = [[TAB], [LF], [CHR 0x0B], [CHR 0x0C], [CR], [SP], [CHR 0xC2, CHR 0x85], [CHR 0xC2, CHR 0xA0],
     [CHR 0xE1, CHR 0x9A, CHR 0x80]] @
     map (\<lambda>b. [CHR 0xE2, CHR 0x80, b]) [CHR 0x80, CHR 0x81, CHR 0x82, CHR 0x83, CHR 0x84, CHR 0x85, CHR 0x86,
       CHR 0x87, CHR 0x88, CHR 0x89, CHR 0x8A, CHR 0xA8, CHR 0xA9, CHR 0xAF] @
     [[CHR 0xE2, CHR 0x81, CHR 0x9F], [CHR 0xE3, CHR 0x80, CHR 0x80]]"

lemma white_runes_nonempty: "w \<in> set white_runes \<Longrightarrow> w \<noteq> []"
  by (auto simp: white_runes_def)

definition leading_space :: "gostring \<Rightarrow> gostring option" where
  "leading_space s = find (has_prefix s) white_runes"

definition trailing_space :: "gostring \<Rightarrow> gostring option" where
  "trailing_space s = find (has_suffix s) white_runes"

lemma leading_space_Some: "leading_space s = Some w \<Longrightarrow> w \<noteq> [] \<and> has_prefix s w"
  unfolding leading_space_def find_Some_iff using white_runes_nonempty nth_mem by metis

lemma trailing_space_Some: "trailing_space s = Some w \<Longrightarrow> w \<noteq> [] \<and> has_suffix s w"
  unfolding trailing_space_def find_Some_iff using white_runes_nonempty nth_mem by metis

function trim_left_space :: "gostring \<Rightarrow> gostring" where
  "trim_left_space s = (case leading_space s of None \<Rightarrow> s | Some w \<Rightarrow> trim_left_space (drop (length w) s))"
  by pat_completeness auto
termination
proof (relation "measure length", goal_cases)
  case (2 s w)
  then have "w \<noteq> []" "has_prefix s w" using leading_space_Some by auto
  then have "w \<noteq> []" "s \<noteq> []" by (auto simp: has_prefix_iff)
  then show ?case by (simp add: length_greater_0_conv)
qed simp

function trim_right_space :: "gostring \<Rightarrow> gostring" where
  "trim_right_space s =
     (case trailing_space s of None \<Rightarrow> s | Some w \<Rightarrow> trim_right_space (take (length s - length w) s))"
  by pat_completeness auto
termination
proof (relation "measure length", goal_cases)
  case (2 s w)
  then have "w \<noteq> []" "has_suffix s w" using trailing_space_Some by auto
  then have "w \<noteq> []" "s \<noteq> []" by (auto simp: has_suffix_iff)
  then show ?case by simp
qed simp

declare trim_left_space.simps [simp del] trim_right_space.simps [simp del]

definition TrimSpace :: "gostring \<Rightarrow> gostring" where
  "TrimSpace s = trim_right_space (trim_left_space s)"

text \<open>\<open>strings.Trim\<close>, \<open>TrimLeft\<close> and \<open>TrimRight\<close> with an ASCII cut set.\<close>

definition TrimLeft :: "gostring \<Rightarrow> gostring \<Rightarrow> gostring" where
  "TrimLeft cutset s = dropWhile (\<lambda>c. c \<in> set cutset) s"

definition TrimRight :: "gostring \<Rightarrow> gostring \<Rightarrow> gostring" where
  "TrimRight cutset s = trim_right (\<lambda>c. c \<in> set cutset) s"

definition Trim :: "gostring \<Rightarrow> gostring \<Rightarrow> gostring" where
  "Trim cutset s = TrimRight cutset (TrimLeft cutset s)"

lemma trim_right_prefix: "\<exists>t. s = trim_right P s @ t"
  by (metis trim_right_run)

lemma trim_right_last: "trim_right P s \<noteq> [] \<Longrightarrow> \<not> P (last (trim_right P s))"
  unfolding trim_right_def using hd_dropWhile [of P "rev s"] by (simp add: last_rev)

lemma trim_right_hd: "trim_right P s \<noteq> [] \<Longrightarrow> hd (trim_right P s) = hd s"
  using trim_right_run [of P s] by (metis hd_append2)

lemma Trim_ends:
  "Trim cutset s = [] \<or> (hd (Trim cutset s) \<notin> set cutset \<and> last (Trim cutset s) \<notin> set cutset)"
proof (cases "Trim cutset s = []")
  case False
  then have l: "TrimLeft cutset s \<noteq> []" by (auto simp: Trim_def TrimRight_def trim_right_def)
  then have "hd (TrimLeft cutset s) \<notin> set cutset"
    using hd_dropWhile [of "\<lambda>c. c \<in> set cutset" s] by (simp add: TrimLeft_def)
  then show ?thesis
    using False trim_right_hd trim_right_last [of "\<lambda>c. c \<in> set cutset"] by (simp add: Trim_def TrimRight_def)
qed simp

section \<open>Cutting at a byte\<close>

text \<open>\<open>strings.Cut\<close> at the first \<open>d\<close>, and the split at the last one; the flag says whether there is one.\<close>

definition cut_at :: "char \<Rightarrow> gostring \<Rightarrow> gostring \<times> gostring \<times> bool" where
  "cut_at d s = (let before = takeWhile (\<lambda>c. c \<noteq> d) s in (before, drop (length before + 1) s, length before < length s))"

definition cut_last :: "char \<Rightarrow> gostring \<Rightarrow> (gostring \<times> gostring) option" where
  "cut_last d s = (if d \<in> set s
     then (let after = rev (takeWhile (\<lambda>c. c \<noteq> d) (rev s)) in Some (take (length s - length after - 1) s, after))
     else None)"

lemma cut_last_Some:
  assumes "cut_last d s = Some (a, b)"
  shows "s = a @ d # b \<and> d \<notin> set b"
proof -
  have d: "d \<in> set (rev s)" using assms by (auto simp: cut_last_def split: if_splits)
  then obtain y ys where y: "dropWhile (\<lambda>c. c \<noteq> d) (rev s) = y # ys" by (cases "dropWhile (\<lambda>c. c \<noteq> d) (rev s)") auto
  then have yd: "y = d" using dropWhile_hd [OF y] by simp
  define w where "w = takeWhile (\<lambda>c. c \<noteq> d) (rev s)"
  have "rev s = w @ d # ys" using takeWhile_dropWhile_id [of "\<lambda>c. c \<noteq> d" "rev s"] y yd by (simp add: w_def)
  from arg_cong [OF this, of rev] have s: "s = rev ys @ d # rev w" by simp
  have dw: "d \<notin> set w" by (auto simp: w_def dest: set_takeWhileD)
  have ab: "b = rev w \<and> a = take (length s - length w - 1) s"
    using assms d by (simp add: cut_last_def Let_def w_def [symmetric] split: if_splits)
  have "take (length s - length w - 1) s = rev ys" using s by simp
  then show ?thesis using ab s dw by simp
qed

lemma cut_last_append: "d \<notin> set b \<Longrightarrow> cut_last d (a @ d # b) = Some (a, b)"
proof -
  assume "d \<notin> set b"
  then have "takeWhile (\<lambda>c. c \<noteq> d) (rev b @ d # rev a) = rev b" by (subst takeWhile_append2) auto
  then show ?thesis by (simp add: cut_last_def Let_def)
qed

lemma cut_at_found:
  assumes "cut_at d s = (a, b, True)"
  shows "s = a @ d # b \<and> d \<notin> set a"
proof -
  have a: "a = takeWhile (\<lambda>c. c \<noteq> d) s" "b = drop (length a + 1) s" "length a < length s"
    using assms by (auto simp: cut_at_def Let_def)
  have "s ! length a = d" using nth_length_takeWhile [of "\<lambda>c. c \<noteq> d" s] a by simp
  then have "s = a @ d # b"
    using a id_take_nth_drop [of "length a" s] takeWhile_eq_take [of "\<lambda>c. c \<noteq> d" s] by simp
  moreover have "d \<notin> set a" using a(1) by (auto dest: set_takeWhileD)
  ultimately show ?thesis by blast
qed

lemma cut_last_None: "cut_last d s = None \<longleftrightarrow> d \<notin> set s"
  by (simp add: cut_last_def Let_def)

lemma split_join: "ws \<noteq> [] \<Longrightarrow> list_all (\<lambda>w. d \<notin> set w) ws \<Longrightarrow> split_at d (join_with d ws) = ws"
  by (induction d ws rule: join_with.induct) (simp_all add: split_at_single split_at_append)

lemma concat_join: "ws \<noteq> [] \<Longrightarrow> concat (map (\<lambda>w. w @ [d]) ws) = join_with d ws @ [d]"
  by (induction d ws rule: join_with.induct) simp_all

section \<open>Decimal numbers\<close>

definition is_digit :: "char \<Rightarrow> bool" where
  "is_digit c \<longleftrightarrow> 48 \<le> (of_char c :: nat) \<and> (of_char c :: nat) \<le> 57"

definition digit_value :: "char \<Rightarrow> nat" where
  "digit_value c = of_char c - 48"

definition decimal_value :: "gostring \<Rightarrow> nat" where
  "decimal_value s = foldl (\<lambda>n c. n * 10 + digit_value c) 0 s"

text \<open>\<open>strconv.ParseUint(s, 10, bits)\<close>: digits only, at least one, and a value that fits.\<close>

definition ParseUint :: "nat \<Rightarrow> gostring \<Rightarrow> nat option" where
  "ParseUint bits s = (if s \<noteq> [] \<and> list_all is_digit s \<and> decimal_value s < 2 ^ bits
     then Some (decimal_value s) else None)"

section \<open>UTF-8\<close>

text \<open>
  \<open>utf8.DecodeRuneInString\<close>: the rune at the front and the bytes it takes; a byte that starts no
  valid encoding is one byte of \<open>None\<close>.
\<close>

definition byte_of :: "char \<Rightarrow> nat" where
  "byte_of c = of_char c"

definition is_cont :: "nat \<Rightarrow> nat \<Rightarrow> nat \<Rightarrow> bool" where
  "is_cont lo hi b \<longleftrightarrow> lo \<le> b \<and> b \<le> hi"

definition rune2 :: "nat \<Rightarrow> nat list \<Rightarrow> (nat \<times> nat) option" where
  "rune2 b rest = (case rest of c # _ \<Rightarrow> if is_cont 128 191 c then Some ((b - 192) * 64 + (c - 128), 2) else None | [] \<Rightarrow> None)"

definition rune3 :: "nat \<Rightarrow> nat \<Rightarrow> nat \<Rightarrow> nat list \<Rightarrow> (nat \<times> nat) option" where
  "rune3 lo hi b rest = (case rest of
     c # d # _ \<Rightarrow> if is_cont lo hi c \<and> is_cont 128 191 d
       then Some ((b - 224) * 4096 + (c - 128) * 64 + (d - 128), 3) else None
   | _ \<Rightarrow> None)"

definition rune4 :: "nat \<Rightarrow> nat \<Rightarrow> nat \<Rightarrow> nat list \<Rightarrow> (nat \<times> nat) option" where
  "rune4 lo hi b rest = (case rest of
     c # d # e # _ \<Rightarrow> if is_cont lo hi c \<and> is_cont 128 191 d \<and> is_cont 128 191 e
       then Some ((b - 240) * 262144 + (c - 128) * 4096 + (d - 128) * 64 + (e - 128), 4) else None
   | _ \<Rightarrow> None)"

definition decode_rune :: "gostring \<Rightarrow> (nat \<times> nat) option" where
  "decode_rune s = (case map byte_of (take 4 s) of
      [] \<Rightarrow> None
    | b # rest \<Rightarrow>
        (if b < 128 then Some (b, 1)
         else if 194 \<le> b \<and> b \<le> 223 then rune2 b rest
         else if b = 224 then rune3 160 191 b rest
         else if b = 237 then rune3 128 159 b rest
         else if 225 \<le> b \<and> b \<le> 239 then rune3 128 191 b rest
         else if b = 240 then rune4 144 191 b rest
         else if 241 \<le> b \<and> b \<le> 243 then rune4 128 191 b rest
         else if b = 244 then rune4 128 143 b rest
         else None))"

lemma rune_sizes:
  "rune2 b rest = Some (r, n) \<Longrightarrow> n = 2 \<and> n \<le> Suc (length rest)"
  "rune3 lo hi b rest = Some (r, n) \<Longrightarrow> n = 3 \<and> n \<le> Suc (length rest)"
  "rune4 lo hi b rest = Some (r, n) \<Longrightarrow> n = 4 \<and> n \<le> Suc (length rest)"
  by (auto simp: rune2_def rune3_def rune4_def split: list.splits if_splits)

lemma decode_rune_size: "decode_rune s = Some (r, n) \<Longrightarrow> 0 < n \<and> n \<le> length s"
proof -
  assume d: "decode_rune s = Some (r, n)"
  then obtain b rest where b: "map byte_of (take 4 s) = b # rest" by (auto simp: decode_rune_def split: list.splits)
  have "length (b # rest) \<le> length s" by (simp add: b [symmetric])
  moreover have "0 < n \<and> n \<le> Suc (length rest)"
    using d unfolding decode_rune_def b list.case
    by (auto dest: rune_sizes split: if_splits)
  ultimately show ?thesis by simp
qed

text \<open>The runes of a string: \<open>None\<close> for a byte that is no valid encoding.\<close>

function runes :: "gostring \<Rightarrow> nat option list" where
  "runes s = (if s = [] then []
     else (case decode_rune s of
             None \<Rightarrow> None # runes (tl s)
           | Some (r, n) \<Rightarrow> Some r # runes (drop n s)))"
  by pat_completeness auto
termination
proof (relation "measure length", goal_cases)
  case (3 s x r n)
  then show ?case using decode_rune_size [of s r n] by auto
qed auto

declare runes.simps [simp del]

definition ValidString :: "gostring \<Rightarrow> bool" where
  "ValidString s \<longleftrightarrow> list_all (\<lambda>r. r \<noteq> None) (runes s)"

definition RuneCount :: "gostring \<Rightarrow> nat" where
  "RuneCount s = length (runes s)"

text \<open>Whether a one-character class of a regular expression occurs; an invalid byte is U+FFFD.\<close>

definition has_rune :: "(nat \<Rightarrow> bool) \<Rightarrow> gostring \<Rightarrow> bool" where
  "has_rune P s \<longleftrightarrow> list_ex (\<lambda>r. P (case r of None \<Rightarrow> 65533 | Some n \<Rightarrow> n)) (runes s)"

end
