(* ===== verification/EffDirective.thy ===== *)
theory EffDirective
  imports ConfigBlocks GoText
begin

text \<open>
  The values one directive line gives to OpenSSH (internal/effective/directive.go, values.go): the
  keywords whose value is the rest of the line as it is written, the keywords that keep every
  argument, and the first-value lookup of the resolved settings.
\<close>

text \<open>A comparison with a literal keyword stays one fact in the proofs from here on.\<close>

declare EqualKeyword.simps(2) [simp del]

definition restOfLineKeywords :: "gostring list" where
  "restOfLineKeywords = [''proxycommand'', ''remotecommand'', ''localcommand'', ''knownhostscommand'']"

definition TakesRestOfLine :: "gostring \<Rightarrow> bool" where
  "TakesRestOfLine keyword \<longleftrightarrow> List.member restOfLineKeywords (ToLower keyword)"

definition argumentListKeywords :: "gostring list" where
  "argumentListKeywords = [''setenv'', ''sendenv'', ''userknownhostsfile'', ''globalknownhostsfile'']"

definition nonEmpty :: "gostring \<Rightarrow> gostring list" where
  "nonEmpty v = (if v = [] then [] else [v])"

definition ArgumentText :: "Line \<Rightarrow> gostring" where
  "ArgumentText l = TrimSpace (concat (map (\<lambda>a. argLead a @ argRaw a) (lineArguments l)))"

definition directiveValues :: "Line \<Rightarrow> gostring list" where
  "directiveValues l =
     (let keyword = ToLower (lineKeyword l) in
      if List.member restOfLineKeywords keyword then nonEmpty (ArgumentText l)
      else if List.member argumentListKeywords keyword then Values l
      else nonEmpty (join_with SP (Values l)))"

section \<open>Resolved values\<close>

text \<open>The record \<open>Values\<close> of values.go: keywords in the order they first appeared, and their values.\<close>

record ResolvedValues =
  rvKeywords :: "gostring list"
  rvEntries :: "gostring \<rightharpoonup> gostring list"

definition rv_All :: "ResolvedValues \<Rightarrow> gostring \<Rightarrow> gostring list" where
  "rv_All v keyword = (case rvEntries v (ToLower keyword) of None \<Rightarrow> [] | Some values \<Rightarrow> values)"

definition rv_First :: "ResolvedValues \<Rightarrow> gostring \<Rightarrow> gostring" where
  "rv_First v keyword = (case rv_All v keyword of [] \<Rightarrow> [] | value # _ \<Rightarrow> value)"

end
