(* ===== verification/Validate.thy ===== *)
theory Validate
  imports GoText
begin

text \<open>
  The names and numbers the application accepts (internal/validate): host aliases, host names,
  ports, group names, shortcut chords, key bar entries and unsaved destinations. A regular
  expression of the source is written out as the set of strings it matches.
\<close>

section \<open>Aliases and host names\<close>

definition is_alnum :: "char \<Rightarrow> bool" where
  "is_alnum c \<longleftrightarrow> is_digit c \<or> (65 \<le> byte_of c \<and> byte_of c \<le> 90) \<or> (97 \<le> byte_of c \<and> byte_of c \<le> 122)"

definition is_name_byte :: "char \<Rightarrow> bool" where
  "is_name_byte c \<longleftrightarrow> is_alnum c \<or> c = CHR ''.'' \<or> c = CHR ''_'' \<or> c = CHR ''-''"

definition MaxAliasLength :: nat where "MaxAliasLength = 64"
definition MaxHostnameLength :: nat where "MaxHostnameLength = 255"

definition matches_AliasPattern :: "gostring \<Rightarrow> bool" where
  "matches_AliasPattern s \<longleftrightarrow> (case s of [] \<Rightarrow> False | c # cs \<Rightarrow> is_alnum c \<and> list_all is_name_byte cs)"

definition matches_HostnamePattern :: "gostring \<Rightarrow> bool" where
  "matches_HostnamePattern s \<longleftrightarrow> s \<noteq> [] \<and> is_alnum (hd s) \<and> is_alnum (last s) \<and> list_all is_name_byte s"

definition Alias :: "gostring \<Rightarrow> bool" where
  "Alias s \<longleftrightarrow> \<not> (length s = 0 \<or> length s > MaxAliasLength \<or> \<not> matches_AliasPattern s)"

section \<open>\<open>net.ParseIP\<close>\<close>

text \<open>The dotted part: four decimal fields up to 255 with no leading zero.\<close>

definition ipv4_field_ok :: "gostring \<Rightarrow> bool" where
  "ipv4_field_ok w \<longleftrightarrow> w \<noteq> [] \<and> list_all is_digit w \<and> (length w = 1 \<or> hd w \<noteq> CHR ''0'') \<and> decimal_value w \<le> 255"

definition ipv4_ok :: "gostring \<Rightarrow> bool" where
  "ipv4_ok s \<longleftrightarrow> (let fields = split_at (CHR ''.'') s in length fields = 4 \<and> list_all ipv4_field_ok fields)"

definition is_hex :: "char \<Rightarrow> bool" where
  "is_hex c \<longleftrightarrow> is_digit c \<or> (65 \<le> byte_of c \<and> byte_of c \<le> 70) \<or> (97 \<le> byte_of c \<and> byte_of c \<le> 102)"

text \<open>
  The loop over the groups: \<open>i\<close> bytes are filled, \<open>ellipsis\<close> says whether a double colon was
  read. The fuel of nine groups is more than the sixteen bytes can take.
\<close>

fun ipv6_groups :: "nat \<Rightarrow> gostring \<Rightarrow> nat \<Rightarrow> bool \<Rightarrow> bool" where
  "ipv6_groups 0 s i ellipsis = False"
| "ipv6_groups (Suc fuel) s i ellipsis =
     (if i \<ge> 16 then s = [] \<and> \<not> ellipsis
      else let group = takeWhile is_hex s; rest = dropWhile is_hex s in
        if group = [] \<or> length group > 4 then False
        else (case rest of
            [] \<Rightarrow> (i + 2 = 16 \<longleftrightarrow> \<not> ellipsis)
          | c # more \<Rightarrow>
              (if c = CHR ''.'' then
                 (ellipsis \<or> i = 12) \<and> i + 4 \<le> 16 \<and> ipv4_ok s \<and> (i + 4 = 16 \<longleftrightarrow> \<not> ellipsis)
               else if c \<noteq> CHR '':'' then False
               else (case more of
                   [] \<Rightarrow> False
                 | d # tail \<Rightarrow>
                     (if d = CHR '':'' then
                        (if ellipsis then False
                         else if tail = [] then i + 2 < 16
                         else ipv6_groups fuel tail (i + 2) True)
                      else ipv6_groups fuel more (i + 2) ellipsis)))))"

definition ipv6_ok :: "gostring \<Rightarrow> bool" where
  "ipv6_ok s \<longleftrightarrow>
     (if has_prefix s ''::'' then (drop 2 s = [] \<or> ipv6_groups 9 (drop 2 s) 0 True)
      else ipv6_groups 9 s 0 False)"

text \<open>The first dot, colon or percent sign decides the family; a zone makes \<open>net.ParseIP\<close> refuse.\<close>

definition ParseIP_ok :: "gostring \<Rightarrow> bool" where
  "ParseIP_ok s \<longleftrightarrow>
     (case dropWhile (\<lambda>c. c \<noteq> CHR ''.'' \<and> c \<noteq> CHR '':'' \<and> c \<noteq> CHR ''%'') s of
        [] \<Rightarrow> False
      | c # _ \<Rightarrow> if c = CHR ''.'' then ipv4_ok s else if c = CHR '':'' then CHR ''%'' \<notin> set s \<and> ipv6_ok s else False)"

text \<open>\<open>netip.ParseAddr\<close>: as before, but an IPv6 address may end in a zone.\<close>

definition ParseAddr_ok :: "gostring \<Rightarrow> bool" where
  "ParseAddr_ok s \<longleftrightarrow>
     (case dropWhile (\<lambda>c. c \<noteq> CHR ''.'' \<and> c \<noteq> CHR '':'' \<and> c \<noteq> CHR ''%'') s of
        [] \<Rightarrow> False
      | c # _ \<Rightarrow>
          (if c = CHR ''.'' then ipv4_ok s
           else if c = CHR '':'' then
             (case cut_at (CHR ''%'') s of (address, zone, found) \<Rightarrow> \<not> (found \<and> zone = []) \<and> ipv6_ok address)
           else False))"

definition Hostname :: "gostring \<Rightarrow> bool" where
  "Hostname host \<longleftrightarrow>
     (if length host = 0 \<or> length host > MaxHostnameLength then False
      else if contains_any host '':'' then ParseIP_ok host
      else matches_HostnamePattern host)"

definition Port :: "int \<Rightarrow> bool" where
  "Port port \<longleftrightarrow> \<not> (port < 1 \<or> port > 65535)"

section \<open>Group names\<close>

definition ReservedNames :: "gostring list" where
  "ReservedNames = [''authorized_keys'', ''authorized_keys2'', ''config'', ''connections'', ''environment'', ''keys'',
     ''known_hosts'', ''known_hosts2'', ''rc'', ''sshc'']"

definition MaxGroupSegments :: nat where "MaxGroupSegments = 6"
definition MaxGroupSegmentBytes :: nat where "MaxGroupSegmentBytes = 64"

definition matches_GroupSegmentPattern :: "gostring \<Rightarrow> bool" where
  "matches_GroupSegmentPattern s \<longleftrightarrow> matches_AliasPattern s \<and> length s \<le> 64"

definition Reserved :: "gostring \<Rightarrow> bool" where
  "Reserved name \<longleftrightarrow> List.member ReservedNames (ToLower name)"

definition GroupSegment :: "gostring \<Rightarrow> bool" where
  "GroupSegment segment \<longleftrightarrow>
     (if length segment > MaxGroupSegmentBytes \<or> \<not> matches_GroupSegmentPattern segment then False
      else \<not> Reserved segment)"

definition GroupName :: "gostring \<Rightarrow> bool" where
  "GroupName name \<longleftrightarrow>
     (if name = [] \<or> contains_any name [NUL] then False
      else let segments = split_at (CHR ''/'') name in
        if length segments > MaxGroupSegments then False else list_all GroupSegment segments)"

section \<open>Unsaved destinations\<close>

definition MaxUserLength :: nat where "MaxUserLength = 255"
definition MaxDirectDestinationLength :: nat where
  "MaxDirectDestinationLength = MaxUserLength + 2 + MaxHostnameLength + 7"

text \<open>The bytes the user pattern excludes everywhere; a dash is excluded in first place only.\<close>

definition shell_bytes :: gostring where
  "shell_bytes = [SQUOTE, DQUOTE, CHR 0x60, CHR ''$'', BACKSLASH, CHR '';'', CHR ''&'', CHR ''<'', CHR ''>'', CHR ''|'',
     CHR ''('', CHR '')'', CHR ''{'', CHR ''}'']"

definition user_byte_ok :: "char \<Rightarrow> bool" where
  "user_byte_ok c \<longleftrightarrow> byte_of c > 32 \<and> byte_of c \<noteq> 127 \<and> c \<notin> set shell_bytes"

definition matches_DirectUserPattern :: "gostring \<Rightarrow> bool" where
  "matches_DirectUserPattern s \<longleftrightarrow> s \<noteq> [] \<and> hd s \<noteq> CHR ''-'' \<and> list_all user_byte_ok s"

record DirectDestination =
  ddUser :: gostring
  ddHost :: gostring
  ddPort :: nat

definition splitDirectHost :: "gostring \<Rightarrow> (gostring \<times> nat) option" where
  "splitDirectHost text =
     (let parts =
        (if has_prefix text ''['' then
           (case cut_at (CHR '']'') text of (before, remainder, found) \<Rightarrow>
             (if \<not> found then None
              else if remainder \<noteq> [] \<and> \<not> has_prefix remainder '':'' then None
              else Some (drop 1 before, drop 1 remainder, has_prefix remainder '':'')))
         else if count_list text (CHR '':'') > 1 then Some (text, [], False)
         else Some (cut_at (CHR '':'') text))
      in (case parts of
            None \<Rightarrow> None
          | Some (host, portText, hasPort) \<Rightarrow>
              (if \<not> hasPort then Some (host, 0)
               else (case ParseUint 16 portText of
                       None \<Rightarrow> None
                     | Some parsed \<Rightarrow> if Port (int parsed) then Some (host, parsed) else None))))"

definition ParseDirectDestination :: "gostring \<Rightarrow> DirectDestination option" where
  "ParseDirectDestination text =
     (case cut_last (CHR ''@'') text of
        None \<Rightarrow> None
      | Some (user, rest) \<Rightarrow>
          (if length text > MaxDirectDestinationLength then None
           else if length user > MaxUserLength \<or> \<not> matches_DirectUserPattern user then None
           else (case splitDirectHost rest of
                   None \<Rightarrow> None
                 | Some (host, port) \<Rightarrow>
                     (if Hostname host then Some \<lparr>ddUser = user, ddHost = host, ddPort = port\<rparr> else None))))"

definition SessionTarget :: "gostring \<Rightarrow> bool" where
  "SessionTarget target \<longleftrightarrow> (case ParseDirectDestination target of Some _ \<Rightarrow> True | None \<Rightarrow> Alias target)"

section \<open>Shortcut chords\<close>

definition ShortcutModifiers :: "gostring list" where
  "ShortcutModifiers = [''Ctrl'', ''Alt'', ''Shift'', ''Meta'']"

definition ShortcutCommandModifiers :: "gostring list" where
  "ShortcutCommandModifiers = [''Ctrl'', ''Alt'', ''Meta'']"

definition matches_ShortcutFunctionKey :: "gostring \<Rightarrow> bool" where
  "matches_ShortcutFunctionKey key \<longleftrightarrow> has_prefix key ''F'' \<and>
     (let number = drop 1 key in number \<noteq> [] \<and> list_all is_digit number \<and> hd number \<noteq> CHR ''0'' \<and>
        length number \<le> 2 \<and> decimal_value number \<le> 24)"

definition matches_ShortcutKey :: "gostring \<Rightarrow> bool" where
  "matches_ShortcutKey key \<longleftrightarrow>
     (case key of [c] \<Rightarrow> is_digit c \<or> (65 \<le> byte_of c \<and> byte_of c \<le> 90) \<or> List.member [CHR ''-'', CHR ''='', CHR '','', CHR ''.'',
          CHR '';'', CHR ''/'', CHR ''['', CHR '']'', BACKSLASH, SQUOTE, CHR 0x60] c
      | _ \<Rightarrow> False) \<or> matches_ShortcutFunctionKey key \<or>
     List.member [''ArrowUp'', ''ArrowDown'', ''ArrowLeft'', ''ArrowRight'', ''PageUp'', ''PageDown'', ''Home'', ''End'', ''Insert'',
       ''Delete'', ''Backspace'', ''Enter'', ''Tab'', ''Escape'', ''Space''] key"

text \<open>The loop keeps the place in the table after the last modifier that was found.\<close>

fun modifier_order :: "gostring list \<Rightarrow> gostring list \<Rightarrow> bool" where
  "modifier_order table [] = True"
| "modifier_order table (m # ms) =
     (case dropWhile (\<lambda>t. t \<noteq> m) table of [] \<Rightarrow> False | _ # later \<Rightarrow> modifier_order later ms)"

definition inShortcutModifierOrder :: "gostring list \<Rightarrow> bool" where
  "inShortcutModifierOrder modifiers = modifier_order ShortcutModifiers modifiers"

definition ShortcutChord :: "gostring \<Rightarrow> bool" where
  "ShortcutChord chord \<longleftrightarrow>
     (case (case cut_last (CHR ''+'') chord of
              None \<Rightarrow> (chord, [])
            | Some (before, key) \<Rightarrow> (key, split_at (CHR ''+'') before)) of
        (key, modifiers) \<Rightarrow>
          (if \<not> matches_ShortcutKey key then False
           else if \<not> inShortcutModifierOrder modifiers then False
           else \<not> (\<not> matches_ShortcutFunctionKey key \<and> \<not> list_ex (List.member ShortcutCommandModifiers) modifiers)))"

section \<open>Key bar entries\<close>

definition KeyBarKeys :: "gostring list" where
  "KeyBarKeys = [''DirectInput'', ''Control'', ''Alt'', ''Escape'', ''Tab'', ''Shift+Tab'', ''Enter'', ''Backspace'', ''Delete'',
     ''Insert'', ''ArrowLeft'', ''ArrowUp'', ''ArrowDown'', ''ArrowRight'', ''Home'', ''End'', ''PageUp'', ''PageDown'', ''Ctrl+C'',
     ''Ctrl+D'', ''Ctrl+Z'', ''Ctrl+L'', ''Ctrl+R'', ''Ctrl+A'', ''Ctrl+E'', ''F1'', ''F2'', ''F3'', ''F4'', ''F5'', ''F6'', ''F7'',
     ''F8'', ''F9'', ''F10'', ''F11'', ''F12'']"

definition IsKeyBarKey :: "gostring \<Rightarrow> bool" where
  "IsKeyBarKey name = List.member KeyBarKeys name"

definition MaxKeyBarLabelLength :: nat where "MaxKeyBarLabelLength = 8"
definition MaxKeyBarTextLength :: nat where "MaxKeyBarTextLength = 1000"

definition label_forbidden :: "nat \<Rightarrow> bool" where
  "label_forbidden r \<longleftrightarrow> r \<le> 31 \<or> (127 \<le> r \<and> r \<le> 159)"

definition text_forbidden :: "nat \<Rightarrow> bool" where
  "text_forbidden r \<longleftrightarrow> r \<le> 8 \<or> (11 \<le> r \<and> r \<le> 31) \<or> (127 \<le> r \<and> r \<le> 159)"

definition KeyBarLabel :: "gostring \<Rightarrow> bool" where
  "KeyBarLabel label \<longleftrightarrow>
     \<not> (TrimSpace label = [] \<or> \<not> ValidString label \<or> RuneCount label > MaxKeyBarLabelLength \<or> has_rune label_forbidden label)"

definition KeyBarText :: "gostring \<Rightarrow> bool" where
  "KeyBarText text \<longleftrightarrow>
     \<not> (text = [] \<or> \<not> ValidString text \<or> RuneCount text > MaxKeyBarTextLength \<or> has_rune text_forbidden text)"

section \<open>Lemmas\<close>

text \<open>The bytes an accepted host name can hold: no blank, no shell byte, no percent sign.\<close>

definition is_host_byte :: "char \<Rightarrow> bool" where
  "is_host_byte c \<longleftrightarrow> is_name_byte c \<or> c = CHR '':''"

lemma colon_host_byte [simp]: "is_host_byte CHR '':''"
  by (simp add: is_host_byte_def)

lemma hex_host_byte: "is_hex c \<Longrightarrow> is_host_byte c"
  by (auto simp: is_hex_def is_host_byte_def is_name_byte_def is_alnum_def)

lemma digit_host_byte: "is_digit c \<Longrightarrow> is_host_byte c"
  by (simp add: is_host_byte_def is_name_byte_def is_alnum_def)

lemma join_with_all:
  "list_all (list_all P) ws \<Longrightarrow> P d \<Longrightarrow> list_all P (join_with d ws)"
  by (induction d ws rule: join_with.induct) simp_all

lemma ipv4_ok_bytes: "ipv4_ok s \<Longrightarrow> list_all is_host_byte s"
proof -
  assume s: "ipv4_ok s"
  have "list_all is_host_byte w" if "w \<in> set (split_at (CHR ''.'') s)" for w
  proof -
    have "list_all is_digit w" using that s by (auto simp: ipv4_ok_def Let_def list_all_iff ipv4_field_ok_def)
    then show ?thesis using digit_host_byte by (auto simp: list_all_iff)
  qed
  then have "list_all (list_all is_host_byte) (split_at (CHR ''.'') s)" by (simp add: list_all_iff)
  then have "list_all is_host_byte (join_with (CHR ''.'') (split_at (CHR ''.'') s))"
    by (rule join_with_all) (simp add: is_host_byte_def is_name_byte_def)
  then show ?thesis by simp
qed

lemma hex_run_bytes: "list_all is_host_byte (dropWhile is_hex s) \<Longrightarrow> list_all is_host_byte s"
proof -
  assume "list_all is_host_byte (dropWhile is_hex s)"
  moreover have "list_all is_host_byte (takeWhile is_hex s)"
    using hex_host_byte by (auto simp: list_all_iff dest: set_takeWhileD)
  ultimately have "list_all is_host_byte (takeWhile is_hex s @ dropWhile is_hex s)" by (simp del: takeWhile_dropWhile_id take_drop_While)
  then show ?thesis by simp
qed

lemma ipv6_groups_head: "ipv6_groups (Suc fuel) s i ellipsis \<Longrightarrow> i < 16 \<Longrightarrow> takeWhile is_hex s \<noteq> []"
  unfolding ipv6_groups.simps Let_def by (metis linorder_not_le)

lemma ipv6_groups_colon:
  assumes "ipv6_groups (Suc fuel) s i ellipsis" "i < 16" "dropWhile is_hex s = c # rest"
  shows "ipv4_ok s \<or> (c = CHR '':'' \<and> (\<exists>d tail. rest = d # tail \<and>
    (d = CHR '':'' \<and> (tail = [] \<or> ipv6_groups fuel tail (i + 2) True) \<or> ipv6_groups fuel rest (i + 2) ellipsis)))"
proof -
  have n: "\<not> 16 \<le> i" using assms(2) by simp
  note step = assms(1) [unfolded ipv6_groups.simps Let_def assms(3) list.case if_not_P [OF n]]
  show ?thesis using step by (cases rest) (simp_all split: if_splits)
qed

lemma ipv6_groups_bytes: "ipv6_groups fuel s i ellipsis \<Longrightarrow> list_all is_host_byte s"
proof (induction fuel arbitrary: s i ellipsis)
  case (Suc fuel)
  show ?case
  proof (cases "i \<ge> 16")
    case False
    then have i: "i < 16" by simp
    show ?thesis
    proof (cases "dropWhile is_hex s")
      case Nil
      then have "list_all is_host_byte (dropWhile is_hex s)" by (simp only: list.pred_inject)
      then show ?thesis by (rule hex_run_bytes)
    next
      case (Cons c rest)
      from ipv6_groups_colon [OF Suc.prems i Cons] show ?thesis
      proof (elim disjE conjE exE)
        assume "ipv4_ok s"
        then show ?thesis by (rule ipv4_ok_bytes)
      next
        fix d tail
        assume c: "c = CHR '':''" and d: "rest = d # tail" "d = CHR '':''" and "tail = []"
        then have "list_all is_host_byte (dropWhile is_hex s)" using Cons by simp
        then show ?thesis by (rule hex_run_bytes)
      next
        fix d tail
        assume c: "c = CHR '':''" and d: "rest = d # tail" "d = CHR '':''" and g: "ipv6_groups fuel tail (i + 2) True"
        then have "list_all is_host_byte (dropWhile is_hex s)" using Cons Suc.IH [OF g] by simp
        then show ?thesis by (rule hex_run_bytes)
      next
        fix d tail
        assume c: "c = CHR '':''" and d: "rest = d # tail" and g: "ipv6_groups fuel rest (i + 2) ellipsis"
        then have "list_all is_host_byte (dropWhile is_hex s)" using Cons Suc.IH [OF g] by simp
        then show ?thesis by (rule hex_run_bytes)
      qed
    qed
  qed (use Suc.prems in simp)
qed simp

lemma ipv6_ok_bytes: "ipv6_ok s \<Longrightarrow> list_all is_host_byte s"
proof (cases "has_prefix s ''::''")
  case True
  assume "ipv6_ok s"
  then have "list_all is_host_byte (drop 2 s)" using True ipv6_groups_bytes by (auto simp: ipv6_ok_def)
  moreover obtain r where "s = ''::'' @ r" using True by (auto simp: has_prefix_iff)
  ultimately show ?thesis by (simp add: is_host_byte_def)
qed (auto simp: ipv6_ok_def dest: ipv6_groups_bytes)

lemma Hostname_bytes:
  assumes "Hostname host"
  shows "host \<noteq> [] \<and> length host \<le> 255 \<and> list_all is_host_byte host \<and> hd host \<noteq> CHR ''-''"
proof (cases "contains_any host '':''")
  case True
  then have ip: "ParseIP_ok host" and len: "host \<noteq> []" "length host \<le> 255"
    using assms by (auto simp: Hostname_def MaxHostnameLength_def split: if_splits)
  then have "ipv4_ok host \<or> ipv6_ok host" by (auto simp: ParseIP_ok_def split: list.splits if_splits)
  then have bytes: "list_all is_host_byte host" using ipv4_ok_bytes ipv6_ok_bytes by blast
  have "\<not> is_hex CHR ''-''" "\<not> is_digit CHR ''-''" by (simp_all add: is_hex_def is_digit_def byte_of_def)
  moreover have "hd host = CHR ''-'' \<Longrightarrow> \<not> ipv4_ok host"
    using calculation(2) len(1)
    by (cases host) (auto simp: ipv4_ok_def Let_def ipv4_field_ok_def split: list.splits)
  moreover have "\<not> ipv6_ok host" if dash: "hd host = CHR ''-''"
  proof
    assume ok: "ipv6_ok host"
    obtain cs where cs: "host = CHR ''-'' # cs" using dash len(1) by (cases host) auto
    then have "\<not> has_prefix host ''::''" by (auto simp: has_prefix_iff)
    then have "ipv6_groups (Suc 8) host 0 False" using ok by (simp add: ipv6_ok_def)
    then have "takeWhile is_hex host \<noteq> []" by (rule ipv6_groups_head) simp
    then show False using cs calculation(1) by simp
  qed
  ultimately show ?thesis using len bytes \<open>ipv4_ok host \<or> ipv6_ok host\<close> by blast
next
  case False
  then have h: "matches_HostnamePattern host" "host \<noteq> []" "length host \<le> 255"
    using assms by (auto simp: Hostname_def MaxHostnameLength_def split: if_splits)
  moreover have "\<not> is_alnum CHR ''-''" by (simp add: is_alnum_def is_digit_def byte_of_def)
  ultimately show ?thesis by (auto simp: matches_HostnamePattern_def list_all_iff is_host_byte_def)
qed

lemma modifier_order_subseq: "modifier_order table ms \<longleftrightarrow> subseq ms table"
proof (induction ms arbitrary: table)
  case (Cons m ms)
  note ms = Cons.IH
  show ?case
  proof (induction table)
    case (Cons t table)
    show ?case using Cons.IH ms by (cases "t = m") auto
  qed simp
qed simp

lemma modifiers_plain:
  assumes "subseq ms ShortcutModifiers"
  shows "list_all (\<lambda>m. CHR ''+'' \<notin> set m) ms"
proof -
  have "set ms \<subseteq> set ShortcutModifiers" using assms by (auto elim: list_emb_set)
  then show ?thesis by (auto simp: list_all_iff ShortcutModifiers_def)
qed

lemma key_plain:
  assumes "matches_ShortcutKey key"
  shows "CHR ''+'' \<notin> set key"
proof -
  have "\<not> is_digit CHR ''+''" by (simp add: is_digit_def)
  then have "CHR ''+'' \<notin> set ds" if "list_all is_digit ds" for ds using that by (auto simp: list_all_iff)
  then have f: "matches_ShortcutFunctionKey key \<Longrightarrow> CHR ''+'' \<notin> set key"
    by (auto simp: matches_ShortcutFunctionKey_def Let_def has_prefix_iff)
  then show ?thesis using assms
    by (auto simp: matches_ShortcutKey_def is_digit_def byte_of_def split: list.splits)
qed

section \<open>Properties\<close>

text \<open>
  C27. A session target that is read as an unsaved destination is never also an alias, its user is
  the text before the last at sign and holds no blank, control or shell byte, neither the user nor
  the host starts with a dash, the host holds letters, digits, dots, dashes, underscores and
  colons only, and the port fits TCP.
\<close>

theorem DirectDestination_safe:
  assumes "ParseDirectDestination t = Some d"
  shows "SessionTarget t \<and> \<not> Alias t \<and> (\<exists>rest. t = ddUser d @ CHR ''@'' # rest \<and> CHR ''@'' \<notin> set rest) \<and>
    list_all user_byte_ok (ddUser d) \<and> hd (ddUser d) \<noteq> CHR ''-'' \<and>
    ddHost d \<noteq> [] \<and> list_all is_host_byte (ddHost d) \<and> hd (ddHost d) \<noteq> CHR ''-'' \<and> ddPort d \<le> 65535"
proof -
  obtain user rest host port where u: "cut_last (CHR ''@'') t = Some (user, rest)" "matches_DirectUserPattern user"
    and h: "splitDirectHost rest = Some (host, port)" "Hostname host"
    and d: "d = \<lparr>ddUser = user, ddHost = host, ddPort = port\<rparr>"
    using assms by (auto simp: ParseDirectDestination_def split: option.splits if_splits)
  have tt: "t = user @ CHR ''@'' # rest" "CHR ''@'' \<notin> set rest" using cut_last_Some [OF u(1)] by auto
  have "\<not> is_name_byte CHR ''@''" "\<not> is_alnum CHR ''@''"
    by (simp_all add: is_name_byte_def is_alnum_def is_digit_def byte_of_def)
  moreover have "CHR ''@'' \<in> set t" using tt by simp
  ultimately have "\<not> Alias t"
    by (cases t) (auto simp: Alias_def matches_AliasPattern_def list_all_iff)
  moreover have "port \<le> 65535"
    using h(1) by (auto simp: splitDirectHost_def Let_def Port_def split: option.splits prod.splits if_splits)
  ultimately show ?thesis
    using assms d tt u(2) Hostname_bytes [OF h(2)] by (simp add: SessionTarget_def matches_DirectUserPattern_def)
qed

theorem DirectDestination_safe_witness:
  "\<not> Alias ''me@[::1]:22'' \<and> ParseDirectDestination ''me@[::1]:22'' = Some \<lparr>ddUser = ''me'', ddHost = ''::1'', ddPort = 22\<rparr>"
proof
  have parts: "cut_last (CHR ''@'') ''me@[::1]:22'' = Some (''me'', ''[::1]:22'')"
    using cut_last_append [of "CHR ''@''" "''[::1]:22''" "''me''"] by simp
  have user: "matches_DirectUserPattern ''me''"
    by (simp add: matches_DirectUserPattern_def user_byte_ok_def shell_bytes_def byte_of_def)
  have "ParseUint 16 ''22'' = Some 22"
    by (simp add: ParseUint_def decimal_value_def digit_value_def is_digit_def)
  then have split: "splitDirectHost ''[::1]:22'' = Some (''::1'', 22)"
    by (simp add: splitDirectHost_def has_prefix_def cut_at_def Port_def)
  have "ParseIP_ok ''::1''" by code_simp
  then have host: "Hostname ''::1''" by (simp add: Hostname_def MaxHostnameLength_def)
  show p: "ParseDirectDestination ''me@[::1]:22'' = Some \<lparr>ddUser = ''me'', ddHost = ''::1'', ddPort = 22\<rparr>"
    by (simp add: ParseDirectDestination_def parts user split host MaxDirectDestinationLength_def MaxUserLength_def
        MaxHostnameLength_def)
  show "\<not> Alias ''me@[::1]:22''" using DirectDestination_safe [OF p] by simp
qed

text \<open>
  C28. An accepted group name is a relative path of one to six segments, none of which is empty,
  a dot name, an option or a name with a meaning of its own in the ssh directory, whatever its case.
\<close>

theorem GroupName_safe:
  assumes "GroupName name"
  shows "join_with (CHR ''/'') (split_at (CHR ''/'') name) = name \<and> length (split_at (CHR ''/'') name) \<le> 6 \<and>
    (\<forall>w \<in> set (split_at (CHR ''/'') name). w \<noteq> [] \<and> length w \<le> 64 \<and> w \<noteq> ''.'' \<and> w \<noteq> ''..'' \<and> hd w \<noteq> CHR ''-'' \<and>
      list_all is_name_byte w \<and> LowerASCII w \<notin> set ReservedNames)"
proof -
  have "w \<noteq> [] \<and> length w \<le> 64 \<and> w \<noteq> ''.'' \<and> w \<noteq> ''..'' \<and> hd w \<noteq> CHR ''-'' \<and> list_all is_name_byte w \<and>
      LowerASCII w \<notin> set ReservedNames" if w: "w \<in> set (split_at (CHR ''/'') name)" for w
  proof -
    have g: "GroupSegment w" using assms w by (auto simp: GroupName_def Let_def list_all_iff split: if_splits)
    then have m: "matches_AliasPattern w" "length w \<le> 64" "\<not> Reserved w"
      by (auto simp: GroupSegment_def matches_GroupSegmentPattern_def split: if_splits)
    then obtain c cs where c: "w = c # cs" "is_alnum c" "list_all is_name_byte cs"
      by (auto simp: matches_AliasPattern_def split: list.splits)
    have n: "\<not> is_alnum CHR ''-''" "\<not> is_alnum CHR ''.''" by (simp_all add: is_alnum_def is_digit_def byte_of_def)
    have bytes: "list_all is_name_byte w" using c by (simp add: is_name_byte_def)
    have "is_name_byte b \<Longrightarrow> of_char b < (128 :: nat)" for b
      by (auto simp: is_name_byte_def is_alnum_def is_digit_def byte_of_def)
    then have "is_ascii w" using bytes by (auto simp: is_ascii_def list_all_iff)
    then have "LowerASCII w \<notin> set ReservedNames" using m(3) by (simp add: Reserved_def ToLower_ascii)
    then show ?thesis using c n bytes m(2) by auto
  qed
  moreover have "length (split_at (CHR ''/'') name) \<le> 6"
    using assms by (auto simp: GroupName_def Let_def MaxGroupSegments_def split: if_splits)
  ultimately show ?thesis by simp
qed

theorem GroupName_safe_witness: "GroupName ''work/eu-1'' \<and> ''work'' \<noteq> ''..''"
proof
  show g: "GroupName ''work/eu-1''" by code_simp
  show "''work'' \<noteq> ''..''" using GroupName_safe [OF g] by simp
qed

text \<open>
  C29. An accepted chord is exactly a subsequence of Ctrl, Alt, Shift, Meta in this order, each with
  a plus sign, and a key; unless the key is a function key a modifier other than Shift is among them.
\<close>

theorem ShortcutChord_exact:
  "ShortcutChord chord \<longleftrightarrow>
     (\<exists>modifiers key. chord = concat (map (\<lambda>m. m @ ''+'') modifiers) @ key \<and>
        subseq modifiers [''Ctrl'', ''Alt'', ''Shift'', ''Meta''] \<and> matches_ShortcutKey key \<and>
        (matches_ShortcutFunctionKey key \<or> list_ex (\<lambda>m. m = ''Ctrl'' \<or> m = ''Alt'' \<or> m = ''Meta'') modifiers))"
    (is "_ = (\<exists>ms key. ?chord ms key \<and> ?order ms \<and> ?key key \<and> ?command ms key)")
proof
  have cmd: "list_ex (List.member ShortcutCommandModifiers) ms = list_ex (\<lambda>m. m = ''Ctrl'' \<or> m = ''Alt'' \<or> m = ''Meta'') ms" for ms
    by (induction ms) (auto simp: ShortcutCommandModifiers_def)
  show "\<exists>ms key. ?chord ms key \<and> ?order ms \<and> ?key key \<and> ?command ms key" if c: "ShortcutChord chord"
  proof (cases "cut_last (CHR ''+'') chord")
    case None
    then have "?chord [] chord \<and> ?order [] \<and> ?key chord \<and> ?command [] chord"
      using c by (auto simp: ShortcutChord_def split: if_splits)
    then show ?thesis by blast
  next
    case (Some p)
    then obtain before key where p: "cut_last (CHR ''+'') chord = Some (before, key)" by (cases p) auto
    define ms where "ms = split_at (CHR ''+'') before"
    have "chord = before @ CHR ''+'' # key" using cut_last_Some [OF p] by simp
    also have "before = join_with (CHR ''+'') ms" by (simp add: ms_def)
    finally have "?chord ms key" using concat_join [of ms "CHR ''+''"] by (simp add: ms_def)
    moreover have "?order ms \<and> ?key key \<and> ?command ms key"
      using c unfolding ShortcutChord_def p inShortcutModifierOrder_def modifier_order_subseq cmd ShortcutModifiers_def
      by (auto simp: ms_def split: if_splits)
    ultimately show ?thesis by blast
  qed
  show "ShortcutChord chord" if e: "\<exists>ms key. ?chord ms key \<and> ?order ms \<and> ?key key \<and> ?command ms key"
  proof -
    obtain ms key where m: "?chord ms key" "?order ms" "?key key" "?command ms key" using e by blast
    have order: "inShortcutModifierOrder ms"
      using m(2) by (simp add: inShortcutModifierOrder_def modifier_order_subseq ShortcutModifiers_def)
    have plain: "CHR ''+'' \<notin> set key" by (rule key_plain [OF m(3)])
    show ?thesis
    proof (cases "ms = []")
      case True
      then show ?thesis using m plain order by (simp add: ShortcutChord_def cut_last_None [THEN iffD2])
    next
      case False
      then have "chord = join_with (CHR ''+'') ms @ CHR ''+'' # key" using m(1) concat_join [of ms "CHR ''+''"] by simp
      then have "cut_last (CHR ''+'') chord = Some (join_with (CHR ''+'') ms, key)" using cut_last_append [OF plain] by simp
      moreover have "split_at (CHR ''+'') (join_with (CHR ''+'') ms) = ms"
        using False m(2) modifiers_plain by (intro split_join) (simp_all add: ShortcutModifiers_def)
      ultimately show ?thesis using m(3,4) order cmd by (auto simp: ShortcutChord_def)
    qed
  qed
qed

end
