(* ===== verification/ConfigEdit.thy ===== *)
theory ConfigEdit
  imports EffDirective Validate
begin

text \<open>
  The structured edits of a configuration file (internal/application/edit.go, restofline.go): a
  list of field edits against one block, the replacement of a whole block by raw text, the renaming
  of an alias and of the comment above a Host line. Every operation returns the new lines or the
  error, and leaves the file as it was on an error.
\<close>

section \<open>Edits and their errors\<close>

datatype EditAction = ActionSet | ActionAdd | ActionRemove | OtherAction gostring

datatype edit_error = ErrUnknownEditAction | ErrEditLineOutsideBlock | ErrEditLineNotDirective
  | ErrDuplicateEditLine | ErrUnquotable | ErrEmptyKeyword | ErrInvalidKeyword | ErrStructuralKeyword
  | ErrRawBlockHeader | ErrRawBlockStructure | ErrInvalidAlias | ErrHostNotFound

record FieldEdit =
  editAction :: EditAction
  editLine :: int
  editKeyword :: gostring
  editValues :: "gostring list"

definition structuralKeywords :: "gostring list" where
  "structuralKeywords = [''host'', ''match'', ''include'']"

definition is_letter :: "char \<Rightarrow> bool" where
  "is_letter c \<longleftrightarrow> (97 \<le> (of_char c :: nat) \<and> (of_char c :: nat) \<le> 122) \<or> (65 \<le> (of_char c :: nat) \<and> (of_char c :: nat) \<le> 90)"

fun keyword_bytes_ok :: "gostring \<Rightarrow> nat \<Rightarrow> bool" where
  "keyword_bytes_ok [] index = True"
| "keyword_bytes_ok (c # cs) index =
     (if \<not> is_letter c \<and> \<not> (index > 0 \<and> (is_digit c \<or> c = CHR ''-'')) then False
      else keyword_bytes_ok cs (index + 1))"

definition validateKeyword :: "gostring \<Rightarrow> edit_error option" where
  "validateKeyword keyword =
     (if keyword = [] then Some ErrEmptyKeyword
      else if List.member structuralKeywords (ToLower keyword) then Some ErrStructuralKeyword
      else if length keyword > 64 then Some ErrInvalidKeyword
      else if \<not> keyword_bytes_ok keyword 0 then Some ErrInvalidKeyword
      else None)"

definition validate_edit :: "Line list \<Rightarrow> Block \<Rightarrow> int list \<Rightarrow> FieldEdit \<Rightarrow> edit_error option" where
  "validate_edit f b touched e =
     (let index = editLine e - 1 in
      if index < int (blockStart b) \<or> index \<ge> int (blockEnd b) \<or> index \<ge> int (length f) then Some ErrEditLineOutsideBlock
      else if List.member touched index then Some ErrDuplicateEditLine
      else let l = f ! nat index in
        if lineKind l \<noteq> LineDirective then Some ErrEditLineNotDirective
        else if List.member structuralKeywords (ToLower (lineKeyword l)) then Some ErrStructuralKeyword
        else if editAction e = ActionSet \<and> editKeyword e \<noteq> [] then validateKeyword (editKeyword e)
        else None)"

fun validateFieldEdits :: "Line list \<Rightarrow> Block \<Rightarrow> int list \<Rightarrow> FieldEdit list \<Rightarrow> edit_error option" where
  "validateFieldEdits f b touched [] = None"
| "validateFieldEdits f b touched (e # es) =
     (case editAction e of
        OtherAction _ \<Rightarrow> Some ErrUnknownEditAction
      | ActionAdd \<Rightarrow>
          (case validateKeyword (editKeyword e) of
             Some err \<Rightarrow> Some err
           | None \<Rightarrow> validateFieldEdits f b touched es)
      | _ \<Rightarrow>
          (case validate_edit f b touched e of
             Some err \<Rightarrow> Some err
           | None \<Rightarrow> validateFieldEdits f b ((editLine e - 1) # touched) es))"

section \<open>Rewriting one directive\<close>

definition splitCommentArguments :: "Argument list \<Rightarrow> Argument list \<times> Argument list" where
  "splitCommentArguments as =
     (takeWhile (\<lambda>a. \<not> has_prefix (argRaw a) ''#'') as, dropWhile (\<lambda>a. \<not> has_prefix (argRaw a) ''#'') as)"

definition renderArgument :: "gostring \<Rightarrow> gostring \<Rightarrow> edit_error + Argument" where
  "renderArgument lead v = (case RenderArgument lead v of Inl _ \<Rightarrow> Inl ErrUnquotable | Inr a \<Rightarrow> Inr a)"

text \<open>The first value has no blank before it, the others one; an argument that was there keeps its blanks.\<close>

definition value_lead :: "Argument list \<Rightarrow> nat \<Rightarrow> gostring" where
  "value_lead existing index =
     (if index < length existing then argLead (existing ! index) else if index = 0 then [] else [SP])"

fun render_values :: "Argument list \<Rightarrow> nat \<Rightarrow> gostring list \<Rightarrow> edit_error + Argument list" where
  "render_values existing index [] = Inr []"
| "render_values existing index (v # vs) =
     (case renderArgument (value_lead existing index) v of
        Inl err \<Rightarrow> Inl err
      | Inr a \<Rightarrow> (case render_values existing (index + 1) vs of Inl err \<Rightarrow> Inl err | Inr as \<Rightarrow> Inr (a # as)))"

text \<open>The loop over the comment: its first argument gets a blank if it would be first of all.\<close>

definition append_comment :: "Argument list \<Rightarrow> Argument list \<Rightarrow> Argument list" where
  "append_comment arguments comment =
     (case comment of
        [] \<Rightarrow> arguments
      | a # rest \<Rightarrow> arguments @ (if arguments = [] \<and> argLead a = [] then a\<lparr>argLead := [SP]\<rparr> else a) # rest)"

definition rebuildLine :: "Line \<Rightarrow> gostring \<Rightarrow> gostring list \<Rightarrow> edit_error + Line" where
  "rebuildLine l keyword values =
     (case splitCommentArguments (lineArguments l) of (existing, comment) \<Rightarrow>
        (case render_values existing 0 values of
           Inl err \<Rightarrow> Inl err
         | Inr arguments \<Rightarrow>
             Inr (l\<lparr>lineKeyword := keyword,
                    lineSeparator := (if lineSeparator l = [] then [SP] else lineSeparator l),
                    lineArguments := append_comment arguments comment\<rparr>)))"

definition restOfLineArguments :: "gostring \<Rightarrow> gostring list \<Rightarrow> edit_error + Argument list" where
  "restOfLineArguments keyword values =
     (let text = Trim [SP, TAB] (join_with SP values) in
      if text = [] then Inr []
      else if contains_any text [LF, CR, NUL] then Inl ErrUnquotable
      else (case Parse (keyword @ SP # text) of
              [l] \<Rightarrow>
                (if lineKind l \<noteq> LineDirective \<or> lineSeparator l \<noteq> [SP] then Inl ErrUnquotable
                 else Inr ((lineArguments l)[0 := (lineArguments l ! 0)\<lparr>argLead := []\<rparr>]))
            | _ \<Rightarrow> Inl ErrUnquotable))"

definition rebuildRestOfLine :: "Line \<Rightarrow> gostring \<Rightarrow> gostring list \<Rightarrow> edit_error + Line" where
  "rebuildRestOfLine l keyword values =
     (case restOfLineArguments keyword values of
        Inl err \<Rightarrow> Inl err
      | Inr arguments \<Rightarrow>
          Inr (l\<lparr>lineKeyword := keyword,
                 lineSeparator := (if lineSeparator l = [] then [SP] else lineSeparator l),
                 lineArguments :=
                   (if arguments \<noteq> [] \<and> lineArguments l \<noteq> []
                    then arguments[0 := (arguments ! 0)\<lparr>argLead := argLead (lineArguments l ! 0)\<rparr>]
                    else arguments)\<rparr>))"

definition rebuildDirective :: "Line \<Rightarrow> gostring \<Rightarrow> gostring list \<Rightarrow> edit_error + Line" where
  "rebuildDirective l keyword values =
     (case validateKeyword keyword of
        Some err \<Rightarrow> Inl err
      | None \<Rightarrow> if TakesRestOfLine keyword then rebuildRestOfLine l keyword values else rebuildLine l keyword values)"

definition formValues :: "Line \<Rightarrow> gostring list" where
  "formValues l = (if \<not> TakesRestOfLine (lineKeyword l) then Values l else nonEmpty (ArgumentText l))"

definition blankDirectiveLine :: "gostring \<Rightarrow> gostring \<Rightarrow> Line" where
  "blankDirectiveLine indent ending = \<lparr>lineKind = LineDirective, lineText = [], lineIndent = indent, lineKeyword = [],
     lineSeparator = [SP], lineArguments = [], lineTrailing = [], lineEnding = ending\<rparr>"

definition buildLine :: "gostring \<Rightarrow> gostring \<Rightarrow> gostring list \<Rightarrow> gostring \<Rightarrow> edit_error + Line" where
  "buildLine indent keyword values ending =
     (case render_values [] 0 values of
        Inl err \<Rightarrow> Inl err
      | Inr arguments \<Rightarrow> Inr ((blankDirectiveLine indent ending)\<lparr>lineKeyword := keyword, lineArguments := arguments\<rparr>))"

section \<open>Where a new line goes\<close>

definition is_directive_at :: "Line list \<Rightarrow> nat \<Rightarrow> bool" where
  "is_directive_at f i \<longleftrightarrow> i < length f \<and> lineKind (f ! i) = LineDirective"

definition appendPosition :: "Line list \<Rightarrow> Block \<Rightarrow> nat" where
  "appendPosition f b =
     fold (\<lambda>i position. if is_directive_at f i then i + 1 else position) [blockStart b..<blockEnd b] (blockStart b)"

definition blockIndent :: "Line list \<Rightarrow> Block \<Rightarrow> gostring" where
  "blockIndent f b =
     (case find (is_directive_at f) (rev [blockStart b..<blockEnd b]) of None \<Rightarrow> [TAB] | Some i \<Rightarrow> lineIndent (f ! i))"

definition dominantEnding :: "Line list \<Rightarrow> gostring" where
  "dominantEnding f = (case find (\<lambda>l. lineEnding l \<noteq> []) f of None \<Rightarrow> [LF] | Some l \<Rightarrow> lineEnding l)"

definition blockEnding :: "Line list \<Rightarrow> Block \<Rightarrow> gostring" where
  "blockEnding f b =
     (case find (\<lambda>i. is_directive_at f i \<and> lineEnding (f ! i) \<noteq> []) (rev [blockStart b..<blockEnd b]) of
        None \<Rightarrow> dominantEnding f
      | Some i \<Rightarrow> lineEnding (f ! i))"

definition insertLine :: "Line list \<Rightarrow> nat \<Rightarrow> Line \<Rightarrow> Line list" where
  "insertLine f position l =
     (let g = (if position > 0 \<and> lineEnding (f ! (position - 1)) = []
               then f[position - 1 := (f ! (position - 1))\<lparr>lineEnding := lineEnding l\<rparr>] else f)
      in take position g @ l # drop position g)"

section \<open>Applying field edits\<close>

fun apply_sets :: "Line list \<Rightarrow> FieldEdit list \<Rightarrow> edit_error + Line list" where
  "apply_sets staged [] = Inr staged"
| "apply_sets staged (e # es) =
     (if editAction e \<noteq> ActionSet then apply_sets staged es
      else let index = nat (editLine e - 1);
               keyword = (if editKeyword e \<noteq> [] then editKeyword e else lineKeyword (staged ! index))
        in (case rebuildDirective (staged ! index) keyword (editValues e) of
              Inl err \<Rightarrow> Inl err
            | Inr l \<Rightarrow> apply_sets (staged[index := l]) es))"

definition removal_indices :: "FieldEdit list \<Rightarrow> nat list" where
  "removal_indices es = rev (sort (map (\<lambda>e. nat (editLine e - 1)) (filter (\<lambda>e. editAction e = ActionRemove) es)))"

definition remove_at :: "nat \<Rightarrow> Line list \<Rightarrow> Line list" where
  "remove_at index staged = take index staged @ drop (index + 1) staged"

text \<open>\<open>BlockAt(block.Header)\<close>; only the global block has the header -1.\<close>

definition BlockAtHeader :: "(gostring \<Rightarrow> gostring) \<Rightarrow> Line list \<Rightarrow> int \<Rightarrow> Block" where
  "BlockAtHeader to_lower f header = (if header < 0 then hd (Blocks to_lower f) else BlockAt to_lower f (nat header))"

definition apply_add :: "(gostring \<Rightarrow> gostring) \<Rightarrow> int \<Rightarrow> Line list \<Rightarrow> FieldEdit \<Rightarrow> edit_error + Line list" where
  "apply_add to_lower header staged e =
     (let current = BlockAtHeader to_lower staged header;
          added = blankDirectiveLine (blockIndent staged current) (blockEnding staged current)
      in (case rebuildDirective added (editKeyword e) (editValues e) of
            Inl err \<Rightarrow> Inl err
          | Inr l \<Rightarrow> Inr (insertLine staged (appendPosition staged current) l)))"

fun apply_adds :: "(gostring \<Rightarrow> gostring) \<Rightarrow> int \<Rightarrow> Line list \<Rightarrow> FieldEdit list \<Rightarrow> edit_error + Line list" where
  "apply_adds to_lower header staged [] = Inr staged"
| "apply_adds to_lower header staged (e # es) =
     (if editAction e \<noteq> ActionAdd then apply_adds to_lower header staged es
      else (case apply_add to_lower header staged e of
              Inl err \<Rightarrow> Inl err
            | Inr staged' \<Rightarrow> apply_adds to_lower header staged' es))"

definition ApplyFieldEdits :: "(gostring \<Rightarrow> gostring) \<Rightarrow> Line list \<Rightarrow> Block \<Rightarrow> FieldEdit list \<Rightarrow> edit_error + Line list" where
  "ApplyFieldEdits to_lower f b es =
     (case validateFieldEdits f b [] es of
        Some err \<Rightarrow> Inl err
      | None \<Rightarrow>
          (case apply_sets f es of
             Inl err \<Rightarrow> Inl err
           | Inr staged \<Rightarrow> apply_adds to_lower (blockHeader b) (fold remove_at (removal_indices es) staged) es))"

section \<open>Whole blocks, aliases and comments\<close>

definition ReplaceBlock :: "Line list \<Rightarrow> Block \<Rightarrow> gostring \<Rightarrow> edit_error + Line list" where
  "ReplaceBlock f b raw =
     (if blockHeader b < 0 \<or> blockHeader b \<ge> int (length f) then Inl ErrRawBlockHeader
      else
        let replacement = Parse raw;
            is_header = (\<lambda>l. EqualKeyword (lineKeyword l) ''Host'' \<or> EqualKeyword (lineKeyword l) ''Match'');
            directives = filter (\<lambda>l. lineKind l = LineDirective) replacement in
        (case directives of
           [] \<Rightarrow> Inl ErrRawBlockHeader
         | header # _ \<Rightarrow>
             (if \<not> is_header header then Inl ErrRawBlockHeader
              else if length (filter is_header directives) \<noteq> 1 then Inl ErrRawBlockStructure
              else
                let closed = (if blockEnd b < length f \<and> lineEnding (last replacement) = []
                       then butlast replacement @ [(last replacement)\<lparr>lineEnding := dominantEnding f\<rparr>]
                       else replacement)
                in Inr (take (nat (blockHeader b)) f @ closed @ drop (blockEnd b) f))))"

fun replace_first :: "gostring \<Rightarrow> gostring \<Rightarrow> gostring list \<Rightarrow> gostring list" where
  "replace_first old new [] = []"
| "replace_first old new (v # vs) = (if v = old then new # vs else v # replace_first old new vs)"

definition RenameHostAlias :: "Line list \<Rightarrow> Block \<Rightarrow> gostring \<Rightarrow> gostring \<Rightarrow> edit_error + Line list" where
  "RenameHostAlias f b oldAlias newAlias =
     (if \<not> Alias newAlias then Inl ErrInvalidAlias
      else if blockKind b \<noteq> BlockHost \<or> blockHeader b < 0 \<or> blockHeader b \<ge> int (length f) then Inl ErrRawBlockHeader
      else let h = nat (blockHeader b); header = f ! h; values = Values header in
        if \<not> List.member values oldAlias then Inl ErrHostNotFound
        else (case rebuildLine header (lineKeyword header) (replace_first oldAlias newAlias values) of
                Inl err \<Rightarrow> Inl err
              | Inr l \<Rightarrow> Inr (f[h := l])))"

definition SetHostComment :: "Line list \<Rightarrow> Block \<Rightarrow> gostring \<Rightarrow> edit_error + Line list" where
  "SetHostComment f b text =
     (if blockKind b \<noteq> BlockHost \<or> blockHeader b < 0 \<or> blockHeader b \<ge> int (length f) then Inl ErrHostNotFound
      else let h = nat (blockHeader b); start = nat (CommentRun f (blockHeader b));
               replacement = RenderComment text (lineIndent (f ! h)) (blockEnding f b)
        in Inr (take start f @ replacement @ drop h f))"

section \<open>What the splitter returns\<close>

lemma readWord_stops: "readWord s quote = (v, n, True) \<Longrightarrow> at_break (drop n s)"
proof (induction s quote arbitrary: v n rule: readWord.induct)
  case (2 c cs quote)
  consider (escape) "escapes c cs quote" | (brk) "\<not> escapes c cs quote" "breaks c quote"
    | (opn) "\<not> escapes c cs quote" "\<not> breaks c quote" "opens c quote"
    | (cls) "\<not> escapes c cs quote" "\<not> breaks c quote" "\<not> opens c quote" "quote = Some c"
    | (plain) "\<not> escapes c cs quote" "\<not> breaks c quote" "\<not> opens c quote" "quote \<noteq> Some c"
    by blast
  then show ?case
  proof cases
    case escape
    then obtain m where "readWord (tl cs) quote = (tl v, m, True)" "n = m + 2" "0 < length cs"
      using "2.prems" escapes_nonempty [OF escape] by (auto split: prod.splits)
    then show ?thesis using "2.IH"(1) [OF escape] by (cases cs) auto
  next
    case brk
    then show ?thesis using "2.prems" by (auto simp: breaks_def at_break_def)
  next
    case opn
    then show ?thesis using "2.prems" "2.IH"(2) by (auto split: prod.splits)
  next
    case cls
    then show ?thesis using "2.prems" "2.IH"(3) by (auto split: prod.splits)
  next
    case plain
    then show ?thesis using "2.prems" "2.IH"(4) by (auto split: prod.splits)
  qed
qed (simp add: at_break_def)

text \<open>
  The shape of a split line: values, then at most one comment; blanks before all but the first.
\<close>

definition split_shape :: "Argument list \<Rightarrow> gostring \<Rightarrow> bool" where
  "split_shape as trailing \<longleftrightarrow> list_all (\<lambda>a. list_all isSpace (argLead a)) as \<and> separated (drop 1 as) \<and>
     list_all isSpace trailing \<and>
     (case dropWhile (\<lambda>a. \<not> has_prefix (argRaw a) ''#'') as of
        [] \<Rightarrow> True
      | [a] \<Rightarrow> argValue a = argRaw a \<and> \<not> isSpace (last (argRaw a))
      | _ \<Rightarrow> False)"

lemma separated_Cons: "separated (a # as) \<longleftrightarrow> argLead a \<noteq> [] \<and> separated as"
  by (simp add: separated_def)

lemma separated_drop: "separated as \<Longrightarrow> separated (drop n as)"
  by (auto simp: separated_def list_all_iff dest: in_set_dropD)

lemma splitArguments_shape:
  "splitArguments input = Some (as, trailing) \<Longrightarrow>
     split_shape as trailing \<and> (as \<noteq> [] \<longrightarrow> argLead (hd as) = takeWhile isSpace input)"
proof (induction input arbitrary: as trailing rule: splitArguments.induct)
  case (1 input)
  define lead where "lead = takeWhile isSpace input"
  define rest where "rest = dropWhile isSpace input"
  have lead: "list_all isSpace lead" by (auto simp: lead_def list_all_iff dest: set_takeWhileD)
  note step = "1.prems" [unfolded splitArguments.simps [of input] Let_def lead_def [symmetric] rest_def [symmetric]]
  show ?case
  proof (cases rest)
    case Nil
    then show ?thesis using step lead by (auto simp: split_shape_def separated_def)
  next
    case (Cons c cs)
    have c: "\<not> isSpace c" using Cons dropWhile_hd by (simp add: rest_def)
    show ?thesis
    proof (cases "c = CHR ''#''")
      case True
      let ?raw = "trim_right isSpace rest"
      have as: "as = [\<lparr>argLead = lead, argRaw = ?raw, argValue = ?raw\<rparr>]" "trailing = right_run isSpace rest"
        using step Cons True by auto
      have "\<exists>x. x \<in> set rest \<and> \<not> isSpace x" using Cons c by auto
      then have ne: "?raw \<noteq> []" by (auto simp: trim_right_def)
      then have "hd ?raw = CHR ''#''" "\<not> isSpace (last ?raw)"
        using trim_right_hd [OF ne] trim_right_last [OF ne] Cons True by auto
      then show ?thesis using as ne lead right_run_all [of _ isSpace rest]
        by (cases ?raw) (auto simp: split_shape_def separated_def list_all_iff lead_def)
    next
      case False
      obtain v n closed where w: "readWord rest None = (v, n, closed)" by (cases "readWord rest None")
      then have closed: "closed" using step Cons False by (auto split: if_splits)
      obtain as' where as': "splitArguments (drop n rest) = Some (as', trailing)"
        "as = \<lparr>argLead = lead, argRaw = take n rest, argValue = v\<rparr> # as'"
        using step Cons False w closed by (auto split: option.splits)
      have brk: "at_break (drop n rest)" using readWord_stops w closed by auto
      have n: "0 < n" using readWord_progress [of c cs v n closed] w c Cons by simp
      have IH: "split_shape as' trailing \<and> (as' \<noteq> [] \<longrightarrow> argLead (hd as') = takeWhile isSpace (drop n rest))"
        by (rule "1.IH" [OF lead_def rest_def Cons False]) (use w closed as' Cons in auto)
      have "as' \<noteq> [] \<Longrightarrow> drop n rest \<noteq> []" using as'(1) by (auto simp: splitArguments.simps)
      then have "as' \<noteq> [] \<Longrightarrow> argLead (hd as') \<noteq> []"
        using IH brk by (cases "drop n rest") (auto simp: at_break_def)
      then have "separated as'" using IH by (cases as') (auto simp: split_shape_def separated_Cons)
      moreover have "\<not> has_prefix (take n rest) ''#''" using Cons False n by (cases n) auto
      ultimately show ?thesis using IH lead as'(2) by (auto simp: split_shape_def lead_def)
    qed
  qed
qed

lemma read_separator_cases:
  "read_separator s = takeWhile isSpace s \<and> (\<forall>d ds. dropWhile isSpace s = d # ds \<longrightarrow> d \<noteq> CHR ''='') \<or>
   (\<exists>ds. s = takeWhile isSpace s @ CHR ''='' # ds \<and> read_separator s = takeWhile isSpace s @ CHR ''='' # takeWhile isSpace ds)"
proof (cases "dropWhile isSpace s")
  case Nil
  then have "read_separator s = takeWhile isSpace s" unfolding read_separator_def Let_def by (simp only: list.case)
  then show ?thesis using Nil by (simp only: list.distinct(1)) simp
next
  case (Cons d ds)
  have s: "s = takeWhile isSpace s @ d # ds" unfolding Cons [symmetric] by simp
  show ?thesis
  proof (cases "d = CHR ''=''")
    case True
    then have "read_separator s = takeWhile isSpace s @ CHR ''='' # takeWhile isSpace ds"
      unfolding read_separator_def Let_def Cons by simp
    then show ?thesis using s True by blast
  next
    case False
    then have "read_separator s = takeWhile isSpace s" unfolding read_separator_def Let_def Cons by simp
    then show ?thesis using Cons False by simp
  qed
qed

lemma blanks_takeWhile [simp]: "list_all isSpace (takeWhile isSpace s)"
  by (auto simp: list_all_iff dest: set_takeWhileD)

lemma read_separator_shape: "read_separator s = [] \<or> separator_ok (read_separator s)"
proof -
  have "separator_ok (takeWhile isSpace s)" if "takeWhile isSpace s \<noteq> []"
    unfolding separator_ok_def using that blanks_takeWhile by (metis list.pred_inject(1))
  moreover have "separator_ok (takeWhile isSpace s @ CHR ''='' # takeWhile isSpace ds)" for ds
    unfolding separator_ok_def using blanks_takeWhile by metis
  ultimately show ?thesis using read_separator_cases [of s] by metis
qed

lemma takeWhile_drop_takeWhile: "takeWhile P (drop (length (takeWhile P s)) s) = []"
  by (induction s) auto

lemma read_separator_rest: "takeWhile isSpace (drop (length (read_separator s)) s) = []"
proof -
  have "takeWhile isSpace (drop (length (takeWhile isSpace s @ CHR ''='' # takeWhile isSpace ds)) s) = []"
    if "s = takeWhile isSpace s @ CHR ''='' # ds" for ds
  proof -
    have "drop (length (takeWhile isSpace s @ CHR ''='' # takeWhile isSpace ds)) (takeWhile isSpace s @ CHR ''='' # ds) =
        drop (length (takeWhile isSpace ds)) ds" by simp
    then show ?thesis using that takeWhile_drop_takeWhile [of isSpace ds] by simp
  qed
  then show ?thesis using read_separator_cases [of s] takeWhile_drop_takeWhile [of isSpace s] by auto
qed

lemma parseLine_directive:
  assumes "lineKind (parseLine c e) = LineDirective"
  shows "list_all isSpace (lineIndent (parseLine c e))" "split_shape (lineArguments (parseLine c e)) (lineTrailing (parseLine c e))"
    "lineSeparator (parseLine c e) = [] \<or> separator_ok (lineSeparator (parseLine c e))"
    "lineArguments (parseLine c e) \<noteq> [] \<Longrightarrow> argLead (hd (lineArguments (parseLine c e))) = []"
    "lineText (parseLine c e) = []" "lineEnding (parseLine c e) = e"
proof -
  define body where "body = dropWhile isSpace c"
  define rest where "rest = dropWhile is_keyword_byte body"
  define sep where "sep = read_separator rest"
  obtain as trailing where s: "splitArguments (drop (length sep) rest) = Some (as, trailing)"
    and l: "parseLine c e = \<lparr>lineKind = LineDirective, lineText = [], lineIndent = takeWhile isSpace c,
      lineKeyword = takeWhile is_keyword_byte body, lineSeparator = sep, lineArguments = as, lineTrailing = trailing, lineEnding = e\<rparr>"
    using assms unfolding parseLine_def Let_def body_def [symmetric] rest_def [symmetric] sep_def [symmetric]
    by (auto simp: verbatim_line_def split: if_splits option.splits)
  show "list_all isSpace (lineIndent (parseLine c e))" by (auto simp: l list_all_iff dest: set_takeWhileD)
  show "split_shape (lineArguments (parseLine c e)) (lineTrailing (parseLine c e))"
    using splitArguments_shape [OF s] by (simp add: l)
  show "lineSeparator (parseLine c e) = [] \<or> separator_ok (lineSeparator (parseLine c e))"
    using read_separator_shape by (simp add: l sep_def)
  have "takeWhile isSpace (drop (length sep) rest) = []" by (simp add: sep_def read_separator_rest)
  then show "lineArguments (parseLine c e) \<noteq> [] \<Longrightarrow> argLead (hd (lineArguments (parseLine c e))) = []"
    using splitArguments_shape [OF s] by (simp add: l)
  show "lineText (parseLine c e) = []" "lineEnding (parseLine c e) = e" by (simp_all add: l)
qed

section \<open>A rebuilt line reads back\<close>

lemma render_values_written:
  assumes "render_values existing i vs = Inr as" and "list_all (\<lambda>a. list_all isSpace (argLead a)) existing"
  shows "list_all reads_as_written as \<and> map argValue as = vs \<and> list_all (\<lambda>a. hd (argRaw a) \<noteq> CHR ''='') as \<and>
    map argLead as = map (value_lead existing) [i..<i + length vs]"
  using assms(1)
proof (induction vs arbitrary: i as)
  case (Cons v vs)
  obtain a as' where a: "RenderArgument (value_lead existing i) v = Inr a"
    "render_values existing (i + 1) vs = Inr as'" "as = a # as'"
    using Cons.prems by (auto simp: renderArgument_def split: sum.splits)
  have "list_all isSpace (value_lead existing i)"
    using assms(2) by (simp add: value_lead_def list_all_length isSpace_def)
  moreover have "[i..<i + length (v # vs)] = i # [i + 1..<i + 1 + length vs]" by (simp add: upt_conv_Cons del: upt_Suc)
  ultimately show ?case
    using RenderArgument_reads_as_written [OF a(1)] Cons.IH [OF a(2)] a(3) by (simp del: upt_Suc)
qed simp

lemma char_dash_plain: "CHR ''-'' \<notin> {SP, TAB, CHR ''='', DQUOTE, CHR ''#'', LF}"
  by simp

lemma keyword_bytes:
  assumes "is_letter c \<or> is_digit c \<or> c = CHR ''-''"
  shows "is_keyword_byte c \<and> of_char c < (128 :: nat) \<and> c \<noteq> CHR ''#'' \<and> c \<noteq> LF"
proof
  have "\<not> is_letter x \<and> \<not> is_digit x" if "x \<in> {SP, TAB, CHR ''='', DQUOTE, CHR ''#'', LF}" for x
    using that by (elim insertE) (simp_all add: is_letter_def is_digit_def)
  then have notin: "c \<notin> {SP, TAB, CHR ''='', DQUOTE, CHR ''#'', LF}" using assms by (metis insertE singletonD insert_not_empty char_dash_plain)
  then show "is_keyword_byte c" by (simp add: is_keyword_byte_def isSpace_def)
  have "of_char c < (128 :: nat)" using assms by (elim disjE) (simp_all add: is_letter_def is_digit_def, linarith)
  then show "of_char c < (128 :: nat) \<and> c \<noteq> CHR ''#'' \<and> c \<noteq> LF" using notin by simp
qed

lemma keyword_bytes_ok_all:
  "keyword_bytes_ok k i \<Longrightarrow> list_all (\<lambda>c. is_keyword_byte c \<and> of_char c < (128 :: nat) \<and> c \<noteq> CHR ''#'' \<and> c \<noteq> LF) k"
proof (induction k arbitrary: i)
  case (Cons c cs)
  then have "is_letter c \<or> is_digit c \<or> c = CHR ''-''" and "keyword_bytes_ok cs (i + 1)" by (auto split: if_splits)
  with keyword_bytes Cons.IH show ?case by simp
qed simp

lemma validateKeyword_ok:
  assumes "validateKeyword k = None"
  shows "keyword_ok k" "is_ascii k" "LF \<notin> set k"
proof -
  have k: "k \<noteq> []" "keyword_bytes_ok k 0" using assms by (auto simp: validateKeyword_def split: if_splits)
  have "list_all (\<lambda>c. is_keyword_byte c \<and> of_char c < (128 :: nat) \<and> c \<noteq> CHR ''#'' \<and> c \<noteq> LF) k"
    by (rule keyword_bytes_ok_all [OF k(2)])
  then show "keyword_ok k" "is_ascii k" "LF \<notin> set k"
    using k(1) by (auto simp: keyword_ok_def is_ascii_def list_all_iff)
qed

lemma comment_shape:
  assumes "split_shape as trailing" and "splitCommentArguments as = (existing, comment)" and "existing \<noteq> []"
  shows "comment_tail comment" "list_all (\<lambda>a. list_all isSpace (argLead a)) existing" "separated (drop 1 existing)"
    "hd existing = hd as" "takeWhile (\<lambda>a. \<not> has_prefix (argRaw a) ''#'') existing = existing"
proof -
  have e: "existing = takeWhile (\<lambda>a. \<not> has_prefix (argRaw a) ''#'') as" "comment = dropWhile (\<lambda>a. \<not> has_prefix (argRaw a) ''#'') as"
    using assms(2) by (auto simp: splitCommentArguments_def)
  have as: "as = existing @ comment" by (simp add: e)
  have leads: "list_all (\<lambda>a. list_all isSpace (argLead a)) as" "separated (drop 1 as)"
    using assms(1) by (auto simp: split_shape_def)
  show "list_all (\<lambda>a. list_all isSpace (argLead a)) existing" using leads(1) as by simp
  have sep: "separated (drop 1 existing) \<and> separated comment"
    using leads(2) assms(3) as by (cases existing) (auto simp: separated_def)
  then show "separated (drop 1 existing)" by simp
  show "hd existing = hd as" using as assms(3) by simp
  show "takeWhile (\<lambda>a. \<not> has_prefix (argRaw a) ''#'') existing = existing"
    unfolding takeWhile_eq_all_conv by (auto simp: e dest: set_takeWhileD)
  show "comment_tail comment"
  proof (cases comment)
    case (Cons a rest)
    then have d: "dropWhile (\<lambda>a. \<not> has_prefix (argRaw a) ''#'') as = a # rest" using e by simp
    then have "rest = []" "argValue a = argRaw a" "\<not> isSpace (last (argRaw a))"
      using assms(1) by (auto simp: split_shape_def split: list.splits)
    moreover have "has_prefix (argRaw a) ''#''" using hd_dropWhile [of "\<lambda>a. \<not> has_prefix (argRaw a) ''#''" as] d by simp
    moreover have "list_all isSpace (argLead a)" "argLead a \<noteq> []" using leads(1) as Cons sep by (auto simp: separated_def)
    ultimately show ?thesis using Cons by (simp add: comment_tail_def)
  qed (simp add: comment_tail_def)
qed

lemma separated_map: "separated as \<longleftrightarrow> list_all (\<lambda>lead. lead \<noteq> []) (map argLead as)"
  by (simp add: separated_def list_all_iff)

lemma value_lead_later:
  assumes "separated (drop 1 existing)" and "0 < i"
  shows "value_lead existing i \<noteq> []"
proof (cases "i < length existing")
  case True
  then have "existing ! i \<in> set (drop 1 existing)" using assms(2)
    by (cases existing; cases i) auto
  then show ?thesis using assms(1) True by (auto simp: value_lead_def separated_def list_all_iff)
qed (use assms(2) in \<open>simp add: value_lead_def\<close>)

text \<open>The rebuilt line, written without its ending and read again, is the rebuilt line.\<close>

lemma rebuildLine_reparse:
  assumes l: "lineKind (parseLine c e) = LineDirective" and k: "validateKeyword k = None"
    and r: "rebuildLine (parseLine c e) k vs = Inr l'" and vs: "vs \<noteq> []"
    and comment: "Values (parseLine c e) \<noteq> [] \<or> (\<forall>a \<in> set (lineArguments (parseLine c e)). \<not> has_prefix (argRaw a) ''#'')"
  shows "parseLine (RenderLine (l'\<lparr>lineEnding := []\<rparr>)) e = l' \<and> Values l' = vs"
proof -
  let ?l = "parseLine c e"
  note p = parseLine_directive [OF l]
  obtain existing cmt where sc: "splitCommentArguments (lineArguments ?l) = (existing, cmt)" by fastforce
  have ex: "existing = takeWhile (\<lambda>a. \<not> has_prefix (argRaw a) ''#'') (lineArguments ?l)"
    and cm: "cmt = dropWhile (\<lambda>a. \<not> has_prefix (argRaw a) ''#'') (lineArguments ?l)"
    using sc by (auto simp: splitCommentArguments_def)
  have empty: "cmt = []" if "existing = []"
    using comment that l unfolding cm by (simp add: Values_def ex [symmetric]) 
  have shape: "comment_tail cmt" "list_all (\<lambda>a. list_all isSpace (argLead a)) existing" "separated (drop 1 existing)"
    "existing \<noteq> [] \<Longrightarrow> argLead (hd existing) = []"
  proof -
    show "comment_tail cmt" using comment_shape(1) [OF p(2) sc] empty by (cases "existing = []") (auto simp: comment_tail_def)
    show "list_all (\<lambda>a. list_all isSpace (argLead a)) existing"
      using comment_shape(2) [OF p(2) sc] by (cases "existing = []") auto
    show "separated (drop 1 existing)"
      using comment_shape(3) [OF p(2) sc] by (cases "existing = []") (auto simp: separated_def)
    assume ne: "existing \<noteq> []"
    then have "lineArguments ?l \<noteq> []" using ex by auto
    then show "argLead (hd existing) = []" using comment_shape(4) [OF p(2) sc ne] p(4) by simp
  qed
  obtain as where as: "render_values existing 0 vs = Inr as"
    and l': "l' = ?l\<lparr>lineKeyword := k, lineSeparator := (if lineSeparator ?l = [] then [SP] else lineSeparator ?l),
      lineArguments := append_comment as cmt\<rparr>"
    using r sc by (auto simp: rebuildLine_def split: sum.splits)
  have w: "list_all reads_as_written as" "map argValue as = vs" "list_all (\<lambda>a. hd (argRaw a) \<noteq> CHR ''='') as"
    "map argLead as = map (value_lead existing) [0..<length vs]"
    using render_values_written [OF as shape(2)] by auto
  have ne: "as \<noteq> []" using w(2) vs by auto
  have args: "append_comment as cmt = as @ cmt" using ne by (simp add: append_comment_def split: list.splits)
  have lead0: "argLead (hd as) = []"
  proof -
    have "argLead (hd as) = hd (map argLead as)" using ne by (simp add: hd_map)
    also have "\<dots> = value_lead existing 0" unfolding w(4) using vs by (simp add: hd_map)
    also have "\<dots> = []" using shape(4) by (cases existing) (auto simp: value_lead_def)
    finally show ?thesis .
  qed
  have "separated (drop 1 as)"
    unfolding separated_map drop_map [symmetric] w(4) using value_lead_later [OF shape(3)]
    by (simp add: drop_map drop_upt list_all_iff)
  moreover have "separator_ok [SP]" unfolding separator_ok_def by (intro exI [of _ "[SP]"] exI [of _ "[]"]) (simp add: isSpace_def)
  then have "separator_ok (lineSeparator l')" using p(3) by (auto simp: l')
  moreover have trailing: "list_all isSpace (lineTrailing ?l)" using p(2) by (simp add: split_shape_def)
  moreover have "hd (argRaw (hd as)) \<noteq> CHR ''=''" using w(3) ne by (cases as) auto
  ultimately have "parseLine (lineIndent ?l @ k @ lineSeparator l' @ render_arguments as @ render_arguments cmt @ lineTrailing ?l) e =
    \<lparr>lineKind = LineDirective, lineText = [], lineIndent = lineIndent ?l, lineKeyword = k, lineSeparator = lineSeparator l',
     lineArguments = as @ cmt, lineTrailing = lineTrailing ?l, lineEnding = e\<rparr>"
    using parseLine_written [OF p(1) validateKeyword_ok(1) [OF k], of "lineSeparator l'" as cmt "lineTrailing ?l" e] w(1) shape(1) lead0 ne
    by simp
  also have "\<dots> = l'" using l p(5,6) by (simp add: l' args)
  finally have parsed: "parseLine (RenderLine (l'\<lparr>lineEnding := []\<rparr>)) e = l'"
    by (simp add: RenderLine_def l' l args render_arguments_def)
  have raws: "\<not> has_prefix (argRaw a) ''#''" if "a \<in> set as" for a
    using w(1) that by (auto simp: list_all_iff reads_as_written_def has_prefix_iff)
  have "takeWhile (\<lambda>a. \<not> has_prefix (argRaw a) ''#'') (as @ cmt) = as @ takeWhile (\<lambda>a. \<not> has_prefix (argRaw a) ''#'') cmt"
    using raws by (intro takeWhile_append2)
  moreover have "takeWhile (\<lambda>a. \<not> has_prefix (argRaw a) ''#'') cmt = []"
    unfolding cm by (rule takeWhile_of_dropWhile)
  ultimately have "Values l' = vs" using w(2) l by (simp add: Values_def l' args)
  then show ?thesis using parsed by simp
qed

section \<open>Edits stay inside their block\<close>

definition no_header :: "Line \<Rightarrow> bool" where
  "no_header l \<longleftrightarrow> \<not> is_host_line l \<and> \<not> is_match_line l"

lemma EqualKeyword_ascii: "is_ascii k \<Longrightarrow> EqualKeyword k t \<longleftrightarrow> LowerASCII k = LowerASCII t"
proof (induction k t rule: EqualKeyword.induct)
  case (2 s t ts)
  show ?case
  proof (cases s)
    case (Cons c cs)
    then have "is_ascii cs" "c \<noteq> CHR 0xC5" "c \<noteq> CHR 0xE2" using "2.prems" by (auto simp: is_ascii_def)
    then show ?thesis using Cons "2.IH"(1) [OF Cons] by (simp add: LowerASCII_map EqualKeyword.simps(2))
  qed (simp add: LowerASCII_map EqualKeyword.simps(2))
qed (simp add: LowerASCII_map)

lemma validated_no_header:
  assumes "validateKeyword k = None" and "lineKeyword l = k"
  shows "no_header l"
proof -
  have "ToLower k \<noteq> ''host''" "ToLower k \<noteq> ''match''"
    using assms(1) by (auto simp: validateKeyword_def structuralKeywords_def split: if_splits)
  moreover have "LowerASCII ''Host'' = ''host''" "LowerASCII ''Match'' = ''match''" by code_simp+
  ultimately have "LowerASCII k \<noteq> LowerASCII ''Host''" "LowerASCII k \<noteq> LowerASCII ''Match''"
    using ToLower_ascii [OF validateKeyword_ok(2) [OF assms(1)]] by simp_all
  then show ?thesis
    unfolding no_header_def is_host_line_def is_match_line_def assms(2)
    by (simp only: EqualKeyword_ascii [OF validateKeyword_ok(2) [OF assms(1)]] simp_thms)
qed

lemma rebuildDirective_keyword:
  assumes "rebuildDirective l k vs = Inr l'"
  shows "no_header l'"
proof (rule validated_no_header)
  show "validateKeyword k = None" "lineKeyword l' = k"
    using assms by (auto simp: rebuildDirective_def rebuildRestOfLine_def rebuildLine_def
        split: option.splits sum.splits if_splits prod.splits)
qed

text \<open>Where a block lies: from behind its header to the next header.\<close>

definition region :: "Line list \<Rightarrow> Block \<Rightarrow> bool" where
  "region f b \<longleftrightarrow> blockHeader b = int (blockStart b) - 1 \<and> blockStart b \<le> length f \<and>
     blockEnd b = blockStart b + length (takeWhile no_header (drop (blockStart b) f)) \<and>
     (blockStart b = 0 \<or> \<not> no_header (f ! (blockStart b - 1)))"

lemma blocks_loop_end:
  assumes "b \<in> set (blocks_loop to_lower ls index current)"
  shows "(blockStart b = blockStart current \<and> blockHeader b = blockHeader current \<and>
      blockEnd b = index + length (takeWhile no_header ls)) \<or>
    (\<exists>i < length ls. \<not> no_header (ls ! i) \<and> blockHeader b = int (index + i) \<and> blockStart b = index + i + 1 \<and>
      blockEnd b = index + i + 1 + length (takeWhile no_header (drop (i + 1) ls)))"
  using assms
proof (induction ls arbitrary: index current)
  case (Cons l ls)
  let ?Q = "\<lambda>ls index i. \<not> no_header (ls ! i) \<and> blockHeader b = int (index + i) \<and> blockStart b = index + i + 1 \<and>
      blockEnd b = index + i + 1 + length (takeWhile no_header (drop (i + 1) ls))"
  have shift: "\<exists>i < length (l # ls). ?Q (l # ls) index i" if h: "\<exists>i < length ls. ?Q ls (index + 1) i"
  proof -
    obtain i where "i < length ls" "?Q ls (index + 1) i" using h by blast
    then show ?thesis by (intro exI [of _ "Suc i"]) simp
  qed
  show ?case
  proof (cases "no_header l")
    case True
    then have "b \<in> set (blocks_loop to_lower ls (index + 1) current)" using Cons.prems by (simp add: no_header_def)
    from Cons.IH [OF this] show ?thesis using True shift by auto
  next
    case False
    then consider "b = current\<lparr>blockEnd := index\<rparr>"
      | c where "b \<in> set (blocks_loop to_lower ls (index + 1) c)" "blockHeader c = int index" "blockStart c = index + 1"
      using Cons.prems by (auto simp: no_header_def split: if_splits)
    then show ?thesis
    proof cases
      case 2
      from Cons.IH [OF 2(1)] show ?thesis
      proof
        assume "blockStart b = blockStart c \<and> blockHeader b = blockHeader c \<and>
          blockEnd b = index + 1 + length (takeWhile no_header ls)"
        then have "?Q (l # ls) index 0" using 2 False by simp
        then show ?thesis by blast
      qed (use shift in blast)
    qed (simp add: False)
  qed
qed simp

lemma Blocks_region: "b \<in> set (Blocks to_lower f) \<Longrightarrow> region f b"
  using blocks_loop_end [of b to_lower f 0 global_block] by (auto simp: Blocks_def region_def)

lemma region_BlockAtHeader:
  assumes "s \<le> length f" and "s = 0 \<or> \<not> no_header (f ! (s - 1))"
  shows "region f (BlockAtHeader to_lower f (int s - 1))" "blockStart (BlockAtHeader to_lower f (int s - 1)) = s"
proof -
  let ?b = "BlockAtHeader to_lower f (int s - 1)"
  have "region f ?b \<and> blockStart ?b = s"
  proof (cases s)
    case 0
    then show ?thesis using Blocks_hd [of to_lower f] Blocks_region [of "hd (Blocks to_lower f)" to_lower f]
      by (simp add: BlockAtHeader_def)
  next
    case (Suc h)
    then have b: "?b = BlockAt to_lower f h" by (simp add: BlockAtHeader_def)
    have "h < length f" using assms(1) Suc by simp
    from BlockAt_governs [OF this, of to_lower] have g: "?b \<in> set (Blocks to_lower f)" "governs ?b h" by (auto simp: b)
    have r: "region f ?b" by (rule Blocks_region [OF g(1)])
    have "\<not> (blockStart ?b \<le> h \<and> h < blockEnd ?b)"
    proof
      assume h: "blockStart ?b \<le> h \<and> h < blockEnd ?b"
      let ?ls = "drop (blockStart ?b) f"
      have i: "h - blockStart ?b < length (takeWhile no_header ?ls)" using h r by (auto simp: region_def)
      have "no_header (?ls ! (h - blockStart ?b))" by (rule takeWhile_nth_holds [OF i])
      then have "no_header (f ! h)" using h r by (simp add: region_def)
      then show False using assms(2) Suc by simp
    qed
    then have "blockHeader ?b = int h" using g(2) by (auto simp: governs_def)
    then show ?thesis using r Suc by (auto simp: region_def)
  qed
  then show "region f ?b" "blockStart ?b = s" by auto
qed

text \<open>The invariant of the staged file: the block's lines change, what is before and behind stays.\<close>

definition confined :: "Line list \<Rightarrow> Line list \<Rightarrow> nat \<Rightarrow> Line list \<Rightarrow> bool" where
  "confined pre post n staged \<longleftrightarrow> (\<exists>mid. staged = pre @ mid @ post \<and> length mid = n \<and> list_all no_header mid)"

lemma confined_update:
  assumes "confined pre post n staged" and "length pre \<le> i" "i < length pre + n" and "no_header l"
  shows "confined pre post n (staged[i := l])"
proof -
  obtain mid where m: "staged = pre @ mid @ post" "length mid = n" "list_all no_header mid"
    using assms(1) by (auto simp: confined_def)
  define k where "k = i - length pre"
  have k: "i = length pre + k" "k < length mid" using assms(2,3) m(2) by (auto simp: k_def)
  have "staged[i := l] = pre @ mid[i - length pre := l] @ post"
    using k m(1) by (simp add: list_update_append)
  moreover have "list_all no_header (mid[i - length pre := l])"
    using m(3) assms(4) by (auto simp: list_all_iff dest!: subsetD [OF set_update_subset_insert])
  ultimately show ?thesis using m(2) by (auto simp: confined_def)
qed

lemma confined_remove:
  assumes "confined pre post (Suc n) staged" and "length pre \<le> i" "i \<le> length pre + n"
  shows "confined pre post n (remove_at i staged)"
proof -
  obtain mid where m: "staged = pre @ mid @ post" "length mid = Suc n" "list_all no_header mid"
    using assms(1) by (auto simp: confined_def)
  define k where "k = i - length pre"
  have k: "i = length pre + k" "k < length mid" using assms(2,3) m(2) by (auto simp: k_def)
  have "remove_at i staged = pre @ (take k mid @ drop (Suc k) mid) @ post"
    using k by (simp add: remove_at_def m(1))
  moreover have "list_all no_header (take k mid @ drop (Suc k) mid)"
    using m(3) by (auto simp: list_all_iff dest: in_set_takeD in_set_dropD)
  moreover have "length (take k mid @ drop (Suc k) mid) = n" using k m(2) by simp
  ultimately show ?thesis by (metis confined_def)
qed

lemma confined_removals:
  assumes "confined pre post (n + length is) staged" and "sorted_wrt (>) is"
    and "list_all (\<lambda>i. length pre \<le> i \<and> i < length pre + (n + length is)) is"
  shows "confined pre post n (fold remove_at is staged)"
  using assms
proof (induction "is" arbitrary: staged)
  case (Cons i js)
  have "confined pre post (Suc (n + length js)) staged" using Cons.prems(1) by simp
  moreover have "length pre \<le> i" "i \<le> length pre + (n + length js)" using Cons.prems(3) by auto
  ultimately have step: "confined pre post (n + length js) (remove_at i staged)" by (rule confined_remove)
  have "list_all (\<lambda>j. length pre \<le> j \<and> j < length pre + (n + length js)) js"
    using Cons.prems(2,3) by (fastforce simp: list_all_iff)
  then show ?case using Cons.IH [OF step] Cons.prems(2) by simp
qed simp

lemma appendPosition_range:
  "blockStart b \<le> appendPosition f b \<and> appendPosition f b \<le> max (blockStart b) (blockEnd b)"
proof -
  have "blockStart b \<le> fold (\<lambda>i position. if is_directive_at f i then i + 1 else position) is p \<and>
      fold (\<lambda>i position. if is_directive_at f i then i + 1 else position) is p \<le> max (blockStart b) (blockEnd b)"
    if "\<forall>i \<in> set is. blockStart b \<le> i \<and> i < blockEnd b" "blockStart b \<le> p" "p \<le> max (blockStart b) (blockEnd b)" for "is" p
    using that by (induction "is" arbitrary: p) auto
  then show ?thesis by (simp add: appendPosition_def)
qed

lemma no_header_ending [simp]: "no_header (l\<lparr>lineEnding := e\<rparr>) = no_header l"
  by (simp add: no_header_def is_host_line_def is_match_line_def)

lemma confined_insert:
  assumes "confined pre post n staged" and "length pre \<le> p" "p \<le> length pre + n" and "no_header l"
    and endings: "list_all (\<lambda>l. lineEnding l \<noteq> []) pre"
  shows "confined pre post (Suc n) (insertLine staged p l)"
proof -
  define g where "g = (if p > 0 \<and> lineEnding (staged ! (p - 1)) = []
    then staged[p - 1 := (staged ! (p - 1))\<lparr>lineEnding := lineEnding l\<rparr>] else staged)"
  have ins: "insertLine staged p l = take p g @ l # drop p g" by (simp add: insertLine_def g_def Let_def)
  have "confined pre post n g"
  proof (cases "p > 0 \<and> lineEnding (staged ! (p - 1)) = []")
    case True
    obtain mid where m: "staged = pre @ mid @ post" "length mid = n" "list_all no_header mid"
      using assms(1) by (auto simp: confined_def)
    have "p \<noteq> length pre"
    proof
      assume "p = length pre"
      then have "staged ! (p - 1) = last pre" "pre \<noteq> []" using True m(1) by (auto simp: nth_append last_conv_nth)
      then show False using True endings by (auto simp: list_all_iff)
    qed
    then have r: "length pre \<le> p - 1" "p - 1 < length pre + n" using True assms(2,3) by auto
    have "staged ! (p - 1) = mid ! (p - 1 - length pre)" using r m by (simp add: nth_append)
    then have "no_header (staged ! (p - 1))" using m r by (simp add: list_all_length)
    then show ?thesis using confined_update [OF assms(1) r] True by (simp add: g_def)
  qed (use assms(1) in \<open>auto simp: g_def\<close>)
  then obtain mid where m: "g = pre @ mid @ post" "length mid = n" "list_all no_header mid" by (auto simp: confined_def)
  define k where "k = p - length pre"
  have k: "p = length pre + k" "k \<le> length mid" using assms(2,3) m(2) by (auto simp: k_def)
  have "insertLine staged p l = pre @ (take k mid @ l # drop k mid) @ post" unfolding ins m(1) using k by simp
  moreover have "list_all no_header (take k mid @ l # drop k mid)"
    using m(3) assms(4) by (auto simp: list_all_iff dest: in_set_takeD in_set_dropD)
  moreover have "length (take k mid @ l # drop k mid) = Suc n" using k m(2) by simp
  ultimately show ?thesis by (metis confined_def)
qed

definition edit_index :: "FieldEdit \<Rightarrow> int" where
  "edit_index e = editLine e - 1"

lemma validate_edit_range:
  "validate_edit f b touched e = None \<Longrightarrow>
     int (blockStart b) \<le> edit_index e \<and> edit_index e < int (blockEnd b) \<and> edit_index e \<notin> set touched"
  by (auto simp: validate_edit_def Let_def edit_index_def split: if_splits)

lemma validated_edits:
  assumes "validateFieldEdits f b touched es = None"
  shows "list_all (\<lambda>e. editAction e \<noteq> ActionAdd \<longrightarrow> int (blockStart b) \<le> edit_index e \<and>
      edit_index e < int (blockEnd b) \<and> edit_index e \<notin> set touched) es \<and>
    distinct (map edit_index (filter (\<lambda>e. editAction e \<noteq> ActionAdd) es))"
  using assms
proof (induction es arbitrary: touched)
  case (Cons e es)
  show ?case
  proof (cases "editAction e = ActionAdd")
    case True
    then have "validateFieldEdits f b touched es = None" using Cons.prems by (auto split: option.splits)
    from Cons.IH [OF this] show ?thesis using True by simp
  next
    case False
    then have "validate_edit f b touched e = None" "validateFieldEdits f b (edit_index e # touched) es = None"
      using Cons.prems by (auto simp: edit_index_def split: option.splits EditAction.splits)
    from validate_edit_range [OF this(1)] Cons.IH [OF this(2)] show ?thesis by (auto simp: list_all_iff)
  qed
qed simp

lemma confined_sets:
  assumes "confined pre post n staged" and "apply_sets staged es = Inr staged'"
    and "list_all (\<lambda>e. editAction e = ActionSet \<longrightarrow>
      int (length pre) \<le> edit_index e \<and> edit_index e < int (length pre + n)) es"
  shows "confined pre post n staged'"
  using assms
proof (induction es arbitrary: staged)
  case (Cons e es)
  show ?case
  proof (cases "editAction e = ActionSet")
    case True
    then obtain k l where l: "rebuildDirective (staged ! nat (edit_index e)) k (editValues e) = Inr l"
      "apply_sets (staged[nat (edit_index e) := l]) es = Inr staged'"
      using Cons.prems(2) by (auto simp: edit_index_def Let_def split: sum.splits)
    have r: "length pre \<le> nat (edit_index e)" "nat (edit_index e) < length pre + n" using Cons.prems(3) True by auto
    show ?thesis
      using Cons.IH [OF confined_update [OF Cons.prems(1) r rebuildDirective_keyword [OF l(1)]] l(2)] Cons.prems(3) by simp
  qed (use Cons in simp)
qed simp

lemma region_confined:
  assumes "confined pre post n staged" and "pre = [] \<or> \<not> no_header (last pre)" and "post = [] \<or> \<not> no_header (hd post)"
    and b: "b = BlockAtHeader to_lower staged (int (length pre) - 1)"
  shows "blockStart b = length pre" "blockEnd b = length pre + n"
proof -
  obtain mid where m: "staged = pre @ mid @ post" "length mid = n" "list_all no_header mid"
    using assms(1) by (auto simp: confined_def)
  have "length pre = 0 \<or> \<not> no_header (staged ! (length pre - 1))"
    using assms(2) by (auto simp: m(1) nth_append last_conv_nth)
  then have r: "region staged b" "blockStart b = length pre"
    using region_BlockAtHeader [of "length pre" staged to_lower] m(1) by (auto simp: b)
  have "takeWhile no_header (mid @ post) = mid @ takeWhile no_header post"
    using m(3) by (intro takeWhile_append2) (simp add: list_all_iff)
  moreover have "takeWhile no_header post = []" using assms(3) by (cases post) auto
  ultimately show "blockStart b = length pre" "blockEnd b = length pre + n"
    using r m by (auto simp: region_def)
qed

lemma confined_adds:
  assumes "confined pre post n staged" and "apply_adds to_lower (int (length pre) - 1) staged es = Inr staged'"
    and "pre = [] \<or> \<not> no_header (last pre)" "post = [] \<or> \<not> no_header (hd post)"
    and "list_all (\<lambda>l. lineEnding l \<noteq> []) pre"
  shows "confined pre post (n + length (filter (\<lambda>e. editAction e = ActionAdd) es)) staged'"
  using assms(1,2)
proof (induction es arbitrary: staged n)
  case (Cons e es)
  show ?case
  proof (cases "editAction e = ActionAdd")
    case True
    let ?b = "BlockAtHeader to_lower staged (int (length pre) - 1)"
    note b = region_confined [OF Cons.prems(1) assms(3,4) refl, of to_lower]
    obtain added l where l: "rebuildDirective added (editKeyword e) (editValues e) = Inr l"
      "apply_adds to_lower (int (length pre) - 1) (insertLine staged (appendPosition staged ?b) l) es = Inr staged'"
      using Cons.prems(2) True by (auto simp: apply_add_def Let_def split: sum.splits)
    have "length pre \<le> appendPosition staged ?b" "appendPosition staged ?b \<le> length pre + n"
      using appendPosition_range [of ?b staged] b by auto
    from Cons.IH [OF confined_insert [OF Cons.prems(1) this rebuildDirective_keyword [OF l(1)] assms(5)] l(2)]
    show ?thesis using True by simp
  qed (use Cons in simp)
qed simp

lemma sorted_wrt_rev_sort: "distinct xs \<Longrightarrow> sorted_wrt (>) (rev (sort (xs :: nat list)))"
  by (simp add: sorted_wrt_rev strict_sorted_iff)

text \<open>Before, inside and behind: field edits change only the lines of their block.\<close>

lemma ApplyFieldEdits_inside:
  assumes b: "b \<in> set (Blocks to_lower f)" and ok: "ApplyFieldEdits to_lower f b es = Inr f'"
    and endings: "list_all (\<lambda>l. lineEnding l \<noteq> []) (take (blockStart b) f)"
  shows "\<exists>n. n + length (filter (\<lambda>e. editAction e = ActionRemove) es) = blockEnd b - blockStart b \<and>
    confined (take (blockStart b) f) (drop (blockEnd b) f)
      (n + length (filter (\<lambda>e. editAction e = ActionAdd) es)) f'"
proof -
  note r = Blocks_region [OF b]
  let ?pre = "take (blockStart b) f" and ?post = "drop (blockEnd b) f"
  let ?mid = "takeWhile no_header (drop (blockStart b) f)"
  have pre: "length ?pre = blockStart b" "int (length ?pre) - 1 = blockHeader b" using r by (auto simp: region_def)
  have rest: "drop (blockStart b) f = ?mid @ dropWhile no_header (drop (blockStart b) f)" by simp
  have post: "?post = dropWhile no_header (drop (blockStart b) f)"
    using r by (simp add: region_def add.commute dropWhile_eq_drop)
  have start: "confined ?pre ?post (blockEnd b - blockStart b) f"
    unfolding confined_def post using r
    by (intro exI [of _ ?mid]) (auto simp: region_def list_all_iff dest: set_takeWhileD)
  have ends: "?pre = [] \<or> \<not> no_header (last ?pre)" "?post = [] \<or> \<not> no_header (hd ?post)"
  proof -
    show "?pre = [] \<or> \<not> no_header (last ?pre)" using r by (auto simp: region_def last_conv_nth)
    show "?post = [] \<or> \<not> no_header (hd ?post)" unfolding post using hd_dropWhile by blast
  qed
  obtain staged where v: "validateFieldEdits f b [] es = None" and s: "apply_sets f es = Inr staged"
    and a: "apply_adds to_lower (blockHeader b) (fold remove_at (removal_indices es) staged) es = Inr f'"
    using ok by (auto simp: ApplyFieldEdits_def split: option.splits sum.splits)
  have range: "int (blockStart b) \<le> edit_index e \<and> edit_index e < int (blockEnd b)"
    if "e \<in> set es" "editAction e \<noteq> ActionAdd" for e
    using validated_edits [OF v] that by (auto simp: list_all_iff)
  have le: "blockStart b \<le> blockEnd b" using r by (simp add: region_def)
  have min: "min (length f) (blockStart b) = blockStart b" using pre(1) by simp
  have staged: "confined ?pre ?post (blockEnd b - blockStart b) staged"
    using range le by (intro confined_sets [OF start s]) (auto simp: list_all_iff min)
  let ?removes = "filter (\<lambda>e. editAction e = ActionRemove) es"
  have idx: "removal_indices es = rev (sort (map (\<lambda>e. nat (edit_index e)) ?removes))"
    by (simp add: removal_indices_def edit_index_def)
  have removes: "filter (\<lambda>e. editAction e = ActionRemove) (filter (\<lambda>e. editAction e \<noteq> ActionAdd) es) = ?removes"
    by (simp add: conj_commute cong: conj_cong)
  have "distinct (map edit_index (filter (\<lambda>e. editAction e = ActionRemove) (filter (\<lambda>e. editAction e \<noteq> ActionAdd) es)))"
    by (rule distinct_map_filter) (use validated_edits [OF v] in simp)
  then have inj: "distinct ?removes" "inj_on edit_index (set ?removes)" unfolding removes by (simp_all add: distinct_map)
  have "inj_on (\<lambda>e. nat (edit_index e)) (set ?removes)"
  proof (rule inj_onI)
    fix d e
    assume de: "d \<in> set ?removes" "e \<in> set ?removes" "nat (edit_index d) = nat (edit_index e)"
    then have "0 \<le> edit_index d" "0 \<le> edit_index e" using range [of d] range [of e] by auto
    then show "d = e" using de inj_onD [OF inj(2), of d e] by simp
  qed
  then have distinct: "distinct (map (\<lambda>e. nat (edit_index e)) ?removes)" using inj(1) by (simp add: distinct_map)
  then have sorted: "sorted_wrt (>) (removal_indices es)" unfolding idx by (rule sorted_wrt_rev_sort)
  have len: "length (removal_indices es) = length ?removes" by (simp add: idx)
  have inside: "blockStart b \<le> i \<and> i < blockEnd b" if i: "i \<in> set (removal_indices es)" for i
  proof -
    obtain e where "e \<in> set es" "editAction e = ActionRemove" "i = nat (edit_index e)" using i by (auto simp: idx)
    then show ?thesis using range [of e] by auto
  qed
  have "set (removal_indices es) \<subseteq> {blockStart b..<blockEnd b}" using inside by auto
  then have "card (set (removal_indices es)) \<le> blockEnd b - blockStart b"
    by (metis card_atLeastLessThan card_mono finite_atLeastLessThan)
  moreover have "distinct (removal_indices es)"
    using distinct by (simp add: idx)
  ultimately have fits: "length (removal_indices es) \<le> blockEnd b - blockStart b" by (simp add: distinct_card)
  define n where "n = blockEnd b - blockStart b - length (removal_indices es)"
  have n: "n + length (removal_indices es) = blockEnd b - blockStart b" using fits by (simp add: n_def)
  have "confined ?pre ?post n (fold remove_at (removal_indices es) staged)"
    using staged sorted inside le by (intro confined_removals) (auto simp: n min list_all_iff)
  from confined_adds [OF this a [folded pre(2)] ends endings] show ?thesis
    using n len by (intro exI [of _ n]) simp
qed

section \<open>The rest of a line, as it was typed\<close>

lemma parseLine_keyword:
  assumes "keyword_ok k" and "lineKind (parseLine (k @ SP # t) e) = LineDirective"
  shows "lineIndent (parseLine (k @ SP # t) e) = []" "lineKeyword (parseLine (k @ SP # t) e) = k"
proof -
  obtain c cs where k: "k = c # cs" "is_keyword_byte c" "list_all is_keyword_byte k" "c \<noteq> CHR ''#''"
    using assms(1) by (cases k) (auto simp: keyword_ok_def)
  have runs: "takeWhile isSpace (k @ SP # t) = []" "dropWhile isSpace (k @ SP # t) = k @ SP # t"
    using k(1,2) by (auto simp: is_keyword_byte_def)
  have "\<not> is_keyword_byte SP" by (simp add: is_keyword_byte_def isSpace_def)
  then have "takeWhile is_keyword_byte (k @ SP # t) = k" using k(3) by (simp add: list_all_iff takeWhile_append2)
  then show "lineIndent (parseLine (k @ SP # t) e) = []" "lineKeyword (parseLine (k @ SP # t) e) = k"
    using assms(2) unfolding parseLine_def Let_def runs
    by (auto simp: verbatim_line_def split: if_splits option.splits)
qed

lemma restOfLine_verbatim:
  assumes k: "validateKeyword k = None" and r: "restOfLineArguments k vs = Inr as"
  shows "render_arguments as = Trim [SP, TAB] (join_with SP vs)" "as \<noteq> [] \<Longrightarrow> argLead (hd as) = []"
proof -
  define t where "t = Trim [SP, TAB] (join_with SP vs)"
  have "render_arguments as = t \<and> (as \<noteq> [] \<longrightarrow> argLead (hd as) = [])"
  proof (cases "t = []")
    case True
    then show ?thesis using r by (simp add: restOfLineArguments_def t_def)
  next
    case False
    have ends: "\<not> isSpace (last t)" using Trim_ends [of "[SP, TAB]" "join_with SP vs"] False
      by (simp add: t_def isSpace_def)
    obtain l where l: "Parse (k @ SP # t) = [l]" "lineKind l = LineDirective" "lineSeparator l = [SP]"
      "as = (lineArguments l)[0 := (lineArguments l ! 0)\<lparr>argLead := []\<rparr>]" and nl: "\<not> contains_any t [LF, CR, NUL]"
      using r False unfolding restOfLineArguments_def Let_def t_def [symmetric]
      by (auto split: if_splits list.splits)
    have "LF \<notin> set (k @ SP # t)" using nl validateKeyword_ok(3) [OF k] by (auto simp: contains_any_iff)
    then have split: "splitLine (k @ SP # t) = (k @ SP # t, [], [])" by (rule splitLine_no_LF)
    have "Parse (k @ SP # t) = [parseLine (k @ SP # t) []]"
      by (subst Parse.simps) (simp add: split, simp add: Parse.simps)
    then have p: "l = parseLine (k @ SP # t) []" using l(1) by simp
    have d: "lineKind (parseLine (k @ SP # t) []) = LineDirective" using l(2) p by simp
    have kw: "lineIndent l = []" "lineKeyword l = k"
      using parseLine_keyword [OF validateKeyword_ok(1) [OF k] d] by (simp_all add: p)
    have "RenderLine l = k @ SP # t" using RenderLine_parseLine [of "k @ SP # t" "[]"] p by simp
    then have whole: "render_arguments (lineArguments l) @ lineTrailing l = t"
      using l(2,3) kw parseLine_directive(6) [OF d] by (simp add: RenderLine_def render_arguments_def p [symmetric])
    have "lineTrailing l = []"
    proof (rule ccontr)
      assume ne: "lineTrailing l \<noteq> []"
      then have "last t \<in> set (lineTrailing l)" using whole by (metis last_appendR last_in_set)
      moreover have "list_all isSpace (lineTrailing l)"
        using parseLine_directive(2) [OF d] by (simp add: p split_shape_def)
      ultimately show False using ends by (simp add: list_all_iff)
    qed
    moreover have "as = lineArguments l \<and> (as \<noteq> [] \<longrightarrow> argLead (hd as) = [])"
      using parseLine_directive(4) [OF d] l(4) p by (cases "lineArguments l") auto
    ultimately show ?thesis using whole by auto
  qed
  then show "render_arguments as = Trim [SP, TAB] (join_with SP vs)" "as \<noteq> [] \<Longrightarrow> argLead (hd as) = []"
    by (auto simp: t_def)
qed

lemma rebuildRestOfLine_verbatim:
  assumes "lineKind (parseLine c e) = LineDirective" and k: "validateKeyword k = None"
    and r: "rebuildRestOfLine (parseLine c e) k vs = Inr l'"
  shows "RenderLine l' = lineIndent (parseLine c e) @ k @ lineSeparator l' @ Trim [SP, TAB] (join_with SP vs) @
    lineTrailing (parseLine c e) @ e"
proof -
  note p = parseLine_directive [OF assms(1)]
  obtain as where as: "restOfLineArguments k vs = Inr as" using r by (auto simp: rebuildRestOfLine_def split: sum.splits)
  have "(if as \<noteq> [] \<and> lineArguments (parseLine c e) \<noteq> []
      then as[0 := (as ! 0)\<lparr>argLead := argLead (lineArguments (parseLine c e) ! 0)\<rparr>] else as) = as"
  proof (cases "as \<noteq> [] \<and> lineArguments (parseLine c e) \<noteq> []")
    case True
    then have "argLead (lineArguments (parseLine c e) ! 0) = []" using p(4) by (simp add: hd_conv_nth)
    moreover have "argLead (as ! 0) = []" using restOfLine_verbatim(2) [OF k as] True by (simp add: hd_conv_nth)
    ultimately show ?thesis using True by (cases as) simp_all
  qed auto
  then show ?thesis
    using r as restOfLine_verbatim(1) [OF k as] assms(1) p(6)
    by (auto simp: rebuildRestOfLine_def RenderLine_def render_arguments_def)
qed

section \<open>Properties\<close>

text \<open>
  C7. Field edits change nothing outside their block: every line before the block and behind it is
  the same line, no Host or Match line appears in between, and the block has as many lines as it had,
  less the removed and plus the added ones. Assumed: every line before the block has a line ending, as
  every line of a parsed file but the last one has.
\<close>

theorem ApplyFieldEdits_confined:
  assumes "b \<in> set (Blocks to_lower f)" and "ApplyFieldEdits to_lower f b es = Inr f'"
    and "list_all (\<lambda>l. lineEnding l \<noteq> []) (take (blockStart b) f)"
  shows "\<exists>mid. f' = take (blockStart b) f @ mid @ drop (blockEnd b) f \<and>
    list_all (\<lambda>l. \<not> is_host_line l \<and> \<not> is_match_line l) mid \<and>
    length mid + length (filter (\<lambda>e. editAction e = ActionRemove) es) =
      (blockEnd b - blockStart b) + length (filter (\<lambda>e. editAction e = ActionAdd) es)"
proof -
  have nh: "no_header = (\<lambda>l. \<not> is_host_line l \<and> \<not> is_match_line l)" by (simp add: fun_eq_iff no_header_def)
  obtain n mid where n: "n + length (filter (\<lambda>e. editAction e = ActionRemove) es) = blockEnd b - blockStart b"
    and m: "f' = take (blockStart b) f @ mid @ drop (blockEnd b) f" "list_all no_header mid"
      "length mid = n + length (filter (\<lambda>e. editAction e = ActionAdd) es)"
    using ApplyFieldEdits_inside [OF assms] unfolding confined_def by blast
  show ?thesis using n m by (intro exI [of _ mid]) (simp add: nh)
qed

theorem ApplyFieldEdits_confined_witness:
  "\<exists>f' mid. ApplyFieldEdits ToLower (Parse (''Host a'' @ LF # ''User x'' @ LF # ''Host b''))
       (Blocks ToLower (Parse (''Host a'' @ LF # ''User x'' @ LF # ''Host b'')) ! 1)
       [\<lparr>editAction = ActionAdd, editLine = 0, editKeyword = ''Port'', editValues = [''22'']\<rparr>] = Inr f' \<and>
     f' = take 1 (Parse (''Host a'' @ LF # ''User x'' @ LF # ''Host b'')) @ mid @
       drop 2 (Parse (''Host a'' @ LF # ''User x'' @ LF # ''Host b'')) \<and> length mid = 2"
proof -
  let ?f = "Parse (''Host a'' @ LF # ''User x'' @ LF # ''Host b'')"
  let ?b = "Blocks ToLower ?f ! 1"
  let ?es = "[\<lparr>editAction = ActionAdd, editLine = 0, editKeyword = ''Port'', editValues = [''22'']\<rparr>]"
  have "length (Blocks ToLower ?f) = 3" by code_simp
  then have b: "?b \<in> set (Blocks ToLower ?f)" by simp
  have "case ApplyFieldEdits ToLower ?f ?b ?es of Inr f' \<Rightarrow> True | Inl err \<Rightarrow> False" by code_simp
  then obtain f' where f': "ApplyFieldEdits ToLower ?f ?b ?es = Inr f'" by (auto split: sum.splits)
  have range: "blockStart ?b = 1" "blockEnd ?b = 2" by code_simp+
  have "list_all (\<lambda>l. lineEnding l \<noteq> []) (take (blockStart ?b) ?f)" by code_simp
  from ApplyFieldEdits_confined [OF b f' this] show ?thesis using f' range by auto
qed

text \<open>
  C8. A directive that the editor rewrites with one or more values is read back from the file with
  exactly these values, in place, with its indentation, separator, comment and trailing blanks,
  whatever bytes the values hold, as long as a comment on the line stands behind a value and the
  keyword is not one that takes the rest of its line. (Behind no value the comment swallows the new
  value: see \<open>comment_swallowed\<close>.)
\<close>

theorem rebuildDirective_reads_back:
  assumes "lineKind (parseLine c e) = LineDirective" and "vs \<noteq> []" and "\<not> TakesRestOfLine k"
    and "rebuildDirective (parseLine c e) k vs = Inr l'"
    and "Values (parseLine c e) \<noteq> [] \<or> (\<forall>a \<in> set (lineArguments (parseLine c e)). \<not> has_prefix (argRaw a) ''#'')"
  shows "parseLine (RenderLine (l'\<lparr>lineEnding := []\<rparr>)) e = l' \<and> lineKeyword l' = k \<and> Values l' = vs"
proof -
  have r: "validateKeyword k = None" "rebuildLine (parseLine c e) k vs = Inr l'"
    using assms(3,4) by (auto simp: rebuildDirective_def split: option.splits)
  then have "lineKeyword l' = k" by (auto simp: rebuildLine_def split: prod.splits sum.splits)
  then show ?thesis using rebuildLine_reparse [OF assms(1) r assms(2) assms(5)] by simp
qed

theorem rebuildDirective_reads_back_witness:
  "\<exists>l'. rebuildDirective (parseLine ''Port 22 # x'' []) ''Port'' [''23 #''] = Inr l' \<and>
     parseLine (RenderLine (l'\<lparr>lineEnding := []\<rparr>)) [] = l' \<and> Values l' = [''23 #'']"
proof -
  have l: "lineKind (parseLine ''Port 22 # x'' []) = LineDirective" by code_simp
  have k: "\<not> TakesRestOfLine ''Port''" by code_simp
  have v: "Values (parseLine ''Port 22 # x'' []) \<noteq> []" by code_simp
  have "case rebuildDirective (parseLine ''Port 22 # x'' []) ''Port'' [''23 #''] of Inr l' \<Rightarrow> True | Inl err \<Rightarrow> False"
    by code_simp
  then obtain l' where l': "rebuildDirective (parseLine ''Port 22 # x'' []) ''Port'' [''23 #''] = Inr l'"
    by (auto split: sum.splits)
  from rebuildDirective_reads_back [OF l _ k this] v l' show ?thesis by auto
qed

text \<open>
  The guard that puts a blank before a comment is the wrong way round: where the comment stands
  right behind the separator, the first value is written with no blank before the comment and
  swallows its marker, so that the line has another value than the one that was set.
\<close>

theorem comment_swallowed:
  "\<exists>l'. rebuildDirective (parseLine ''HostName # todo'' [LF]) ''HostName'' [''example.com''] = Inr l' \<and>
     Values (parseLine ''HostName # todo'' [LF]) = [] \<and>
     RenderLine l' = ''HostName example.com# todo'' @ [LF] \<and>
     Values (parseLine ''HostName example.com# todo'' [LF]) = [''example.com#'', ''todo'']"
proof -
  let ?l = "parseLine ''HostName # todo'' [LF]"
  have "rebuildDirective ?l ''HostName'' [''example.com''] =
      Inr (?l\<lparr>lineArguments := \<lparr>argLead = [], argRaw = ''example.com'', argValue = ''example.com''\<rparr> # lineArguments ?l\<rparr>)"
    by code_simp
  moreover have "RenderLine (?l\<lparr>lineArguments := \<lparr>argLead = [], argRaw = ''example.com'', argValue = ''example.com''\<rparr> # lineArguments ?l\<rparr>) =
      ''HostName example.com# todo'' @ [LF]" by code_simp
  moreover have "Values ?l = []" by code_simp
  moreover have "Values (parseLine ''HostName example.com# todo'' [LF]) = [''example.com#'', ''todo'']" by code_simp
  ultimately show ?thesis by blast
qed

text \<open>
  C26. The value of ProxyCommand and the other keywords that take the rest of the line is written as
  it was typed, without any quoting, but for blanks at its ends: what the shell will read is
  unchanged, and so are the indentation and the blanks behind it.
\<close>

theorem command_written_verbatim:
  assumes "lineKind (parseLine c e) = LineDirective" and "TakesRestOfLine k"
    and "rebuildDirective (parseLine c e) k vs = Inr l'"
  shows "RenderLine l' = lineIndent (parseLine c e) @ k @ lineSeparator l' @ Trim [SP, TAB] (join_with SP vs) @
    lineTrailing (parseLine c e) @ e"
proof -
  have "validateKeyword k = None" "rebuildRestOfLine (parseLine c e) k vs = Inr l'"
    using assms(2,3) by (auto simp: rebuildDirective_def split: option.splits)
  from rebuildRestOfLine_verbatim [OF assms(1) this] show ?thesis .
qed

theorem command_written_verbatim_witness:
  "\<exists>l'. rebuildDirective (parseLine ''ProxyCommand x'' []) ''ProxyCommand'' [''nc $1 # %h''] = Inr l' \<and>
     RenderLine l' = ''ProxyCommand nc $1 # %h''"
proof -
  have l: "lineKind (parseLine ''ProxyCommand x'' []) = LineDirective" by code_simp
  have k: "TakesRestOfLine ''ProxyCommand''" by code_simp
  have "case rebuildDirective (parseLine ''ProxyCommand x'' []) ''ProxyCommand'' [''nc $1 # %h''] of Inr l' \<Rightarrow> lineSeparator l' = [SP]
      | Inl err \<Rightarrow> False" by code_simp
  then obtain l' where l': "rebuildDirective (parseLine ''ProxyCommand x'' []) ''ProxyCommand'' [''nc $1 # %h''] = Inr l'"
    "lineSeparator l' = [SP]" by (auto split: sum.splits)
  have "lineIndent (parseLine ''ProxyCommand x'' []) = []" "lineTrailing (parseLine ''ProxyCommand x'' []) = []"
    "Trim [SP, TAB] (join_with SP [''nc $1 # %h'']) = ''nc $1 # %h''" by code_simp+
  then show ?thesis using command_written_verbatim [OF l k l'(1)] l' by auto
qed

end
