(* ===== verification/EffMatch.thy ===== *)
theory EffMatch
  imports EffDirective
begin

text \<open>
  Which blocks apply to an alias (internal/effective/match.go, hostBlockApplies of loadorder.go,
  DeclaresExactly of resolve.go): the criteria of a Match line, evaluated without running anything,
  and the patterns of a Host line.
\<close>

section \<open>Match criteria\<close>

datatype match_error = ErrMatchExec | ErrMatchUnsupported

record MatchContext =
  mcAlias :: gostring
  mcOriginalAlias :: gostring
  mcHostName :: gostring
  mcUser :: gostring
  mcLocalUser :: gostring
  mcTags :: "gostring list"
  mcFinal :: bool
  mcCanonical :: bool

definition hostForMatch :: "MatchContext \<Rightarrow> gostring" where
  "hostForMatch ctx = (if mcHostName ctx \<noteq> [] then mcHostName ctx else mcAlias ctx)"

definition criterionApplies :: "Criterion \<Rightarrow> MatchContext \<Rightarrow> match_error + bool" where
  "criterionApplies c ctx =
     (let patterns = split_at (CHR '','') (critArgument c); key = ToLower (critKeyword c) in
      if key = ''all'' then Inr True
      else if key = ''canonical'' then Inr (mcCanonical ctx)
      else if key = ''final'' then Inr (mcFinal ctx)
      else if key = ''host'' then Inr (PatternList patterns (hostForMatch ctx) IgnoreCase)
      else if key = ''originalhost'' then Inr (PatternList patterns (mcOriginalAlias ctx) IgnoreCase)
      else if key = ''user'' then Inr (PatternList patterns (mcUser ctx) CaseSensitive)
      else if key = ''localuser'' then Inr (PatternList patterns (mcLocalUser ctx) CaseSensitive)
      else if key = ''tagged'' then Inr (list_ex (\<lambda>tag. PatternList patterns tag CaseSensitive) (mcTags ctx))
      else if key = ''exec'' then Inl ErrMatchExec
      else Inl ErrMatchUnsupported)"

fun match_loop :: "Criterion list \<Rightarrow> MatchContext \<Rightarrow> match_error + bool" where
  "match_loop [] ctx = Inr True"
| "match_loop (c # cs) ctx =
     (case criterionApplies c ctx of
        Inl err \<Rightarrow> Inl err
      | Inr matched \<Rightarrow>
          (if critNegated c then (if matched then Inr False else match_loop cs ctx)
           else (if matched then match_loop cs ctx else Inr False)))"

definition MatchApplies :: "Criterion list \<Rightarrow> MatchContext \<Rightarrow> match_error + bool" where
  "MatchApplies criteria ctx = (if criteria = [] then Inr False else match_loop criteria ctx)"

section \<open>Host patterns\<close>

datatype SourceKind = SourceNone | SourceExact | SourceWildcard | SourceGlobal

definition pattern_refuses :: "Pattern_arg \<Rightarrow> gostring \<Rightarrow> bool" where
  "pattern_refuses p alias \<longleftrightarrow> patNegated p \<and> Pattern (patValue p) alias"

definition pattern_accepts :: "Pattern_arg \<Rightarrow> gostring \<Rightarrow> bool" where
  "pattern_accepts p alias \<longleftrightarrow> \<not> (patNegated p \<or> \<not> Pattern (patValue p) alias)"

definition hostBlockApplies :: "Pattern_arg list \<Rightarrow> gostring \<Rightarrow> SourceKind \<times> bool" where
  "hostBlockApplies ps alias =
     (if list_ex (\<lambda>p. pattern_refuses p alias) ps then (SourceNone, False)
      else (case find (\<lambda>p. pattern_accepts p alias) ps of
              None \<Rightarrow> (SourceNone, False)
            | Some p \<Rightarrow> if patWildcard p then (SourceWildcard, True) else (SourceExact, True)))"

fun DeclaresExactly :: "Pattern_arg list \<Rightarrow> gostring \<Rightarrow> bool" where
  "DeclaresExactly [] alias = False"
| "DeclaresExactly (p # ps) alias =
     (if patNegated p \<or> patWildcard p then DeclaresExactly ps alias
      else if patValue p = alias then True else DeclaresExactly ps alias)"

section \<open>Lemmas\<close>

text \<open>The criteria that are decided without running a command.\<close>

definition decidable_criteria :: "gostring list" where
  "decidable_criteria = [''all'', ''canonical'', ''final'', ''host'', ''originalhost'', ''user'', ''localuser'', ''tagged'']"

lemma ex_Cons_split:
  "(\<exists>pre c post. x # xs = pre @ c # post \<and> (\<forall>d \<in> set pre. P d) \<and> Q c) \<longleftrightarrow>
     Q x \<or> P x \<and> (\<exists>pre c post. xs = pre @ c # post \<and> (\<forall>d \<in> set pre. P d) \<and> Q c)"
proof
  assume "\<exists>pre c post. x # xs = pre @ c # post \<and> (\<forall>d \<in> set pre. P d) \<and> Q c"
  then obtain pre c post where s: "x # xs = pre @ c # post" "\<forall>d \<in> set pre. P d" "Q c" by blast
  then show "Q x \<or> P x \<and> (\<exists>pre c post. xs = pre @ c # post \<and> (\<forall>d \<in> set pre. P d) \<and> Q c)"
  proof (cases pre)
    case (Cons y pre')
    then have "P x" "xs = pre' @ c # post \<and> (\<forall>d \<in> set pre'. P d) \<and> Q c" using s by auto
    then show ?thesis by blast
  qed (use s in simp)
next
  assume "Q x \<or> P x \<and> (\<exists>pre c post. xs = pre @ c # post \<and> (\<forall>d \<in> set pre. P d) \<and> Q c)"
  then show "\<exists>pre c post. x # xs = pre @ c # post \<and> (\<forall>d \<in> set pre. P d) \<and> Q c"
  proof
    assume "Q x"
    then have "x # xs = [] @ x # xs \<and> (\<forall>d \<in> set []. P d) \<and> Q x" by simp
    then show ?thesis by blast
  next
    assume "P x \<and> (\<exists>pre c post. xs = pre @ c # post \<and> (\<forall>d \<in> set pre. P d) \<and> Q c)"
    then obtain pre c post where "P x" "xs = pre @ c # post" "\<forall>d \<in> set pre. P d" "Q c" by blast
    then have "x # xs = (x # pre) @ c # post \<and> (\<forall>d \<in> set (x # pre). P d) \<and> Q c" by simp
    then show ?thesis by blast
  qed
qed

lemma hostBlockApplies_iff:
  "snd (hostBlockApplies ps alias) \<longleftrightarrow>
     (\<exists>p \<in> set ps. pattern_accepts p alias) \<and> \<not> (\<exists>p \<in> set ps. pattern_refuses p alias)"
  by (auto simp: hostBlockApplies_def list_ex_iff find_None_iff find_Some_iff split: option.splits)

interpretation host_line: negatable_patterns "\<lambda>ps alias. snd (hostBlockApplies ps alias)" pattern_accepts pattern_refuses
  by unfold_locales (auto simp: hostBlockApplies_iff)

lemma match_loop_Inr:
  "match_loop cs ctx = Inr b \<Longrightarrow>
     (b \<longleftrightarrow> (\<forall>c \<in> set cs. criterionApplies c ctx = Inr (\<not> critNegated c)))"
  by (induction cs) (auto split: sum.splits if_splits)

lemma match_loop_Inl:
  "match_loop cs ctx = Inl err \<longleftrightarrow>
     (\<exists>pre c post. cs = pre @ c # post \<and> (\<forall>d \<in> set pre. criterionApplies d ctx = Inr (\<not> critNegated d)) \<and>
        criterionApplies c ctx = Inl err)" (is "_ \<longleftrightarrow> ?at cs")
proof (induction cs)
  case (Cons c cs)
  have step: "?at (c # cs) \<longleftrightarrow>
      criterionApplies c ctx = Inl err \<or> criterionApplies c ctx = Inr (\<not> critNegated c) \<and> ?at cs"
    by (subst ex_Cons_split) blast
  show ?case unfolding step using Cons by (auto split: sum.splits)
qed simp

lemma criterionApplies_Inl:
  "criterionApplies c ctx = Inl err \<longleftrightarrow>
     (if ToLower (critKeyword c) = ''exec'' then err = ErrMatchExec
      else err = ErrMatchUnsupported \<and> ToLower (critKeyword c) \<notin> set decidable_criteria)"
  by (auto simp: criterionApplies_def Let_def decidable_criteria_def)

lemma match_loop_known:
  "(\<forall>c \<in> set cs. \<exists>b. criterionApplies c ctx = Inr b) \<Longrightarrow>
     match_loop cs ctx = Inr (\<forall>c \<in> set cs. criterionApplies c ctx = Inr (\<not> critNegated c))"
  by (induction cs) (auto split: sum.splits)

lemma glob_literal: "CHR ''*'' \<notin> set p \<Longrightarrow> CHR ''?'' \<notin> set p \<Longrightarrow> glob p v \<longleftrightarrow> p = v"
proof (induction p arbitrary: v)
  case (Cons c p)
  then have "c \<noteq> CHR ''*''" "c \<noteq> CHR ''?''" by auto
  then show ?case using Cons by (cases v) simp_all
qed auto

text \<open>A name without wildcards only matches itself.\<close>

lemma Pattern_literal:
  assumes "\<not> contains_any p ''*?''"
    and "Pattern p v"
  shows "p = v"
proof -
  have "CHR ''*'' \<notin> set p" "CHR ''?'' \<notin> set p" using assms(1) by (auto simp: contains_any_iff)
  then show ?thesis using Pattern_sound [OF assms(2)] glob_literal by blast
qed

section \<open>Properties\<close>

text \<open>
  C21. A Match line applies exactly if it has criteria and every one of them holds, a negated one by
  failing. The answer is an error, and never a silent no, exactly if the criteria before some
  criterion all hold and that one cannot be decided; which ones these are: \<open>exec\<close>, whose command is
  never run, and every keyword the engine does not know. Where every criterion can be decided, the
  order of the criteria does not matter.
\<close>

theorem MatchApplies_conjunction:
  "(\<forall>b. MatchApplies cs ctx = Inr b \<longrightarrow>
      (b \<longleftrightarrow> cs \<noteq> [] \<and> (\<forall>c \<in> set cs. criterionApplies c ctx = Inr (\<not> critNegated c)))) \<and>
   (\<forall>err. MatchApplies cs ctx = Inl err \<longleftrightarrow>
      (\<exists>pre c post. cs = pre @ c # post \<and> (\<forall>d \<in> set pre. criterionApplies d ctx = Inr (\<not> critNegated d)) \<and>
         criterionApplies c ctx = Inl err)) \<and>
   (\<forall>c err. criterionApplies c ctx = Inl err \<longleftrightarrow>
      (if ToLower (critKeyword c) = ''exec'' then err = ErrMatchExec
       else err = ErrMatchUnsupported \<and> ToLower (critKeyword c) \<notin> set decidable_criteria)) \<and>
   ((\<forall>c \<in> set cs. \<exists>b. criterionApplies c ctx = Inr b) \<longrightarrow> set cs = set ds \<longrightarrow>
      MatchApplies cs ctx = MatchApplies ds ctx)"
proof (intro conjI allI impI)
  fix b
  assume "MatchApplies cs ctx = Inr b"
  then show "b \<longleftrightarrow> cs \<noteq> [] \<and> (\<forall>c \<in> set cs. criterionApplies c ctx = Inr (\<not> critNegated c))"
    using match_loop_Inr [of cs ctx b] by (auto simp: MatchApplies_def split: if_splits)
next
  fix err
  show "MatchApplies cs ctx = Inl err \<longleftrightarrow>
      (\<exists>pre c post. cs = pre @ c # post \<and> (\<forall>d \<in> set pre. criterionApplies d ctx = Inr (\<not> critNegated d)) \<and>
         criterionApplies c ctx = Inl err)"
    using match_loop_Inl [of cs ctx err] by (simp add: MatchApplies_def)
next
  fix c err
  show "criterionApplies c ctx = Inl err \<longleftrightarrow>
      (if ToLower (critKeyword c) = ''exec'' then err = ErrMatchExec
       else err = ErrMatchUnsupported \<and> ToLower (critKeyword c) \<notin> set decidable_criteria)"
    by (rule criterionApplies_Inl)
next
  assume known: "\<forall>c \<in> set cs. \<exists>b. criterionApplies c ctx = Inr b" and same: "set cs = set ds"
  then have "cs = [] \<longleftrightarrow> ds = []" by auto
  moreover have "match_loop cs ctx = match_loop ds ctx"
    using match_loop_known [OF known] match_loop_known [of ds ctx] known same by simp
  ultimately show "MatchApplies cs ctx = MatchApplies ds ctx" by (simp add: MatchApplies_def)
qed

theorem MatchApplies_conjunction_witness:
  "\<exists>holds runs ctx. MatchApplies [holds] ctx = Inr True \<and> MatchApplies [holds, runs] ctx = Inl ErrMatchExec"
proof -
  let ?user = "\<lparr>critKeyword = ''user'', critArgument = ''r*'', critNegated = False\<rparr>"
  let ?exec = "\<lparr>critKeyword = ''Exec'', critArgument = ''true'', critNegated = True\<rparr>"
  let ?ctx = "\<lparr>mcAlias = ''a'', mcOriginalAlias = ''a'', mcHostName = ''a'', mcUser = ''root'', mcLocalUser = ''me'', mcTags = [],
      mcFinal = False, mcCanonical = False\<rparr>"
  have user: "criterionApplies ?user ?ctx = Inr True" and exec: "criterionApplies ?exec ?ctx = Inl ErrMatchExec" by code_simp+
  have "case MatchApplies [?user] ?ctx of Inr b \<Rightarrow> True | Inl err \<Rightarrow> False" by code_simp
  then obtain b where b: "MatchApplies [?user] ?ctx = Inr b" by (auto split: sum.splits)
  have "b" using MatchApplies_conjunction [of "[?user]" ?ctx "[]", THEN conjunct1, rule_format, OF b] user by simp
  then have holds: "MatchApplies [?user] ?ctx = Inr True" using b by simp
  have "[?user, ?exec] = [?user] @ ?exec # [] \<and>
      (\<forall>d \<in> set [?user]. criterionApplies d ?ctx = Inr (\<not> critNegated d)) \<and> criterionApplies ?exec ?ctx = Inl ErrMatchExec"
    using user exec by simp
  then have "MatchApplies [?user, ?exec] ?ctx = Inl ErrMatchExec"
    using MatchApplies_conjunction [of "[?user, ?exec]" ?ctx "[]", THEN conjunct2, THEN conjunct1] by blast
  with holds show ?thesis by (intro exI conjI)
qed

text \<open>
  C20. A Host line applies exactly if one of its patterns matches and no negated one does, whatever
  their order; a line of plain names applies only to the names it lists, and a negated pattern
  without a positive one never makes it apply.
\<close>

theorem hostBlockApplies_exact:
  "(snd (hostBlockApplies ps alias) \<longleftrightarrow>
      (\<exists>p \<in> set ps. \<not> patNegated p \<and> Pattern (patValue p) alias) \<and>
      \<not> (\<exists>p \<in> set ps. patNegated p \<and> Pattern (patValue p) alias)) \<and>
   (set ps = set qs \<longrightarrow> snd (hostBlockApplies ps alias) = snd (hostBlockApplies qs alias)) \<and>
   (fst (hostBlockApplies ps alias) = SourceExact \<longrightarrow> ps = parsePatterns vs \<longrightarrow> alias \<in> set vs)"
proof (intro conjI impI)
  show "snd (hostBlockApplies ps alias) \<longleftrightarrow>
      (\<exists>p \<in> set ps. \<not> patNegated p \<and> Pattern (patValue p) alias) \<and>
      \<not> (\<exists>p \<in> set ps. patNegated p \<and> Pattern (patValue p) alias)"
    using hostBlockApplies_iff by (simp add: pattern_accepts_def pattern_refuses_def)
  show "snd (hostBlockApplies ps alias) = snd (hostBlockApplies qs alias)" if "set ps = set qs"
    using host_line.order_irrelevant [OF that] .
  show "alias \<in> set vs" if k: "fst (hostBlockApplies ps alias) = SourceExact" and ps: "ps = parsePatterns vs"
  proof -
    obtain p where p: "find (\<lambda>p. pattern_accepts p alias) ps = Some p" "\<not> patWildcard p"
      using k by (auto simp: hostBlockApplies_def split: if_splits option.splits)
    then have a: "pattern_accepts p alias" "p \<in> set ps" by (auto simp: find_Some_iff)
    then obtain v where v: "v \<in> set vs" "p = parsePattern v" using ps by (auto simp: parsePatterns_def)
    then have "\<not> has_prefix v ''!''" "patValue p = v" "\<not> contains_any v ''*?''" "Pattern v alias"
      using a(1) p(2) by (auto simp: parsePattern_def Let_def pattern_accepts_def)
    then show ?thesis using Pattern_literal v(1) by metis
  qed
qed

theorem hostBlockApplies_exact_witness:
  "\<not> snd (hostBlockApplies (parsePatterns [''!web'', ''w*'']) ''web'') \<and> ''web'' \<in> set [''db'', ''web'']"
proof
  have "\<not> snd (hostBlockApplies (parsePatterns [''w*'', ''!web'']) ''web'')" by code_simp
  moreover have "set (parsePatterns [''!web'', ''w*'']) = set (parsePatterns [''w*'', ''!web''])"
    by (auto simp: parsePatterns_def)
  ultimately show "\<not> snd (hostBlockApplies (parsePatterns [''!web'', ''w*'']) ''web'')"
    using hostBlockApplies_exact [of "parsePatterns [''!web'', ''w*'']" "''web''" "parsePatterns [''w*'', ''!web'']"] by blast
  have "fst (hostBlockApplies (parsePatterns [''db'', ''web'']) ''web'') = SourceExact" by code_simp
  then show "''web'' \<in> set [''db'', ''web'']"
    using hostBlockApplies_exact [of "parsePatterns [''db'', ''web'']" "''web''" "[]" "[''db'', ''web'']"] by blast
qed

end
