(* ===== verification/EffLoadOrder.thy ===== *)
theory EffLoadOrder
  imports EffMatch
begin

text \<open>
  The order in which OpenSSH reads a configuration (internal/effective/loadorder.go, the graph of
  internal/config/graph.go as its readers see it): a walk over the files that follows every Include
  at its line, hands each header and each directive of an applying block to a visitor, and stops
  at a file that is being read already. The visitor's own state is threaded through the walk.
\<close>

section \<open>The graph of files\<close>

record Edge =
  edgeFromPath :: gostring
  edgeLine :: nat
  edgePattern :: gostring
  edgeExpanded :: gostring
  edgeMatches :: "gostring list"
  edgeCondition :: gostring

record Node =
  nodePath :: gostring
  nodeEditable :: bool
  nodeMissing :: bool
  nodeFile :: "Line list option"
  nodeIncludes :: "Edge list"
  nodeLoads :: nat
  nodeGroupsFile :: bool

datatype Severity = SeverityInfo | SeverityWarning | SeverityError

record Diagnostic =
  diagSeverity :: Severity
  diagCode :: gostring
  diagPath :: gostring
  diagLine :: nat
  diagDetail :: gostring

text \<open>The Go map of nodes is an association list with the path as its key.\<close>

record Graph =
  graphRoot :: gostring
  graphOrder :: "gostring list"
  graphNodes :: "(gostring \<times> Node) list"
  graphDiagnostics :: "Diagnostic list"

definition Condition :: "Line list \<Rightarrow> Block \<Rightarrow> gostring" where
  "Condition f b =
     (if blockHeader b < 0 \<or> blockHeader b \<ge> int (length f) then []
      else TrimSpace (RenderLine (f ! nat (blockHeader b))))"

section \<open>What the visitor sees\<close>

record blockState =
  bsApplies :: bool
  bsKind :: SourceKind
  bsCondition :: gostring

record blockHeader_info =
  bhPath :: gostring
  bhBlock :: Block
  bhCondition :: gostring
  bhNeverMatch :: bool
  bhInGroupsFile :: bool

definition bhNumber :: "blockHeader_info \<Rightarrow> int" where
  "bhNumber h = blockHeader (bhBlock h) + 1"

record directiveLine =
  dlPath :: gostring
  dlNumber :: nat
  dlLine :: Line
  dlState :: blockState

record 's loadOrderVisitor =
  visEnterBlock :: "blockHeader_info \<Rightarrow> 's \<Rightarrow> (SourceKind \<times> bool) \<times> 's"
  visDirective :: "directiveLine \<Rightarrow> 's \<Rightarrow> 's"

record readingFile =
  rfPath :: gostring
  rfNode :: Node
  rfFile :: "Line list"
  rfNeverMatch :: bool

section \<open>The walk\<close>

definition header_info :: "readingFile \<Rightarrow> Block \<Rightarrow> blockHeader_info" where
  "header_info current b = \<lparr>bhPath = rfPath current, bhBlock = b, bhCondition = Condition (rfFile current) b,
     bhNeverMatch = rfNeverMatch current, bhInGroupsFile = nodeGroupsFile (rfNode current)\<rparr>"

definition enterBlock :: "'s loadOrderVisitor \<Rightarrow> readingFile \<Rightarrow> Block \<Rightarrow> 's \<Rightarrow> blockState \<times> 's" where
  "enterBlock vis current b s =
     (case visEnterBlock vis (header_info current b) s of
        ((kind, applies), s') \<Rightarrow>
          (\<lparr>bsApplies = (applies \<and> \<not> rfNeverMatch current), bsKind = kind, bsCondition = Condition (rfFile current) b\<rparr>, s'))"

definition include_matches :: "Node \<Rightarrow> nat \<Rightarrow> gostring list" where
  "include_matches node lineNumber = concat (map edgeMatches (filter (\<lambda>e. edgeLine e = lineNumber) (nodeIncludes node)))"

definition at_header :: "Block list \<Rightarrow> nat \<Rightarrow> bool" where
  "at_header blocks index \<longleftrightarrow> (case blocks of [] \<Rightarrow> False | b # _ \<Rightarrow> blockHeader b = int index)"

text \<open>The files that are not being read: entering one leaves fewer of them.\<close>

definition unread :: "Graph \<Rightarrow> gostring list \<Rightarrow> nat" where
  "unread g chain = card (set (map fst (graphNodes g)) - set chain)"

lemma unread_less: "map_of (graphNodes g) path = Some node \<Longrightarrow> path \<notin> set chain \<Longrightarrow> unread g (path # chain) < unread g chain"
proof -
  assume node: "map_of (graphNodes g) path = Some node" and new: "path \<notin> set chain"
  let ?open = "set (map fst (graphNodes g)) - set chain"
  have "(path, node) \<in> set (graphNodes g)" by (rule map_of_SomeD [OF node])
  then have "path \<in> fst ` set (graphNodes g)" by (rule image_eqI [rotated]) simp
  then have member: "path \<in> ?open" using new by simp
  have smaller: "set (map fst (graphNodes g)) - set (path # chain) = ?open - {path}" by auto
  show ?thesis unfolding unread_def smaller by (rule card_Diff1_less [OF _ member]) simp
qed

function readFile :: "'s loadOrderVisitor \<Rightarrow> Graph \<Rightarrow> gostring list \<Rightarrow> gostring \<Rightarrow> blockState \<Rightarrow> bool \<Rightarrow> 's \<Rightarrow> 's"
  and readLines :: "'s loadOrderVisitor \<Rightarrow> Graph \<Rightarrow> gostring list \<Rightarrow> readingFile \<Rightarrow> Block list \<Rightarrow> (nat \<times> Line) list \<Rightarrow> blockState \<Rightarrow> 's \<Rightarrow> 's"
  and readIncludes :: "'s loadOrderVisitor \<Rightarrow> Graph \<Rightarrow> gostring list \<Rightarrow> readingFile \<Rightarrow> gostring list \<Rightarrow> blockState \<Rightarrow> 's \<Rightarrow> 's" where
  "readFile vis g chain path inherited neverMatch s =
     (case map_of (graphNodes g) path of
        None \<Rightarrow> s
      | Some node \<Rightarrow>
          (case nodeFile node of
             None \<Rightarrow> s
           | Some f \<Rightarrow>
               (if path \<in> set chain then s
                else readLines vis g (path # chain) \<lparr>rfPath = path, rfNode = node, rfFile = f, rfNeverMatch = neverMatch\<rparr>
                       (drop 1 (Blocks ToLower f)) (enumerate 0 f) inherited s)))"
| "readLines vis g chain current blocks [] state s = s"
| "readLines vis g chain current blocks ((index, l) # ls) state s =
     (if at_header blocks index then
        (case enterBlock vis current (hd blocks) s of
           (state', s') \<Rightarrow> readLines vis g chain current (tl blocks) ls state' s')
      else if lineKind l \<noteq> LineDirective then readLines vis g chain current blocks ls state s
      else if EqualKeyword (lineKeyword l) ''Include'' then
        readLines vis g chain current blocks ls state
          (readIncludes vis g chain current (include_matches (rfNode current) (index + 1)) state s)
      else if bsApplies state then
        readLines vis g chain current blocks ls state
          (visDirective vis \<lparr>dlPath = rfPath current, dlNumber = index + 1, dlLine = l, dlState = state\<rparr> s)
      else readLines vis g chain current blocks ls state s)"
| "readIncludes vis g chain current [] state s = s"
| "readIncludes vis g chain current (m # ms) state s =
     readIncludes vis g chain current ms state
       (readFile vis g chain m state (rfNeverMatch current \<or> \<not> bsApplies state) s)"
  by pat_completeness auto
termination
proof (relation "measures
    [\<lambda>x. case x of Inl (vis, g, chain, r) \<Rightarrow> unread g chain | Inr (Inl (vis, g, chain, r)) \<Rightarrow> unread g chain
       | Inr (Inr (vis, g, chain, r)) \<Rightarrow> unread g chain,
     \<lambda>x. case x of Inl _ \<Rightarrow> 0 | Inr (Inl _) \<Rightarrow> 2 | Inr (Inr _) \<Rightarrow> 1,
     \<lambda>x. case x of Inl _ \<Rightarrow> 0 | Inr (Inl (vis, g, chain, current, blocks, ls, r)) \<Rightarrow> length ls
       | Inr (Inr (vis, g, chain, current, ms, r)) \<Rightarrow> length ms]")
qed (auto simp: unread_less)

declare readFile.simps [simp del]

definition walkLoadOrder :: "Graph option \<Rightarrow> 's loadOrderVisitor \<Rightarrow> 's \<Rightarrow> 's" where
  "walkLoadOrder graph vis s =
     (case graph of
        None \<Rightarrow> s
      | Some g \<Rightarrow> readFile vis g [] (graphRoot g) \<lparr>bsApplies = True, bsKind = SourceGlobal, bsCondition = []\<rparr> False s)"

section \<open>What holds for every visitor\<close>

text \<open>A property of the visitor's state that both callbacks keep holds at the end of the walk.\<close>

locale load_order_invariant =
  fixes vis :: "'s loadOrderVisitor"
    and inv :: "'s \<Rightarrow> bool"
  assumes enter_keeps: "inv s \<Longrightarrow> inv (snd (visEnterBlock vis h s))"
    and directive_keeps: "inv s \<Longrightarrow> bsApplies (dlState d) \<Longrightarrow> inv (visDirective vis d s)"
begin

lemma enterBlock_keeps: "inv s \<Longrightarrow> inv (snd (enterBlock vis current b s))"
  using enter_keeps [of s "header_info current b"] by (auto simp: enterBlock_def split: prod.splits)

lemma readers_keep:
  "v = vis \<Longrightarrow> inv s \<Longrightarrow> inv (readFile v g chain path inherited never s)"
  "v = vis \<Longrightarrow> inv s \<Longrightarrow> inv (readLines v g chain current blocks ls state s)"
  "v = vis \<Longrightarrow> inv s \<Longrightarrow> inv (readIncludes v g chain current ms state s)"
proof (induction v g chain path inherited never s and v g chain current blocks ls state s
    and v g chain current ms state s rule: readFile_readLines_readIncludes.induct)
  case (1 v g chain path inherited never s)
  then show ?case by (subst readFile.simps) (auto split: option.splits)
next
  case (3 v g chain current blocks index l ls state s)
  have "inv (snd (enterBlock vis current (hd blocks) s))" by (rule enterBlock_keeps [OF "3.prems"(2)])
  moreover have "inv (visDirective vis \<lparr>dlPath = rfPath current, dlNumber = index + 1, dlLine = l, dlState = state\<rparr> s)"
    if "bsApplies state" using directive_keeps [OF "3.prems"(2)] that by simp
  ultimately show ?case using "3.IH" "3.prems" by (auto split: prod.splits)
qed simp_all

lemma walk_keeps: "inv s \<Longrightarrow> inv (walkLoadOrder graph vis s)"
  by (auto simp: walkLoadOrder_def readers_keep split: option.splits)

end

text \<open>
  What a walk offers: the same walk with a visitor that also notes every directive it is handed, in
  order. The noting does not change the walk.
\<close>

definition noting :: "'s loadOrderVisitor \<Rightarrow> ('s \<times> directiveLine list) loadOrderVisitor" where
  "noting vis = \<lparr>visEnterBlock = (\<lambda>h t. case visEnterBlock vis h (fst t) of (verdict, s') \<Rightarrow> (verdict, (s', snd t))),
     visDirective = (\<lambda>d t. (visDirective vis d (fst t), snd t @ [d]))\<rparr>"

definition offered :: "Graph option \<Rightarrow> 's loadOrderVisitor \<Rightarrow> 's \<Rightarrow> directiveLine list" where
  "offered graph vis s = snd (walkLoadOrder graph (noting vis) (s, []))"

lemma noting_enterBlock:
  "fst (enterBlock (noting vis) current b t) = fst (enterBlock vis current b (fst t))"
  "fst (snd (enterBlock (noting vis) current b t)) = snd (enterBlock vis current b (fst t))"
  by (simp_all add: enterBlock_def noting_def split: prod.splits)

lemma noting_readers:
  "v = noting vis \<Longrightarrow> fst (readFile v g chain path inherited never t) = readFile vis g chain path inherited never (fst t)"
  "v = noting vis \<Longrightarrow> fst (readLines v g chain current blocks ls state t) = readLines vis g chain current blocks ls state (fst t)"
  "v = noting vis \<Longrightarrow> fst (readIncludes v g chain current ms state t) = readIncludes vis g chain current ms state (fst t)"
proof (induction v g chain path inherited never t and v g chain current blocks ls state t
    and v g chain current ms state t rule: readFile_readLines_readIncludes.induct)
  case (1 v g chain path inherited never t)
  then show ?case by (subst (1 2) readFile.simps) (auto split: option.splits)
next
  case (3 v g chain current blocks index l ls state t)
  have directive: "fst (visDirective (noting vis) d t) = visDirective vis d (fst t)" for d by (simp add: noting_def)
  consider (header) "at_header blocks index"
    | (other) "\<not> at_header blocks index" "lineKind l \<noteq> LineDirective"
    | (incl) "\<not> at_header blocks index" "lineKind l = LineDirective" "EqualKeyword (lineKeyword l) ''Include''"
    | (both) "\<not> at_header blocks index" "lineKind l = LineDirective" "\<not> EqualKeyword (lineKeyword l) ''Include''" "bsApplies state"
    | (idle) "\<not> at_header blocks index" "lineKind l = LineDirective" "\<not> EqualKeyword (lineKeyword l) ''Include''" "\<not> bsApplies state"
    by blast
  then show ?case
  proof cases
    case header
    obtain st t' where e: "enterBlock v current (hd blocks) t = (st, t')" by (rule prod.exhaust)
    then have "enterBlock vis current (hd blocks) (fst t) = (st, fst t')"
      using noting_enterBlock [of vis current "hd blocks" t] unfolding "3.prems" by (simp add: prod_eq_iff)
    then show ?thesis using "3.IH"(1) [OF header e [symmetric] "3.prems"] header e by simp
  next
    case other
    then show ?thesis using "3.IH"(2) [OF other "3.prems"] by simp
  next
    case incl
    then have k: "\<not> lineKind l \<noteq> LineDirective" by simp
    show ?thesis using "3.IH"(4) [OF incl(1) k incl(3) "3.prems"] "3.IH"(3) [OF incl(1) k incl(3) "3.prems"] incl by simp
  next
    case both
    then have k: "\<not> lineKind l \<noteq> LineDirective" by simp
    show ?thesis using "3.IH"(5) [OF both(1) k both(3,4) "3.prems"] directive "3.prems" both by simp
  next
    case idle
    then have k: "\<not> lineKind l \<noteq> LineDirective" by simp
    show ?thesis using "3.IH"(6) [OF idle(1) k idle(3,4) "3.prems"] idle by simp
  qed
qed simp_all

lemma noting_walk: "fst (walkLoadOrder graph (noting vis) t) = walkLoadOrder graph vis (fst t)"
  by (simp add: walkLoadOrder_def noting_readers split: option.splits)

text \<open>
  Two visitors over the same graph: the walk takes the same way with both, so when the second one
  lets at least the blocks of the first apply, it sees every directive the first one sees.
\<close>

definition same_place :: "directiveLine \<Rightarrow> directiveLine \<Rightarrow> bool" where
  "same_place d e \<longleftrightarrow> dlPath d = dlPath e \<and> dlNumber d = dlNumber e \<and> dlLine d = dlLine e \<and>
     bsCondition (dlState d) = bsCondition (dlState e)"

locale load_order_simulation =
  fixes vis1 :: "'s loadOrderVisitor" and vis2 :: "'t loadOrderVisitor"
    and R :: "'s \<Rightarrow> 't \<Rightarrow> bool"
  assumes enter_both: "R s t \<Longrightarrow> R (snd (visEnterBlock vis1 h s)) (snd (visEnterBlock vis2 (h\<lparr>bhNeverMatch := n\<rparr>) t))"
    and enter_applies: "R s t \<Longrightarrow> snd (fst (visEnterBlock vis1 h s)) \<Longrightarrow> snd (fst (visEnterBlock vis2 (h\<lparr>bhNeverMatch := n\<rparr>) t))"
    and directive_both: "R s t \<Longrightarrow> same_place d e \<Longrightarrow> lineKind (dlLine d) = LineDirective \<Longrightarrow> R (visDirective vis1 d s) (visDirective vis2 e t)"
    and directive_second: "R s t \<Longrightarrow> R s (visDirective vis2 e t)"
begin

definition weaker :: "blockState \<Rightarrow> blockState \<Rightarrow> bool" where
  "weaker a b \<longleftrightarrow> (bsApplies a \<longrightarrow> bsApplies b) \<and> bsCondition a = bsCondition b"

definition same_file :: "readingFile \<Rightarrow> readingFile \<Rightarrow> bool" where
  "same_file c d \<longleftrightarrow> d = c\<lparr>rfNeverMatch := rfNeverMatch d\<rparr> \<and> (rfNeverMatch d \<longrightarrow> rfNeverMatch c)"

lemma same_file_parts:
  "same_file c d \<Longrightarrow> rfPath d = rfPath c \<and> rfNode d = rfNode c \<and> rfFile d = rfFile c"
  by (cases c; cases d) (auto simp: same_file_def)

lemma enterBlock_related:
  assumes "R s t" and "same_file c d"
  shows "R (snd (enterBlock vis1 c b s)) (snd (enterBlock vis2 d b t)) \<and>
    weaker (fst (enterBlock vis1 c b s)) (fst (enterBlock vis2 d b t))"
proof -
  have h: "header_info d b = (header_info c b)\<lparr>bhNeverMatch := rfNeverMatch d\<rparr>"
    using same_file_parts [OF assms(2)] by (simp add: header_info_def)
  show ?thesis
    using enter_both [OF assms(1), of "header_info c b" "rfNeverMatch d"]
      enter_applies [OF assms(1), of "header_info c b" "rfNeverMatch d"] same_file_parts [OF assms(2)] assms(2)
    unfolding enterBlock_def h by (auto simp: weaker_def same_file_def split: prod.splits)
qed

lemma readers_related:
  "v = vis1 \<Longrightarrow> R s t \<Longrightarrow> weaker inherited inherited2 \<Longrightarrow> (never2 \<Longrightarrow> never) \<Longrightarrow>
     R (readFile v g chain path inherited never s) (readFile vis2 g chain path inherited2 never2 t)"
  "v = vis1 \<Longrightarrow> R s t \<Longrightarrow> weaker state state2 \<Longrightarrow> same_file current current2 \<Longrightarrow>
     R (readLines v g chain current blocks ls state s) (readLines vis2 g chain current2 blocks ls state2 t)"
  "v = vis1 \<Longrightarrow> R s t \<Longrightarrow> weaker state state2 \<Longrightarrow> same_file current current2 \<Longrightarrow>
     R (readIncludes v g chain current ms state s) (readIncludes vis2 g chain current2 ms state2 t)"
proof (induction v g chain path inherited never s and v g chain current blocks ls state s
    and v g chain current ms state s arbitrary: t inherited2 never2 and t state2 current2 and t state2 current2
    rule: readFile_readLines_readIncludes.induct)
  case (1 v g chain path inherited never s)
  show ?case
  proof (cases "map_of (graphNodes g) path")
    case (Some node)
    note node = Some
    show ?thesis
    proof (cases "nodeFile node")
      case (Some f)
      show ?thesis
      proof (cases "path \<in> set chain")
        case False
        have "same_file \<lparr>rfPath = path, rfNode = node, rfFile = f, rfNeverMatch = never\<rparr>
            \<lparr>rfPath = path, rfNode = node, rfFile = f, rfNeverMatch = never2\<rparr>"
          using "1.prems"(4) by (auto simp: same_file_def)
        from "1.IH" [OF node Some False "1.prems"(1-3) this] show ?thesis
          using node Some False by (simp add: readFile.simps)
      qed (use "1.prems"(2) node Some in \<open>simp add: readFile.simps\<close>)
    qed (use "1.prems"(2) node in \<open>simp add: readFile.simps\<close>)
  qed (use "1.prems"(2) in \<open>simp add: readFile.simps\<close>)
next
  case (3 v g chain current blocks index l ls state s)
  note p = "3.prems" and parts = same_file_parts [OF "3.prems"(4)]
  consider (header) "at_header blocks index"
    | (other) "\<not> at_header blocks index" "lineKind l \<noteq> LineDirective"
    | (incl) "\<not> at_header blocks index" "lineKind l = LineDirective" "EqualKeyword (lineKeyword l) ''Include''"
    | (both) "\<not> at_header blocks index" "lineKind l = LineDirective" "\<not> EqualKeyword (lineKeyword l) ''Include''" "bsApplies state"
    | (idle) "\<not> at_header blocks index" "lineKind l = LineDirective" "\<not> EqualKeyword (lineKeyword l) ''Include''" "\<not> bsApplies state"
    by blast
  then show ?case
  proof cases
    case header
    obtain st s' where e1: "enterBlock vis1 current (hd blocks) s = (st, s')" by fastforce
    obtain st2 t' where e2: "enterBlock vis2 current2 (hd blocks) t = (st2, t')" by fastforce
    have "R s' t'" "weaker st st2" using enterBlock_related [OF p(2,4), of "hd blocks"] e1 e2 by auto
    moreover have "(st, s') = enterBlock v current (hd blocks) s" using e1 p(1) by simp
    ultimately show ?thesis using "3.IH"(1) [OF header _ p(1) _ _ p(4)] header e1 e2 p(1) by simp
  next
    case other
    then show ?thesis using "3.IH"(2) [OF other p] by simp
  next
    case incl
    from "3.IH"(4) [OF incl(1) _ incl(3) p(1) "3.IH"(3) [OF incl(1) _ incl(3) p] p(3,4)] incl parts
    show ?thesis by simp
  next
    case both
    then have b2: "bsApplies state2" using p(3) by (simp add: weaker_def)
    have place: "same_place \<lparr>dlPath = rfPath current, dlNumber = index + 1, dlLine = l, dlState = state\<rparr>
        \<lparr>dlPath = rfPath current2, dlNumber = index + 1, dlLine = l, dlState = state2\<rparr>"
      using parts p(3) by (simp add: same_place_def weaker_def)
    from both(2) directive_both [OF p(2) place] "3.IH"(5) [OF both(1) _ both(3,4) p(1) _ p(3,4)] both b2 parts p(1)
    show ?thesis by simp
  next
    case idle
    then show ?thesis
      using "3.IH"(6) [OF idle(1) _ idle(3,4) p(1) p(2) p(3,4)]
        "3.IH"(6) [OF idle(1) _ idle(3,4) p(1) directive_second [OF p(2)] p(3,4)] by simp
  qed
next
  case (5 v g chain current m ms state s)
  have "rfNeverMatch current2 \<or> \<not> bsApplies state2 \<Longrightarrow> rfNeverMatch current \<or> \<not> bsApplies state"
    using "5.prems"(3,4) by (auto simp: weaker_def same_file_def)
  from "5.IH"(2) [OF "5.prems"(1) "5.IH"(1) [OF "5.prems"(1-3) this] "5.prems"(3,4)] show ?case by simp
qed simp_all

lemma walk_related: "R s t \<Longrightarrow> R (walkLoadOrder graph vis1 s) (walkLoadOrder graph vis2 t)"
  by (auto simp: walkLoadOrder_def weaker_def intro!: readers_related(1) split: option.splits)

end

end
