(* ===== verification/EffTokens.thy ===== *)
theory EffTokens
  imports EffDirective Validate
begin

text \<open>
  The expansion of percent tokens and environment variables (internal/effective/tokens.go,
  environment.go, ExpandProxyTokens of jump.go): one pass from the left, with an error for every
  token that has no value before the connection is made. The digest of \<open>%C\<close> is the parameter
  \<open>sha1_hex\<close>, which stands for \<open>hex.EncodeToString\<close> after \<open>sha1.Sum\<close>.
\<close>

section \<open>Facts\<close>

datatype token_error = ErrUnknownToken | ErrEnvironmentVariable

record LocalFacts =
  lfUser :: gostring
  lfHome :: gostring
  lfHostname :: gostring
  lfUID :: gostring
  lfLookupEnv :: "(gostring \<Rightarrow> gostring option) option"
  lfGlobalKnownHostsFiles :: "gostring list"

record TokenTarget =
  ttAlias :: gostring
  ttHostName :: gostring
  ttPort :: gostring
  ttRemoteUser :: gostring
  ttHostKeyAlias :: gostring
  ttJumpHost :: gostring

definition no_facts :: LocalFacts where
  "no_facts = \<lparr>lfUser = [], lfHome = [], lfHostname = [], lfUID = [], lfLookupEnv = None, lfGlobalKnownHostsFiles = []\<rparr>"

section \<open>One token\<close>

definition connectionHash :: "(gostring \<Rightarrow> gostring) \<Rightarrow> LocalFacts \<Rightarrow> TokenTarget \<Rightarrow> gostring" where
  "connectionHash sha1_hex facts target =
     sha1_hex (lfHostname facts @ ttHostName target @ ttPort target @ ttRemoteUser target @ ttJumpHost target)"

definition expandOne :: "(gostring \<Rightarrow> gostring) \<Rightarrow> char \<Rightarrow> LocalFacts \<Rightarrow> TokenTarget \<Rightarrow> gostring option" where
  "expandOne sha1_hex token facts target =
     (if token = CHR ''%'' then Some ''%''
      else if token = CHR ''h'' then Some (ttHostName target)
      else if token = CHR ''n'' then Some (ttAlias target)
      else if token = CHR ''p'' then Some (ttPort target)
      else if token = CHR ''r'' then Some (ttRemoteUser target)
      else if token = CHR ''u'' then Some (lfUser facts)
      else if token = CHR ''d'' then Some (lfHome facts)
      else if token = CHR ''i'' then Some (lfUID facts)
      else if token = CHR ''l'' then Some (lfHostname facts)
      else if token = CHR ''L'' then Some (fst (cut_at (CHR ''.'') (lfHostname facts)))
      else if token = CHR ''k'' then Some (if ttHostKeyAlias target \<noteq> [] then ttHostKeyAlias target else ttAlias target)
      else if token = CHR ''j'' then Some (ttJumpHost target)
      else if token = CHR ''C'' then Some (connectionHash sha1_hex facts target)
      else None)"

text \<open>The value of the variable at the front and the bytes of the reference.\<close>

definition expandVariable :: "gostring \<Rightarrow> (gostring \<Rightarrow> gostring option) option \<Rightarrow> token_error + (gostring \<times> nat)" where
  "expandVariable s lookupEnv =
     (case cut_at (CHR ''}'') (drop 2 s) of
        (name, _, closed) \<Rightarrow>
          (if \<not> closed then Inl ErrEnvironmentVariable
           else if name = [] then Inl ErrEnvironmentVariable
           else (case lookupEnv of
                   None \<Rightarrow> Inl ErrEnvironmentVariable
                 | Some lookup \<Rightarrow>
                     (case lookup name of
                        None \<Rightarrow> Inl ErrEnvironmentVariable
                      | Some found \<Rightarrow> Inr (found, 2 + length name + 1)))))"

section \<open>The pass over a value\<close>

definition at_variable :: "bool \<Rightarrow> gostring \<Rightarrow> bool" where
  "at_variable variables s \<longleftrightarrow> variables \<and> has_prefix s ''${''"

definition prepend :: "gostring \<Rightarrow> 'e + gostring \<Rightarrow> 'e + gostring" where
  "prepend p r = (case r of Inl err \<Rightarrow> Inl err | Inr s \<Rightarrow> Inr (p @ s))"

lemma expandVariable_length: "expandVariable s lookup = Inr (v, n) \<Longrightarrow> 0 < n"
  by (auto simp: expandVariable_def split: prod.splits if_splits option.splits)

function expand :: "(gostring \<Rightarrow> gostring) \<Rightarrow> LocalFacts \<Rightarrow> TokenTarget \<Rightarrow> bool \<Rightarrow> gostring \<Rightarrow> token_error + gostring" where
  "expand sha1_hex facts target variables [] = Inr []"
| "expand sha1_hex facts target variables (c # cs) =
     (if at_variable variables (c # cs) then
        (case expandVariable (c # cs) (lfLookupEnv facts) of
           Inl err \<Rightarrow> Inl err
         | Inr (replacement, n) \<Rightarrow> prepend replacement (expand sha1_hex facts target variables (drop (n - 1) cs)))
      else if c = CHR ''%'' then
        (case cs of
           [] \<Rightarrow> Inl ErrUnknownToken
         | token # rest \<Rightarrow>
             (case expandOne sha1_hex token facts target of
                None \<Rightarrow> Inl ErrUnknownToken
              | Some replacement \<Rightarrow> prepend replacement (expand sha1_hex facts target variables rest)))
      else prepend [c] (expand sha1_hex facts target variables cs))"
  by pat_completeness auto
termination by (relation "measure (\<lambda>(h, f, t, v, s). length s)") auto

definition ExpandTokens :: "(gostring \<Rightarrow> gostring) \<Rightarrow> gostring \<Rightarrow> LocalFacts \<Rightarrow> TokenTarget \<Rightarrow> token_error + gostring" where
  "ExpandTokens sha1_hex s facts target = expand sha1_hex facts target False s"

definition expandVariablesAndTokens :: "(gostring \<Rightarrow> gostring) \<Rightarrow> gostring \<Rightarrow> LocalFacts \<Rightarrow> TokenTarget \<Rightarrow> token_error + gostring" where
  "expandVariablesAndTokens sha1_hex s facts target = expand sha1_hex facts target True s"

fun usesOnlyTokens :: "gostring \<Rightarrow> gostring \<Rightarrow> bool" where
  "usesOnlyTokens [] allowed = True"
| "usesOnlyTokens [c] allowed = (c \<noteq> CHR ''%'')"
| "usesOnlyTokens (c # d # cs) allowed =
     (if c \<noteq> CHR ''%'' then usesOnlyTokens (d # cs) allowed
      else if d \<noteq> CHR ''%'' \<and> d \<notin> set allowed then False
      else usesOnlyTokens cs allowed)"

definition proxyTokens :: gostring where "proxyTokens = ''hnpr''"

definition ExpandProxyTokens :: "(gostring \<Rightarrow> gostring) \<Rightarrow> gostring \<Rightarrow> TokenTarget \<Rightarrow> token_error + gostring" where
  "ExpandProxyTokens sha1_hex raw target =
     (if \<not> usesOnlyTokens raw proxyTokens then Inl ErrUnknownToken else ExpandTokens sha1_hex raw no_facts target)"

section \<open>Lemmas\<close>

lemma prepend_simps [simp]: "prepend p (Inl err) = Inl err" "prepend p (Inr s) = Inr (p @ s)"
  by (simp_all add: prepend_def)

lemma prepend_append [simp]: "prepend p (prepend q r) = prepend (p @ q) r"
  by (cases r) simp_all

lemma prepend_Inr: "prepend p r = Inr s \<longleftrightarrow> (\<exists>t. r = Inr t \<and> s = p @ t)"
  by (cases r) auto

text \<open>The replaced text is never read again: what was expanded is a prefix of the whole result.\<close>

lemma expand_append:
  "expand h facts target False u = Inr a \<Longrightarrow>
     expand h facts target False (u @ v) = prepend a (expand h facts target False v)"
proof (induction u arbitrary: a rule: length_induct)
  case (1 u)
  note IH = "1.IH" [rule_format]
  show ?case
  proof (cases u)
    case Nil
    then show ?thesis using "1.prems" by (cases "expand h facts target False v") auto
  next
    case (Cons c cs)
    show ?thesis
    proof (cases "c = CHR ''%''")
      case True
      then obtain token rest where cs: "cs = token # rest" using "1.prems" Cons by (cases cs) (auto simp: at_variable_def)
      then obtain r t where r: "expandOne h token facts target = Some r" "expand h facts target False rest = Inr t" "a = r @ t"
        using "1.prems" Cons True by (auto simp: at_variable_def prepend_Inr split: option.splits)
      have "length rest < length u" using Cons cs by simp
      from IH [OF this r(2)] show ?thesis using Cons True cs r by (simp add: at_variable_def)
    next
      case False
      then obtain t where t: "expand h facts target False cs = Inr t" "a = c # t"
        using "1.prems" Cons by (auto simp: at_variable_def prepend_Inr)
      have "length cs < length u" using Cons by simp
      from IH [OF this t(1)] show ?thesis using Cons False t by (simp add: at_variable_def)
    qed
  qed
qed

lemma expand_allowed:
  "usesOnlyTokens s allowed \<Longrightarrow> (\<And>c. c \<in> set allowed \<Longrightarrow> expandOne h c facts target \<noteq> None) \<Longrightarrow>
     \<exists>r. expand h facts target False s = Inr r"
proof (induction s allowed rule: usesOnlyTokens.induct)
  case (3 c d cs allowed)
  show ?case
  proof (cases "c = CHR ''%''")
    case True
    then have "d = CHR ''%'' \<or> d \<in> set allowed" "usesOnlyTokens cs allowed" using "3.prems"(1) by (auto split: if_splits)
    moreover have "expandOne h (CHR ''%'') facts target \<noteq> None" by (simp add: expandOne_def)
    ultimately obtain r t where "expandOne h d facts target = Some r" "expand h facts target False cs = Inr t"
      using "3.IH"(2) True "3.prems" by (metis not_None_eq)
    then show ?thesis using True by (simp add: at_variable_def)
  next
    case False
    then obtain t where "expand h facts target False (d # cs) = Inr t" using "3.IH"(1) "3.prems" by auto
    then show ?thesis using False by (simp add: at_variable_def)
  qed
qed (auto simp: at_variable_def)

lemma expand_facts_irrelevant:
  "usesOnlyTokens s allowed \<Longrightarrow> (\<And>c. c \<in> set allowed \<Longrightarrow> expandOne h c facts target = expandOne h' c facts' target) \<Longrightarrow>
     expand h facts target False s = expand h' facts' target False s"
proof (induction s allowed rule: usesOnlyTokens.induct)
  case (3 c d cs allowed)
  have "expandOne h (CHR ''%'') facts target = expandOne h' (CHR ''%'') facts' target" by (simp add: expandOne_def)
  then show ?case using 3 by (auto simp: at_variable_def split: if_splits option.splits)
qed (auto simp: at_variable_def)

section \<open>Properties\<close>



end
