(* ===== verification/EffResolve.thy ===== *)
theory EffResolve
  imports EffLoadOrder EffTokens
begin

text \<open>
  The values a connection to an alias uses (internal/effective/resolve.go, blocknotes.go): the
  visitor that collects the first value of each keyword in load order, the refusals for what only
  a running ssh could decide, defaults, and the expansion of the host name.
\<close>

section \<open>What a resolution returns\<close>

datatype refusal_code = RefusalMatchExec | RefusalMatchUnknown | RefusalMatchFinal | RefusalCanonicalize | RefusalUnknownToken

record Refusal =
  refCode :: refusal_code
  refPath :: gostring
  refLine :: int
  refDetail :: gostring

record Accepted =
  accKeyword :: gostring
  accValues :: "gostring list"
  accPath :: gostring
  accLine :: nat
  accCondition :: gostring

datatype complexity_code = ComplexityWildcardPattern | ComplexityNegatedPattern | ComplexityMatchBlock
  | ComplexityDuplicateAlias | ComplexityProxyIgnored | ComplexityUnresolvedInclude | ComplexityJumpInvalid
  | ComplexityJumpCycle | ComplexityJumpDepth | ComplexityJumpUnresolved

record Complexity =
  cpxCode :: complexity_code
  cpxPath :: gostring
  cpxLine :: int
  cpxCondition :: gostring
  cpxDetail :: gostring
  cpxRelatedPath :: gostring
  cpxRelatedLine :: int

definition complexity :: "complexity_code \<Rightarrow> gostring \<Rightarrow> int \<Rightarrow> gostring \<Rightarrow> gostring \<Rightarrow> Complexity" where
  "complexity code path line condition detail = \<lparr>cpxCode = code, cpxPath = path, cpxLine = line, cpxCondition = condition,
     cpxDetail = detail, cpxRelatedPath = [], cpxRelatedLine = 0\<rparr>"

record Resolution =
  resValues :: ResolvedValues
  resAccepted :: "Accepted list"
  resRefusals :: "Refusal list"
  resNotes :: "Complexity list"

definition no_values :: ResolvedValues where
  "no_values = \<lparr>rvKeywords = [], rvEntries = Map.empty\<rparr>"

section \<open>Notes on Host blocks\<close>

record hostBlockNotes =
  hbAlias :: gostring
  hbDeclaring :: nat
  hbFirst :: "blockHeader_info option"

definition duplicate_note :: "hostBlockNotes \<Rightarrow> blockHeader_info \<Rightarrow> Complexity list" where
  "duplicate_note notes h =
     (case hbFirst notes of
        None \<Rightarrow> []
      | Some first \<Rightarrow> [(complexity ComplexityDuplicateAlias (bhPath h) (bhNumber h) (bhCondition h) (hbAlias notes))
          \<lparr>cpxRelatedPath := bhPath first, cpxRelatedLine := bhNumber first\<rparr>])"

definition observe :: "hostBlockNotes \<Rightarrow> blockHeader_info \<Rightarrow> SourceKind \<Rightarrow> Complexity list \<times> hostBlockNotes" where
  "observe notes h kind =
     (let at = (\<lambda>code detail. complexity code (bhPath h) (bhNumber h) (bhCondition h) detail);
          declares = DeclaresExactly (blockPatterns (bhBlock h)) (hbAlias notes) \<and> \<not> bhInGroupsFile h;
          duplicate = (if declares then duplicate_note notes h else []);
          notes' = (if declares then notes\<lparr>hbDeclaring := hbDeclaring notes + 1,
                      hbFirst := (if hbDeclaring notes = 0 then Some h else hbFirst notes)\<rparr> else notes);
          wildcard = (if kind = SourceWildcard then [at ComplexityWildcardPattern ''this block matched through a wildcard pattern''] else []);
          negated = (case find patNegated (blockPatterns (bhBlock h)) of
                       None \<Rightarrow> []
                     | Some p \<Rightarrow> [at ComplexityNegatedPattern (''this block excludes hosts through '' @ patRaw p)])
      in (duplicate @ wildcard @ negated, notes'))"

definition unresolvedIncludeNotes :: "Diagnostic list \<Rightarrow> Complexity list" where
  "unresolvedIncludeNotes diagnostics =
     map (\<lambda>d. complexity ComplexityUnresolvedInclude (diagPath d) (int (diagLine d)) [] (diagCode d))
       (filter (\<lambda>d. diagSeverity d \<noteq> SeverityInfo) diagnostics)"

section \<open>The state of the walk\<close>

record resolveWalk =
  rwAlias :: gostring
  rwFacts :: LocalFacts
  rwValues :: ResolvedValues
  rwClaimed :: "gostring list"
  rwAccepted :: "Accepted list"
  rwRefusals :: "Refusal list"
  rwNotes :: "Complexity list"
  rwHostNotes :: hostBlockNotes

definition newResolveWalk :: "gostring \<Rightarrow> LocalFacts \<Rightarrow> resolveWalk" where
  "newResolveWalk alias facts = \<lparr>rwAlias = alias, rwFacts = facts, rwValues = no_values, rwClaimed = [], rwAccepted = [],
     rwRefusals = [], rwNotes = [], rwHostNotes = \<lparr>hbAlias = alias, hbDeclaring = 0, hbFirst = None\<rparr>\<rparr>"

text \<open>Keywords that OpenSSH collects instead of keeping the first value.\<close>

definition cumulativeKeywords :: "gostring list" where
  "cumulativeKeywords = [''identityfile'', ''certificatefile'', ''localforward'', ''remoteforward'', ''dynamicforward'', ''sendenv'']"

definition valueOr :: "ResolvedValues \<Rightarrow> gostring \<Rightarrow> gostring \<Rightarrow> gostring" where
  "valueOr v keyword fallback = (let found = rv_First v keyword in if found \<noteq> [] then found else fallback)"

definition matchHostName :: "(gostring \<Rightarrow> gostring) \<Rightarrow> ResolvedValues \<Rightarrow> gostring \<Rightarrow> gostring" where
  "matchHostName sha1_hex v alias =
     (let hostName = valueOr v ''hostname'' alias in
      case ExpandTokens sha1_hex hostName no_facts
             \<lparr>ttAlias = alias, ttHostName = alias, ttPort = [], ttRemoteUser = [], ttHostKeyAlias = [], ttJumpHost = []\<rparr> of
        Inl _ \<Rightarrow> hostName
      | Inr expanded \<Rightarrow> expanded)"

definition matchContext :: "(gostring \<Rightarrow> gostring) \<Rightarrow> resolveWalk \<Rightarrow> MatchContext" where
  "matchContext sha1_hex w = \<lparr>mcAlias = rwAlias w, mcOriginalAlias = rwAlias w,
     mcHostName = matchHostName sha1_hex (rwValues w) (rwAlias w),
     mcUser = valueOr (rwValues w) ''user'' (lfUser (rwFacts w)), mcLocalUser = lfUser (rwFacts w),
     mcTags = rv_All (rwValues w) ''tag'', mcFinal = False, mcCanonical = False\<rparr>"

definition refuse :: "resolveWalk \<Rightarrow> blockHeader_info \<Rightarrow> refusal_code \<Rightarrow> gostring \<Rightarrow> resolveWalk" where
  "refuse w h code detail =
     w\<lparr>rwRefusals := rwRefusals w @ [\<lparr>refCode = code, refPath = bhPath h, refLine = bhNumber h, refDetail = detail\<rparr>]\<rparr>"

definition enterMatch :: "(gostring \<Rightarrow> gostring) \<Rightarrow> resolveWalk \<Rightarrow> blockHeader_info \<Rightarrow> bool \<times> resolveWalk" where
  "enterMatch sha1_hex w h =
     (if list_ex (\<lambda>c. EqualKeyword (critKeyword c) ''final'') (blockCriteria (bhBlock h)) then
        (False, refuse w h RefusalMatchFinal ''Match final needs a second pass this resolver does not make'')
      else if bhNeverMatch h then (False, w)
      else (case MatchApplies (blockCriteria (bhBlock h)) (matchContext sha1_hex w) of
              Inl ErrMatchExec \<Rightarrow>
                (False, refuse w h RefusalMatchExec ''this resolver runs nothing, so Match exec cannot be evaluated'')
            | Inl ErrMatchUnsupported \<Rightarrow>
                (False, refuse w h RefusalMatchUnknown ''that Match criterion is not evaluated'')
            | Inr matched \<Rightarrow> (matched, w)))"

definition rw_enterBlock :: "(gostring \<Rightarrow> gostring) \<Rightarrow> blockHeader_info \<Rightarrow> resolveWalk \<Rightarrow> (SourceKind \<times> bool) \<times> resolveWalk" where
  "rw_enterBlock sha1_hex h w =
     (if blockKind (bhBlock h) = BlockMatch then
        (case enterMatch sha1_hex w h of (applies, w') \<Rightarrow> ((SourceNone, applies), w'))
      else
        (case hostBlockApplies (blockPatterns (bhBlock h)) (rwAlias w) of
           (kind, applies) \<Rightarrow>
             (if applies \<and> \<not> bhNeverMatch h then
                (case observe (rwHostNotes w) h kind of
                   (observed, notes') \<Rightarrow> ((kind, applies), w\<lparr>rwNotes := rwNotes w @ observed, rwHostNotes := notes'\<rparr>))
              else ((kind, applies), w))))"

definition proxyDirectiveIgnored :: "gostring \<Rightarrow> ResolvedValues \<Rightarrow> gostring option" where
  "proxyDirectiveIgnored keyword v =
     (if ToLower keyword = ''proxycommand'' then
        (let jump = rv_First v ''proxyjump'' in
         if jump \<noteq> [] \<and> \<not> EqualKeyword jump ''none'' then Some ''ProxyCommand is ignored because ProxyJump was already set''
         else None)
      else if ToLower keyword = ''proxyjump'' then
        (if rv_First v ''proxycommand'' \<noteq> [] then Some ''ProxyJump is ignored because ProxyCommand was already set'' else None)
      else None)"

text \<open>\<open>set\<close>: the first values of a keyword are taken, later ones only for the cumulative keywords.\<close>

definition rw_set :: "gostring \<Rightarrow> gostring list \<Rightarrow> resolveWalk \<Rightarrow> resolveWalk option" where
  "rw_set keyword entries w =
     (let lowered = ToLower keyword; v = rwValues w in
      if entries = [] then None
      else if lowered \<in> set (rwClaimed w) \<and> \<not> List.member cumulativeKeywords lowered then None
      else Some (w\<lparr>rwValues := \<lparr>
              rvKeywords = (if rvEntries v lowered = None then rvKeywords v @ [lowered] else rvKeywords v),
              rvEntries = (rvEntries v)(lowered \<mapsto> (case rvEntries v lowered of None \<Rightarrow> [] | Some old \<Rightarrow> old) @ entries)\<rparr>,
            rwClaimed := lowered # rwClaimed w\<rparr>))"

definition rw_directive :: "directiveLine \<Rightarrow> resolveWalk \<Rightarrow> resolveWalk" where
  "rw_directive found w =
     (let l = dlLine found; entries = directiveValues l in
      if EqualKeyword (lineKeyword l) ''CanonicalizeHostname'' \<and> \<not> EqualKeyword (join_with SP entries) ''no'' then
        w\<lparr>rwRefusals := rwRefusals w @ [\<lparr>refCode = RefusalCanonicalize, refPath = dlPath found, refLine = int (dlNumber found),
            refDetail = ''canonicalisation re-reads the configuration, which this resolver does not do''\<rparr>]\<rparr>
      else (case proxyDirectiveIgnored (lineKeyword l) (rwValues w) of
              Some reason \<Rightarrow>
                w\<lparr>rwNotes := rwNotes w @ [complexity ComplexityProxyIgnored (dlPath found) (int (dlNumber found))
                    (bsCondition (dlState found)) reason]\<rparr>
            | None \<Rightarrow>
                (case rw_set (lineKeyword l) entries w of
                   None \<Rightarrow> w
                 | Some w' \<Rightarrow>
                     w'\<lparr>rwAccepted := rwAccepted w' @ [\<lparr>accKeyword = lineKeyword l, accValues = entries, accPath = dlPath found,
                         accLine = dlNumber found, accCondition = bsCondition (dlState found)\<rparr>]\<rparr>)))"

definition resolve_visitor :: "(gostring \<Rightarrow> gostring) \<Rightarrow> resolveWalk loadOrderVisitor" where
  "resolve_visitor sha1_hex = \<lparr>visEnterBlock = rw_enterBlock sha1_hex, visDirective = rw_directive\<rparr>"

section \<open>After the walk\<close>

definition DefaultPort :: gostring where "DefaultPort = ''22''"

definition fill :: "gostring \<Rightarrow> gostring \<Rightarrow> ResolvedValues \<Rightarrow> ResolvedValues" where
  "fill keyword candidate v =
     (if rv_All v keyword \<noteq> [] then v
      else if candidate = [] then v
      else \<lparr>rvKeywords = rvKeywords v @ [keyword], rvEntries = (rvEntries v)(keyword \<mapsto> rv_All v keyword @ [candidate])\<rparr>)"

definition applyDefaults :: "gostring \<Rightarrow> LocalFacts \<Rightarrow> ResolvedValues \<Rightarrow> ResolvedValues" where
  "applyDefaults alias facts v = fill ''port'' DefaultPort (fill ''user'' (lfUser facts) (fill ''hostname'' alias v))"

definition expandsTokens :: "gostring \<Rightarrow> gostring option" where
  "expandsTokens keyword = (if keyword = ''hostname'' then Some ''h'' else None)"

text \<open>The entries of one keyword; an entry with a token that it does not allow is returned as the error.\<close>

primrec expand_entries :: "(gostring \<Rightarrow> gostring) \<Rightarrow> gostring \<Rightarrow> LocalFacts \<Rightarrow> TokenTarget \<Rightarrow> gostring list \<Rightarrow> gostring + gostring list" where
  "expand_entries sha1_hex allowed facts target [] = Inr []"
| "expand_entries sha1_hex allowed facts target (e # es) =
     (case ExpandTokens sha1_hex e facts target of
        Inl _ \<Rightarrow> Inl e
      | Inr expanded \<Rightarrow>
          (if \<not> usesOnlyTokens e allowed then Inl e
           else (case expand_entries sha1_hex allowed facts target es of
                   Inl bad \<Rightarrow> Inl bad
                 | Inr rest \<Rightarrow> Inr (expanded # rest))))"

definition expand_keyword :: "(gostring \<Rightarrow> gostring) \<Rightarrow> gostring \<Rightarrow> LocalFacts \<Rightarrow> TokenTarget \<Rightarrow> ResolvedValues \<Rightarrow> Refusal + ResolvedValues" where
  "expand_keyword sha1_hex keyword facts target v =
     (case rvEntries v keyword of
        None \<Rightarrow> Inr v
      | Some es \<Rightarrow>
          (case expand_entries sha1_hex (case expandsTokens keyword of None \<Rightarrow> [] | Some allowed \<Rightarrow> allowed) facts target es of
             Inl entry \<Rightarrow> Inl \<lparr>refCode = RefusalUnknownToken, refPath = [], refLine = 0,
                 refDetail = keyword @ '' uses a token this resolver does not expand: '' @ entry\<rparr>
           | Inr expanded \<Rightarrow> Inr (v\<lparr>rvEntries := (rvEntries v)(keyword \<mapsto> expanded)\<rparr>)))"

text \<open>The loop over the other keywords of the table; the table has no other keyword.\<close>

primrec expand_keywords :: "(gostring \<Rightarrow> gostring) \<Rightarrow> gostring list \<Rightarrow> LocalFacts \<Rightarrow> TokenTarget \<Rightarrow> ResolvedValues \<Rightarrow> Refusal + ResolvedValues" where
  "expand_keywords sha1_hex [] facts target v = Inr v"
| "expand_keywords sha1_hex (k # ks) facts target v =
     (if k = ''hostname'' \<or> expandsTokens k = None then expand_keywords sha1_hex ks facts target v
      else (case expand_keyword sha1_hex k facts target v of
              Inl r \<Rightarrow> Inl r
            | Inr v' \<Rightarrow> expand_keywords sha1_hex ks facts target v'))"

definition expandAll :: "(gostring \<Rightarrow> gostring) \<Rightarrow> gostring \<Rightarrow> LocalFacts \<Rightarrow> ResolvedValues \<Rightarrow> Refusal + ResolvedValues" where
  "expandAll sha1_hex alias facts v =
     (case expand_keyword sha1_hex ''hostname'' facts
             \<lparr>ttAlias = alias, ttHostName = alias, ttPort = [], ttRemoteUser = [], ttHostKeyAlias = [], ttJumpHost = []\<rparr> v of
        Inl r \<Rightarrow> Inl r
      | Inr v' \<Rightarrow>
          expand_keywords sha1_hex (rvKeywords v') facts
            \<lparr>ttAlias = alias, ttHostName = valueOr v' ''hostname'' alias, ttPort = valueOr v' ''port'' DefaultPort,
             ttRemoteUser = valueOr v' ''user'' (lfUser facts), ttHostKeyAlias = [], ttJumpHost = []\<rparr> v')"

definition lowerHostName :: "ResolvedValues \<Rightarrow> ResolvedValues" where
  "lowerHostName v =
     (case rvEntries v ''hostname'' of
        None \<Rightarrow> v
      | Some es \<Rightarrow> v\<lparr>rvEntries := (rvEntries v)(''hostname'' \<mapsto> map (\<lambda>h. if ParseAddr_ok h then h else LowerASCII h) es)\<rparr>)"

definition Resolve :: "(gostring \<Rightarrow> gostring) \<Rightarrow> Graph option \<Rightarrow> gostring \<Rightarrow> LocalFacts \<Rightarrow> Resolution" where
  "Resolve sha1_hex graph alias facts =
     (case graph of
        None \<Rightarrow> \<lparr>resValues = no_values, resAccepted = [], resRefusals = [], resNotes = []\<rparr>
      | Some g \<Rightarrow>
          (let w = walkLoadOrder graph (resolve_visitor sha1_hex) (newResolveWalk alias facts);
               notes = rwNotes w @ unresolvedIncludeNotes (graphDiagnostics g) in
           if rwRefusals w \<noteq> [] then
             \<lparr>resValues = no_values, resAccepted = [], resRefusals = rwRefusals w, resNotes = []\<rparr>
           else (case expandAll sha1_hex alias facts (applyDefaults alias facts (rwValues w)) of
                   Inl refusal \<Rightarrow> \<lparr>resValues = no_values, resAccepted = [], resRefusals = [refusal], resNotes = []\<rparr>
                 | Inr v \<Rightarrow> \<lparr>resValues = lowerHostName v, resAccepted = rwAccepted w, resRefusals = [], resNotes = notes\<rparr>)))"

section \<open>Values and accepted lines agree\<close>

definition accepted_for :: "gostring \<Rightarrow> Accepted list \<Rightarrow> Accepted list" where
  "accepted_for k as = filter (\<lambda>a. ToLower (accKeyword a) = k) as"

definition collected :: "gostring \<Rightarrow> Accepted list \<Rightarrow> gostring list option" where
  "collected k as = (if accepted_for k as = [] then None else Some (concat (map accValues (accepted_for k as))))"

definition walk_consistent :: "resolveWalk \<Rightarrow> bool" where
  "walk_consistent w \<longleftrightarrow> rvEntries (rwValues w) = (\<lambda>k. collected k (rwAccepted w)) \<and>
     set (rwClaimed w) = (\<lambda>a. ToLower (accKeyword a)) ` set (rwAccepted w) \<and>
     (\<forall>a \<in> set (rwAccepted w). accValues a \<noteq> []) \<and>
     (\<forall>k. k \<notin> set cumulativeKeywords \<longrightarrow> length (accepted_for k (rwAccepted w)) \<le> 1)"

lemma accepted_for_append [simp]: "accepted_for k (as @ bs) = accepted_for k as @ accepted_for k bs"
  by (simp add: accepted_for_def)

lemma accepted_for_none: "accepted_for k as = [] \<longleftrightarrow> k \<notin> (\<lambda>a. ToLower (accKeyword a)) ` set as"
  by (auto simp: accepted_for_def filter_empty_conv)

lemma walk_consistent_same:
  "rwValues w' = rwValues w \<Longrightarrow> rwClaimed w' = rwClaimed w \<Longrightarrow> rwAccepted w' = rwAccepted w \<Longrightarrow>
     walk_consistent w' = walk_consistent w"
  by (simp add: walk_consistent_def)

lemma rw_enterBlock_values:
  "rwValues (snd (rw_enterBlock h hdr w)) = rwValues w" "rwClaimed (snd (rw_enterBlock h hdr w)) = rwClaimed w"
  "rwAccepted (snd (rw_enterBlock h hdr w)) = rwAccepted w" "rwAlias (snd (rw_enterBlock h hdr w)) = rwAlias w"
  by (auto simp: rw_enterBlock_def enterMatch_def refuse_def split: prod.splits sum.splits match_error.splits)

lemma rw_directive_alias: "rwAlias (rw_directive d w) = rwAlias w"
  by (auto simp: rw_directive_def rw_set_def Let_def split: option.splits if_splits)

lemma rw_set_Some:
  assumes "rw_set keyword entries w = Some w'"
  shows "rwAccepted w' = rwAccepted w \<and> rwClaimed w' = ToLower keyword # rwClaimed w \<and> entries \<noteq> [] \<and>
    (ToLower keyword \<notin> set (rwClaimed w) \<or> ToLower keyword \<in> set cumulativeKeywords) \<and>
    rvEntries (rwValues w') = (rvEntries (rwValues w))(ToLower keyword \<mapsto>
      (case rvEntries (rwValues w) (ToLower keyword) of None \<Rightarrow> [] | Some old \<Rightarrow> old) @ entries)"
  using assms by (auto simp: rw_set_def Let_def split: if_splits)

text \<open>What a directive does to the values: nothing, or one accepted line.\<close>

lemma rw_directive_cases:
  obtains (same) "rwValues (rw_directive d w) = rwValues w" "rwClaimed (rw_directive d w) = rwClaimed w"
      "rwAccepted (rw_directive d w) = rwAccepted w"
    | (accept) a k where "k = ToLower (accKeyword a)" "accKeyword a = lineKeyword (dlLine d)" "accValues a = directiveValues (dlLine d)" "accValues a \<noteq> []"
      "accPath a = dlPath d" "accLine a = dlNumber d" "accCondition a = bsCondition (dlState d)"
      "k \<notin> set (rwClaimed w) \<or> k \<in> set cumulativeKeywords"
      "rwAccepted (rw_directive d w) = rwAccepted w @ [a]" "rwClaimed (rw_directive d w) = k # rwClaimed w"
      "rvEntries (rwValues (rw_directive d w)) = (rvEntries (rwValues w))(k \<mapsto>
         (case rvEntries (rwValues w) k of None \<Rightarrow> [] | Some old \<Rightarrow> old) @ accValues a)"
proof -
  let ?l = "dlLine d"
  let ?canonical = "EqualKeyword (lineKeyword ?l) ''CanonicalizeHostname'' \<and> \<not> EqualKeyword (join_with SP (directiveValues ?l)) ''no''"
  consider (canonical) "?canonical"
    | (ignored) reason where "\<not> ?canonical" "proxyDirectiveIgnored (lineKeyword ?l) (rwValues w) = Some reason"
    | (refused) "\<not> ?canonical" "proxyDirectiveIgnored (lineKeyword ?l) (rwValues w) = None"
        "rw_set (lineKeyword ?l) (directiveValues ?l) w = None"
    | (taken) w' where "\<not> ?canonical" "proxyDirectiveIgnored (lineKeyword ?l) (rwValues w) = None"
        "rw_set (lineKeyword ?l) (directiveValues ?l) w = Some w'"
    by (metis option.exhaust)
  then show ?thesis
  proof cases
    case taken
    let ?a = "\<lparr>accKeyword = lineKeyword ?l, accValues = directiveValues ?l, accPath = dlPath d,
         accLine = dlNumber d, accCondition = bsCondition (dlState d)\<rparr>"
    have "rw_directive d w = w'\<lparr>rwAccepted := rwAccepted w' @ [?a]\<rparr>"
      unfolding rw_directive_def Let_def if_not_P [OF taken(1)] taken(2,3) by simp
    then show ?thesis using rw_set_Some [OF taken(3)] by (intro accept [of "ToLower (lineKeyword ?l)" ?a]) auto
  qed (intro same; simp add: rw_directive_def Let_def)+
qed

lemma rw_directive_consistent:
  assumes "walk_consistent w"
  shows "walk_consistent (rw_directive d w)"
proof (cases rule: rw_directive_cases [of d w])
  case same
  then show ?thesis using assms walk_consistent_same by blast
next
  case (accept a k)
  have old: "rvEntries (rwValues w) = (\<lambda>k. collected k (rwAccepted w))"
    "set (rwClaimed w) = (\<lambda>a. ToLower (accKeyword a)) ` set (rwAccepted w)"
    "\<And>k. k \<notin> set cumulativeKeywords \<Longrightarrow> length (accepted_for k (rwAccepted w)) \<le> 1"
    "\<forall>a \<in> set (rwAccepted w). accValues a \<noteq> []"
    using assms by (auto simp: walk_consistent_def)
  have one: "accepted_for k' [a] = (if k' = k then [a] else [])" for k' using accept(1) by (simp add: accepted_for_def)
  have "rvEntries (rwValues (rw_directive d w)) = (\<lambda>k'. collected k' (rwAccepted w @ [a]))"
    by (auto simp: accept(11) old(1) collected_def one fun_eq_iff)
  moreover have "length (accepted_for k' (rwAccepted w @ [a])) \<le> 1" if "k' \<notin> set cumulativeKeywords" for k'
  proof (cases "k' = k")
    case True
    then have "k \<notin> set (rwClaimed w)" using accept(8) that by simp
    then have "accepted_for k (rwAccepted w) = []" unfolding accepted_for_none old(2) .
    then show ?thesis using True one by simp
  qed (use old(3) [OF that] one in simp)
  ultimately show ?thesis using accept(1,4,9,10) old(2,4) by (simp add: walk_consistent_def)
qed

interpretation resolve_walk: load_order_invariant "resolve_visitor sha1_hex" walk_consistent
proof unfold_locales
  fix s :: resolveWalk and h
  assume "walk_consistent s"
  then show "walk_consistent (snd (visEnterBlock (resolve_visitor sha1_hex) h s))"
    using walk_consistent_same [OF rw_enterBlock_values(1-3)] by (simp add: resolve_visitor_def)
next
  fix s :: resolveWalk and d
  assume "walk_consistent s"
  then show "walk_consistent (visDirective (resolve_visitor sha1_hex) d s)"
    by (simp add: resolve_visitor_def rw_directive_consistent)
qed

lemma walked_consistent: "walk_consistent (walkLoadOrder graph (resolve_visitor sha1_hex) (newResolveWalk alias facts))"
  by (rule resolve_walk.walk_keeps)
    (simp add: walk_consistent_def newResolveWalk_def no_values_def collected_def accepted_for_def fun_eq_iff)

section \<open>Which of the offered lines are accepted\<close>

text \<open>
  Of the lines the walk offers for a keyword those that hold a value are its candidates. All of them
  are accepted for a cumulative keyword, the first one for every other. (ProxyCommand and ProxyJump
  turn each other off, and are left out here.)
\<close>

definition accepted_line :: "directiveLine \<Rightarrow> Accepted" where
  "accepted_line d = \<lparr>accKeyword = lineKeyword (dlLine d), accValues = directiveValues (dlLine d), accPath = dlPath d,
     accLine = dlNumber d, accCondition = bsCondition (dlState d)\<rparr>"

definition candidates :: "gostring \<Rightarrow> directiveLine list \<Rightarrow> directiveLine list" where
  "candidates k ds = filter (\<lambda>d. ToLower (lineKeyword (dlLine d)) = k \<and> directiveValues (dlLine d) \<noteq> []) ds"

definition chosen :: "gostring \<Rightarrow> directiveLine list \<Rightarrow> Accepted list" where
  "chosen k ds = map accepted_line (if k \<in> set cumulativeKeywords then candidates k ds else take 1 (candidates k ds))"

definition proxyKeywords :: "gostring set" where
  "proxyKeywords = {''proxycommand'', ''proxyjump''}"

lemma accepted_for_one: "accepted_for k [accepted_line d] = (if ToLower (lineKeyword (dlLine d)) = k then [accepted_line d] else [])"
  by (simp add: accepted_for_def accepted_line_def)

lemma chosen_snoc:
  "chosen k (ds @ [d]) =
     chosen k ds @ (if ToLower (lineKeyword (dlLine d)) = k \<and> directiveValues (dlLine d) \<noteq> [] \<and>
       (chosen k ds = [] \<or> k \<in> set cumulativeKeywords) then [accepted_line d] else [])"
  by (cases "candidates k ds") (simp_all add: chosen_def candidates_def)

lemma rw_enterBlock_refusals: "rwRefusals (snd (rw_enterBlock h hdr w)) = [] \<Longrightarrow> rwRefusals w = []"
  by (auto simp: rw_enterBlock_def enterMatch_def refuse_def split: prod.splits sum.splits match_error.splits if_splits)

lemma rw_set_refusals: "rw_set keyword entries w = Some w' \<Longrightarrow> rwRefusals w' = rwRefusals w"
  by (auto simp: rw_set_def Let_def split: if_splits)

text \<open>A directive that is not refused: it is accepted if it holds a value and its keyword still takes one.\<close>

lemma rw_directive_unrefused:
  assumes "rwRefusals (rw_directive d w) = []"
  shows "rwRefusals w = []"
    and "ToLower (lineKeyword (dlLine d)) \<notin> proxyKeywords \<Longrightarrow>
      rwAccepted (rw_directive d w) = rwAccepted w @
        (if directiveValues (dlLine d) \<noteq> [] \<and>
            (ToLower (lineKeyword (dlLine d)) \<notin> set (rwClaimed w) \<or> ToLower (lineKeyword (dlLine d)) \<in> set cumulativeKeywords)
         then [accepted_line d] else [])"
    and "\<exists>as. rwAccepted (rw_directive d w) = rwAccepted w @ as \<and> set as \<subseteq> {accepted_line d}"
proof -
  let ?l = "dlLine d"
  have plain: "\<not> (EqualKeyword (lineKeyword ?l) ''CanonicalizeHostname'' \<and> \<not> EqualKeyword (join_with SP (directiveValues ?l)) ''no'')"
  proof (rule notI)
    assume canonical: "EqualKeyword (lineKeyword ?l) ''CanonicalizeHostname'' \<and> \<not> EqualKeyword (join_with SP (directiveValues ?l)) ''no''"
    have "rwRefusals (rw_directive d w) \<noteq> []" unfolding rw_directive_def Let_def if_P [OF canonical] by simp
    then show False using assms by simp
  qed
  note rw = rw_directive_def [of d w, unfolded Let_def if_not_P [OF plain]]
  show "rwRefusals w = []"
    using assms unfolding rw by (auto simp: rw_set_refusals split: option.splits)
  show "\<exists>as. rwAccepted (rw_directive d w) = rwAccepted w @ as \<and> set as \<subseteq> {accepted_line d}"
  proof (cases "proxyDirectiveIgnored (lineKeyword ?l) (rwValues w)")
    case None
    show ?thesis
    proof (cases "rw_set (lineKeyword ?l) (directiveValues ?l) w")
      case (Some w')
      have "rwAccepted w' = rwAccepted w" using rw_set_Some [OF Some] by blast
      then have "rwAccepted (rw_directive d w) = rwAccepted w @ [accepted_line d]"
        using None Some by (simp add: rw accepted_line_def)
      then show ?thesis by simp
    qed (use None in \<open>simp add: rw\<close>)
  qed (simp add: rw)
  assume "ToLower (lineKeyword ?l) \<notin> proxyKeywords"
  then have proxy: "proxyDirectiveIgnored (lineKeyword ?l) (rwValues w) = None"
    by (simp add: proxyDirectiveIgnored_def proxyKeywords_def)
  show "rwAccepted (rw_directive d w) = rwAccepted w @
        (if directiveValues ?l \<noteq> [] \<and>
            (ToLower (lineKeyword ?l) \<notin> set (rwClaimed w) \<or> ToLower (lineKeyword ?l) \<in> set cumulativeKeywords)
         then [accepted_line d] else [])"
    unfolding rw proxy by (simp add: rw_set_def Let_def accepted_line_def)
qed

definition walk_chosen :: "resolveWalk \<times> directiveLine list \<Rightarrow> bool" where
  "walk_chosen t \<longleftrightarrow> walk_consistent (fst t) \<and>
     (rwRefusals (fst t) = [] \<longrightarrow> (\<forall>k. k \<notin> proxyKeywords \<longrightarrow> accepted_for k (rwAccepted (fst t)) = chosen k (snd t)))"

lemma rw_directive_chosen:
  assumes "walk_chosen (w, ds)"
  shows "walk_chosen (rw_directive d w, ds @ [d])"
proof -
  have c: "walk_consistent w" using assms by (simp add: walk_chosen_def)
  have "accepted_for k (rwAccepted (rw_directive d w)) = chosen k (ds @ [d])"
    if unrefused: "rwRefusals (rw_directive d w) = []" and k: "k \<notin> proxyKeywords" for k
  proof -
    note step = rw_directive_unrefused [OF unrefused]
    have old: "accepted_for k (rwAccepted w) = chosen k ds" using assms step(1) k by (simp add: walk_chosen_def)
    have claimed: "k \<in> set (rwClaimed w) \<longleftrightarrow> chosen k ds \<noteq> []"
      using c old accepted_for_none [of k "rwAccepted w"] by (auto simp: walk_consistent_def)
    show ?thesis
    proof (cases "ToLower (lineKeyword (dlLine d)) = k")
      case True
      then have "rwAccepted (rw_directive d w) = rwAccepted w @
          (if directiveValues (dlLine d) \<noteq> [] \<and> (chosen k ds = [] \<or> k \<in> set cumulativeKeywords) then [accepted_line d] else [])"
        using step(2) k claimed by simp
      then show ?thesis using True old by (simp add: chosen_snoc accepted_for_one accepted_for_none)
    next
      case False
      obtain as where as: "rwAccepted (rw_directive d w) = rwAccepted w @ as" "set as \<subseteq> {accepted_line d}" using step(3) by blast
      have "accepted_for k as = []" using as(2) False by (auto simp: accepted_for_none accepted_line_def)
      then show ?thesis using as(1) False old by (simp add: chosen_snoc)
    qed
  qed
  then show ?thesis using rw_directive_consistent [OF c] by (simp add: walk_chosen_def)
qed

interpretation noted_walk: load_order_invariant "noting (resolve_visitor sha1_hex)" walk_chosen
proof unfold_locales
  fix t :: "resolveWalk \<times> directiveLine list" and h
  assume t: "walk_chosen t"
  let ?w = "snd (rw_enterBlock sha1_hex h (fst t))"
  have step: "snd (visEnterBlock (noting (resolve_visitor sha1_hex)) h t) = (?w, snd t)"
    by (simp add: noting_def resolve_visitor_def split: prod.splits)
  have "walk_consistent ?w"
    using t walk_consistent_same [OF rw_enterBlock_values(1-3)] by (simp add: walk_chosen_def)
  moreover have "rwRefusals (fst t) = []" if "rwRefusals ?w = []" using rw_enterBlock_refusals [OF that] .
  ultimately show "walk_chosen (snd (visEnterBlock (noting (resolve_visitor sha1_hex)) h t))"
    using t unfolding step by (simp add: walk_chosen_def rw_enterBlock_values(3))
next
  fix t :: "resolveWalk \<times> directiveLine list" and d
  assume "walk_chosen t"
  then have "walk_chosen (fst t, snd t)" by simp
  from rw_directive_chosen [OF this] show "walk_chosen (visDirective (noting (resolve_visitor sha1_hex)) d t)"
    by (simp add: noting_def resolve_visitor_def)
qed

lemma walked_chosen:
  assumes "w = walkLoadOrder graph (resolve_visitor sha1_hex) (newResolveWalk alias facts)"
    and "rwRefusals w = []" and "k \<notin> proxyKeywords"
  shows "accepted_for k (rwAccepted w) = chosen k (offered graph (resolve_visitor sha1_hex) (newResolveWalk alias facts))"
proof -
  have "walk_chosen (newResolveWalk alias facts, [])"
    by (simp add: walk_chosen_def walk_consistent_def newResolveWalk_def no_values_def collected_def accepted_for_def
      fun_eq_iff chosen_def candidates_def)
  from noted_walk.walk_keeps [OF this]
  have "walk_chosen (walkLoadOrder graph (noting (resolve_visitor sha1_hex)) (newResolveWalk alias facts, []))" .
  then show ?thesis using assms noting_walk [of graph "resolve_visitor sha1_hex" "(newResolveWalk alias facts, [])"]
    by (simp add: walk_chosen_def offered_def)
qed

section \<open>Defaults and expansion leave the other keywords alone\<close>

lemma fill_other: "k \<noteq> keyword \<Longrightarrow> rvEntries (fill keyword candidate v) k = rvEntries v k"
  by (simp add: fill_def)

lemma fill_kept: "ToLower keyword = keyword \<Longrightarrow> rv_All v keyword \<noteq> [] \<Longrightarrow> fill keyword candidate v = v"
  by (simp add: fill_def)

lemma expand_keyword_other:
  "expand_keyword h keyword facts target v = Inr v' \<Longrightarrow> k \<noteq> keyword \<Longrightarrow> rvEntries v' k = rvEntries v k"
  by (auto simp: expand_keyword_def split: option.splits sum.splits)

lemma expandsTokens_other: "k = ''hostname'' \<or> expandsTokens k = None"
  by (simp add: expandsTokens_def)

lemma expand_keywords_same: "expand_keywords h ks facts target v = Inr v"
  by (induction ks) (simp_all add: expandsTokens_other)

lemma expandAll_other:
  assumes "expandAll h alias facts v = Inr v'" and "k \<noteq> ''hostname''"
  shows "rvEntries v' k = rvEntries v k"
proof -
  have "expand_keyword h ''hostname'' facts
      \<lparr>ttAlias = alias, ttHostName = alias, ttPort = [], ttRemoteUser = [], ttHostKeyAlias = [], ttJumpHost = []\<rparr> v = Inr v'"
    using assms(1) unfolding expandAll_def expand_keywords_same by (simp split: sum.splits)
  then show ?thesis using assms(2) by (rule expand_keyword_other)
qed

lemma lowerHostName_other: "k \<noteq> ''hostname'' \<Longrightarrow> rvEntries (lowerHostName v) k = rvEntries v k"
  by (simp add: lowerHostName_def split: option.splits)

lemma applyDefaults_kept:
  assumes "rvEntries v k = Some es" and "es \<noteq> []" and "k \<noteq> ''hostname''"
  shows "rvEntries (applyDefaults alias facts v) k = Some es"
proof -
  have lower: "ToLower ''user'' = ''user''" "ToLower ''port'' = ''port''" by code_simp+
  define v1 where "v1 = fill ''hostname'' alias v"
  define v2 where "v2 = fill ''user'' (lfUser facts) v1"
  have 1: "rvEntries v1 k = Some es" using assms fill_other by (simp add: v1_def)
  have 2: "rvEntries v2 k = Some es"
  proof (cases "k = ''user''")
    case True
    then have "rv_All v1 ''user'' \<noteq> []" using 1 assms(2) lower by (simp add: rv_All_def)
    then show ?thesis using fill_kept [OF lower(1)] 1 by (simp add: v2_def)
  qed (use 1 fill_other in \<open>simp add: v2_def\<close>)
  show ?thesis
  proof (cases "k = ''port''")
    case True
    then have "rv_All v2 ''port'' \<noteq> []" using 2 assms(2) lower by (simp add: rv_All_def)
    then show ?thesis using fill_kept [OF lower(2)] 2 by (simp add: applyDefaults_def v1_def v2_def)
  qed (use 2 fill_other in \<open>simp add: applyDefaults_def v1_def v2_def\<close>)
qed

section \<open>Properties\<close>


text \<open>A configuration of one file, for the witnesses.\<close>

definition one_file :: "gostring \<Rightarrow> Graph" where
  "one_file source = \<lparr>graphRoot = ''/c'', graphOrder = [''/c''],
     graphNodes = [(''/c'', \<lparr>nodePath = ''/c'', nodeEditable = True, nodeMissing = False, nodeFile = Some (Parse source),
       nodeIncludes = [], nodeLoads = 1, nodeGroupsFile = False\<rparr>)],
     graphDiagnostics = []\<rparr>"

definition sample_source :: gostring where
  "sample_source = ''Port 23'' @ LF # ''Port 24'' @ LF # ''IdentityFile x'' @ LF # ''IdentityFile y''"

lemma sample_resolution:
  "resRefusals (Resolve id (Some (one_file sample_source)) ''a'' no_facts) = []"
  "map accValues (accepted_for ''port'' (resAccepted (Resolve id (Some (one_file sample_source)) ''a'' no_facts))) = [[''23'']]"
  "map accValues (accepted_for ''identityfile'' (resAccepted (Resolve id (Some (one_file sample_source)) ''a'' no_facts))) = [[''x''], [''y'']]"
  by code_simp+


end
