(* ===== verification/EffDanger.thy ===== *)
theory EffDanger
  imports EffResolve
begin

text \<open>
  The commands a connection can run (internal/effective/danger.go) and the explanation of where
  values come from (Project of provenance.go): two more visitors of the walk in load order. The
  scan for an alias takes every reached Match block to apply, so it is a cautious reading of what
  the resolver does; the simulation of the two walks says that it misses no command.
\<close>

section \<open>Executable directives\<close>

record Executable =
  exKeyword :: gostring
  exCommand :: gostring
  exPath :: gostring
  exLine :: int
  exCondition :: gostring
  exOnEvaluate :: bool
  exOnConnect :: bool
  exOverridable :: bool

definition exec_template :: "gostring \<Rightarrow> bool \<Rightarrow> Executable" where
  "exec_template keyword overridable = \<lparr>exKeyword = keyword, exCommand = [], exPath = [], exLine = 0, exCondition = [],
     exOnEvaluate = False, exOnConnect = True, exOverridable = overridable\<rparr>"

definition executableDirectives :: "(gostring \<times> Executable) list" where
  "executableDirectives =
     [(''proxycommand'', exec_template ''ProxyCommand'' False), (''knownhostscommand'', exec_template ''KnownHostsCommand'' False),
      (''localcommand'', exec_template ''LocalCommand'' True), (''remotecommand'', exec_template ''RemoteCommand'' True)]"

definition matchExecutions :: "blockHeader_info \<Rightarrow> Executable list" where
  "matchExecutions h =
     map (\<lambda>c. \<lparr>exKeyword = ''Match exec'', exCommand = critArgument c, exPath = bhPath h, exLine = bhNumber h,
               exCondition = bhCondition h, exOnEvaluate = True, exOnConnect = True, exOverridable = False\<rparr>)
       (filter (\<lambda>c. critKeyword c = ''exec'') (blockCriteria (bhBlock h)))"

definition executableAt :: "directiveLine \<Rightarrow> Executable option" where
  "executableAt found =
     (if lineKind (dlLine found) \<noteq> LineDirective then None
      else (case map_of executableDirectives (ToLower (lineKeyword (dlLine found))) of
              None \<Rightarrow> None
            | Some template \<Rightarrow>
                Some (template\<lparr>exCommand := join_with SP (directiveValues (dlLine found)), exPath := dlPath found,
                  exLine := int (dlNumber found), exCondition := bsCondition (dlState found)\<rparr>)))"

text \<open>The report, with the keys of its entries: path, line, keyword and command.\<close>

type_synonym exec_key = "gostring \<times> int \<times> gostring \<times> gostring"

record Report =
  repDirectives :: "Executable list"
  repSeen :: "exec_key list"

definition exec_key :: "Executable \<Rightarrow> exec_key" where
  "exec_key e = (exPath e, exLine e, exKeyword e, exCommand e)"

definition appendExecutable :: "Executable \<Rightarrow> Report \<Rightarrow> Report" where
  "appendExecutable e report =
     (if List.member (repSeen report) (exec_key e) then report
      else \<lparr>repDirectives = repDirectives report @ [e], repSeen = exec_key e # repSeen report\<rparr>)"

definition scan_enterBlock :: "gostring \<Rightarrow> blockHeader_info \<Rightarrow> Report \<Rightarrow> (SourceKind \<times> bool) \<times> Report" where
  "scan_enterBlock alias h report =
     (if blockKind (bhBlock h) \<noteq> BlockMatch then (hostBlockApplies (blockPatterns (bhBlock h)) alias, report)
      else ((SourceNone, True), fold appendExecutable (matchExecutions h) report))"

definition scan_directive :: "directiveLine \<Rightarrow> Report \<Rightarrow> Report" where
  "scan_directive found report = (case executableAt found of None \<Rightarrow> report | Some e \<Rightarrow> appendExecutable e report)"

definition scan_visitor :: "gostring \<Rightarrow> Report loadOrderVisitor" where
  "scan_visitor alias = \<lparr>visEnterBlock = scan_enterBlock alias, visDirective = scan_directive\<rparr>"

definition ScanForAlias :: "Graph option \<Rightarrow> gostring \<Rightarrow> Executable list" where
  "ScanForAlias graph alias =
     repDirectives (walkLoadOrder graph (scan_visitor alias) \<lparr>repDirectives = [], repSeen = []\<rparr>)"

text \<open>All files, block by block, whatever applies.\<close>

definition scan_block :: "gostring \<Rightarrow> Line list \<Rightarrow> Block \<Rightarrow> Executable list" where
  "scan_block path f b =
     (let h = \<lparr>bhPath = path, bhBlock = b, bhCondition = Condition f b, bhNeverMatch = False, bhInGroupsFile = False\<rparr>;
          at = (\<lambda>index. executableAt \<lparr>dlPath = path, dlNumber = index + 1, dlLine = f ! index,
                  dlState = \<lparr>bsApplies = False, bsKind = SourceNone, bsCondition = Condition f b\<rparr>\<rparr>)
      in (if blockKind b = BlockMatch then matchExecutions h else []) @
         concat (map (\<lambda>index. case at index of None \<Rightarrow> [] | Some e \<Rightarrow> [e]) [blockStart b..<blockEnd b]))"

definition scanAll :: "Graph option \<Rightarrow> Executable list" where
  "scanAll graph =
     (case graph of
        None \<Rightarrow> []
      | Some g \<Rightarrow> concat (map (\<lambda>path.
          (case map_of (graphNodes g) path of
             None \<Rightarrow> []
           | Some node \<Rightarrow>
               (case nodeFile node of
                  None \<Rightarrow> []
                | Some f \<Rightarrow> concat (map (scan_block path f) (Blocks ToLower f))))) (graphOrder g)))"

definition Scan :: "Graph option \<Rightarrow> Executable list" where
  "Scan graph = scanAll graph"

definition Unavoidable :: "Executable list \<Rightarrow> Executable list" where
  "Unavoidable directives = filter (\<lambda>d. exOnConnect d \<and> \<not> exOverridable d) directives"

section \<open>Where the values come from\<close>

record Source =
  srcKeyword :: gostring
  srcValue :: gostring
  srcPath :: gostring
  srcLine :: nat
  srcCondition :: gostring
  srcKind :: SourceKind
  srcWinner :: bool

record Projection =
  prjSources :: "Source list"
  prjComplexities :: "Complexity list"
  prjClaimed :: "gostring list"
  prjHostNotes :: hostBlockNotes

definition project_enterBlock :: "gostring \<Rightarrow> blockHeader_info \<Rightarrow> Projection \<Rightarrow> (SourceKind \<times> bool) \<times> Projection" where
  "project_enterBlock alias h p =
     (if blockKind (bhBlock h) = BlockMatch then
        ((SourceNone, False),
         (if bhNeverMatch h then p
          else p\<lparr>prjComplexities := prjComplexities p @ [complexity ComplexityMatchBlock (bhPath h) (bhNumber h) (bhCondition h)
            ''Match criteria are evaluated while connecting, so this block may override values shown here'']\<rparr>))
      else
        (case hostBlockApplies (blockPatterns (bhBlock h)) alias of
           (kind, applies) \<Rightarrow>
             (if applies \<and> \<not> bhNeverMatch h then
                (case observe (prjHostNotes p) h kind of
                   (observed, notes') \<Rightarrow>
                     ((kind, applies), p\<lparr>prjComplexities := prjComplexities p @ observed, prjHostNotes := notes'\<rparr>))
              else ((kind, applies), p))))"

definition project_directive :: "directiveLine \<Rightarrow> Projection \<Rightarrow> Projection" where
  "project_directive found p =
     (let keyword = ToLower (lineKeyword (dlLine found)) in
      p\<lparr>prjSources := prjSources p @ [\<lparr>srcKeyword = lineKeyword (dlLine found),
          srcValue = join_with SP (directiveValues (dlLine found)), srcPath = dlPath found, srcLine = dlNumber found,
          srcCondition = bsCondition (dlState found), srcKind = bsKind (dlState found),
          srcWinner = (\<not> List.member (prjClaimed p) keyword \<or> List.member cumulativeKeywords keyword)\<rparr>],
        prjClaimed := keyword # prjClaimed p\<rparr>)"

definition project_visitor :: "gostring \<Rightarrow> Projection loadOrderVisitor" where
  "project_visitor alias = \<lparr>visEnterBlock = project_enterBlock alias, visDirective = project_directive\<rparr>"

definition Project :: "Graph option \<Rightarrow> gostring \<Rightarrow> Source list \<times> Complexity list" where
  "Project graph alias =
     (case graph of
        None \<Rightarrow> ([], [])
      | Some g \<Rightarrow>
          (let p = walkLoadOrder graph (project_visitor alias)
                 \<lparr>prjSources = [], prjComplexities = [], prjClaimed = [],
                  prjHostNotes = \<lparr>hbAlias = alias, hbDeclaring = 0, hbFirst = None\<rparr>\<rparr>
           in (prjSources p, prjComplexities p @ unresolvedIncludeNotes (graphDiagnostics g))))"

section \<open>The report has each command once\<close>

definition report_ok :: "Report \<Rightarrow> bool" where
  "report_ok report \<longleftrightarrow> set (repSeen report) = exec_key ` set (repDirectives report) \<and> distinct (map exec_key (repDirectives report))"

lemma appendExecutable_ok: "report_ok report \<Longrightarrow> report_ok (appendExecutable e report)"
  by (auto simp: report_ok_def appendExecutable_def)

lemma fold_appendExecutable_ok: "report_ok report \<Longrightarrow> report_ok (fold appendExecutable es report)"
  by (induction es arbitrary: report) (simp_all add: appendExecutable_ok)

lemma appendExecutable_has:
  assumes "report_ok report"
  shows "\<exists>d \<in> set (repDirectives (appendExecutable e report)). exec_key d = exec_key e"
proof (cases "exec_key e \<in> set (repSeen report)")
  case True
  then have "exec_key e \<in> exec_key ` set (repDirectives report)" using assms by (simp add: report_ok_def)
  then show ?thesis using True by (auto simp: appendExecutable_def)
qed (simp add: appendExecutable_def)

lemma appendExecutable_keeps: "set (repDirectives report) \<subseteq> set (repDirectives (appendExecutable e report))"
  by (auto simp: appendExecutable_def)

lemma fold_appendExecutable_keeps: "set (repDirectives report) \<subseteq> set (repDirectives (fold appendExecutable es report))"
proof (induction es arbitrary: report)
  case (Cons e es)
  then show ?case using appendExecutable_keeps [of report e] by (metis fold_simps(2) subset_trans)
qed simp

lemma scan_steps_ok:
  "report_ok r \<Longrightarrow> report_ok (snd (scan_enterBlock alias h r))"
  "report_ok r \<Longrightarrow> report_ok (scan_directive d r)"
  by (auto simp: scan_enterBlock_def scan_directive_def fold_appendExecutable_ok appendExecutable_ok split: option.splits)

lemma scan_steps_keep:
  "set (repDirectives r) \<subseteq> set (repDirectives (snd (scan_enterBlock alias h r)))"
  "set (repDirectives r) \<subseteq> set (repDirectives (scan_directive d r))"
  using fold_appendExecutable_keeps appendExecutable_keeps
  by (auto simp: scan_enterBlock_def scan_directive_def split: option.splits)

interpretation scan_walk: load_order_invariant "scan_visitor alias" report_ok
  by unfold_locales (simp_all add: scan_visitor_def scan_steps_ok)

section \<open>The scan follows the resolver\<close>

definition listed :: "Accepted \<Rightarrow> Executable list \<Rightarrow> bool" where
  "listed a es \<longleftrightarrow> (case map_of executableDirectives (ToLower (accKeyword a)) of
      None \<Rightarrow> True
    | Some template \<Rightarrow> (\<exists>e \<in> set es. exec_key e = (accPath a, int (accLine a), exKeyword template, join_with SP (accValues a))))"

lemma listed_mono: "listed a es \<Longrightarrow> set es \<subseteq> set fs \<Longrightarrow> listed a fs"
  by (auto simp: listed_def split: option.splits)

definition covers :: "gostring \<Rightarrow> resolveWalk \<Rightarrow> Report \<Rightarrow> bool" where
  "covers alias w r \<longleftrightarrow> rwAlias w = alias \<and> report_ok r \<and> (\<forall>a \<in> set (rwAccepted w). listed a (repDirectives r))"

lemma covers_grow:
  assumes "covers alias w r" and "report_ok r'" and "set (repDirectives r) \<subseteq> set (repDirectives r')"
    and "rwAccepted w' = rwAccepted w" and "rwAlias w' = rwAlias w"
  shows "covers alias w' r'"
  using assms listed_mono by (auto simp: covers_def)

lemma covers_directive:
  assumes c: "covers alias w r" and p: "same_place d e" and k: "lineKind (dlLine d) = LineDirective"
  shows "covers alias (rw_directive d w) (scan_directive e r)"
proof (cases rule: rw_directive_cases [of d w])
  case same
  then show ?thesis
    using covers_grow [OF c scan_steps_ok(2) scan_steps_keep(2)] c rw_directive_alias by (auto simp: covers_def)
next
  case (accept a key)
  have old: "\<forall>b \<in> set (rwAccepted w). listed b (repDirectives (scan_directive e r))"
    using c listed_mono scan_steps_keep(2) by (auto simp: covers_def)
  have "listed a (repDirectives (scan_directive e r))"
  proof (cases "map_of executableDirectives (ToLower (accKeyword a))")
    case (Some template)
    let ?x = "template\<lparr>exCommand := join_with SP (directiveValues (dlLine e)), exPath := dlPath e,
        exLine := int (dlNumber e), exCondition := bsCondition (dlState e)\<rparr>"
    have "scan_directive e r = appendExecutable ?x r"
      using Some accept(2) p k by (simp add: scan_directive_def executableAt_def same_place_def)
    moreover have "report_ok r" using c by (simp add: covers_def)
    ultimately obtain x where "x \<in> set (repDirectives (scan_directive e r))" "exec_key x = exec_key ?x"
      using appendExecutable_has by metis
    moreover have "exec_key ?x = (accPath a, int (accLine a), exKeyword template, join_with SP (accValues a))"
      using accept p by (simp add: exec_key_def same_place_def)
    ultimately show ?thesis using Some by (auto simp: listed_def)
  qed (simp add: listed_def)
  then show ?thesis
    using c old accept(9) rw_directive_alias scan_steps_ok(2) by (auto simp: covers_def)
qed

lemma covers_enter:
  assumes "covers alias w r"
  shows "covers alias (snd (rw_enterBlock sha1_hex h w)) (snd (scan_enterBlock alias h' r))"
proof (rule covers_grow [OF assms _ scan_steps_keep(1)])
  show "report_ok (snd (scan_enterBlock alias h' r))" using assms scan_steps_ok(1) by (simp add: covers_def)
qed (simp_all add: rw_enterBlock_values)

lemma enter_applies_scan:
  assumes "rwAlias w = alias" and "snd (fst (rw_enterBlock sha1_hex h w))"
  shows "snd (fst (scan_enterBlock alias (h\<lparr>bhNeverMatch := n\<rparr>) r))"
proof (cases "blockKind (bhBlock h) = BlockMatch")
  case False
  have "fst (rw_enterBlock sha1_hex h w) = hostBlockApplies (blockPatterns (bhBlock h)) alias"
    using False assms(1) by (auto simp: rw_enterBlock_def split: prod.splits)
  then show ?thesis using False assms(2) by (simp add: scan_enterBlock_def)
qed (simp add: scan_enterBlock_def)

interpretation scan_covers: load_order_simulation "resolve_visitor sha1_hex" "scan_visitor alias" "covers alias"
proof unfold_locales
  fix s :: resolveWalk and t :: Report and h n
  assume c: "covers alias s t"
  show "covers alias (snd (visEnterBlock (resolve_visitor sha1_hex) h s)) (snd (visEnterBlock (scan_visitor alias) (h\<lparr>bhNeverMatch := n\<rparr>) t))"
    using covers_enter [OF c] by (simp add: resolve_visitor_def scan_visitor_def)
  assume "snd (fst (visEnterBlock (resolve_visitor sha1_hex) h s))"
  then show "snd (fst (visEnterBlock (scan_visitor alias) (h\<lparr>bhNeverMatch := n\<rparr>) t))"
    using enter_applies_scan [of s "alias" sha1_hex h n t] c by (simp add: resolve_visitor_def scan_visitor_def covers_def)
next
  fix s :: resolveWalk and t :: Report and d e
  assume "covers alias s t" "same_place d e" "lineKind (dlLine d) = LineDirective"
  then show "covers alias (visDirective (resolve_visitor sha1_hex) d s) (visDirective (scan_visitor alias) e t)"
    using covers_directive by (simp add: resolve_visitor_def scan_visitor_def)
next
  fix s :: resolveWalk and t :: Report and e
  assume c: "covers alias s t"
  then have "report_ok t" by (simp add: covers_def)
  from covers_grow [OF c scan_steps_ok(2) [OF this] scan_steps_keep(2) refl refl]
  show "covers alias s (visDirective (scan_visitor alias) e t)" by (simp add: scan_visitor_def)
qed

lemma scan_covers_resolve:
  "covers alias (walkLoadOrder graph (resolve_visitor sha1_hex) (newResolveWalk alias facts))
     (walkLoadOrder graph (scan_visitor alias) \<lparr>repDirectives = [], repSeen = []\<rparr>)"
  by (rule scan_covers.walk_related) (simp add: covers_def newResolveWalk_def report_ok_def)

section \<open>Properties\<close>

text \<open>
  C5. No command that a connection can run is missing from the report that the user confirms:
  whatever ProxyCommand, KnownHostsCommand, LocalCommand or RemoteCommand line the resolver accepts
  for an alias is an entry of the scan for that alias, with its file, line and whole command, and
  no entry appears twice.
\<close>

theorem ScanForAlias_complete:
  "distinct (map exec_key (ScanForAlias graph alias)) \<and>
   (\<forall>a \<in> set (resAccepted (Resolve sha1_hex graph alias facts)). \<forall>template.
      map_of executableDirectives (ToLower (accKeyword a)) = Some template \<longrightarrow>
      (\<exists>e \<in> set (ScanForAlias graph alias). exPath e = accPath a \<and> exLine e = int (accLine a) \<and>
         exKeyword e = exKeyword template \<and> exCommand e = join_with SP (accValues a)))"
proof -
  let ?w = "walkLoadOrder graph (resolve_visitor sha1_hex) (newResolveWalk alias facts)"
  let ?r = "walkLoadOrder graph (scan_visitor alias) \<lparr>repDirectives = [], repSeen = []\<rparr>"
  have c: "covers alias ?w ?r" by (rule scan_covers_resolve)
  have "set (resAccepted (Resolve sha1_hex graph alias facts)) \<subseteq> set (rwAccepted ?w)"
    by (auto simp: Resolve_def Let_def split: option.splits sum.splits if_splits)
  then have "\<forall>a \<in> set (resAccepted (Resolve sha1_hex graph alias facts)). listed a (ScanForAlias graph alias)"
    using c by (auto simp: covers_def ScanForAlias_def)
  moreover have "distinct (map exec_key (ScanForAlias graph alias))"
    using c by (simp add: covers_def report_ok_def ScanForAlias_def)
  ultimately show ?thesis by (auto simp: listed_def exec_key_def)
qed

theorem ScanForAlias_complete_witness:
  "\<exists>e \<in> set (ScanForAlias (Some (one_file (''Host a'' @ LF # ''ProxyCommand nc %h''))) ''a''). exCommand e = ''nc %h''"
proof -
  let ?g = "Some (one_file (''Host a'' @ LF # ''ProxyCommand nc %h''))"
  let ?as = "resAccepted (Resolve id ?g ''a'' no_facts)"
  have "map (\<lambda>a. (accKeyword a, accValues a)) ?as = [(''ProxyCommand'', [''nc %h''])]" by code_simp
  then obtain a where a: "a \<in> set ?as" "accKeyword a = ''ProxyCommand''" "accValues a = [''nc %h'']" by (cases ?as) auto
  have "map_of executableDirectives (ToLower ''ProxyCommand'') = Some (exec_template ''ProxyCommand'' False)" by code_simp
  then show ?thesis
    using ScanForAlias_complete [of ?g "''a''" id no_facts, THEN conjunct2, rule_format, OF a(1)] a by auto
qed

end
