(* ===== verification/EffJump.thy ===== *)
theory EffJump
  imports EffResolve
begin

text \<open>
  ProxyJump (internal/effective/jump.go): the destination list of one value, and the whole route
  behind an alias, with the route of every jump host in front of it. The route is cut at eight
  levels and at 256 stages; a host that is on its own way is shown but not followed.
\<close>

section \<open>The destination list\<close>

record Hop =
  hopRaw :: gostring
  hopUser :: gostring
  hopHost :: gostring
  hopPort :: gostring
  hopUserExplicit :: bool
  hopPortExplicit :: bool

record Chain =
  chainRaw :: gostring
  chainDisabled :: bool
  chainHops :: "Hop list"

definition MaxJumpDepth :: nat where "MaxJumpDepth = 8"
definition MaxRouteStages :: nat where "MaxRouteStages = 256"

text \<open>\<open>None\<close> is \<open>ErrInvalidJump\<close>. The user before the last at sign, then host and port.\<close>

definition split_user :: "gostring \<Rightarrow> (gostring \<times> bool \<times> gostring) option" where
  "split_user element =
     (case cut_last (CHR ''@'') element of
        None \<Rightarrow> Some ([], False, element)
      | Some (user, destination) \<Rightarrow> if user = [] \<or> destination = [] then None else Some (user, True, destination))"

definition split_host :: "gostring \<Rightarrow> (gostring \<times> gostring \<times> bool) option" where
  "split_host destination =
     (if has_prefix destination ''['' then
        (case cut_at (CHR '']'') destination of
           (before, remainder, found) \<Rightarrow>
             (if \<not> found then None
              else if remainder = [] then Some (drop 1 before, DefaultPort, False)
              else if \<not> has_prefix remainder '':'' then None
              else Some (drop 1 before, drop 1 remainder, True)))
      else
        (case cut_last (CHR '':'') destination of
           Some (host, port) \<Rightarrow>
             (if CHR '':'' \<notin> set host then Some (host, port, True) else Some (destination, DefaultPort, False))
         | None \<Rightarrow> Some (destination, DefaultPort, False)))"

definition parse_hop :: "gostring \<Rightarrow> Hop option" where
  "parse_hop element =
     (if element = [] then None
      else (case split_user element of
              None \<Rightarrow> None
            | Some (user, userExplicit, destination) \<Rightarrow>
                (case split_host destination of
                   None \<Rightarrow> None
                 | Some (host, port, portExplicit) \<Rightarrow>
                     (if host = [] \<or> port = [] then None
                      else Some \<lparr>hopRaw = element, hopUser = user, hopHost = host, hopPort = port,
                        hopUserExplicit = userExplicit, hopPortExplicit = portExplicit\<rparr>))))"

fun parse_hops :: "gostring list \<Rightarrow> Hop list option" where
  "parse_hops [] = Some []"
| "parse_hops (e # es) =
     (case parse_hop (TrimSpace e) of
        None \<Rightarrow> None
      | Some hop \<Rightarrow> (case parse_hops es of None \<Rightarrow> None | Some hops \<Rightarrow> Some (hop # hops)))"

definition ParseChain :: "gostring \<Rightarrow> Chain option" where
  "ParseChain raw =
     (let trimmed = TrimSpace raw in
      if trimmed = [] then Some \<lparr>chainRaw = raw, chainDisabled = False, chainHops = []\<rparr>
      else if EqualKeyword trimmed ''none'' then Some \<lparr>chainRaw = raw, chainDisabled = True, chainHops = []\<rparr>
      else (case parse_hops (split_at (CHR '','') trimmed) of
              None \<Rightarrow> None
            | Some hops \<Rightarrow> Some \<lparr>chainRaw = raw, chainDisabled = False, chainHops = hops\<rparr>))"

section \<open>The route\<close>

record Stage =
  stOrder :: nat
  stDepth :: nat
  stParent :: gostring
  stHop :: Hop
  stHostname :: gostring
  stUser :: gostring
  stPort :: gostring
  stComplex :: bool

definition whereAccepted :: "Resolution \<Rightarrow> gostring \<Rightarrow> gostring \<times> nat" where
  "whereAccepted r keyword =
     (case find (\<lambda>a. EqualKeyword (accKeyword a) keyword) (resAccepted r) of None \<Rightarrow> ([], 0) | Some a \<Rightarrow> (accPath a, accLine a))"

definition jump_note :: "complexity_code \<Rightarrow> gostring \<times> nat \<Rightarrow> gostring \<Rightarrow> Complexity" where
  "jump_note code place detail = complexity code (fst place) (int (snd place)) [] detail"

definition make_stage :: "(gostring \<Rightarrow> Resolution) \<Rightarrow> gostring \<Rightarrow> nat \<Rightarrow> nat \<Rightarrow> Hop \<Rightarrow> Stage" where
  "make_stage resolve alias depth order hop =
     (let r = resolve (hopHost hop); plain = (resRefusals r = []) in
      \<lparr>stOrder = order, stDepth = depth, stParent = alias, stHop = hop,
       stHostname = (if plain then valueOr (resValues r) ''hostname'' (hopHost hop) else hopHost hop),
       stUser = (if plain \<and> \<not> hopUserExplicit hop then valueOr (resValues r) ''user'' (hopUser hop) else hopUser hop),
       stPort = (if plain \<and> \<not> hopPortExplicit hop then valueOr (resValues r) ''port'' (hopPort hop) else hopPort hop),
       stComplex = (resNotes r \<noteq> [] \<or> resRefusals r \<noteq> [])\<rparr>)"

text \<open>
  \<open>ancestors\<close> holds the aliases on the way to the current hop; it is passed down, which is what
  adding and deleting around the recursive call does. The number of stages so far is threaded
  through. \<open>route_expand\<close> is \<open>expand\<close>, \<open>route_hops\<close> its loop.
\<close>

type_synonym route_result = "Stage list \<times> Complexity list \<times> nat"

definition route_start :: "(gostring \<Rightarrow> Resolution) \<Rightarrow> gostring \<Rightarrow> nat \<Rightarrow> Complexity list + (Hop list \<times> (gostring \<times> nat))" where
  "route_start resolve alias depth =
     (let r = resolve alias in
      case resRefusals r of
        refusal # _ \<Rightarrow> Inl [complexity ComplexityJumpUnresolved (refPath refusal) (refLine refusal) [] (refDetail refusal)]
      | [] \<Rightarrow>
          (let raw = rv_First (resValues r) ''proxyjump''; place = whereAccepted r ''proxyjump'' in
           if raw = [] then Inl []
           else (case ParseChain raw of
                   None \<Rightarrow> Inl [jump_note ComplexityJumpInvalid place raw]
                 | Some chain \<Rightarrow>
                     (if chainDisabled chain then Inl []
                      else if depth \<ge> MaxJumpDepth then
                        Inl [jump_note ComplexityJumpDepth place ''the jump route is deeper than this engine follows'']
                      else Inr (chainHops chain, place)))))"

lemma route_start_depth: "route_start resolve alias depth = Inr r \<Longrightarrow> depth < MaxJumpDepth"
  by (auto simp: route_start_def Let_def split: list.splits option.splits if_splits)

function route_expand :: "(gostring \<Rightarrow> Resolution) \<Rightarrow> gostring list \<Rightarrow> nat \<Rightarrow> gostring \<Rightarrow> nat \<Rightarrow> route_result"
  and route_hops :: "(gostring \<Rightarrow> Resolution) \<Rightarrow> gostring list \<Rightarrow> nat \<Rightarrow> gostring \<Rightarrow> gostring \<times> nat \<Rightarrow> Hop list \<Rightarrow> nat \<Rightarrow> route_result" where
  "route_expand resolve ancestors depth alias order =
     (case route_start resolve alias depth of
        Inl notes \<Rightarrow> ([], notes, order)
      | Inr (hops, place) \<Rightarrow> route_hops resolve ancestors depth alias place hops order)"
| "route_hops resolve ancestors depth alias place [] order = ([], [], order)"
| "route_hops resolve ancestors depth alias place (hop # hops) order =
     (if order \<ge> MaxRouteStages then
        ([], [jump_note ComplexityJumpDepth place ''the jump route has more hops than this engine follows''], order)
      else
        let order1 = order + 1; stage = make_stage resolve alias depth order1 hop; lowered = ToLower (hopHost hop) in
        (case (if lowered \<in> set ancestors then
                 ([], [jump_note ComplexityJumpCycle place (hopHost hop @ '' already appears earlier in this route'')], order1)
               else route_expand resolve (lowered # ancestors) (depth + 1) (hopHost hop) order1) of
           (nested, notes, order2) \<Rightarrow>
             (case route_hops resolve ancestors depth alias place hops order2 of
                (rest, notes', order3) \<Rightarrow> (stage # nested @ rest, notes @ notes', order3))))"
  by pat_completeness auto
termination
proof (relation "measures
    [\<lambda>x. case x of
         Inl (r, a, depth, q) \<Rightarrow> if depth < MaxJumpDepth then 2 * (MaxJumpDepth - depth) + 1 else 0
       | Inr (r, a, depth, q) \<Rightarrow> if depth < MaxJumpDepth then 2 * (MaxJumpDepth - depth) else 1,
     \<lambda>x. case x of Inl _ \<Rightarrow> 0 | Inr (r, a, depth, al, p, hops, n0) \<Rightarrow> length hops]")
qed (auto dest: route_start_depth)

definition ExpandRoute :: "(gostring \<Rightarrow> gostring) \<Rightarrow> Graph option \<Rightarrow> gostring \<Rightarrow> LocalFacts \<Rightarrow> Stage list \<times> Complexity list" where
  "ExpandRoute sha1_hex graph alias facts =
     (case route_expand (\<lambda>a. Resolve sha1_hex graph a facts) [ToLower alias] 0 alias 0 of
        (stages, notes, _) \<Rightarrow> (stages, notes))"

section \<open>Lemmas\<close>

text \<open>The stages are numbered in their order, from the number they start at to the one they end at.\<close>

definition route_ok :: "nat \<Rightarrow> route_result \<Rightarrow> bool" where
  "route_ok order r \<longleftrightarrow> (case r of (stages, notes, order') \<Rightarrow>
     order \<le> order' \<and> map stOrder stages = [order + 1..<order' + 1] \<and> (order \<le> MaxRouteStages \<longrightarrow> order' \<le> MaxRouteStages) \<and>
     list_all (\<lambda>s. stDepth s < MaxJumpDepth) stages)"

lemma route_ok_stop: "route_ok order ([], notes, order)"
  by (simp add: route_ok_def)

lemma route_ok_step:
  assumes "route_ok (order + 1) (nested, notes, order2)" and "route_ok order2 (rest, notes', order3)"
    and "order < MaxRouteStages" and "stOrder stage = order + 1" and "stDepth stage < MaxJumpDepth"
  shows "route_ok order (stage # nested @ rest, notes'', order3)"
proof -
  have le: "order + 1 \<le> order2" "order2 \<le> order3" using assms(1,2) by (auto simp: route_ok_def)
  have "[order + 2..<order3 + 1] = [order + 2..<order2 + 1] @ [order2 + 1..<order3 + 1]"
    using le upt_add_eq_append [of "order + 2" "order2 + 1" "order3 - order2"] by simp
  moreover have "[order + 1..<order3 + 1] = (order + 1) # [order + 2..<order3 + 1]"
    using le by (subst upt_conv_Cons) simp_all
  ultimately show ?thesis using assms le by (simp add: route_ok_def del: upt_Suc)
qed

lemma route_orders:
  "route_ok order (route_expand resolve ancestors depth al order)"
  "depth < MaxJumpDepth \<Longrightarrow> route_ok order (route_hops resolve ancestors depth al place hops order)"
proof (induction resolve ancestors depth al order and resolve ancestors depth al place hops order
    rule: route_expand_route_hops.induct)
  case (1 resolve ancestors depth al order)
  show ?case
  proof (cases "route_start resolve al depth")
    case (Inr p)
    then obtain hops place where p: "route_start resolve al depth = Inr (hops, place)" by (cases p) auto
    show ?thesis using "1.IH" [OF p refl route_start_depth [OF p]] p by simp
  qed (simp add: route_ok_stop)
next
  case (3 resolve ancestors depth al place hop hops order)
  show ?case
  proof (cases "order \<ge> MaxRouteStages")
    case False
    let ?stage = "make_stage resolve al depth (order + 1) hop"
    let ?lowered = "ToLower (hopHost hop)"
    let ?nested = "(if ?lowered \<in> set ancestors then
        ([], [jump_note ComplexityJumpCycle place (hopHost hop @ '' already appears earlier in this route'')], order + 1)
        else route_expand resolve (?lowered # ancestors) (depth + 1) (hopHost hop) (order + 1))"
    have stage: "stOrder ?stage = order + 1" "stDepth ?stage < MaxJumpDepth" using "3.prems" by (simp_all add: make_stage_def Let_def)
    obtain nested ns order2 where n: "?nested = (nested, ns, order2)" by (cases ?nested) blast
    have ok: "route_ok (order + 1) ?nested"
      using "3.IH"(1) [OF False refl refl refl] route_ok_stop by simp
    obtain rest ns' order3 where r: "route_hops resolve ancestors depth al place hops order2 = (rest, ns', order3)"
      by (cases "route_hops resolve ancestors depth al place hops order2") blast
    have "route_ok order2 (route_hops resolve ancestors depth al place hops order2)"
      using "3.IH"(2) [OF False refl refl refl n [symmetric] refl "3.prems"] .
    from route_ok_step [OF ok [unfolded n] this [unfolded r] _ stage]
    have "route_ok order (?stage # nested @ rest, ns @ ns', order3)" using False by simp
    moreover have "route_hops resolve ancestors depth al place (hop # hops) order = (?stage # nested @ rest, ns @ ns', order3)"
      using False n r by (simp only: route_hops.simps Let_def if_False prod.case)
    ultimately show ?thesis by simp
  qed (simp add: route_ok_stop)
qed (simp add: route_ok_stop)

section \<open>What the destination list and the route keep\<close>

lemma split_user_ok:
  "split_user e = Some (user, explicit, destination) \<Longrightarrow> explicit \<longleftrightarrow> user \<noteq> []"
  by (auto simp: split_user_def split: option.splits prod.splits if_splits)

text \<open>
  How the text of a hop is made of its parts: the user before an at sign where one is written, then
  the host, in brackets or plain, then the port behind a colon where one is written. A plain host
  with a port has no colon; a plain host without one may have two or more, as an IPv6 address has.
\<close>

definition host_and_port :: "Hop \<Rightarrow> gostring \<Rightarrow> bool" where
  "host_and_port hop destination \<longleftrightarrow>
     (destination = ''['' @ hopHost hop @ '']'' @ (if hopPortExplicit hop then '':'' @ hopPort hop else []) \<and>
        CHR '']'' \<notin> set (hopHost hop)) \<or>
     (\<not> has_prefix destination ''['' \<and>
        destination = hopHost hop @ (if hopPortExplicit hop then '':'' @ hopPort hop else []) \<and>
        (if hopPortExplicit hop then CHR '':'' \<notin> set (hopHost hop) \<and> CHR '':'' \<notin> set (hopPort hop)
         else length (filter (\<lambda>c. c = CHR '':'') (hopHost hop)) \<noteq> 1))"

definition hop_written :: "Hop \<Rightarrow> bool" where
  "hop_written hop \<longleftrightarrow>
     (\<exists>destination. hopRaw hop = (if hopUserExplicit hop then hopUser hop @ ''@'' else []) @ destination \<and>
        CHR ''@'' \<notin> set destination \<and> host_and_port hop destination)"

lemma split_user_written:
  "split_user e = Some (user, explicit, destination) \<Longrightarrow>
     e = (if explicit then user @ ''@'' else []) @ destination \<and> CHR ''@'' \<notin> set destination"
  by (auto simp: split_user_def cut_last_Some cut_last_None split: option.splits prod.splits if_splits)

lemma split_host_written:
  assumes "split_host destination = Some (host, port, explicit)"
    and "hopHost hop = host" and "hopPort hop = port" and "hopPortExplicit hop = explicit"
  shows "host_and_port hop destination"
proof (cases "has_prefix destination ''[''")
  case True
  obtain a b found where c: "cut_at (CHR '']'') destination = (a, b, found)" by (cases "cut_at (CHR '']'') destination") blast
  have found: "found = True" using assms(1) True c by (auto simp: split_host_def split: if_splits)
  have d: "destination = a @ CHR '']'' # b" "CHR '']'' \<notin> set a" using cut_at_found [OF c [unfolded found]] by auto
  obtain a' where a: "a = CHR ''['' # a'" using True d(1) by (cases a) (auto simp: has_prefix_def)
  show ?thesis using assms True c d a by (cases b) (auto simp: split_host_def host_and_port_def has_prefix_def split: if_splits)
next
  case False
  show ?thesis
  proof (cases "cut_last (CHR '':'') destination")
    case None
    then have "filter (\<lambda>c. c = CHR '':'') destination = []" by (auto simp: cut_last_None filter_empty_conv)
    then show ?thesis using assms False None by (auto simp: split_host_def host_and_port_def)
  next
    case (Some p)
    then obtain h q where c: "cut_last (CHR '':'') destination = Some (h, q)" by (cases p) auto
    have d: "destination = h @ CHR '':'' # q" "CHR '':'' \<notin> set q" using cut_last_Some [OF c] by auto
    have "CHR '':'' \<in> set h \<Longrightarrow> filter (\<lambda>c. c = CHR '':'') h \<noteq> []" by (auto simp: filter_empty_conv)
    then have two: "length (filter (\<lambda>c. c = CHR '':'') destination) \<noteq> 1" if "CHR '':'' \<in> set h" using that d(1) by simp
    show ?thesis
    proof (cases "CHR '':'' \<in> set h")
      case True
      then have "host = destination" "explicit = False" using assms(1) False c by (simp_all add: split_host_def)
      then show ?thesis using assms(2-4) False two [OF True] by (simp add: host_and_port_def)
    next
      case plain: False
      then have "host = h" "port = q" "explicit" using assms(1) False c by (simp_all add: split_host_def)
      then show ?thesis using assms(2-4) False d plain by (simp add: host_and_port_def)
    qed
  qed
qed

lemma parse_hop_written:
  assumes "parse_hop e = Some hop"
  shows "hop_written hop"
proof -
  obtain user explicit destination host port portExplicit where
    u: "split_user e = Some (user, explicit, destination)" and
    h: "split_host destination = Some (host, port, portExplicit)" and
    hop: "hop = \<lparr>hopRaw = e, hopUser = user, hopHost = host, hopPort = port,
        hopUserExplicit = explicit, hopPortExplicit = portExplicit\<rparr>"
    using assms by (auto simp: parse_hop_def split: if_splits option.splits prod.splits)
  have "host_and_port hop destination" by (rule split_host_written [OF h]) (simp_all add: hop)
  then show ?thesis using split_user_written [OF u] hop by (auto simp: hop_written_def)
qed

lemma parse_hop_ok:
  "parse_hop e = Some hop \<Longrightarrow> hopRaw hop = e \<and> e \<noteq> [] \<and> hopHost hop \<noteq> [] \<and> hopPort hop \<noteq> [] \<and>
     (hopUserExplicit hop \<longleftrightarrow> hopUser hop \<noteq> []) \<and> (\<not> hopPortExplicit hop \<longrightarrow> hopPort hop = DefaultPort)"
  by (auto simp: parse_hop_def split_host_def DefaultPort_def dest!: split_user_ok split: option.splits prod.splits if_splits)

lemma parse_hops_elements:
  "parse_hops es = Some hops \<Longrightarrow> list_all2 (\<lambda>e hop. parse_hop (TrimSpace e) = Some hop) es hops"
  by (induction es arbitrary: hops) (auto split: option.splits)

text \<open>
  C23. A ProxyJump value that is accepted names its hops in the order of the list, one for each
  element between the commas. The text of a hop is exactly its parts: the user and an at sign where
  one is written, then the host, in brackets or plain, then a colon and the port where one is
  written; no part is empty, a host in brackets has no closing bracket, a plain host with a port
  has no colon and a plain host without one has none or several. The user is empty exactly where
  none is written, and the port is the default one where none is written.
\<close>

theorem ParseChain_hops:
  assumes "ParseChain raw = Some chain" and "chainHops chain \<noteq> []"
  shows "map hopRaw (chainHops chain) = map TrimSpace (split_at (CHR '','') (TrimSpace raw)) \<and> \<not> chainDisabled chain \<and>
    list_all (\<lambda>hop. hop_written hop \<and> hopHost hop \<noteq> [] \<and> hopPort hop \<noteq> [] \<and>
      (hopUserExplicit hop \<longleftrightarrow> hopUser hop \<noteq> []) \<and>
      (\<not> hopPortExplicit hop \<longrightarrow> hopPort hop = DefaultPort)) (chainHops chain)"
proof -
  from assms obtain hops where h: "parse_hops (split_at (CHR '','') (TrimSpace raw)) = Some hops"
    and chain: "chainHops chain = hops" "\<not> chainDisabled chain"
    by (auto simp: ParseChain_def Let_def split: if_splits option.splits)
  have elements: "list_all2 (\<lambda>e hop. parse_hop (TrimSpace e) = Some hop) (split_at (CHR '','') (TrimSpace raw)) hops"
    by (rule parse_hops_elements [OF h])
  have "map hopRaw hops = map TrimSpace (split_at (CHR '','') (TrimSpace raw))"
    using elements by (induction rule: list_all2_induct) (auto dest: parse_hop_ok)
  moreover have "list_all (\<lambda>hop. hop_written hop \<and> hopHost hop \<noteq> [] \<and> hopPort hop \<noteq> [] \<and>
      (hopUserExplicit hop \<longleftrightarrow> hopUser hop \<noteq> []) \<and> (\<not> hopPortExplicit hop \<longrightarrow> hopPort hop = DefaultPort)) hops"
    using elements by (induction rule: list_all2_induct) (auto dest: parse_hop_ok parse_hop_written)
  ultimately show ?thesis using chain by simp
qed

definition jump_sample :: Chain where
  "jump_sample = \<lparr>chainRaw = ''a@h:22,i'', chainDisabled = False, chainHops =
     [\<lparr>hopRaw = ''a@h:22'', hopUser = ''a'', hopHost = ''h'', hopPort = ''22'', hopUserExplicit = True, hopPortExplicit = True\<rparr>,
      \<lparr>hopRaw = ''i'', hopUser = [], hopHost = ''i'', hopPort = ''22'', hopUserExplicit = False, hopPortExplicit = False\<rparr>]\<rparr>"

lemma jump_sample_read: "ParseChain ''a@h:22,i'' = Some jump_sample"
  by code_simp

theorem ParseChain_hops_witness:
  "map hopRaw (chainHops jump_sample) = map TrimSpace (split_at (CHR '','') (TrimSpace ''a@h:22,i'')) \<and>
   list_all hop_written (chainHops jump_sample)"
proof -
  have "chainHops jump_sample \<noteq> []" by (simp add: jump_sample_def)
  from ParseChain_hops [OF jump_sample_read this] show ?thesis by (simp add: list_all_iff)
qed

text \<open>
  C19. The route of an alias always ends: it is numbered 1, 2, 3, \<dots> without a gap, has at
  most \<open>MaxRouteStages\<close> stages and no stage below level \<open>MaxJumpDepth\<close>, whatever the
  configuration names and however the jump hosts refer to each other.
\<close>

theorem ExpandRoute_bounded:
  "case ExpandRoute sha1_hex graph al facts of (stages, notes') \<Rightarrow>
     map stOrder stages = [1..<length stages + 1] \<and> length stages \<le> MaxRouteStages \<and>
     list_all (\<lambda>s. stDepth s < MaxJumpDepth) stages"
proof -
  obtain stages ns n where r: "route_expand (\<lambda>a. Resolve sha1_hex graph a facts) [ToLower al] 0 al 0 = (stages, ns, n)"
    by (cases "route_expand (\<lambda>a. Resolve sha1_hex graph a facts) [ToLower al] 0 al 0") blast
  have ok: "map stOrder stages = [1..<n + 1]" "n \<le> MaxRouteStages" "list_all (\<lambda>s. stDepth s < MaxJumpDepth) stages"
    using route_orders(1) [of 0 "\<lambda>a. Resolve sha1_hex graph a facts" "[ToLower al]" 0 al] r by (simp_all add: route_ok_def)
  have "length stages = n" using arg_cong [OF ok(1), of length] by simp
  then show ?thesis using ok r by (simp add: ExpandRoute_def)
qed

end
