(* ===== verification/ByteStream.thy ===== *)
theory ByteStream
  imports Prelude
begin

text \<open>
  Machines that read a byte stream one byte at a time. A machine that may stop with an error is
  driven to its first error. What such a machine gives out does not depend on how its input is cut
  into pieces, and an invariant that every step keeps holds behind any input.

  Second part: \<open>iowrite.WriteAll\<close> and \<open>iowrite.CappedBuffer\<close> (internal/iowrite/iowrite.go).
\<close>

section \<open>Machines without errors\<close>

primrec run :: "('s \<Rightarrow> 'a \<Rightarrow> 's \<times> 'b list) \<Rightarrow> 's \<Rightarrow> 'a list \<Rightarrow> 's \<times> 'b list" where
  "run step s [] = (s, [])"
| "run step s (a # as) =
     (case step s a of (s', out) \<Rightarrow> (case run step s' as of (s'', out') \<Rightarrow> (s'', out @ out')))"

lemma run_append:
  "run step s (as @ bs) =
     (case run step s as of (s', out) \<Rightarrow> (case run step s' bs of (s'', out') \<Rightarrow> (s'', out @ out')))"
  by (induction as arbitrary: s) (simp_all split: prod.splits)

section \<open>Machines that may stop\<close>

text \<open>The state, what was given out, the error and the input that was not read.\<close>

primrec drive :: "('s \<Rightarrow> 'a \<Rightarrow> 's \<times> 'b list \<times> 'x option) \<Rightarrow> 's \<Rightarrow> 'a list \<Rightarrow> 's \<times> 'b list \<times> 'x option \<times> 'a list" where
  "drive step s [] = (s, [], None, [])"
| "drive step s (a # as) =
     (case step s a of
        (s', out, Some e) \<Rightarrow> (s', out, Some e, as)
      | (s', out, None) \<Rightarrow> (case drive step s' as of (s'', out', e, rest) \<Rightarrow> (s'', out @ out', e, rest)))"

lemma drive_append:
  "drive step s (as @ bs) =
     (case drive step s as of
        (s', out, Some e, rest) \<Rightarrow> (s', out, Some e, rest @ bs)
      | (s', out, None, _) \<Rightarrow> (case drive step s' bs of (s'', out', e, rest) \<Rightarrow> (s'', out @ out', e, rest)))"
  by (induction as arbitrary: s) (auto split: prod.splits option.splits)

lemma drive_all_read: "drive step s as = (s', out, None, rest) \<Longrightarrow> rest = []"
  by (induction as arbitrary: s out) (auto split: prod.splits option.splits)

lemma drive_pieces:
  assumes "drive step s as = (s', out, None, [])" and "drive step s' bs = (s'', out', None, [])"
  shows "drive step s (as @ bs) = (s'', out @ out', None, [])"
  using assms by (simp add: drive_append)

lemma drive_snoc:
  assumes "drive step s as = (s', out, None, [])" and "step s' a = (s'', out', err)"
  shows "drive step s (as @ [a]) = (s'', out @ out', err, [])"
  using assms by (cases err) (simp_all add: drive_append)

text \<open>
  An encoder and a machine that undoes it up to a canonical form: when the machine has read what one
  step of the encoder wrote, it gave out what the canonical form has there.
\<close>

locale stream_codec =
  fixes enc :: "'e \<Rightarrow> 'a \<Rightarrow> 'e \<times> 'w list"
    and dec :: "'d \<Rightarrow> 'w \<Rightarrow> 'd \<times> 'b list \<times> 'x option"
    and canon :: "'e \<Rightarrow> 'a \<Rightarrow> 'b list"
    and rel :: "'e \<Rightarrow> 'd \<Rightarrow> bool"
  assumes step_back: "rel e d \<Longrightarrow> enc e a = (e', ws) \<Longrightarrow> \<exists>d'. drive dec d ws = (d', canon e a, None, []) \<and> rel e' d'"
begin

primrec canonical :: "'e \<Rightarrow> 'a list \<Rightarrow> 'b list" where
  "canonical e [] = []"
| "canonical e (a # as) = canon e a @ canonical (fst (enc e a)) as"

lemma stream_back:
  assumes "rel e d" and "run enc e as = (e', ws)"
  shows "\<exists>d'. drive dec d ws = (d', canonical e as, None, []) \<and> rel e' d'"
  using assms
proof (induction as arbitrary: e d e' ws)
  case (Cons a as)
  obtain e1 w1 where first: "enc e a = (e1, w1)" by fastforce
  obtain w2 where rest: "run enc e1 as = (e', w2)" "ws = w1 @ w2"
    using Cons.prems(2) first by (auto split: prod.splits)
  obtain d1 where d1: "drive dec d w1 = (d1, canon e a, None, [])" "rel e1 d1"
    using step_back [OF Cons.prems(1) first] by blast
  obtain d2 where d2: "drive dec d1 w2 = (d2, canonical e1 as, None, [])" "rel e' d2"
    using Cons.IH [OF d1(2) rest(1)] by blast
  have "drive dec d ws = (d2, canonical e (a # as), None, [])"
    using drive_pieces [OF d1(1) d2(1)] rest(2) first by simp
  then show ?case using d2(2) by blast
qed simp

end

locale kept_invariant =
  fixes step :: "'s \<Rightarrow> 'a \<Rightarrow> 's \<times> 'b list \<times> 'x option" and inv :: "'s \<Rightarrow> bool"
  assumes step_keeps: "inv s \<Longrightarrow> inv (fst (step s a))"
begin

lemma drive_keeps: "inv s \<Longrightarrow> inv (fst (drive step s as))"
proof (induction as arbitrary: s)
  case (Cons a as)
  have "inv (fst (step s a))" by (rule step_keeps [OF Cons.prems])
  then show ?case using Cons.IH [of "fst (step s a)"] by (auto split: prod.splits option.splits)
qed simp

end

section \<open>Writing all of a payload\<close>

datatype 'x write_failure = ErrShortWrite | WriterError 'x

text \<open>
  A writer is a function of its state and the payload; it returns a count, which may be anything, and
  an error. Every round without an error drops at least one byte, so the loop ends.
\<close>

function WriteAll :: "('w \<Rightarrow> 'a list \<Rightarrow> int \<times> 'x option \<times> 'w) \<Rightarrow> 'w \<Rightarrow> 'a list \<Rightarrow> 'x write_failure option \<times> 'w" where
  "WriteAll wr w payload =
     (if payload = [] then (None, w)
      else
        (case wr w payload of
           (count, err, w') \<Rightarrow>
             (if count < 0 \<or> count > int (length payload) then (Some ErrShortWrite, w')
              else (case err of
                      Some e \<Rightarrow> (Some (WriterError e), w')
                    | None \<Rightarrow> (if count = 0 then (Some ErrShortWrite, w') else WriteAll wr w' (drop (nat count) payload))))))"
  by pat_completeness auto
termination by (relation "measure (\<lambda>(wr, w, payload). length payload)") auto

declare WriteAll.simps [simp del]

lemma WriteAll_keeps:
  assumes keeps: "\<And>w p. g (snd (snd (wr w p))) = g w"
  shows "g (snd (WriteAll wr w payload)) = g w"
proof (induction payload arbitrary: w rule: length_induct)
  case (1 payload)
  obtain count err w' where w: "wr w payload = (count, err, w')" by (metis prod_cases3)
  have g: "g w' = g w" using keeps [of w payload] w by simp
  have rest: "g (snd (WriteAll wr w' (drop (nat count) payload))) = g w'" if "payload \<noteq> []" "0 < count"
    using 1 that by simp
  show ?case using rest g w by (simp add: WriteAll.simps [of wr w payload] split: option.split)
qed

text \<open>
  A writer whose count is true: what it sent grew by the bytes it counts. Then a payload that is
  reported written was sent whole and in order, and any failure leaves a prefix of it.
\<close>

locale honest_writer =
  fixes wr :: "'w \<Rightarrow> 'a list \<Rightarrow> int \<times> 'x option \<times> 'w" and sent :: "'w \<Rightarrow> 'a list"
  assumes count_true: "wr w payload = (count, err, w') \<Longrightarrow>
    0 \<le> count \<and> count \<le> int (length payload) \<and> sent w' = sent w @ take (nat count) payload"
begin

lemma WriteAll_prefix: "\<exists>k \<le> length payload. sent (snd (WriteAll wr w payload)) = sent w @ take k payload"
proof (induction payload arbitrary: w rule: length_induct)
  case (1 payload)
  obtain count err w' where w: "wr w payload = (count, err, w')" by (metis prod_cases3)
  note true = count_true [OF w]
  have stop: "\<exists>k \<le> length payload. sent w' = sent w @ take k payload"
    using true by (intro exI [of _ "nat count"]) auto
  show ?case
  proof (cases "payload = [] \<or> err \<noteq> None \<or> count = 0")
    case True
    then show ?thesis using stop w true by (subst WriteAll.simps) (auto split: option.splits)
  next
    case False
    then have "length (drop (nat count) payload) < length payload" using true by auto
    with 1 obtain k where k: "k \<le> length (drop (nat count) payload)"
      "sent (snd (WriteAll wr w' (drop (nat count) payload))) = sent w' @ take k (drop (nat count) payload)" by blast
    have "take (nat count) payload @ take k (drop (nat count) payload) = take (nat count + k) payload"
      by (simp add: take_add)
    moreover have "WriteAll wr w payload = WriteAll wr w' (drop (nat count) payload)"
      using False w true by (subst WriteAll.simps) auto
    ultimately show ?thesis using k true by (intro exI [of _ "nat count + k"]) auto
  qed
qed

lemma WriteAll_complete: "WriteAll wr w payload = (None, w') \<Longrightarrow> sent w' = sent w @ payload"
proof (induction payload arbitrary: w rule: length_induct)
  case (1 payload)
  obtain count err w1 where w: "wr w payload = (count, err, w1)" by (metis prod_cases3)
  note true = count_true [OF w]
  show ?case
  proof (cases "payload = []")
    case True
    then show ?thesis using 1(2) by (simp add: WriteAll.simps)
  next
    case False
    have err: "err = None" "count \<noteq> 0"
      using 1(2) False w true by (auto simp: WriteAll.simps [of wr w payload] split: option.splits if_splits)
    then have "WriteAll wr w1 (drop (nat count) payload) = (None, w')"
      using 1(2) False w true by (simp add: WriteAll.simps [of wr w payload])
    moreover have "length (drop (nat count) payload) < length payload" using False err true by auto
    ultimately have "sent w' = sent w1 @ drop (nat count) payload" using 1(1) by blast
    then show ?thesis using true by simp
  qed
qed

end

section \<open>A buffer with a limit\<close>

record CappedBuffer =
  cbLimit :: int
  cbKept :: "byte list"
  cbTruncated :: bool

definition NewCappedBuffer :: "int \<Rightarrow> CappedBuffer" where
  "NewCappedBuffer limit = \<lparr>cbLimit = limit, cbKept = [], cbTruncated = False\<rparr>"

text \<open>The buffer after the write, and the count it reports: all of the chunk.\<close>

definition cb_Write :: "CappedBuffer \<Rightarrow> byte list \<Rightarrow> CappedBuffer \<times> nat" where
  "cb_Write b chunk =
     (let room = max (cbLimit b - int (length (cbKept b))) 0 in
      if int (length chunk) > room
      then (b\<lparr>cbKept := cbKept b @ take (nat room) chunk, cbTruncated := True\<rparr>, length chunk)
      else (b\<lparr>cbKept := cbKept b @ chunk\<rparr>, length chunk))"

definition cb_Bytes :: "CappedBuffer \<Rightarrow> byte list" where "cb_Bytes b = cbKept b"
definition cb_Truncated :: "CappedBuffer \<Rightarrow> bool" where "cb_Truncated b = cbTruncated b"

definition holds_prefix :: "int \<Rightarrow> byte list \<Rightarrow> CappedBuffer \<Rightarrow> bool" where
  "holds_prefix limit all b \<longleftrightarrow> cbLimit b = limit \<and> cbKept b = take (nat limit) all \<and>
     (cbTruncated b \<longleftrightarrow> int (length all) > max limit 0)"

lemma cb_Write_keeps:
  assumes "holds_prefix limit all b"
  shows "holds_prefix limit (all @ chunk) (fst (cb_Write b chunk))"
proof -
  have b: "cbLimit b = limit" "cbKept b = take (nat limit) all" "cbTruncated b \<longleftrightarrow> int (length all) > max limit 0"
    using assms by (simp_all add: holds_prefix_def)
  have len: "length (cbKept b) = min (length all) (nat limit)" by (simp add: b)
  show ?thesis
  proof (cases "int (length all) \<ge> max limit 0")
    case True
    then have room: "max (limit - int (length (cbKept b))) 0 = 0" using len by linarith
    show ?thesis using True b room by (cases chunk) (auto simp: holds_prefix_def cb_Write_def Let_def)
  next
    case False
    then have kept: "cbKept b = all" "nat limit > length all" using b by auto
    then have room: "nat (max (limit - int (length (cbKept b))) 0) = nat limit - length all" by simp
    show ?thesis using False b kept room by (auto simp: holds_prefix_def cb_Write_def Let_def)
  qed
qed

text \<open>
  C32. However the output of a program is cut into writes, a capped buffer holds the first bytes of
  it up to its limit, and it says that bytes were dropped exactly when there were more.
\<close>

theorem CappedBuffer_holds_prefix:
  "let b = foldl (\<lambda>b chunk. fst (cb_Write b chunk)) (NewCappedBuffer limit) chunks in
     cb_Bytes b = take (nat limit) (concat chunks) \<and>
     (cb_Truncated b \<longleftrightarrow> int (length (concat chunks)) > max limit 0)"
proof -
  have "holds_prefix limit (all @ concat chunks) (foldl (\<lambda>b chunk. fst (cb_Write b chunk)) b chunks)"
    if "holds_prefix limit all b" for all b
    using that
  proof (induction chunks arbitrary: all b)
    case (Cons chunk chunks)
    from Cons.IH [OF cb_Write_keeps [OF Cons.prems, of chunk]] show ?case by simp
  qed simp
  moreover have "holds_prefix limit [] (NewCappedBuffer limit)"
    by (simp add: holds_prefix_def NewCappedBuffer_def)
  ultimately have "holds_prefix limit ([] @ concat chunks) (foldl (\<lambda>b chunk. fst (cb_Write b chunk)) (NewCappedBuffer limit) chunks)"
    by blast
  then show ?thesis by (simp add: holds_prefix_def cb_Bytes_def cb_Truncated_def Let_def)
qed

end
