(* ===== verification/TelnetProtocol.thy ===== *)
theory TelnetProtocol
  imports ByteStream
begin

text \<open>
  The Telnet stream (internal/telnet/protocol.go, inbound.go, and the writing half of telnet.go):
  option negotiation, the decoder of the peer's bytes, the encoder of application data. The model is
  the connection of the source as one record; the mutexes make every operation on it atomic. The
  transport is a socket that takes some number of bytes and fails from then on; the buffered reader of
  the connection is kept beside the record.
\<close>

section \<open>State\<close>

datatype conn_error =
    ErrMalformedNegotiation | ErrSubnegotiationTooLarge | ErrInvalidWindowSize | ErrInvalidReadTimeout
  | ErrContextCanceled | ErrContextDeadline | ErrReadTimeout | ErrTransport | ErrWrite "conn_error write_failure"

definition breaksFraming :: "conn_error \<Rightarrow> bool" where
  "breaksFraming err \<longleftrightarrow> err = ErrMalformedNegotiation \<or> err = ErrSubnegotiationTooLarge"

definition commandEOF :: byte where [simp]: "commandEOF = 236"
definition commandSE :: byte where [simp]: "commandSE = 240"
definition commandSB :: byte where [simp]: "commandSB = 250"
definition commandWILL :: byte where [simp]: "commandWILL = 251"
definition commandWONT :: byte where [simp]: "commandWONT = 252"
definition commandDO :: byte where [simp]: "commandDO = 253"
definition commandDONT :: byte where [simp]: "commandDONT = 254"
definition commandIAC :: byte where [simp]: "commandIAC = 255"

definition optionBinary :: byte where [simp]: "optionBinary = 0"
definition optionEcho :: byte where [simp]: "optionEcho = 1"
definition optionSuppressGA :: byte where [simp]: "optionSuppressGA = 3"
definition optionTerminalType :: byte where [simp]: "optionTerminalType = 24"
definition optionNAWS :: byte where [simp]: "optionNAWS = 31"

definition terminalTypeIS :: byte where [simp]: "terminalTypeIS = 0"
definition terminalTypeSEND :: byte where [simp]: "terminalTypeSEND = 1"

abbreviation (input) byteCR :: byte where "byteCR \<equiv> 13"
abbreviation (input) byteLF :: byte where "byteLF \<equiv> 10"

datatype inboundState =
    inboundData | inboundCommand | inboundNegotiationOption
  | inboundSubnegotiationOption | inboundSubnegotiationPayload | inboundSubnegotiationIAC

record inboundDecoder =
  inState :: inboundState
  inCommand :: byte
  inOption :: byte
  inPayload :: "byte list"
  inWireBytes :: int

text \<open>What one read of the raw connection brings: at least one byte, or a failure, or the end of the context.\<close>

datatype raw_read = Chunk byte "byte list" | ReadFails conn_error | ContextEnds conn_error

record bufReader =
  rdBuffered :: "byte list"
  rdRaw :: "raw_read list"

record socket =
  skSent :: "byte list"
  skRoom :: "nat option"
  skClosed :: bool

record Conn =
  cnSocket :: socket
  cnContext :: "conn_error option"
  cnTerminalType :: "byte list"
  cnWidth :: "16 word"
  cnHeight :: "16 word"
  cnMaxSubnegotiation :: int
  cnLocalEnabled :: "byte \<Rightarrow> bool"
  cnRemoteEnabled :: "byte \<Rightarrow> bool"
  cnLocalRejected :: "byte \<Rightarrow> bool"
  cnRemoteRejected :: "byte \<Rightarrow> bool"
  cnInbound :: inboundDecoder
  cnPendingReadErr :: "conn_error option"
  cnAfterNVTCR :: bool
  cnReadTimeout :: bool
  cnOutboundNVTCR :: bool

type_synonym outcome = "Conn \<times> conn_error option"

definition and_then :: "outcome \<Rightarrow> (Conn \<Rightarrow> outcome) \<Rightarrow> outcome" where
  "and_then r f = (case r of (c, None) \<Rightarrow> f c | (c, Some e) \<Rightarrow> (c, Some e))"

section \<open>Writing\<close>

definition socket_write :: "socket \<Rightarrow> byte list \<Rightarrow> int \<times> conn_error option \<times> socket" where
  "socket_write s payload =
     (if skClosed s then (0, Some ErrTransport, s)
      else (case skRoom s of
              None \<Rightarrow> (int (length payload), None, s\<lparr>skSent := skSent s @ payload\<rparr>)
            | Some room \<Rightarrow>
                (if length payload \<le> room
                 then (int (length payload), None, s\<lparr>skSent := skSent s @ payload, skRoom := Some (room - length payload)\<rparr>)
                 else (int room, Some ErrTransport, s\<lparr>skSent := skSent s @ take room payload, skRoom := Some 0\<rparr>))))"

interpretation socket: honest_writer socket_write skSent
  by unfold_locales (auto simp: socket_write_def split: option.splits if_splits)

definition write_raw :: "Conn \<Rightarrow> byte list \<Rightarrow> outcome" where
  "write_raw c payload = (case WriteAll socket_write (cnSocket c) payload of (err, s) \<Rightarrow> (c\<lparr>cnSocket := s\<rparr>, map_option ErrWrite err))"

text \<open>Doubling every IAC, as \<open>writeApplicationLocked\<close> and \<open>sendWindowSize\<close> do.\<close>

definition double_iac :: "byte list \<Rightarrow> byte list" where
  "double_iac bytes = concat (map (\<lambda>b. if b = commandIAC then [b, commandIAC] else [b]) bytes)"

definition writeApplicationLocked :: "Conn \<Rightarrow> byte list \<Rightarrow> outcome" where
  "writeApplicationLocked c application = write_raw c (double_iac application)"

definition flushPendingLocked :: "Conn \<Rightarrow> outcome" where
  "flushPendingLocked c =
     (if \<not> cnOutboundNVTCR c then (c, None)
      else and_then (writeApplicationLocked c [byteCR, byteLF]) (\<lambda>c. (c\<lparr>cnOutboundNVTCR := False\<rparr>, None)))"

definition sendControl :: "Conn \<Rightarrow> byte list \<Rightarrow> outcome" where
  "sendControl c payload =
     (case cnContext c of
        Some cause \<Rightarrow> (c, Some cause)
      | None \<Rightarrow> and_then (flushPendingLocked c) (\<lambda>c. write_raw c payload))"

section \<open>Negotiation\<close>

definition supportsRemote :: "byte \<Rightarrow> bool" where
  "supportsRemote opt \<longleftrightarrow> opt = optionBinary \<or> opt = optionEcho \<or> opt = optionSuppressGA"

definition supportsLocal :: "byte \<Rightarrow> bool" where
  "supportsLocal opt \<longleftrightarrow> opt = optionBinary \<or> opt = optionSuppressGA \<or> opt = optionTerminalType \<or> opt = optionNAWS"

definition enableRemote :: "Conn \<Rightarrow> byte \<Rightarrow> Conn \<times> bool" where
  "enableRemote c opt =
     (if cnRemoteEnabled c opt then (c, False)
      else (c\<lparr>cnRemoteEnabled := (cnRemoteEnabled c)(opt := True), cnRemoteRejected := (cnRemoteRejected c)(opt := False)\<rparr>, True))"

definition disableRemote :: "Conn \<Rightarrow> byte \<Rightarrow> Conn" where
  "disableRemote c opt =
     c\<lparr>cnRemoteEnabled := (cnRemoteEnabled c)(opt := False), cnRemoteRejected := (cnRemoteRejected c)(opt := False)\<rparr>"

definition markRemoteRejected :: "Conn \<Rightarrow> byte \<Rightarrow> Conn \<times> bool" where
  "markRemoteRejected c opt =
     (if cnRemoteRejected c opt then (c, False) else (c\<lparr>cnRemoteRejected := (cnRemoteRejected c)(opt := True)\<rparr>, True))"

definition enableLocal :: "Conn \<Rightarrow> byte \<Rightarrow> Conn \<times> bool" where
  "enableLocal c opt =
     (if cnLocalEnabled c opt then (c, False)
      else (c\<lparr>cnLocalEnabled := (cnLocalEnabled c)(opt := True), cnLocalRejected := (cnLocalRejected c)(opt := False)\<rparr>, True))"

definition disableLocal :: "Conn \<Rightarrow> byte \<Rightarrow> Conn \<times> bool" where
  "disableLocal c opt =
     (c\<lparr>cnLocalEnabled := (cnLocalEnabled c)(opt := False), cnLocalRejected := (cnLocalRejected c)(opt := False)\<rparr>,
      cnLocalEnabled c opt)"

definition markLocalRejected :: "Conn \<Rightarrow> byte \<Rightarrow> Conn \<times> bool" where
  "markLocalRejected c opt =
     (if cnLocalRejected c opt then (c, False) else (c\<lparr>cnLocalRejected := (cnLocalRejected c)(opt := True)\<rparr>, True))"

definition window_payload :: "16 word \<Rightarrow> 16 word \<Rightarrow> byte list" where
  "window_payload width height = [ucast (drop_bit 8 width), ucast width, ucast (drop_bit 8 height), ucast height]"

definition sendWindowSize :: "Conn \<Rightarrow> 16 word \<Rightarrow> 16 word \<Rightarrow> outcome" where
  "sendWindowSize c width height =
     sendControl c ([commandIAC, commandSB, optionNAWS] @ double_iac (window_payload width height) @ [commandIAC, commandSE])"

definition handleNegotiation :: "Conn \<Rightarrow> byte \<Rightarrow> byte \<Rightarrow> outcome" where
  "handleNegotiation c command opt =
     (if command = commandWILL then
        (if \<not> supportsRemote opt then
           (case markRemoteRejected c opt of
              (c, True) \<Rightarrow> sendControl c [commandIAC, commandDONT, opt]
            | (c, False) \<Rightarrow> (c, None))
         else
           (case enableRemote c opt of
              (c, True) \<Rightarrow> sendControl c [commandIAC, commandDO, opt]
            | (c, False) \<Rightarrow> (c, None)))
      else if command = commandWONT then (disableRemote c opt, None)
      else if command = commandDO then
        (if \<not> supportsLocal opt then
           (case markLocalRejected c opt of
              (c, True) \<Rightarrow> sendControl c [commandIAC, commandWONT, opt]
            | (c, False) \<Rightarrow> (c, None))
         else
           (case enableLocal c opt of
              (c, True) \<Rightarrow>
                and_then (sendControl c [commandIAC, commandWILL, opt])
                  (\<lambda>c. if opt = optionNAWS then sendWindowSize c (cnWidth c) (cnHeight c) else (c, None))
            | (c, False) \<Rightarrow> (c, None)))
      else if command = commandDONT then
        (case disableLocal c opt of
           (c, True) \<Rightarrow> sendControl c [commandIAC, commandWONT, opt]
         | (c, False) \<Rightarrow> (c, None))
      else (c, None))"

definition handleSubnegotiation :: "Conn \<Rightarrow> byte \<Rightarrow> byte list \<Rightarrow> outcome" where
  "handleSubnegotiation c opt payload =
     (if opt \<noteq> optionTerminalType \<or> payload \<noteq> [terminalTypeSEND] then (c, None)
      else if \<not> cnLocalEnabled c optionTerminalType then (c, None)
      else sendControl c ([commandIAC, commandSB, optionTerminalType, terminalTypeIS] @ cnTerminalType c @ [commandIAC, commandSE]))"

section \<open>The decoder of the peer's bytes\<close>

text \<open>The byte that is application data, if any, comes out as a list of length at most one.\<close>

definition appendApplicationByte :: "Conn \<Rightarrow> byte \<Rightarrow> Conn \<times> byte list" where
  "appendApplicationByte c v =
     (if cnRemoteEnabled c optionBinary then (c\<lparr>cnAfterNVTCR := False\<rparr>, [v])
      else if cnAfterNVTCR c \<and> v = 0 then (c\<lparr>cnAfterNVTCR := False\<rparr>, [])
      else (c\<lparr>cnAfterNVTCR := (v = byteCR)\<rparr>, [v]))"

abbreviation in_state :: "Conn \<Rightarrow> inboundState \<Rightarrow> Conn" where
  "in_state c st \<equiv> c\<lparr>cnInbound := (cnInbound c)\<lparr>inState := st\<rparr>\<rparr>"

definition decodeCommand :: "Conn \<Rightarrow> byte \<Rightarrow> Conn \<times> byte list \<times> conn_error option" where
  "decodeCommand c0 command =
     (let c = in_state c0 inboundData in
      if command = commandIAC then (case appendApplicationByte c commandIAC of (c, out) \<Rightarrow> (c, out, None))
      else if command = commandWILL \<or> command = commandWONT \<or> command = commandDO \<or> command = commandDONT then
        (c\<lparr>cnInbound := (cnInbound c)\<lparr>inState := inboundNegotiationOption, inCommand := command\<rparr>\<rparr>, [], None)
      else if command = commandSB then (in_state c inboundSubnegotiationOption, [], None)
      else if command < commandEOF then (c, [], Some ErrMalformedNegotiation)
      else (c, [], None))"

definition countSubnegotiationByte :: "Conn \<Rightarrow> outcome" where
  "countSubnegotiationByte c =
     (let n = inWireBytes (cnInbound c) + 1; c' = c\<lparr>cnInbound := (cnInbound c)\<lparr>inWireBytes := n\<rparr>\<rparr> in
      (c', if n > cnMaxSubnegotiation c then Some ErrSubnegotiationTooLarge else None))"

definition append_payload :: "Conn \<Rightarrow> byte \<Rightarrow> Conn" where
  "append_payload c v =
     c\<lparr>cnInbound := (cnInbound c)\<lparr>inState := inboundSubnegotiationPayload, inPayload := inPayload (cnInbound c) @ [v]\<rparr>\<rparr>"

abbreviation no_data :: "outcome \<Rightarrow> Conn \<times> byte list \<times> conn_error option" where
  "no_data r \<equiv> (case r of (c, err) \<Rightarrow> (c, [], err))"

definition decodeInboundByte :: "Conn \<Rightarrow> byte \<Rightarrow> Conn \<times> byte list \<times> conn_error option" where
  "decodeInboundByte c v =
     (case inState (cnInbound c) of
        inboundData \<Rightarrow>
          (if v = commandIAC then (in_state c inboundCommand, [], None)
           else (case appendApplicationByte c v of (c, out) \<Rightarrow> (c, out, None)))
      | inboundCommand \<Rightarrow> decodeCommand c v
      | inboundNegotiationOption \<Rightarrow> no_data (handleNegotiation (in_state c inboundData) (inCommand (cnInbound c)) v)
      | inboundSubnegotiationOption \<Rightarrow>
          (c\<lparr>cnInbound := (cnInbound c)\<lparr>inState := inboundSubnegotiationPayload, inOption := v, inPayload := [], inWireBytes := 0\<rparr>\<rparr>, [], None)
      | inboundSubnegotiationPayload \<Rightarrow>
          no_data (and_then (countSubnegotiationByte c) (\<lambda>c.
            if v = commandIAC then (in_state c inboundSubnegotiationIAC, None) else (append_payload c v, None)))
      | inboundSubnegotiationIAC \<Rightarrow>
          no_data (and_then (countSubnegotiationByte c) (\<lambda>c.
            if v = commandIAC then (append_payload c commandIAC, None)
            else if v = commandSE then
              handleSubnegotiation (in_state c inboundData) (inOption (cnInbound c)) (inPayload (cnInbound c))
            else (c, Some ErrMalformedNegotiation))))"

section \<open>The encoder of application data\<close>

definition prefix_out :: "byte list \<Rightarrow> byte list \<times> bool \<Rightarrow> byte list \<times> bool" where
  "prefix_out out r = (case r of (rest, pending) \<Rightarrow> (out @ rest, pending))"

fun encode_loop :: "byte list \<Rightarrow> byte list \<times> bool" where
  "encode_loop [] = ([], False)"
| "encode_loop (v # source) =
     (if v = byteCR then
        (case source of
           [] \<Rightarrow> ([], True)
         | w # rest \<Rightarrow>
             (if w = byteLF \<or> w = 0 then prefix_out [byteCR, w] (encode_loop rest)
              else prefix_out [byteCR, byteLF] (encode_loop source)))
      else if v = byteLF then prefix_out [byteCR, byteLF] (encode_loop source)
      else prefix_out [v] (encode_loop source))"

text \<open>What is sent, and the new value of \<open>pendingCR\<close>.\<close>

definition encodeApplication :: "byte list \<Rightarrow> bool \<Rightarrow> bool \<Rightarrow> byte list \<times> bool" where
  "encodeApplication source binary pendingCR =
     (if binary then ((if pendingCR then [byteCR, byteLF] else []) @ source, False)
      else
        (case source of
           [] \<Rightarrow> ([], pendingCR)
         | v # rest \<Rightarrow>
             (if pendingCR then
                (if v = byteLF \<or> v = 0 then prefix_out [byteCR, v] (encode_loop rest)
                 else prefix_out [byteCR, byteLF] (encode_loop source))
              else encode_loop source)))"

definition writeChunkBytes :: nat where "writeChunkBytes = 32768"

text \<open>The connection, the number of source bytes that count as written, and the error.\<close>

function write_loop :: "Conn \<Rightarrow> byte list \<Rightarrow> nat \<Rightarrow> Conn \<times> nat \<times> conn_error option" where
  "write_loop c source written =
     (if source = [] then (c, written, None)
      else
        (let count = min (length source) writeChunkBytes;
             (application, pendingCR) = encodeApplication (take count source) (cnLocalEnabled c optionBinary) (cnOutboundNVTCR c) in
         case writeApplicationLocked (c\<lparr>cnOutboundNVTCR := pendingCR\<rparr>) application of
           (c, Some e) \<Rightarrow> (c, written, Some e)
         | (c, None) \<Rightarrow> write_loop c (drop count source) (written + count)))"
  by pat_completeness auto
termination by (relation "measure (\<lambda>(c, source, written). length source)") (auto simp: writeChunkBytes_def)

declare write_loop.simps [simp del]

definition Write :: "Conn \<Rightarrow> byte list \<Rightarrow> Conn \<times> nat \<times> conn_error option" where
  "Write c source = (case cnContext c of Some cause \<Rightarrow> (c, 0, Some cause) | None \<Rightarrow> write_loop c source 0)"

definition Flush :: "Conn \<Rightarrow> outcome" where "Flush c = flushPendingLocked c"

definition SetWindowSize :: "Conn \<Rightarrow> 16 word \<Rightarrow> 16 word \<Rightarrow> outcome" where
  "SetWindowSize c width height =
     (if width = 0 \<or> height = 0 then (c, Some ErrInvalidWindowSize)
      else
        let c = c\<lparr>cnWidth := width, cnHeight := height\<rparr> in
        if \<not> cnLocalEnabled c optionNAWS then (c, None) else sendWindowSize c width height)"

text \<open>The deadline itself belongs to the transport; the model keeps whether one is set.\<close>

definition SetReadTimeout :: "Conn \<Rightarrow> int \<Rightarrow> outcome" where
  "SetReadTimeout c timeout =
     (if timeout < 0 then (c, Some ErrInvalidReadTimeout) else (c\<lparr>cnReadTimeout := (timeout > 0)\<rparr>, None))"

definition closeRaw :: "Conn \<Rightarrow> Conn" where
  "closeRaw c = c\<lparr>cnSocket := (cnSocket c)\<lparr>skClosed := True\<rparr>\<rparr>"

section \<open>Reading\<close>

text \<open>\<open>None\<close>: no byte has arrived and the call blocks.\<close>

definition readByte :: "Conn \<Rightarrow> bufReader \<Rightarrow> (Conn \<times> bufReader \<times> (conn_error + byte)) option" where
  "readByte c rd =
     (case rdBuffered rd of
        b # bs \<Rightarrow> Some (c, rd\<lparr>rdBuffered := bs\<rparr>, Inr b)
      | [] \<Rightarrow>
          (if skClosed (cnSocket c) then Some (c, rd, Inl ErrTransport)
           else (case rdRaw rd of
                   [] \<Rightarrow> None
                 | Chunk b bs # later \<Rightarrow> Some (c, \<lparr>rdBuffered = bs, rdRaw = later\<rparr>, Inr b)
                 | ReadFails e # later \<Rightarrow> Some (c, rd\<lparr>rdRaw := later\<rparr>, Inl e)
                 | ContextEnds cause # later \<Rightarrow>
                     Some (closeRaw (c\<lparr>cnContext := Some cause\<rparr>), rd\<lparr>rdRaw := later\<rparr>, Inl ErrTransport))))"

definition configuredReadTimeout :: "Conn \<Rightarrow> conn_error \<Rightarrow> bool" where
  "configuredReadTimeout c err \<longleftrightarrow> (err = ErrReadTimeout \<or> err = ErrContextDeadline) \<and> cnReadTimeout c"

definition readResult :: "Conn \<Rightarrow> byte list \<Rightarrow> conn_error \<Rightarrow> Conn \<times> byte list \<times> conn_error option" where
  "readResult c written err0 =
     (let err = (case cnContext c of Some cause \<Rightarrow> cause | None \<Rightarrow> err0) in
      if configuredReadTimeout c err then (c, written, None)
      else if written \<noteq> [] then (c\<lparr>cnPendingReadErr := Some err\<rparr>, written, None)
      else (c, [], Some err))"

type_synonym read_outcome = "(Conn \<times> byte list \<times> conn_error option) \<times> bufReader"

definition reader_size :: "bufReader \<Rightarrow> nat" where
  "reader_size rd = length (rdBuffered rd) + (\<Sum>r \<leftarrow> rdRaw rd. case r of Chunk b bs \<Rightarrow> 1 + length bs | _ \<Rightarrow> 1)"

lemma readByte_size: "readByte c rd = Some (c', rd', Inr b) \<Longrightarrow> reader_size rd' < reader_size rd"
  by (auto simp: readByte_def reader_size_def split: list.splits if_splits raw_read.splits)

function read_loop :: "nat \<Rightarrow> Conn \<Rightarrow> bufReader \<Rightarrow> byte list \<Rightarrow> read_outcome option" where
  "read_loop n c rd written =
     (if length written \<ge> n then Some ((c, written, None), rd)
      else
        (case readByte c rd of
           None \<Rightarrow> None
         | Some (c, rd, Inl err) \<Rightarrow> Some (readResult c written err, rd)
         | Some (c, rd, Inr v) \<Rightarrow>
             (case decodeInboundByte c v of
                (c, out, Some err) \<Rightarrow>
                  Some (readResult (if breaksFraming err then closeRaw c else c) (written @ out) err, rd)
              | (c, out, None) \<Rightarrow>
                  (if written @ out \<noteq> [] \<and> rdBuffered rd = [] then Some ((c, written @ out, None), rd)
                   else read_loop n c rd (written @ out)))))"
  by pat_completeness auto
termination by (relation "measure (\<lambda>(n, c, rd, written). reader_size rd)") (auto dest: readByte_size)

declare read_loop.simps [simp del]

definition Read :: "nat \<Rightarrow> Conn \<Rightarrow> bufReader \<Rightarrow> read_outcome option" where
  "Read n c rd =
     (if n = 0 then Some ((c, [], None), rd)
      else (case cnContext c of
              Some cause \<Rightarrow> Some ((c, [], Some cause), rd)
            | None \<Rightarrow>
                (case cnPendingReadErr c of
                   Some err \<Rightarrow> Some ((c\<lparr>cnPendingReadErr := None\<rparr>, [], Some err), rd)
                 | None \<Rightarrow> read_loop n c rd [])))"

end
