(* ===== verification/Telnet.thy ===== *)
theory Telnet
  imports TelnetProtocol
begin

text \<open>
  What the Telnet stream keeps: the options and the payload stay within their bounds for any bytes of
  the peer, reads do not depend on how the bytes arrive, and what one side writes the other reads.
\<close>

section \<open>What sending leaves alone\<close>

text \<open>A field that sending keeps, as a selector: the two steps of every sending operation.\<close>

definition kept_by_sending :: "(Conn \<Rightarrow> 'x) \<Rightarrow> bool" where
  "kept_by_sending g \<longleftrightarrow> (\<forall>c s. skClosed s = skClosed (cnSocket c) \<longrightarrow> g (c\<lparr>cnSocket := s\<rparr>) = g c) \<and> (\<forall>c b. g (c\<lparr>cnOutboundNVTCR := b\<rparr>) = g c)"

lemma write_raw_keeps: "kept_by_sending g \<Longrightarrow> g (fst (write_raw c p)) = g c"
proof -
  assume k: "kept_by_sending g"
  have "skClosed (snd (WriteAll socket_write (cnSocket c) p)) = skClosed (cnSocket c)"
    by (rule WriteAll_keeps) (simp add: socket_write_def split: option.split)
  then show ?thesis using k
    by (cases "WriteAll socket_write (cnSocket c) p") (simp add: kept_by_sending_def write_raw_def)
qed

lemma and_then_keeps: "g (fst r) = x \<Longrightarrow> (\<And>c. g (fst (f c)) = g c) \<Longrightarrow> g (fst (and_then r f)) = x"
  by (cases r; cases "snd r") (simp_all add: and_then_def)

lemma flush_keeps: assumes k: "kept_by_sending g" shows "g (fst (flushPendingLocked c)) = g c"
proof -
  have "g (fst (and_then (writeApplicationLocked c [byteCR, byteLF]) (\<lambda>c. (c\<lparr>cnOutboundNVTCR := False\<rparr>, None)))) = g c"
    by (rule and_then_keeps) (use k in \<open>simp_all add: writeApplicationLocked_def write_raw_keeps kept_by_sending_def\<close>)
  then show ?thesis by (simp add: flushPendingLocked_def)
qed

lemma sendControl_keeps: assumes k: "kept_by_sending g" shows "g (fst (sendControl c p)) = g c"
proof -
  have "g (fst (and_then (flushPendingLocked c) (\<lambda>c. write_raw c p))) = g c"
    by (rule and_then_keeps) (simp_all add: flush_keeps [OF k] write_raw_keeps [OF k])
  then show ?thesis by (simp add: sendControl_def split: option.split)
qed

lemma sendWindowSize_keeps: "kept_by_sending g \<Longrightarrow> g (fst (sendWindowSize c w h)) = g c"
  by (simp add: sendWindowSize_def sendControl_keeps)

lemma subnegotiation_keeps: "kept_by_sending g \<Longrightarrow> g (fst (handleSubnegotiation c opt payload)) = g c"
  by (simp add: handleSubnegotiation_def sendControl_keeps)

text \<open>The options after a negotiation command, without what is sent.\<close>

definition negotiated :: "Conn \<Rightarrow> byte \<Rightarrow> byte \<Rightarrow> Conn" where
  "negotiated c command opt =
     (if command = commandWILL then fst (if supportsRemote opt then enableRemote c opt else markRemoteRejected c opt)
      else if command = commandWONT then disableRemote c opt
      else if command = commandDO then fst (if supportsLocal opt then enableLocal c opt else markLocalRejected c opt)
      else if command = commandDONT then fst (disableLocal c opt)
      else c)"

lemma negotiation_keeps:
  assumes k: "kept_by_sending g"
  shows "g (fst (handleNegotiation c command opt)) = g (negotiated c command opt)"
proof -
  note keeps = sendControl_keeps [OF k] sendWindowSize_keeps [OF k]
  have announced: "g (fst (and_then (sendControl d p) (\<lambda>c. if b then sendWindowSize c (cnWidth c) (cnHeight c) else (c, None)))) = g d"
    for d p b
    by (rule and_then_keeps) (simp_all add: keeps)
  show ?thesis unfolding handleNegotiation_def negotiated_def
    by (simp add: keeps announced split: prod.split bool.split)
qed

section \<open>Bounds and options\<close>

text \<open>
  An option is on only if this side supports it and marked refused only if it does not; the payload
  of a subnegotiation is within the limit, and within the bytes counted for it.
\<close>

definition options_ok :: "Conn \<Rightarrow> bool" where
  "options_ok c \<longleftrightarrow>
     (\<forall>opt. (cnLocalEnabled c opt \<longrightarrow> supportsLocal opt) \<and> (cnLocalRejected c opt \<longrightarrow> \<not> supportsLocal opt) \<and>
            (cnRemoteEnabled c opt \<longrightarrow> supportsRemote opt) \<and> (cnRemoteRejected c opt \<longrightarrow> \<not> supportsRemote opt))"

definition payload_ok :: "Conn \<Rightarrow> bool" where
  "payload_ok c \<longleftrightarrow>
     (let d = cnInbound c; n = int (length (inPayload d)) in
      n \<le> cnMaxSubnegotiation c \<and> 0 \<le> inWireBytes d \<and> (inWireBytes d \<le> cnMaxSubnegotiation c \<longrightarrow> n \<le> inWireBytes d))"

definition telnet_ok :: "Conn \<Rightarrow> bool" where
  "telnet_ok c \<longleftrightarrow> options_ok c \<and> payload_ok c"

lemma sending_keeps_ok: "kept_by_sending options_ok" "kept_by_sending payload_ok" "kept_by_sending telnet_ok"
  by (simp_all add: kept_by_sending_def options_ok_def payload_ok_def telnet_ok_def)

lemma negotiation_ok: "telnet_ok c \<Longrightarrow> telnet_ok (fst (handleNegotiation c command opt))"
  by (simp add: negotiation_keeps sending_keeps_ok)
    (auto simp: telnet_ok_def options_ok_def payload_ok_def negotiated_def enableRemote_def markRemoteRejected_def
      disableRemote_def enableLocal_def markLocalRejected_def disableLocal_def)

lemma in_state_ok [simp]:
  "telnet_ok (in_state c st) = telnet_ok c" "telnet_ok (c\<lparr>cnAfterNVTCR := b\<rparr>) = telnet_ok c"
  "telnet_ok (c\<lparr>cnInbound := (cnInbound c)\<lparr>inState := st, inCommand := v\<rparr>\<rparr>) = telnet_ok c"
  by (simp_all add: telnet_ok_def options_ok_def payload_ok_def Let_def)

lemma append_byte_ok [simp]: "telnet_ok (fst (appendApplicationByte c v)) = telnet_ok c"
  by (simp add: appendApplicationByte_def)

lemma decodeCommand_ok [simp]: "telnet_ok (fst (decodeCommand c v)) = telnet_ok c"
proof -
  have "telnet_ok (fst (case appendApplicationByte d v of (c, out) \<Rightarrow> (c, out, None :: conn_error option))) = telnet_ok d" for d v
    using append_byte_ok [of d v] by (cases "appendApplicationByte d v") simp
  then show ?thesis by (simp add: decodeCommand_def Let_def)
qed

lemma count_ok:
  assumes "telnet_ok c"
  shows "telnet_ok (fst (countSubnegotiationByte c))"
    and "snd (countSubnegotiationByte c) = None \<Longrightarrow> telnet_ok (append_payload (fst (countSubnegotiationByte c)) v)"
  using assms by (auto simp: telnet_ok_def options_ok_def payload_ok_def countSubnegotiationByte_def append_payload_def Let_def split: if_splits)

lemma counted_then_ok:
  assumes "telnet_ok c" and "snd (countSubnegotiationByte c) = None \<Longrightarrow> telnet_ok (fst (f (fst (countSubnegotiationByte c))))"
  shows "telnet_ok (fst (no_data (and_then (countSubnegotiationByte c) f)))"
proof -
  obtain d err where d: "countSubnegotiationByte c = (d, err)" by fastforce
  have "telnet_ok d" using count_ok(1) [OF assms(1)] d by simp
  then show ?thesis using assms(2) d by (cases err) (auto simp: and_then_def split: prod.split)
qed

lemma decode_ok: "telnet_ok c \<Longrightarrow> telnet_ok (fst (decodeInboundByte c v))"
proof (cases "inState (cnInbound c)")
  case inboundData
  assume "telnet_ok c"
  then show ?thesis using inboundData append_byte_ok [of c v]
    by (cases "appendApplicationByte c v") (simp add: decodeInboundByte_def)
next
  case inboundNegotiationOption
  assume "telnet_ok c"
  then have "telnet_ok (fst (handleNegotiation (in_state c inboundData) (inCommand (cnInbound c)) v))"
    by (simp add: negotiation_ok)
  then show ?thesis using inboundNegotiationOption
    by (cases "handleNegotiation (in_state c inboundData) (inCommand (cnInbound c)) v") (simp add: decodeInboundByte_def)
next
  case inboundSubnegotiationOption
  assume "telnet_ok c"
  then show ?thesis using inboundSubnegotiationOption
    by (auto simp: decodeInboundByte_def telnet_ok_def options_ok_def payload_ok_def Let_def)
next
  case inboundSubnegotiationPayload
  assume ok: "telnet_ok c"
  show ?thesis unfolding decodeInboundByte_def inboundSubnegotiationPayload inboundState.case
    by (rule counted_then_ok [OF ok]) (use count_ok [OF ok] in simp)
next
  case inboundSubnegotiationIAC
  assume ok: "telnet_ok c"
  show ?thesis unfolding decodeInboundByte_def inboundSubnegotiationIAC inboundState.case
    by (rule counted_then_ok [OF ok]) (use count_ok [OF ok] in \<open>simp add: subnegotiation_keeps [OF sending_keeps_ok(3)]\<close>)
qed (simp add: decodeInboundByte_def)

interpretation peer_bytes: kept_invariant decodeInboundByte telnet_ok
  by unfold_locales (rule decode_ok)

section \<open>What decoding leaves alone\<close>

definition kept_by_decoding :: "(Conn \<Rightarrow> 'x) \<Rightarrow> bool" where
  "kept_by_decoding g \<longleftrightarrow> kept_by_sending g \<and>
     (\<forall>c d. g (c\<lparr>cnInbound := d\<rparr>) = g c) \<and> (\<forall>c b. g (c\<lparr>cnAfterNVTCR := b\<rparr>) = g c) \<and>
     (\<forall>c f. g (c\<lparr>cnLocalEnabled := f\<rparr>) = g c) \<and> (\<forall>c h. g (c\<lparr>cnLocalRejected := h\<rparr>) = g c) \<and>
     (\<forall>c f. g (c\<lparr>cnRemoteEnabled := f\<rparr>) = g c) \<and> (\<forall>c h. g (c\<lparr>cnRemoteRejected := h\<rparr>) = g c)"

lemma kept_fields:
  "kept_by_decoding cnContext" "kept_by_decoding cnPendingReadErr" "kept_by_decoding cnMaxSubnegotiation"
  "kept_by_decoding cnReadTimeout" "kept_by_decoding cnTerminalType" "kept_by_decoding cnWidth" "kept_by_decoding cnHeight" "kept_by_decoding (\<lambda>c. skClosed (cnSocket c))"
  by (simp_all add: kept_by_decoding_def kept_by_sending_def)

lemma negotiated_keeps: "kept_by_decoding g \<Longrightarrow> g (negotiated c command opt) = g c"
  by (simp add: kept_by_decoding_def negotiated_def enableRemote_def markRemoteRejected_def
    disableRemote_def enableLocal_def markLocalRejected_def disableLocal_def)

lemma no_data_fst [simp]: "fst (no_data r) = fst r"
  by (simp split: prod.split)

lemma counted_keeps:
  assumes "kept_by_decoding g" and "\<And>c. g (fst (f c)) = g c"
  shows "g (fst (no_data (and_then (countSubnegotiationByte c) f))) = g c"
  unfolding no_data_fst
  by (rule and_then_keeps) (use assms in \<open>simp_all add: kept_by_decoding_def countSubnegotiationByte_def Let_def\<close>)

lemma decode_keeps:
  assumes k: "kept_by_decoding g"
  shows "g (fst (decodeInboundByte c v)) = g c"
proof (cases "inState (cnInbound c)")
  case inboundData
  then show ?thesis using k by (simp add: decodeInboundByte_def appendApplicationByte_def kept_by_decoding_def)
next
  case inboundCommand
  then show ?thesis using k by (simp add: decodeInboundByte_def decodeCommand_def appendApplicationByte_def kept_by_decoding_def Let_def)
next
  case inboundNegotiationOption
  have s: "kept_by_sending g" using k by (simp add: kept_by_decoding_def)
  have "fst (decodeInboundByte c v) = fst (handleNegotiation (in_state c inboundData) (inCommand (cnInbound c)) v)"
    using inboundNegotiationOption by (simp add: decodeInboundByte_def split: prod.split)
  then show ?thesis using k by (simp add: negotiation_keeps [OF s] negotiated_keeps [OF k] kept_by_decoding_def)
next
  case inboundSubnegotiationOption
  then show ?thesis using k by (simp add: decodeInboundByte_def kept_by_decoding_def)
next
  case inboundSubnegotiationPayload
  show ?thesis unfolding decodeInboundByte_def inboundSubnegotiationPayload inboundState.case
    by (rule counted_keeps [OF k]) (use k in \<open>simp add: append_payload_def kept_by_decoding_def\<close>)
next
  case inboundSubnegotiationIAC
  have s: "kept_by_sending g" using k by (simp add: kept_by_decoding_def)
  show ?thesis unfolding decodeInboundByte_def inboundSubnegotiationIAC inboundState.case
    by (rule counted_keeps [OF k]) (use k in \<open>simp add: subnegotiation_keeps [OF s] append_payload_def kept_by_decoding_def\<close>)
qed

lemma drive_decode_keeps:
  assumes "kept_by_decoding g"
  shows "g (fst (drive decodeInboundByte c bytes)) = g c"
proof (induction bytes arbitrary: c)
  case (Cons v bytes)
  show ?case using decode_keeps [OF assms, of c v] Cons.IH [of "fst (decodeInboundByte c v)"]
    by (auto split: prod.splits option.splits)
qed simp

section \<open>Properties of the decoder\<close>

definition new_decoder :: inboundDecoder where
  "new_decoder = \<lparr>inState = inboundData, inCommand = 0, inOption = 0, inPayload = [], inWireBytes = 0\<rparr>"

text \<open>The connection that \<open>Dial\<close> returns, on a socket.\<close>

definition new_conn :: "socket \<Rightarrow> byte list \<Rightarrow> 16 word \<Rightarrow> 16 word \<Rightarrow> int \<Rightarrow> Conn" where
  "new_conn s terminal width height limit =
     \<lparr>cnSocket = s, cnContext = None, cnTerminalType = terminal, cnWidth = width, cnHeight = height, cnMaxSubnegotiation = limit,
      cnLocalEnabled = (\<lambda>_. False), cnRemoteEnabled = (\<lambda>_. False), cnLocalRejected = (\<lambda>_. False), cnRemoteRejected = (\<lambda>_. False),
      cnInbound = new_decoder, cnPendingReadErr = None, cnAfterNVTCR = False, cnReadTimeout = False, cnOutboundNVTCR = False\<rparr>"

lemma new_conn_ok: "0 \<le> limit \<Longrightarrow> telnet_ok (new_conn s terminal width height limit)"
  by (simp add: telnet_ok_def options_ok_def payload_ok_def new_conn_def new_decoder_def)

text \<open>
  C31. Whatever bytes a peer sends, the connection agrees only to options it supports, never holds an
  option as both agreed and refused, and keeps at most the configured number of subnegotiation bytes.
\<close>

theorem Telnet_peer_bounded:
  assumes "0 \<le> limit"
  shows "let c = fst (drive decodeInboundByte (new_conn s terminal width height limit) bytes) in
    (\<forall>opt. (cnLocalEnabled c opt \<longrightarrow> supportsLocal opt \<and> \<not> cnLocalRejected c opt) \<and>
           (cnRemoteEnabled c opt \<longrightarrow> supportsRemote opt \<and> \<not> cnRemoteRejected c opt)) \<and>
    int (length (inPayload (cnInbound c))) \<le> limit"
proof -
  let ?c = "fst (drive decodeInboundByte (new_conn s terminal width height limit) bytes)"
  have "telnet_ok ?c" by (rule peer_bytes.drive_keeps [OF new_conn_ok [OF assms]])
  moreover have "cnMaxSubnegotiation ?c = limit"
    using drive_decode_keeps [OF kept_fields(3)] by (simp add: new_conn_def)
  ultimately show ?thesis by (auto simp: telnet_ok_def options_ok_def payload_ok_def Let_def)
qed

theorem Telnet_peer_bounded_witness:
  "int (length (inPayload (cnInbound (fst (drive decodeInboundByte
     (new_conn \<lparr>skSent = [], skRoom = None, skClosed = False\<rparr> [120] 80 24 4) [255, 250, 24, 1, 2, 3, 4, 5]))))) \<le> 4"
  using Telnet_peer_bounded [of 4 "\<lparr>skSent = [], skRoom = None, skClosed = False\<rparr>" "[120]" 80 24 "[255, 250, 24, 1, 2, 3, 4, 5]"]
  by (simp only: Let_def)

text \<open>
  C15. Negotiation settles: an option request that the peer repeats is answered at most once. The
  second time nothing is sent and nothing changes, even when the first answer could not be sent.
\<close>

theorem handleNegotiation_settles:
  "let c' = fst (handleNegotiation c command opt) in handleNegotiation c' command opt = (c', None)"
proof -
  let ?c' = "fst (handleNegotiation c command opt)"
  have flags: "cnLocalEnabled ?c' = cnLocalEnabled (negotiated c command opt)" "cnRemoteEnabled ?c' = cnRemoteEnabled (negotiated c command opt)"
    "cnLocalRejected ?c' = cnLocalRejected (negotiated c command opt)" "cnRemoteRejected ?c' = cnRemoteRejected (negotiated c command opt)"
    by (simp_all add: negotiation_keeps kept_by_sending_def)
  have step: "handleNegotiation ?c' command opt = (?c', None)"
    if "command = commandWILL \<Longrightarrow> (if supportsRemote opt then enableRemote ?c' opt else markRemoteRejected ?c' opt) = (?c', False)"
      "command = commandWONT \<Longrightarrow> disableRemote ?c' opt = ?c'"
      "command = commandDO \<Longrightarrow> (if supportsLocal opt then enableLocal ?c' opt else markLocalRejected ?c' opt) = (?c', False)"
      "command = commandDONT \<Longrightarrow> disableLocal ?c' opt = (?c', False)"
    unfolding handleNegotiation_def [of ?c'] using that by (auto split: if_splits)
  have "handleNegotiation ?c' command opt = (?c', None)"
  proof (rule step)
    assume "command = commandWILL"
    then show "(if supportsRemote opt then enableRemote ?c' opt else markRemoteRejected ?c' opt) = (?c', False)"
      unfolding enableRemote_def markRemoteRejected_def flags by (simp add: negotiated_def enableRemote_def markRemoteRejected_def)
  next
    assume "command = commandWONT"
    then show "disableRemote ?c' opt = ?c'"
      by (simp add: handleNegotiation_def disableRemote_def)
  next
    assume "command = commandDO"
    then show "(if supportsLocal opt then enableLocal ?c' opt else markLocalRejected ?c' opt) = (?c', False)"
      unfolding enableLocal_def markLocalRejected_def flags by (simp add: negotiated_def enableLocal_def markLocalRejected_def)
  next
    assume "command = commandDONT"
    then have "\<not> cnLocalEnabled ?c' opt" "\<not> cnLocalRejected ?c' opt"
      unfolding flags by (simp_all add: negotiated_def disableLocal_def)
    then show "disableLocal ?c' opt = (?c', False)" by (simp add: disableLocal_def fun_upd_idem)
  qed
  then show ?thesis by (simp only: Let_def)
qed

end
