(* ===== verification/TelnetStream.thy ===== *)
theory TelnetStream
  imports Telnet
begin

text \<open>
  Telnet end to end: successive reads give what the decoder gives on the bytes read, however they
  arrived; what one side writes, the other reads, with line ends in the form of the network virtual
  terminal; \<open>DiscardPending\<close>.
\<close>

section \<open>Reads do not depend on how the bytes arrive\<close>

definition unread :: "bufReader \<Rightarrow> byte list" where
  "unread rd = rdBuffered rd @ concat (map (\<lambda>r. case r of Chunk b bs \<Rightarrow> b # bs | _ \<Rightarrow> []) (rdRaw rd))"

definition plain_error :: "conn_error option \<Rightarrow> bool" where
  "plain_error err \<longleftrightarrow> err \<noteq> Some ErrReadTimeout \<and> err \<noteq> Some ErrContextDeadline"

lemma readByte_unread:
  "readByte c rd = Some (c', rd', Inr v) \<Longrightarrow> c' = c \<and> unread rd = v # unread rd'"
  "readByte c rd = Some (c', rd', Inl err) \<Longrightarrow> unread rd' = unread rd \<and> (cnContext c' = None \<longrightarrow> c' = c)"
  by (auto simp: readByte_def unread_def closeRaw_def split: list.splits if_splits raw_read.splits)

lemma write_raw_plain: "plain_error (snd (write_raw c p))"
  by (auto simp: write_raw_def plain_error_def split: prod.splits)

lemma and_then_plain: "plain_error (snd r) \<Longrightarrow> (\<And>c. c = fst r \<Longrightarrow> plain_error (snd (f c))) \<Longrightarrow> plain_error (snd (and_then r f))"
  by (cases r; cases "snd r") (auto simp: and_then_def)

lemma sendControl_plain: "cnContext c = None \<Longrightarrow> plain_error (snd (sendControl c p))"
proof -
  assume c: "cnContext c = None"
  have "plain_error (snd (flushPendingLocked c))"
    using and_then_plain [OF write_raw_plain, of c "double_iac [byteCR, byteLF]" "\<lambda>c. (c\<lparr>cnOutboundNVTCR := False\<rparr>, None)"]
    by (simp add: flushPendingLocked_def writeApplicationLocked_def plain_error_def)
  from and_then_plain [OF this write_raw_plain] show ?thesis using c by (simp add: sendControl_def)
qed

lemma negotiation_plain:
  assumes c: "cnContext c = None"
  shows "plain_error (snd (handleNegotiation c command opt))"
proof -
  have same: "cnContext (fst (enableLocal c opt)) = None" "cnContext (fst (enableRemote c opt)) = None"
    "cnContext (fst (disableLocal c opt)) = None" "cnContext (fst (markLocalRejected c opt)) = None" "cnContext (fst (markRemoteRejected c opt)) = None"
    using c by (simp_all add: enableLocal_def enableRemote_def disableLocal_def markLocalRejected_def markRemoteRejected_def)
  have announced: "plain_error (snd (and_then (sendControl d p) (\<lambda>c. if b then sendWindowSize c (cnWidth c) (cnHeight c) else (c, None))))"
    if d: "cnContext d = None" for d p b
  proof (rule and_then_plain [OF sendControl_plain [OF d]])
    fix e assume "e = fst (sendControl d p)"
    then have "cnContext e = None" using d kept_fields(1) by (simp add: sendControl_keeps kept_by_decoding_def)
    then show "plain_error (snd (if b then sendWindowSize e (cnWidth e) (cnHeight e) else (e, None)))"
      by (simp add: sendWindowSize_def sendControl_plain) (simp add: plain_error_def)
  qed
  have none: "plain_error None" by (simp add: plain_error_def)
  have answered: "plain_error (snd (case r of (c, True) \<Rightarrow> sendControl c p | (c, False) \<Rightarrow> (c, None)))" if "cnContext (fst r) = None" for r p
    using that none by (cases r; cases "snd r") (simp_all add: sendControl_plain)
  have announced': "plain_error (snd (case r of (c, True) \<Rightarrow>
        and_then (sendControl c p) (\<lambda>c. if b then sendWindowSize c (cnWidth c) (cnHeight c) else (c, None)) | (c, False) \<Rightarrow> (c, None)))"
    if "cnContext (fst r) = None" for r p b
    using that none by (cases r; cases "snd r") (simp_all add: announced)
  show ?thesis unfolding handleNegotiation_def
    by (simp add: answered announced' same none)
qed

lemma readResult_None:
  "readResult c written err = (c', data, None) \<Longrightarrow> cnPendingReadErr c' = None \<Longrightarrow>
     c' = c \<and> data = written \<and> configuredReadTimeout c (case cnContext c of Some cause \<Rightarrow> cause | None \<Rightarrow> err)"
  by (auto simp: readResult_def Let_def split: if_splits)

lemma decode_plain:
  assumes c: "cnContext c = None"
  shows "plain_error (snd (snd (decodeInboundByte c v)))"
proof -
  have snd2: "snd (snd (no_data r)) = snd r" for r :: outcome by (simp split: prod.split)
  have ctx: "cnContext (fst (countSubnegotiationByte c)) = None" "plain_error (snd (countSubnegotiationByte c))"
    using c by (simp_all add: countSubnegotiationByte_def plain_error_def Let_def)
  have sub: "plain_error (snd (handleSubnegotiation d opt payload))" if "cnContext d = None" for d opt payload
    using that by (simp add: handleSubnegotiation_def sendControl_plain) (simp add: plain_error_def)
  have plain: "plain_error None" "plain_error (Some ErrMalformedNegotiation)" by (simp_all add: plain_error_def)
  show ?thesis
  proof (cases "inState (cnInbound c)")
    case inboundNegotiationOption
    then show ?thesis using c by (simp add: decodeInboundByte_def snd2 negotiation_plain)
  next
    case inboundSubnegotiationPayload
    show ?thesis unfolding decodeInboundByte_def inboundSubnegotiationPayload inboundState.case snd2
      by (rule and_then_plain) (use ctx plain in simp_all)
  next
    case inboundSubnegotiationIAC
    show ?thesis unfolding decodeInboundByte_def inboundSubnegotiationIAC inboundState.case snd2
      by (rule and_then_plain) (use ctx plain sub in simp_all)
  qed (simp_all add: decodeInboundByte_def decodeCommand_def appendApplicationByte_def plain_error_def Let_def)
qed

text \<open>A read that ends without an error and leaves none pending: its data is what the decoder gives.\<close>

lemma read_loop_decodes:
  assumes "read_loop n c rd written = Some ((c', data, None), rd')"
    and "cnPendingReadErr c' = None" and "cnContext c' = None"
  shows "\<exists>bs out. unread rd = bs @ unread rd' \<and> drive decodeInboundByte c bs = (c', out, None, []) \<and> data = written @ out"
  using assms
proof (induction n c rd written rule: read_loop.induct)
  case (1 n c rd written)
  have stop: ?case if "c' = c" "data = written" "unread rd' = unread rd"
    using that by (intro exI [of _ "[]"]) simp
  show ?case
  proof (cases "n \<le> length written")
    case True
    then show ?thesis using "1.prems" by (intro stop) (simp_all add: read_loop.simps)
  next
    case False
    then obtain c1 rd1 r where r: "readByte c rd = Some (c1, rd1, r)"
      using "1.prems"(1) by (simp add: read_loop.simps) (auto split: option.splits)
    show ?thesis
    proof (cases r)
      case (Inl err)
      then have res: "readResult c1 written err = (c', data, None)" "rd' = rd1"
        using "1.prems"(1) False r by (simp_all add: read_loop.simps)
      have "c1 = c'" "data = written"
        using res(1) "1.prems"(2) by (auto simp: readResult_def Let_def split: if_splits)
      then show ?thesis using readByte_unread(2) [OF r [unfolded Inl]] "1.prems"(3) res(2) by (intro stop) auto
    next
      case (Inr v)
      note rb = readByte_unread(1) [OF r [unfolded Inr]]
      obtain c2 out err where d: "decodeInboundByte c v = (c2, out, err)" by (metis prod_cases3)
      have ctx: "cnContext c2 = cnContext c" using decode_keeps [OF kept_fields(1), of c v] d by simp
      show ?thesis
      proof (cases err)
        case (Some e)
        let ?c = "if breaksFraming e then closeRaw c2 else c2"
        have res: "readResult ?c (written @ out) e = (c', data, None)"
          using "1.prems"(1) False r Inr rb d Some by (simp add: read_loop.simps)
        note timeout = readResult_None [OF res "1.prems"(2)]
        then have "cnContext ?c = None" using "1.prems"(3) by simp
        moreover from this have "cnContext c = None" using ctx by (simp add: closeRaw_def split: if_splits)
        then have "plain_error (Some e)" using decode_plain [of c v] d Some by simp
        ultimately have False using timeout by (auto simp: configuredReadTimeout_def plain_error_def)
        then show ?thesis ..
      next
        case None
        show ?thesis
        proof (cases "written @ out \<noteq> [] \<and> rdBuffered rd1 = []")
          case True
          then have "c' = c2" "data = written @ out" "rd' = rd1"
            using "1.prems"(1) False r Inr rb d None by (auto simp: read_loop.simps)
          then show ?thesis using rb d None by (intro exI [of _ "[v]"] exI [of _ out]) simp
        next
          case go: False
          then have rest: "read_loop n c2 rd1 (written @ out) = Some ((c', data, None), rd')"
            using "1.prems"(1) False r Inr rb d None by (auto simp: read_loop.simps [of n c rd])
          have d': "(c2, out, err) = decodeInboundByte c1 v" using d rb by simp
          obtain bs out' where ih: "unread rd1 = bs @ unread rd'" "drive decodeInboundByte c2 bs = (c', out', None, [])"
            "data = (written @ out) @ out'"
            using "1.IH" [OF False r refl refl Inr d' refl None go rest "1.prems"(2,3)] by blast
          then show ?thesis using rb d None by (intro exI [of _ "v # bs"] exI [of _ "out @ out'"]) simp
        qed
      qed
    qed
  qed
qed

text \<open>Successive reads, each into a buffer of its own size, that go on while there is no error.\<close>

fun reads :: "nat list \<Rightarrow> Conn \<Rightarrow> bufReader \<Rightarrow> (Conn \<times> bufReader \<times> byte list) option" where
  "reads [] c rd = Some (c, rd, [])"
| "reads (n # ns) c rd =
     (case Read n c rd of
        Some ((c, data, None), rd) \<Rightarrow>
          (if cnPendingReadErr c = None \<and> cnContext c = None
           then (case reads ns c rd of Some (c', rd', more_data) \<Rightarrow> Some (c', rd', data @ more_data) | None \<Rightarrow> None)
           else None)
      | _ \<Rightarrow> None)"

lemma Read_decodes:
  assumes "Read n c rd = Some ((c', data, None), rd')" and "cnPendingReadErr c' = None" and "cnContext c' = None"
  shows "\<exists>bs. unread rd = bs @ unread rd' \<and> drive decodeInboundByte c bs = (c', data, None, [])"
proof (cases "n = 0")
  case True
  then show ?thesis using assms(1) by (intro exI [of _ "[]"]) (simp add: Read_def)
next
  case False
  then have "read_loop n c rd [] = Some ((c', data, None), rd')"
    using assms(1) by (auto simp: Read_def split: option.splits)
  from read_loop_decodes [OF this assms(2,3)] show ?thesis by simp
qed

lemma reads_decode:
  "reads ns c rd = Some (c', rd', data) \<Longrightarrow>
     \<exists>bs. unread rd = bs @ unread rd' \<and> drive decodeInboundByte c bs = (c', data, None, [])"
proof (induction ns arbitrary: c rd data)
  case (Cons n ns)
  from Cons.prems obtain c1 d1 rd1 d2 where r: "Read n c rd = Some ((c1, d1, None), rd1)"
    "cnPendingReadErr c1 = None" "cnContext c1 = None" and rest: "reads ns c1 rd1 = Some (c', rd', d2)" "data = d1 @ d2"
    by (auto split: option.splits prod.splits if_splits)
  obtain b1 where b1: "unread rd = b1 @ unread rd1" "drive decodeInboundByte c b1 = (c1, d1, None, [])"
    using Read_decodes [OF r] by blast
  obtain b2 where b2: "unread rd1 = b2 @ unread rd'" "drive decodeInboundByte c1 b2 = (c', d2, None, [])"
    using Cons.IH [OF rest(1)] by blast
  show ?case using b1(1) b2(1) rest(2) drive_pieces [OF b1(2) b2(2)] by (intro exI [of _ "b1 @ b2"]) simp
qed simp

text \<open>
  C12. Reads give the same data however the peer's bytes arrive: for any chunks of the network, any
  sizes of the caller's buffers and any expired deadlines between two bytes, the data of successive
  reads is what the decoder gives on the bytes that were read, in one go, and no byte of a command is
  lost or given out as data.
\<close>

theorem Read_chunk_invariant:
  assumes "reads sizes c rd = Some (c', rd', data)"
  shows "drive decodeInboundByte c (take (length (unread rd) - length (unread rd')) (unread rd)) = (c', data, None, [])"
  using reads_decode [OF assms] by auto

definition split_arrival :: bufReader where
  "split_arrival = \<lparr>rdBuffered = [], rdRaw = [Chunk 104 [255], ReadFails ErrReadTimeout, Chunk 251 [], Chunk 1 [105]]\<rparr>"

definition plain_socket :: socket where
  "plain_socket = \<lparr>skSent = [], skRoom = None, skClosed = False\<rparr>"

text \<open>A deadline that expires inside IAC WILL ECHO: the two reads give the two letters and nothing else.\<close>

lemma split_arrival_read:
  "map_option (\<lambda>(c, rd, data). (cnInbound c, skSent (cnSocket c), rd, data))
     (reads [1, 8, 8] ((new_conn plain_socket [] 80 24 16)\<lparr>cnReadTimeout := True\<rparr>) split_arrival) =
   Some (new_decoder\<lparr>inCommand := 251\<rparr>, [255, 253, 1], \<lparr>rdBuffered = [], rdRaw = []\<rparr>, [104, 105])"
  by code_simp

theorem Read_chunk_invariant_witness:
  "\<exists>c'. drive decodeInboundByte ((new_conn plain_socket [] 80 24 16)\<lparr>cnReadTimeout := True\<rparr>) [104, 255, 251, 1, 105] = (c', [104, 105], None, [])"
proof -
  obtain c' where c': "reads [1, 8, 8] ((new_conn plain_socket [] 80 24 16)\<lparr>cnReadTimeout := True\<rparr>) split_arrival =
      Some (c', \<lparr>rdBuffered = [], rdRaw = []\<rparr>, [104, 105])"
    using split_arrival_read by auto
  show ?thesis using Read_chunk_invariant [OF c'] by (auto simp: unread_def split_arrival_def)
qed

section \<open>What is written arrives\<close>

text \<open>The encoder one byte at a time; the state is the pending carriage return.\<close>

definition encode_byte :: "bool \<Rightarrow> byte \<Rightarrow> bool \<times> byte list" where
  "encode_byte pending v =
     (if pending \<and> (v = byteLF \<or> v = 0) then (False, [byteCR, v])
      else let lead = (if pending then [byteCR, byteLF] else []) in
        if v = byteCR then (True, lead) else if v = byteLF then (False, lead @ [byteCR, byteLF]) else (False, lead @ [v]))"

lemma encode_loop_run:
  "encode_loop source = (snd (run encode_byte False source), fst (run encode_byte False source))"
proof (induction source rule: encode_loop.induct)
  case (2 v source)
  show ?case
  proof (cases "v = byteCR")
    case True
    then show ?thesis using 2 by (cases source) (auto simp: encode_byte_def prefix_out_def Let_def split: prod.splits)
  next
    case False
    then show ?thesis using 2 by (auto simp: encode_byte_def prefix_out_def Let_def split: prod.splits)
  qed
qed simp

lemma encodeApplication_run:
  "encodeApplication source False pending = (snd (run encode_byte pending source), fst (run encode_byte pending source))"
  by (cases source) (auto simp: encodeApplication_def encode_loop_run encode_byte_def prefix_out_def Let_def split: prod.splits)

lemma double_iac_simps [simp]:
  "double_iac [] = []" "double_iac (v # bytes) = (if v = commandIAC then [v, commandIAC] else [v]) @ double_iac bytes"
  "double_iac (as @ bs) = double_iac as @ double_iac bs"
  by (simp_all add: double_iac_def)

lemma append_byte_state: "inState (cnInbound (fst (appendApplicationByte d v))) = inState (cnInbound d)"
  by (simp add: appendApplicationByte_def)

lemma same_state: "inState (cnInbound d) = st \<Longrightarrow> d\<lparr>cnInbound := (cnInbound d)\<lparr>inState := st\<rparr>\<rparr> = d"
  by auto

text \<open>Doubled bytes that start in the data state come out as data, by the rule for carriage returns.\<close>

lemma decode_data:
  "inState (cnInbound d) = inboundData \<Longrightarrow>
     drive decodeInboundByte d (double_iac bytes) = (case run appendApplicationByte d bytes of (d', out) \<Rightarrow> (d', out, None, []))"
proof (induction bytes arbitrary: d)
  case (Cons v bytes)
  obtain d1 out where d1: "appendApplicationByte d v = (d1, out)" by fastforce
  have st: "inState (cnInbound d1) = inboundData" using append_byte_state [of d v] d1 Cons.prems by simp
  have "drive decodeInboundByte d (if v = commandIAC then [v, commandIAC] else [v]) = (d1, out, None, [])"
  proof (cases "v = commandIAC")
    case True
    have "decodeInboundByte d 255 = (in_state d inboundCommand, [], None)" using Cons.prems by (simp add: decodeInboundByte_def)
    moreover have "decodeInboundByte (in_state d inboundCommand) 255 = (d1, out, None)"
      using d1 True Cons.prems by (simp add: decodeInboundByte_def decodeCommand_def same_state)
    ultimately show ?thesis using True by simp
  next
    case False
    then show ?thesis using Cons.prems d1 by (simp add: decodeInboundByte_def)
  qed
  from drive_append [of decodeInboundByte d "if v = commandIAC then [v, commandIAC] else [v]" "double_iac bytes", unfolded this]
  show ?case using Cons.IH [OF st] d1 by (simp split: prod.splits)
qed simp

definition write_byte :: "bool \<Rightarrow> byte \<Rightarrow> bool \<times> byte list" where
  "write_byte pending v = (case encode_byte pending v of (pending', out) \<Rightarrow> (pending', double_iac out))"

definition arrives_as :: "bool \<Rightarrow> byte \<Rightarrow> byte list" where
  "arrives_as pending v =
     (if pending then
        (if v = byteLF \<or> v = byteCR then [byteCR, byteLF] else if v = 0 then [byteCR] else [byteCR, byteLF, v])
      else if v = byteCR then [] else if v = byteLF then [byteCR, byteLF] else [v])"

definition in_text :: "Conn \<Rightarrow> bool" where
  "in_text d \<longleftrightarrow> inState (cnInbound d) = inboundData \<and> \<not> cnRemoteEnabled d optionBinary \<and> \<not> cnAfterNVTCR d"

lemma text_step:
  assumes "in_text d" and "encode_byte pending v = (pending', out)"
  shows "run appendApplicationByte d out = (d, arrives_as pending v)"
proof -
  have same: "d\<lparr>cnAfterNVTCR := False\<rparr> = d" using assms(1) by (simp add: in_text_def)
  show ?thesis
    using assms(2) assms(1)
    by (auto simp: encode_byte_def arrives_as_def in_text_def appendApplicationByte_def Let_def same split: if_splits)
qed

interpretation telnet_text: stream_codec write_byte decodeInboundByte arrives_as "\<lambda>_. in_text"
proof (unfold_locales, goal_cases)
  case (1 e d a e' ws)
  obtain out where out: "encode_byte e a = (e', out)" "ws = double_iac out"
    using 1(2) by (auto simp: write_byte_def split: prod.splits)
  have st: "inState (cnInbound d) = inboundData" using 1(1) by (simp add: in_text_def)
  show ?case
    using decode_data [OF st, of out] text_step [OF 1(1) out(1)] out(2) 1(1) by simp
qed

text \<open>The line ends of the network virtual terminal: what the other side reads of a text.\<close>

fun nvt_lines :: "byte list \<Rightarrow> byte list" where
  "nvt_lines [] = []"
| "nvt_lines (v # source) =
     (if v = byteCR then
        (case source of
           [] \<Rightarrow> [byteCR, byteLF]
         | w # rest \<Rightarrow>
             (if w = byteLF then [byteCR, byteLF] @ nvt_lines rest
              else if w = 0 then byteCR # nvt_lines rest
              else [byteCR, byteLF] @ nvt_lines source))
      else if v = byteLF then [byteCR, byteLF] @ nvt_lines source
      else v # nvt_lines source)"

lemma run_write_byte:
  "run write_byte pending source = (fst (run encode_byte pending source), double_iac (snd (run encode_byte pending source)))"
  by (induction source arbitrary: pending) (simp_all add: write_byte_def split: prod.splits)

definition flush_out :: "bool \<Rightarrow> byte list" where "flush_out pending = (if pending then [byteCR, byteLF] else [])"

lemma fst_run_Cons: "fst (run step s (a # as)) = fst (run step (fst (step s a)) as)"
  by (simp split: prod.split)

lemma fst_write_byte: "fst (write_byte pending v) = fst (encode_byte pending v)"
  by (simp add: write_byte_def split: prod.split)

lemma next_pending:
  "fst (encode_byte pending v) = (v = byteCR)"
  by (auto simp: encode_byte_def Let_def)

lemma arrives:
  "arrives_as True v = (if v = byteLF \<or> v = byteCR then [byteCR, byteLF] else if v = 0 then [byteCR] else [byteCR, byteLF, v])"
  "arrives_as False v = (if v = byteCR then [] else if v = byteLF then [byteCR, byteLF] else [v])"
  by (simp_all add: arrives_as_def)

lemma canonical_lines:
  "telnet_text.canonical False source @ flush_out (fst (run encode_byte False source)) = nvt_lines source"
  "telnet_text.canonical True source @ flush_out (fst (run encode_byte True source)) = nvt_lines (byteCR # source)"
proof (induction source)
  case (Cons v source)
  note step = fst_run_Cons fst_write_byte next_pending telnet_text.canonical.simps
  consider "v = byteCR" | "v = byteLF" | "v = 0" | "v \<noteq> byteCR" "v \<noteq> byteLF" "v \<noteq> 0" by blast
  note cases = this
  { case 1
    from cases show ?case by cases (use Cons in \<open>simp_all add: step arrives del: run.simps\<close>)
  next
    case 2
    from cases show ?case by cases (use Cons in \<open>simp_all add: step arrives del: run.simps\<close>) }
qed (simp_all add: flush_out_def)

lemma write_raw_sent:
  assumes "write_raw c p = (c', None)"
  shows "skSent (cnSocket c') = skSent (cnSocket c) @ p" and "c' = c\<lparr>cnSocket := cnSocket c'\<rparr>"
proof -
  obtain s where s: "WriteAll socket_write (cnSocket c) p = (None, s)" "c' = c\<lparr>cnSocket := s\<rparr>"
    using assms by (auto simp: write_raw_def split: prod.splits)
  show "skSent (cnSocket c') = skSent (cnSocket c) @ p" using socket.WriteAll_complete [OF s(1)] s(2) by simp
  show "c' = c\<lparr>cnSocket := cnSocket c'\<rparr>" using s(2) by simp
qed

lemma write_loop_step:
  assumes "write_loop c source n = (c', m, None)" and "source \<noteq> []"
  defines "count \<equiv> min (length source) writeChunkBytes"
  defines "e \<equiv> encodeApplication (take count source) (cnLocalEnabled c optionBinary) (cnOutboundNVTCR c)"
  obtains c1 where "write_loop c1 (drop count source) (n + count) = (c', m, None)"
    and "cnOutboundNVTCR c1 = snd e" and "cnLocalEnabled c1 = cnLocalEnabled c"
    and "skSent (cnSocket c1) = skSent (cnSocket c) @ double_iac (fst e)"
proof -
  obtain app pending where ap: "e = (app, pending)" by fastforce
  obtain c1 err where c1: "writeApplicationLocked (c\<lparr>cnOutboundNVTCR := pending\<rparr>) app = (c1, err)" by fastforce
  have loop: "write_loop c source n = (case err of Some x \<Rightarrow> (c1, n, Some x) | None \<Rightarrow> write_loop c1 (drop count source) (n + count))"
    using assms(2) ap c1 unfolding write_loop.simps [of c source n] count_def e_def by (simp add: Let_def split: option.split)
  then have "err = None" using assms(1) by (cases err) auto
  then have rest: "write_loop c1 (drop count source) (n + count) = (c', m, None)" using loop assms(1) by simp
  have w: "write_raw (c\<lparr>cnOutboundNVTCR := pending\<rparr>) (double_iac app) = (c1, None)"
    using c1 \<open>err = None\<close> by (simp add: writeApplicationLocked_def)
  show thesis
  proof (rule that [OF rest])
    show "cnOutboundNVTCR c1 = snd e" using arg_cong [OF write_raw_sent(2) [OF w], of cnOutboundNVTCR] ap by simp
    show "cnLocalEnabled c1 = cnLocalEnabled c" using arg_cong [OF write_raw_sent(2) [OF w], of cnLocalEnabled] by simp
    show "skSent (cnSocket c1) = skSent (cnSocket c) @ double_iac (fst e)" using write_raw_sent(1) [OF w] ap by simp
  qed
qed

lemma write_loop_text:
  assumes "write_loop c source n = (c', m, None)" and "\<not> cnLocalEnabled c optionBinary"
  shows "skSent (cnSocket c') = skSent (cnSocket c) @ double_iac (snd (run encode_byte (cnOutboundNVTCR c) source)) \<and>
    cnOutboundNVTCR c' = fst (run encode_byte (cnOutboundNVTCR c) source) \<and> m = n + length source"
  using assms
proof (induction source arbitrary: c n rule: length_induct)
  case (1 source)
  show ?case
  proof (cases "source = []")
    case True
    then show ?thesis using "1.prems" by (simp add: write_loop.simps)
  next
    case False
    let ?count = "min (length source) writeChunkBytes"
    let ?r = "run encode_byte (cnOutboundNVTCR c) (take ?count source)"
    have e: "encodeApplication (take ?count source) (cnLocalEnabled c optionBinary) (cnOutboundNVTCR c) = (snd ?r, fst ?r)"
      using "1.prems"(2) by (simp add: encodeApplication_run)
    obtain c1 where c1: "write_loop c1 (drop ?count source) (n + ?count) = (c', m, None)"
      "cnOutboundNVTCR c1 = fst ?r" "cnLocalEnabled c1 = cnLocalEnabled c" "skSent (cnSocket c1) = skSent (cnSocket c) @ double_iac (snd ?r)"
      using write_loop_step [OF "1.prems"(1) False] unfolding e by auto
    have fields: "\<not> cnLocalEnabled c1 optionBinary" using c1(3) "1.prems"(2) by simp
    have "length (drop ?count source) < length source" using False by (simp add: writeChunkBytes_def)
    from "1.IH" [rule_format, OF this c1(1) fields]
    have ih: "skSent (cnSocket c') = skSent (cnSocket c1) @ double_iac (snd (run encode_byte (fst ?r) (drop ?count source)))"
      "cnOutboundNVTCR c' = fst (run encode_byte (fst ?r) (drop ?count source))" "m = n + ?count + length (drop ?count source)"
      using c1(2) by simp_all
    have "run encode_byte (cnOutboundNVTCR c) source =
        (fst (run encode_byte (fst ?r) (drop ?count source)), snd ?r @ snd (run encode_byte (fst ?r) (drop ?count source)))"
      using run_append [of encode_byte "cnOutboundNVTCR c" "take ?count source" "drop ?count source"]
      by (simp add: case_prod_unfold)
    then show ?thesis using ih c1(4) by simp
  qed
qed

lemma write_loop_binary:
  assumes "write_loop c source n = (c', m, None)" and "cnLocalEnabled c optionBinary" and "\<not> cnOutboundNVTCR c"
  shows "skSent (cnSocket c') = skSent (cnSocket c) @ double_iac source \<and> \<not> cnOutboundNVTCR c' \<and> m = n + length source"
  using assms
proof (induction source arbitrary: c n rule: length_induct)
  case (1 source)
  show ?case
  proof (cases "source = []")
    case True
    then show ?thesis using "1.prems" by (simp add: write_loop.simps)
  next
    case False
    let ?count = "min (length source) writeChunkBytes"
    have e: "encodeApplication (take ?count source) (cnLocalEnabled c optionBinary) (cnOutboundNVTCR c) = (take ?count source, False)"
      using "1.prems"(2,3) by (simp add: encodeApplication_def)
    obtain c1 where c1: "write_loop c1 (drop ?count source) (n + ?count) = (c', m, None)"
      "cnOutboundNVTCR c1 = False" "cnLocalEnabled c1 = cnLocalEnabled c" "skSent (cnSocket c1) = skSent (cnSocket c) @ double_iac (take ?count source)"
      using write_loop_step [OF "1.prems"(1) False] unfolding e by auto
    have "length (drop ?count source) < length source" using False by (simp add: writeChunkBytes_def)
    from "1.IH" [rule_format, OF this c1(1)] c1(2,3) "1.prems"(2)
    have "skSent (cnSocket c') = skSent (cnSocket c1) @ double_iac (drop ?count source) \<and> \<not> cnOutboundNVTCR c' \<and>
        m = n + ?count + length (drop ?count source)" by simp
    then show ?thesis using c1(4) double_iac_simps(3) [of "take ?count source" "drop ?count source"]
      by (simp del: double_iac_simps)
  qed
qed

lemma binary_run: "cnRemoteEnabled d optionBinary \<Longrightarrow> \<not> cnAfterNVTCR d \<Longrightarrow> run appendApplicationByte d bytes = (d, bytes)"
proof (induction bytes)
  case (Cons v bytes)
  then have "appendApplicationByte d v = (d, [v])" by (simp add: appendApplicationByte_def)
  then show ?case using Cons by simp
qed simp

text \<open>
  C13. What is written arrives: a write that succeeds and is flushed sends, through any number of
  chunks, bytes from which the decoder on the other side gives out the text with its line ends in the
  form of the network virtual terminal, or exactly the text once both sides agreed to binary, with
  every byte value allowed.
\<close>

theorem Write_arrives:
  assumes "Write c source = (c1, n, None)" and "Flush c1 = (c2, None)" and "\<not> cnOutboundNVTCR c"
    and "inState (cnInbound d) = inboundData" and "\<not> cnAfterNVTCR d"
    and "cnRemoteEnabled d optionBinary = cnLocalEnabled c optionBinary"
  shows "n = length source \<and>
    (\<exists>d'. drive decodeInboundByte d (drop (length (skSent (cnSocket c))) (skSent (cnSocket c2))) =
       (d', if cnLocalEnabled c optionBinary then source else nvt_lines source, None, []))"
proof -
  have w: "write_loop c source 0 = (c1, n, None)"
    using assms(1) by (simp add: Write_def split: option.splits)
  have flushed: "skSent (cnSocket c2) = skSent (cnSocket c1) @ flush_out (cnOutboundNVTCR c1)"
  proof (cases "cnOutboundNVTCR c1")
    case True
    then obtain c' where c': "write_raw c1 [byteCR, byteLF] = (c', None)" "c2 = c'\<lparr>cnOutboundNVTCR := False\<rparr>"
      using assms(2) by (auto simp: Flush_def flushPendingLocked_def writeApplicationLocked_def and_then_def split: prod.splits option.splits)
    then show ?thesis using write_raw_sent(1) [OF c'(1)] True by (simp add: flush_out_def)
  qed (use assms(2) in \<open>simp add: Flush_def flushPendingLocked_def flush_out_def\<close>)
  show ?thesis
  proof (cases "cnLocalEnabled c optionBinary")
    case True
    note sent = write_loop_binary [OF w True assms(3)]
    have "drive decodeInboundByte d (double_iac source) = (d, source, None, [])"
      using decode_data [OF assms(4), of source] binary_run [of d source] assms(5,6) True by simp
    then show ?thesis using sent flushed True by (simp add: flush_out_def)
  next
    case False
    note sent = write_loop_text [OF w False]
    let ?r = "run encode_byte False source"
    have d: "in_text d" using assms(4-6) False by (simp add: in_text_def)
    have "run write_byte False source = (fst ?r, double_iac (snd ?r))" by (rule run_write_byte)
    from telnet_text.stream_back [OF d this] obtain d1 where
      d1: "drive decodeInboundByte d (double_iac (snd ?r)) = (d1, telnet_text.canonical False source, None, [])" "in_text d1" by blast
    have "drive decodeInboundByte d1 (double_iac (flush_out (fst ?r))) = (d1, flush_out (fst ?r), None, [])"
      using decode_data [of d1 "flush_out (fst ?r)"] text_step [OF d1(2), of True byteLF False "[byteCR, byteLF]"] d1(2)
      by (simp add: flush_out_def in_text_def encode_byte_def arrives)
    from drive_pieces [OF d1(1) this] canonical_lines(1)
    have "drive decodeInboundByte d (double_iac (snd ?r) @ double_iac (flush_out (fst ?r))) = (d1, nvt_lines source, None, [])" by simp
    moreover have "double_iac (flush_out b) = flush_out b" for b by (simp add: flush_out_def)
    ultimately show ?thesis using sent flushed False assms(3) by simp
  qed
qed

definition sample_conn :: Conn where "sample_conn = new_conn plain_socket [] 80 24 16"

lemma sample_conn_fields:
  "\<not> cnOutboundNVTCR sample_conn" "inState (cnInbound sample_conn) = inboundData" "\<not> cnAfterNVTCR sample_conn"
  "\<not> cnRemoteEnabled sample_conn optionBinary" "\<not> cnLocalEnabled sample_conn optionBinary" "skSent (cnSocket sample_conn) = []"
  by (simp_all add: sample_conn_def new_conn_def new_decoder_def plain_socket_def)

lemma write_short:
  assumes "source \<noteq> []" and "length source \<le> writeChunkBytes" and "cnContext c = None"
  shows "Write c source =
    (case encodeApplication source (cnLocalEnabled c optionBinary) (cnOutboundNVTCR c) of (application, pendingCR) \<Rightarrow>
       (case writeApplicationLocked (c\<lparr>cnOutboundNVTCR := pendingCR\<rparr>) application of
          (c, Some e) \<Rightarrow> (c, 0, Some e) | (c, None) \<Rightarrow> (c, length source, None)))"
  using assms by (simp add: Write_def write_loop.simps [of c source] write_loop.simps [of _ "[]"] min_def
    split: prod.split option.split)

lemma sample_write:
  "Write sample_conn [108, 10, 255, 13] = (fst (Write sample_conn [108, 10, 255, 13]), 4, None)"
  "Flush (fst (Write sample_conn [108, 10, 255, 13])) = (fst (Flush (fst (Write sample_conn [108, 10, 255, 13]))), None)"
proof -
  have short: "length [108, 10, 255, 13 :: byte] \<le> writeChunkBytes" by (simp add: writeChunkBytes_def)
  have ctx: "cnContext sample_conn = None" by (simp add: sample_conn_def new_conn_def)
  note w = write_short [OF _ short ctx]
  have "snd (Write sample_conn [108, 10, 255, 13]) = (4, None)" by (subst w, simp) code_simp
  then show "Write sample_conn [108, 10, 255, 13] = (fst (Write sample_conn [108, 10, 255, 13]), 4, None)"
    by (cases "Write sample_conn [108, 10, 255, 13]") simp
  have "snd (Flush (fst (Write sample_conn [108, 10, 255, 13]))) = None" by (subst w, simp) code_simp
  then show "Flush (fst (Write sample_conn [108, 10, 255, 13])) = (fst (Flush (fst (Write sample_conn [108, 10, 255, 13]))), None)"
    by (cases "Flush (fst (Write sample_conn [108, 10, 255, 13]))") simp
qed

theorem Write_arrives_witness:
  "\<exists>d'. drive decodeInboundByte sample_conn (skSent (cnSocket (fst (Flush (fst (Write sample_conn [108, 10, 255, 13])))))) =
     (d', [108, 13, 10, 255, 13, 10], None, [])"
proof -
  let ?w = "Write sample_conn [108, 10, 255, 13]"
  have lines: "nvt_lines [108, 10, 255, 13] = [108, 13, 10, 255, 13, 10]" by code_simp
  have "\<exists>d'. drive decodeInboundByte sample_conn (drop (length (skSent (cnSocket sample_conn))) (skSent (cnSocket (fst (Flush (fst ?w)))))) =
      (d', if cnLocalEnabled sample_conn optionBinary then [108, 10, 255, 13] else nvt_lines [108, 10, 255, 13], None, [])"
    by (rule conjunct2 [OF Write_arrives [OF sample_write]]) (use sample_conn_fields in simp_all)
  then show ?thesis using sample_conn_fields lines by (simp only: if_False list.size drop0)
qed

section \<open>The window size\<close>

lemma window_back:
  "word_cat (ucast (drop_bit 8 w) :: byte) (ucast w :: byte) = (w :: 16 word)"
  by (rule bit_word_eqI) (auto simp: bit_word_cat_iff bit_ucast_iff bit_drop_bit_eq not_less)

definition with_payload :: "Conn \<Rightarrow> byte list \<Rightarrow> int \<Rightarrow> Conn" where
  "with_payload d payload wire = d\<lparr>cnInbound := (cnInbound d)\<lparr>inState := inboundSubnegotiationPayload, inPayload := payload, inWireBytes := wire\<rparr>\<rparr>"

lemma payload_byte:
  assumes "wire + int (length (double_iac [v])) \<le> cnMaxSubnegotiation d"
  shows "drive decodeInboundByte (with_payload d payload wire) (double_iac [v]) =
    (with_payload d (payload @ [v]) (wire + int (length (double_iac [v]))), [], None, [])"
  using assms
  by (auto simp: with_payload_def decodeInboundByte_def countSubnegotiationByte_def append_payload_def and_then_def Let_def split: if_splits)

lemma payload_bytes:
  assumes "wire + int (length (double_iac bytes)) \<le> cnMaxSubnegotiation d"
  shows "drive decodeInboundByte (with_payload d payload wire) (double_iac bytes) =
    (with_payload d (payload @ bytes) (wire + int (length (double_iac bytes))), [], None, [])"
  using assms
proof (induction bytes arbitrary: payload wire)
  case (Cons v bytes)
  have split: "double_iac (v # bytes) = double_iac [v] @ double_iac bytes" by simp
  have first: "drive decodeInboundByte (with_payload d payload wire) (double_iac [v]) =
      (with_payload d (payload @ [v]) (wire + int (length (double_iac [v]))), [], None, [])"
    by (rule payload_byte) (use Cons.prems in \<open>simp split: if_splits\<close>)
  have rest: "drive decodeInboundByte (with_payload d (payload @ [v]) (wire + int (length (double_iac [v])))) (double_iac bytes) =
      (with_payload d ((payload @ [v]) @ bytes) (wire + int (length (double_iac [v])) + int (length (double_iac bytes))), [], None, [])"
    by (rule Cons.IH) (use Cons.prems in \<open>simp split: if_splits\<close>)
  show ?case using drive_pieces [OF first rest] unfolding split by (simp add: add.assoc)
qed simp

text \<open>
  The window size arrives: the subnegotiation that reports a size is read back by a decoder as
  four payload bytes that are the width and the height again, also when one of them is 255, and the
  decoder is back in the data state without an error.
\<close>

theorem window_size_arrives:
  assumes "sendWindowSize c width height = (c', None)" and "\<not> cnOutboundNVTCR c"
    and "inState (cnInbound d) = inboundData" and "10 \<le> cnMaxSubnegotiation d"
  shows "\<exists>d'. drive decodeInboundByte d (drop (length (skSent (cnSocket c))) (skSent (cnSocket c'))) = (d', [], None, []) \<and>
    inState (cnInbound d') = inboundData \<and> inOption (cnInbound d') = optionNAWS \<and>
    (\<exists>a b x y. inPayload (cnInbound d') = [a, b, x, y] \<and> word_cat a b = width \<and> word_cat x y = height)"
proof -
  let ?head = "[commandIAC, commandSB, optionNAWS]" and ?body = "double_iac (window_payload width height)"
  let ?w = "?head @ ?body @ [commandIAC, commandSE]"
  have "sendControl c ?w = (c', None)" using assms(1) by (simp add: sendWindowSize_def)
  then have "write_raw c ?w = (c', None)"
    using assms(2) by (simp add: sendControl_def flushPendingLocked_def and_then_def split: option.splits)
  then have sent: "skSent (cnSocket c') = skSent (cnSocket c) @ ?w" by (rule write_raw_sent(1))
  let ?d = "d\<lparr>cnInbound := (cnInbound d)\<lparr>inOption := optionNAWS\<rparr>\<rparr>"
  have head: "drive decodeInboundByte d ?head = (with_payload ?d [] 0, [], None, [])"
    using assms(3) by (simp add: decodeInboundByte_def decodeCommand_def with_payload_def Let_def)
  have size: "length ?body \<le> 8" by (simp add: window_payload_def)
  have body: "drive decodeInboundByte (with_payload ?d [] 0) ?body =
      (with_payload ?d (window_payload width height) (int (length ?body)), [], None, [])"
    using payload_bytes [of 0 "window_payload width height" ?d "[]"] size assms(4) by simp
  let ?e = "with_payload ?d (window_payload width height) (int (length ?body))"
  obtain d' where tail: "drive decodeInboundByte ?e [commandIAC, commandSE] = (d', [], None, [])"
    "inState (cnInbound d') = inboundData" "inOption (cnInbound d') = optionNAWS" "inPayload (cnInbound d') = window_payload width height"
    using size assms(4) by (simp add: with_payload_def decodeInboundByte_def countSubnegotiationByte_def and_then_def handleSubnegotiation_def Let_def)
  have "drive decodeInboundByte d ?w = (d', [], None, [])"
    using drive_pieces [OF head drive_pieces [OF body tail(1)]] by simp
  then show ?thesis using sent tail(2-4) window_back by (auto simp: window_payload_def)
qed

theorem window_size_arrives_witness:
  "\<exists>d' a b x y. drive decodeInboundByte sample_conn (skSent (cnSocket (fst (sendWindowSize sample_conn 255 24)))) = (d', [], None, []) \<and>
     inPayload (cnInbound d') = [a, b, x, y] \<and> word_cat a b = (255 :: 16 word) \<and> word_cat x y = (24 :: 16 word)"
proof -
  have "snd (sendWindowSize sample_conn 255 24) = None" by code_simp
  then have s: "sendWindowSize sample_conn 255 24 = (fst (sendWindowSize sample_conn 255 24), None)"
    by (cases "sendWindowSize sample_conn 255 24") simp
  have "10 \<le> cnMaxSubnegotiation sample_conn" by (simp add: sample_conn_def new_conn_def)
  from window_size_arrives [OF s sample_conn_fields(1,2) this] show ?thesis
    using sample_conn_fields(6) by auto
qed

end
