(* ===== verification/TelnetDial.thy ===== *)
theory TelnetDial
  imports TelnetStream Validate
begin

text \<open>
  Opening a Telnet connection (internal/telnet/telnet.go: \<open>validate\<close>, \<open>normalizeAddress\<close>, \<open>Dial\<close>) and
  throwing away what arrived before a script sends (\<open>DiscardPending\<close>). The dialer is a parameter.
\<close>

section \<open>\<open>net.SplitHostPort\<close> and \<open>net.JoinHostPort\<close>\<close>

definition JoinHostPort :: "gostring \<Rightarrow> gostring \<Rightarrow> gostring" where
  "JoinHostPort host port = (if CHR '':'' \<in> set host then ''['' @ host @ '']:'' @ port else host @ '':'' @ port)"

definition SplitHostPort :: "gostring \<Rightarrow> (gostring \<times> gostring) option" where
  "SplitHostPort s =
     (case cut_last (CHR '':'') s of
        None \<Rightarrow> None
      | Some (before, port) \<Rightarrow>
          (if has_prefix s ''['' then
             (case cut_at (CHR '']'') s of
                (inner, after, found) \<Rightarrow>
                  (if \<not> found \<or> before \<noteq> inner @ '']'' \<or> CHR ''['' \<in> set (drop 1 s) \<or> CHR '']'' \<in> set after then None
                   else Some (drop 1 inner, port)))
           else if CHR '':'' \<in> set before \<or> CHR ''['' \<in> set s \<or> CHR '']'' \<in> set s then None
           else Some (before, port)))"

lemma cut_at_append: "d \<notin> set a \<Longrightarrow> cut_at d (a @ d # b) = (a, b, True)"
proof -
  assume d: "d \<notin> set a"
  then have "takeWhile (\<lambda>c. c \<noteq> d) (a @ d # b) = a" by (subst takeWhile_append2) auto
  then show ?thesis by (simp add: cut_at_def)
qed

lemma Split_Join:
  assumes "CHR '':'' \<notin> set port" and "CHR ''['' \<notin> set (host @ port)" and "CHR '']'' \<notin> set (host @ port)"
  shows "SplitHostPort (JoinHostPort host port) = Some (host, port)"
proof (cases "CHR '':'' \<in> set host")
  case True
  let ?s = "CHR ''['' # host @ CHR '']'' # CHR '':'' # port"
  have last: "cut_last (CHR '':'') ?s = Some (CHR ''['' # host @ '']'', port)"
    using cut_last_append [of "CHR '':''" port "CHR ''['' # host @ '']''"] assms(1) by simp
  have first: "cut_at (CHR '']'') ?s = (CHR ''['' # host, CHR '':'' # port, True)"
    using cut_at_append [of "CHR '']''" "CHR ''['' # host" "CHR '':'' # port"] assms(3) by simp
  have "SplitHostPort ?s = Some (host, port)"
    using assms by (simp add: SplitHostPort_def last first has_prefix_def)
  then show ?thesis using True by (simp add: JoinHostPort_def)
next
  case False
  have last: "cut_last (CHR '':'') (host @ CHR '':'' # port) = Some (host, port)" using assms(1) by (rule cut_last_append)
  have "\<not> has_prefix (host @ CHR '':'' # port) ''[''"
    using assms(2) by (cases host) (auto simp: has_prefix_def)
  then show ?thesis using False assms by (simp add: JoinHostPort_def SplitHostPort_def last)
qed

section \<open>The configuration\<close>

datatype dial_error =
    ErrInvalidAddress | ErrInvalidDialTimeout | ErrInvalidTerminalType | ErrInvalidSubnegotiationLimit
  | ErrNilConnection | DialCause conn_error

definition TelnetPort :: gostring where "TelnetPort = ''23''"
definition DefaultDialTimeout :: int where "DefaultDialTimeout = 30 * 1000000000"
definition DefaultMaxSubnegotiationBytes :: int where "DefaultMaxSubnegotiationBytes = 4096"
definition HardMaxSubnegotiationBytes :: int where "HardMaxSubnegotiationBytes = 65536"
definition maxAddressBytes :: int where "maxAddressBytes = 1024"
definition maxTerminalTypeBytes :: nat where "maxTerminalTypeBytes = 64"
definition DefaultTerminalType :: gostring where "DefaultTerminalType = ''xterm-256color''"
definition DefaultCols :: "16 word" where "DefaultCols = 80"
definition DefaultRows :: "16 word" where "DefaultRows = 24"

record TelnetConfig =
  tcAddress :: gostring
  tcDialTimeout :: int
  tcTerminalType :: gostring
  tcWidth :: "16 word"
  tcHeight :: "16 word"
  tcMaxSubnegotiation :: int

text \<open>The family of an address: the first of dot, colon and percent sign is a colon.\<close>

definition validIPLiteral :: "gostring \<Rightarrow> bool" where
  "validIPLiteral host \<longleftrightarrow> ParseAddr_ok host"

definition validIPv6Literal :: "gostring \<Rightarrow> bool" where
  "validIPv6Literal host \<longleftrightarrow> ParseAddr_ok host \<and>
     has_prefix (dropWhile (\<lambda>c. c \<noteq> CHR ''.'' \<and> c \<noteq> CHR '':'' \<and> c \<noteq> CHR ''%'') host) '':''"

definition validHost :: "gostring \<Rightarrow> bool" where
  "validHost host \<longleftrightarrow>
     (if host = [] then False
      else if validIPLiteral host then True
      else if contains_any host '':%[]'' then False
      else list_all (\<lambda>c. \<not> (byte_of c \<le> 32 \<or> byte_of c = 127)) host)"

definition validPort :: "gostring \<Rightarrow> bool" where
  "validPort port \<longleftrightarrow> port \<noteq> [] \<and> list_all is_digit port \<and> 1 \<le> decimal_value port \<and> decimal_value port \<le> 65535"

definition normalizeAddress :: "gostring \<Rightarrow> gostring option" where
  "normalizeAddress address =
     (if address = [] \<or> address \<noteq> TrimSpace address \<or> int (length address) > maxAddressBytes then None
      else if list_ex (\<lambda>c. byte_of c < 32 \<or> byte_of c = 127) address then None
      else if contains_any address (''@/'' @ [BACKSLASH] @ ''?#'') then None
      else (case SplitHostPort address of
              Some (host, port) \<Rightarrow>
                (if \<not> validHost host \<or> \<not> validPort port then None
                 else if has_prefix address ''['' \<and> \<not> validIPv6Literal host then None
                 else Some (JoinHostPort host port))
            | None \<Rightarrow>
                (if length address \<ge> 2 \<and> has_prefix address ''['' \<and> has_suffix address '']'' then
                   (let host = take (length address - 2) (drop 1 address) in
                    if \<not> validIPv6Literal host then None else Some (JoinHostPort host TelnetPort))
                 else if validIPLiteral address then Some (JoinHostPort address TelnetPort)
                 else if \<not> validHost address then None
                 else Some (JoinHostPort address TelnetPort))))"

definition orDefault :: "'a \<Rightarrow> 'a \<Rightarrow> 'a \<Rightarrow> 'a" where "orDefault zero v def = (if v = zero then def else v)"

definition validate_config :: "TelnetConfig \<Rightarrow> dial_error + TelnetConfig" where
  "validate_config config =
     (case normalizeAddress (tcAddress config) of
        None \<Rightarrow> Inl ErrInvalidAddress
      | Some address \<Rightarrow>
          (let timeout = orDefault 0 (tcDialTimeout config) DefaultDialTimeout;
               terminal = orDefault [] (tcTerminalType config) DefaultTerminalType;
               limit = orDefault 0 (tcMaxSubnegotiation config) DefaultMaxSubnegotiationBytes in
           if timeout < 0 then Inl ErrInvalidDialTimeout
           else if length terminal > maxTerminalTypeBytes then Inl ErrInvalidTerminalType
           else if list_ex (\<lambda>c. byte_of c < 33 \<or> byte_of c > 126) terminal then Inl ErrInvalidTerminalType
           else if limit < 1 \<or> limit > HardMaxSubnegotiationBytes then Inl ErrInvalidSubnegotiationLimit
           else Inr \<lparr>tcAddress = address, tcDialTimeout = timeout, tcTerminalType = terminal,
             tcWidth = orDefault 0 (tcWidth config) DefaultCols, tcHeight = orDefault 0 (tcHeight config) DefaultRows,
             tcMaxSubnegotiation = limit\<rparr>))"

text \<open>
  What the dialer returns: a connection or none, an error or none, the error of the deadline of the
  attempt, and the error of the caller's context after it.
\<close>

record dial_result =
  drConn :: "socket option"
  drErr :: "conn_error option"
  drDeadline :: "conn_error option"
  drContext :: "conn_error option"

definition wire_bytes :: "gostring \<Rightarrow> byte list" where
  "wire_bytes s = map (\<lambda>c. of_char c) s"

definition Dial :: "(gostring \<Rightarrow> int \<Rightarrow> dial_result) \<Rightarrow> conn_error option \<Rightarrow> TelnetConfig \<Rightarrow> dial_error + Conn" where
  "Dial dial ctx config =
     (case validate_config config of
        Inl e \<Rightarrow> Inl e
      | Inr v \<Rightarrow>
          (case ctx of
             Some cause \<Rightarrow> Inl (DialCause cause)
           | None \<Rightarrow>
               (let r = dial (tcAddress v) (tcDialTimeout v) in
                case drErr r of
                  Some e \<Rightarrow> Inl (DialCause (case drDeadline r of Some cause \<Rightarrow> cause | None \<Rightarrow> e))
                | None \<Rightarrow>
                    (case drConn r of
                       None \<Rightarrow> Inl ErrNilConnection
                     | Some s \<Rightarrow>
                         (case drContext r of
                            Some cause \<Rightarrow> Inl (DialCause cause)
                          | None \<Rightarrow> Inr (new_conn s (wire_bytes (tcTerminalType v)) (tcWidth v) (tcHeight v) (tcMaxSubnegotiation v)))))))"

lemma digits_plain: "list_all is_digit port \<Longrightarrow> c \<in> set '':[]'' \<Longrightarrow> c \<notin> set port"
  by (auto simp: list_all_iff is_digit_def)

lemma normalizeAddress_parts:
  assumes "normalizeAddress address = Some r"
  shows "\<exists>host port. r = JoinHostPort host port \<and> validHost host \<and> validPort port"
proof -
  have port: "validPort TelnetPort"
    by (simp add: validPort_def TelnetPort_def is_digit_def decimal_value_def digit_value_def)
  have lit: "validHost host" if "validIPv6Literal host \<or> validIPLiteral host" for host
  proof -
    have "host \<noteq> []" using that by (auto simp: validIPLiteral_def validIPv6Literal_def ParseAddr_ok_def)
    then show ?thesis using that by (auto simp: validHost_def validIPLiteral_def validIPv6Literal_def)
  qed
  show ?thesis
  proof (cases "SplitHostPort address")
    case None
    define inner where "inner = take (length address - 2) (drop (Suc 0) address)"
    have "(r = JoinHostPort inner TelnetPort \<and> validIPv6Literal inner) \<or> (r = JoinHostPort address TelnetPort \<and> (validIPLiteral address \<or> validHost address))"
      using assms None by (simp add: normalizeAddress_def Let_def inner_def [symmetric] split: if_splits)
    then show ?thesis using port lit by blast
  next
    case (Some hp)
    obtain host port where "hp = (host, port)" by (cases hp)
    then show ?thesis using assms Some by (simp add: normalizeAddress_def split: if_splits) blast+
  qed
qed

text \<open>
  An accepted Telnet address can be dialled: it is a host and a port from 1 to 65535 joined, and
  the split that the dialer makes gives the two back, unless the zone of an IPv6 address holds a
  bracket.
\<close>

theorem normalizeAddress_splits:
  assumes "normalizeAddress address = Some r"
  shows "\<exists>host port. r = JoinHostPort host port \<and> validHost host \<and> 1 \<le> decimal_value port \<and> decimal_value port \<le> 65535 \<and>
    (contains_any host ''[]'' \<or> SplitHostPort r = Some (host, port))"
proof -
  obtain host port where hp: "r = JoinHostPort host port" "validHost host" "validPort port"
    using normalizeAddress_parts [OF assms] by blast
  have "SplitHostPort r = Some (host, port)" if "\<not> contains_any host ''[]''"
  proof -
    have digits: "list_all is_digit port" using hp(3) by (simp add: validPort_def)
    have "CHR '':'' \<notin> set port" "CHR ''['' \<notin> set port" "CHR '']'' \<notin> set port"
      by (rule digits_plain [OF digits], simp)+
    then show ?thesis unfolding hp(1) using that by (intro Split_Join) (auto simp: contains_any_iff)
  qed
  then show ?thesis using hp by (auto simp: validPort_def)
qed

theorem normalizeAddress_splits_witness:
  "\<exists>host port. ''[::1]:23'' = JoinHostPort host port \<and> validHost host \<and> 1 \<le> decimal_value port \<and> decimal_value port \<le> 65535 \<and>
    (contains_any host ''[]'' \<or> SplitHostPort ''[::1]:23'' = Some (host, port))"
  by (rule normalizeAddress_splits [of "''[::1]''"]) (simp only: normalizeAddress_def, code_simp)

text \<open>
  The zone of an IPv6 address may hold a bracket: such an address is accepted, and the address it
  becomes cannot be split into host and port.
\<close>

theorem zone_bracket_accepted:
  "normalizeAddress ''fe80::1%]'' = Some ''[fe80::1%]]:23'' \<and> SplitHostPort ''[fe80::1%]]:23'' = None"
  unfolding normalizeAddress_def by code_simp

section \<open>What \<open>Dial\<close> gives\<close>

lemma validate_config_ok:
  assumes "validate_config config = Inr v"
  shows "1 \<le> tcMaxSubnegotiation v \<and> tcMaxSubnegotiation v \<le> HardMaxSubnegotiationBytes \<and> tcWidth v \<noteq> 0 \<and> tcHeight v \<noteq> 0 \<and>
    0 < length (tcTerminalType v) \<and> length (tcTerminalType v) \<le> maxTerminalTypeBytes \<and>
    list_all (\<lambda>c. 33 \<le> byte_of c \<and> byte_of c \<le> 126) (tcTerminalType v)"
proof -
  let ?t = "orDefault [] (tcTerminalType config) DefaultTerminalType"
  obtain address where a: "normalizeAddress (tcAddress config) = Some address"
    using assms by (cases "normalizeAddress (tcAddress config)") (simp_all add: validate_config_def)
  have "?t \<noteq> []" by (simp add: orDefault_def DefaultTerminalType_def)
  moreover have "orDefault 0 (tcWidth config) DefaultCols \<noteq> 0" "orDefault 0 (tcHeight config) DefaultRows \<noteq> 0"
    by (simp_all add: orDefault_def DefaultCols_def DefaultRows_def)
  moreover have "list_all (\<lambda>c. 33 \<le> byte_of c \<and> byte_of c \<le> 126) ?t" if "\<not> list_ex (\<lambda>c. byte_of c < 33 \<or> byte_of c > 126) ?t"
    using that by (auto simp: list_ex_iff list_all_iff)
  ultimately show ?thesis using assms
    by (simp add: validate_config_def a Let_def split: if_splits) auto
qed

lemma wire_byte: "unat (of_char c :: byte) = byte_of c"
proof -
  have "(of_char c :: byte) = of_nat (of_char c)" by (rule of_nat_of_char [symmetric])
  moreover have "(of_char c :: nat) < 256" by (rule nat_of_char_less_256)
  ultimately show ?thesis by (simp add: byte_of_def unat_of_nat take_bit_eq_mod)
qed

lemma wire_bytes_printable:
  "list_all (\<lambda>c. 33 \<le> byte_of c \<and> byte_of c \<le> 126) s \<Longrightarrow> list_all (\<lambda>b. 33 \<le> unat b \<and> unat b \<le> 126) (wire_bytes s)"
  by (simp add: wire_bytes_def list_all_iff wire_byte)

lemma printable_no_command: "list_all (\<lambda>b. 33 \<le> unat b \<and> unat b \<le> 126) (bs :: byte list) \<Longrightarrow> commandIAC \<notin> set bs"
  by (auto simp: list_all_iff)

text \<open>
  C16. A connection that \<open>Dial\<close> returns stays within its limits: whatever the peer then sends, at most
  64 KiB of a subnegotiation are kept, the window size is not empty, and the terminal type is one to
  64 bytes that are printable and no space, 33 to 126, so that none of them is the IAC byte that
  would end its subnegotiation early.
\<close>

theorem Dial_bounded:
  assumes "Dial dial ctx config = Inr c"
  shows "let c' = fst (drive decodeInboundByte c bytes) in
    int (length (inPayload (cnInbound c'))) \<le> HardMaxSubnegotiationBytes \<and> cnWidth c' \<noteq> 0 \<and> cnHeight c' \<noteq> 0 \<and>
    0 < length (cnTerminalType c') \<and> length (cnTerminalType c') \<le> maxTerminalTypeBytes \<and>
    list_all (\<lambda>b. 33 \<le> unat b \<and> unat b \<le> 126) (cnTerminalType c') \<and> commandIAC \<notin> set (cnTerminalType c')"
proof -
  obtain v s where v: "validate_config config = Inr v" and
    c: "c = new_conn s (wire_bytes (tcTerminalType v)) (tcWidth v) (tcHeight v) (tcMaxSubnegotiation v)"
    using assms by (auto simp: Dial_def Let_def split: sum.splits option.splits)
  note ok = validate_config_ok [OF v]
  let ?c = "fst (drive decodeInboundByte c bytes)"
  have "telnet_ok ?c" unfolding c by (rule peer_bytes.drive_keeps [OF new_conn_ok]) (use ok in simp)
  moreover have "cnMaxSubnegotiation ?c = tcMaxSubnegotiation v" "cnTerminalType ?c = wire_bytes (tcTerminalType v)"
    "cnWidth ?c = tcWidth v" "cnHeight ?c = tcHeight v"
    using kept_fields [THEN drive_decode_keeps] by (simp_all add: c new_conn_def)
  moreover have printable: "list_all (\<lambda>b. 33 \<le> unat b \<and> unat b \<le> 126) (wire_bytes (tcTerminalType v))"
    using ok wire_bytes_printable by blast
  moreover have "commandIAC \<notin> set (wire_bytes (tcTerminalType v))" by (rule printable_no_command [OF printable])
  moreover have "length (wire_bytes (tcTerminalType v)) = length (tcTerminalType v)" "wire_bytes (tcTerminalType v) = [] \<longleftrightarrow> tcTerminalType v = []"
    by (simp_all add: wire_bytes_def)
  ultimately show ?thesis using ok by (auto simp: telnet_ok_def payload_ok_def Let_def)
qed

definition sample_config :: TelnetConfig where
  "sample_config = \<lparr>tcAddress = ''[::1]'', tcDialTimeout = 0, tcTerminalType = [], tcWidth = 0, tcHeight = 0, tcMaxSubnegotiation = 0\<rparr>"

definition sample_dial :: "gostring \<Rightarrow> int \<Rightarrow> dial_result" where
  "sample_dial address timeout = \<lparr>drConn = Some plain_socket, drErr = None, drDeadline = None, drContext = None\<rparr>"

lemma sample_Dial: "Dial sample_dial None sample_config = Inr (new_conn plain_socket (wire_bytes DefaultTerminalType) 80 24 4096)"
proof -
  have "normalizeAddress ''[::1]'' = Some ''[::1]:23''" unfolding normalizeAddress_def by code_simp
  then have "validate_config sample_config = Inr \<lparr>tcAddress = ''[::1]:23'', tcDialTimeout = DefaultDialTimeout,
      tcTerminalType = DefaultTerminalType, tcWidth = 80, tcHeight = 24, tcMaxSubnegotiation = 4096\<rparr>"
    by (simp add: validate_config_def sample_config_def orDefault_def DefaultDialTimeout_def DefaultMaxSubnegotiationBytes_def
      HardMaxSubnegotiationBytes_def DefaultTerminalType_def maxTerminalTypeBytes_def DefaultCols_def DefaultRows_def byte_of_def)
  then show ?thesis by (simp add: Dial_def sample_dial_def)
qed

theorem Dial_bounded_witness:
  "int (length (inPayload (cnInbound (fst (drive decodeInboundByte
     (new_conn plain_socket (wire_bytes DefaultTerminalType) 80 24 4096) [255, 250, 24, 1]))))) \<le> HardMaxSubnegotiationBytes"
  using Dial_bounded [OF sample_Dial, of "[255, 250, 24, 1]"] by (simp only: Let_def)

section \<open>Throwing away what arrived\<close>

lemma read_loop_size:
  assumes "read_loop n c rd written = Some ((c', data, err), rd')"
  shows "reader_size rd' \<le> reader_size rd \<and> (length written < length data \<longrightarrow> reader_size rd' < reader_size rd)"
  using assms
proof (induction n c rd written rule: read_loop.induct)
  case (1 n c rd written)
  show ?case
  proof (cases "n \<le> length written")
    case True
    then show ?thesis using "1.prems" by (simp add: read_loop.simps)
  next
    case False
    then obtain c1 rd1 r where r: "readByte c rd = Some (c1, rd1, r)"
      using "1.prems" by (simp add: read_loop.simps) (auto split: option.splits)
    show ?thesis
    proof (cases r)
      case (Inl e)
      have "reader_size rd1 \<le> reader_size rd"
        using r Inl by (auto simp: readByte_def reader_size_def split: list.splits if_splits raw_read.splits)
      moreover have "readResult c1 written e = (c', data, err)" "rd' = rd1"
        using "1.prems" False r Inl by (simp_all add: read_loop.simps)
      moreover have "length data \<le> length written"
        using calculation(2) by (auto simp: readResult_def Let_def split: if_splits)
      ultimately show ?thesis by simp
    next
      case (Inr v)
      have less: "reader_size rd1 < reader_size rd" using readByte_size r Inr by blast
      obtain c2 out err2 where d: "decodeInboundByte c1 v = (c2, out, err2)" by (metis prod_cases3)
      show ?thesis
      proof (cases "err2 = None \<and> \<not> (written @ out \<noteq> [] \<and> rdBuffered rd1 = [])")
        case True
        then have none: "err2 = None" and go: "\<not> (written @ out \<noteq> [] \<and> rdBuffered rd1 = [])" by auto
        have rest: "read_loop n c2 rd1 (written @ out) = Some ((c', data, err), rd')"
          using "1.prems" False r Inr d none go by (auto simp: read_loop.simps [of n c rd])
        from "1.IH" [OF False r refl refl Inr d [symmetric] refl none go rest] less show ?thesis by simp
      next
        case stop: False
        have "rd' = rd1" using "1.prems" False r Inr d stop by (auto simp: read_loop.simps split: option.splits)
        then show ?thesis using less by simp
      qed
    qed
  qed
qed

lemma Read_size: "Read n c rd = Some ((c', data, err), rd') \<Longrightarrow> data \<noteq> [] \<Longrightarrow> reader_size rd' < reader_size rd"
  using read_loop_size [of n c rd "[]"] by (auto simp: Read_def split: if_splits option.splits)

definition pendingReadBytes :: nat where "pendingReadBytes = 4096"

text \<open>\<open>caller\<close> is the state of the caller's context, which is not the one of the connection.\<close>

function discard_loop :: "conn_error option \<Rightarrow> Conn \<Rightarrow> bufReader \<Rightarrow> (outcome \<times> bufReader) option" where
  "discard_loop caller c rd =
     (case caller of
        Some cause \<Rightarrow> Some ((c, Some cause), rd)
      | None \<Rightarrow>
          (case Read pendingReadBytes c rd of
             None \<Rightarrow> None
           | Some ((c, data, Some err), rd) \<Rightarrow> Some ((c, Some err), rd)
           | Some ((c, data, None), rd) \<Rightarrow> (if data = [] then Some ((c, None), rd) else discard_loop caller c rd)))"
  by pat_completeness auto
termination by (relation "measure (\<lambda>(caller, c, rd). reader_size rd)") (auto dest: Read_size)

declare discard_loop.simps [simp del]

definition DiscardPending :: "conn_error option \<Rightarrow> int \<Rightarrow> Conn \<Rightarrow> bufReader \<Rightarrow> (outcome \<times> bufReader) option" where
  "DiscardPending caller quiet c rd =
     (case caller of
        Some cause \<Rightarrow> Some ((c, Some cause), rd)
      | None \<Rightarrow>
          (case SetReadTimeout c quiet of
             (c, Some err) \<Rightarrow> Some ((c, Some err), rd)
           | (c, None) \<Rightarrow>
               (case discard_loop caller c rd of
                  None \<Rightarrow> None
                | Some ((c, err), rd) \<Rightarrow> Some ((fst (SetReadTimeout c 0), err), rd))))"

text \<open>Bytes in chunks, then a deadline that expires, then what comes later.\<close>

definition quiet_after :: "byte list \<Rightarrow> (byte \<times> byte list) list \<Rightarrow> raw_read list \<Rightarrow> bufReader" where
  "quiet_after b cs later = \<lparr>rdBuffered = b, rdRaw = map (\<lambda>(x, xs). Chunk x xs) cs @ ReadFails ErrReadTimeout # later\<rparr>"

definition arrived :: "byte list \<Rightarrow> (byte \<times> byte list) list \<Rightarrow> byte list" where
  "arrived b cs = b @ concat (map (\<lambda>(x, xs). x # xs) cs)"

definition waiting :: "Conn \<Rightarrow> bool" where
  "waiting c \<longleftrightarrow> cnContext c = None \<and> cnReadTimeout c \<and> \<not> skClosed (cnSocket c) \<and> cnPendingReadErr c = None"

lemma decode_waiting: "decodeInboundByte c v = (c', out, err) \<Longrightarrow> waiting c' = waiting c"
  using kept_fields [THEN decode_keeps, of c v] by (simp add: waiting_def)

lemma next_arrived:
  assumes "waiting c" and "arrived b cs = v # bs"
  shows "\<exists>b' cs'. readByte c (quiet_after b cs later) = Some (c, quiet_after b' cs' later, Inr v) \<and> arrived b' cs' = bs"
proof (cases b)
  case Nil
  then obtain x xs cs' where "cs = (x, xs) # cs'" using assms(2) by (cases cs) (auto simp: arrived_def)
  then show ?thesis using assms Nil
    by (intro exI [of _ xs] exI [of _ cs']) (auto simp: readByte_def quiet_after_def arrived_def waiting_def)
next
  case (Cons y ys)
  then show ?thesis using assms
    by (intro exI [of _ ys] exI [of _ cs]) (auto simp: readByte_def quiet_after_def arrived_def)
qed

text \<open>One read: the deadline expires, or there is data and the bytes that are left are fewer.\<close>

lemma read_quiet:
  assumes "waiting c" and "drive decodeInboundByte c (arrived b cs) = (c', out, None, [])"
    and "length written < n" and "written = [] \<or> b \<noteq> []"
  shows "(read_loop n c (quiet_after b cs later) written = Some ((c', [], None), \<lparr>rdBuffered = [], rdRaw = later\<rparr>) \<and> written = []) \<or>
    (\<exists>c1 data b1 cs1 out1. read_loop n c (quiet_after b cs later) written = Some ((c1, data, None), quiet_after b1 cs1 later) \<and>
       data \<noteq> [] \<and> waiting c1 \<and> drive decodeInboundByte c1 (arrived b1 cs1) = (c', out1, None, []))"
  using assms
proof (induction "arrived b cs" arbitrary: c b cs written out)
  case Nil
  have b: "b = []" using Nil.hyps by (simp add: arrived_def)
  moreover have "cs = []"
  proof (cases cs)
    case (Cons p ps)
    then show ?thesis using Nil.hyps by (cases p) (simp add: arrived_def)
  qed simp
  moreover have "written = []" using Nil.prems(4) b by simp
  moreover have "c' = c" using Nil.prems(2) unfolding Nil.hyps [symmetric] by simp
  ultimately show ?case using Nil.prems
    by (simp add: read_loop.simps readByte_def quiet_after_def waiting_def readResult_def configuredReadTimeout_def)
next
  case (Cons v bs)
  obtain b' cs' where nxt: "readByte c (quiet_after b cs later) = Some (c, quiet_after b' cs' later, Inr v)" "arrived b' cs' = bs"
    using next_arrived [OF Cons.prems(1) Cons.hyps(2) [symmetric]] by blast
  obtain c1 out1 err where d: "decodeInboundByte c v = (c1, out1, err)" by (metis prod_cases3)
  have err: "err = None" and rest: "\<exists>out'. drive decodeInboundByte c1 (arrived b' cs') = (c', out', None, [])"
    using Cons.prems(2) d nxt(2) unfolding Cons.hyps(2) [symmetric] by (auto split: option.splits prod.splits)
  then obtain out' where rest: "drive decodeInboundByte c1 (arrived b' cs') = (c', out', None, [])" by blast
  have wait: "waiting c1" using decode_waiting [OF d] Cons.prems(1) by simp
  have buf: "rdBuffered (quiet_after b' cs' later) = b'" by (simp add: quiet_after_def)
  have unfolded: "read_loop n c (quiet_after b cs later) written =
      (if written @ out1 \<noteq> [] \<and> b' = [] then Some ((c1, written @ out1, None), quiet_after b' cs' later)
       else read_loop n c1 (quiet_after b' cs' later) (written @ out1))"
    using Cons.prems(3) nxt(1) d err buf by (subst read_loop.simps) simp
  show ?case
  proof (cases "written @ out1 \<noteq> [] \<and> b' = []")
    case True
    then have "read_loop n c (quiet_after b cs later) written = Some ((c1, written @ out1, None), quiet_after b' cs' later)"
      using unfolded by (simp only: if_True simp_thms)
    then show ?thesis using True wait rest by (intro disjI2) blast
  next
    case False
    have step: "read_loop n c (quiet_after b cs later) written = read_loop n c1 (quiet_after b' cs' later) (written @ out1)"
      using unfolded unfolding if_not_P [OF False] .
    show ?thesis
    proof (cases "length (written @ out1) < n")
      case True
      from Cons.hyps(1) [OF nxt(2) [symmetric] wait rest True] False show ?thesis
        unfolding step by blast
    next
      case full: False
      then have "written @ out1 \<noteq> []" using Cons.prems(3) by auto
      moreover have "read_loop n c1 (quiet_after b' cs' later) (written @ out1) = Some ((c1, written @ out1, None), quiet_after b' cs' later)"
        using full by (subst read_loop.simps) simp
      ultimately show ?thesis unfolding step using wait rest by (intro disjI2) blast
    qed
  qed
qed

lemma discard_quiet:
  assumes "waiting c" and "drive decodeInboundByte c (arrived b cs) = (c', out, None, [])"
  shows "discard_loop None c (quiet_after b cs later) = Some ((c', None), \<lparr>rdBuffered = [], rdRaw = later\<rparr>)"
  using assms
proof (induction "reader_size (quiet_after b cs later)" arbitrary: c b cs out rule: less_induct)
  case less
  have n: "0 < pendingReadBytes" by (simp add: pendingReadBytes_def)
  have read: "Read pendingReadBytes c (quiet_after b cs later) = read_loop pendingReadBytes c (quiet_after b cs later) []"
    using less.prems(1) n by (simp add: Read_def waiting_def)
  from read_quiet [OF less.prems, of "[]" pendingReadBytes later] n
  consider "Read pendingReadBytes c (quiet_after b cs later) = Some ((c', [], None), \<lparr>rdBuffered = [], rdRaw = later\<rparr>)"
    | c1 data b1 cs1 out1 where "Read pendingReadBytes c (quiet_after b cs later) = Some ((c1, data, None), quiet_after b1 cs1 later)"
      "data \<noteq> []" "waiting c1" "drive decodeInboundByte c1 (arrived b1 cs1) = (c', out1, None, [])"
    unfolding read by auto
  then show ?case
  proof cases
    case 1
    then show ?thesis by (simp add: discard_loop.simps)
  next
    case 2
    from less.hyps [OF Read_size [OF 2(1,2)] 2(3,4)] show ?thesis
      using 2(1,2) by (simp add: discard_loop.simps [of None c])
  qed
qed



end
