(* ===== verification/Ring.thy ===== *)
theory Ring
  imports Prelude
begin

text \<open>
  The output a terminal keeps (internal/terminal/ring.go): a ring of bytes that holds the last
  \<open>capacity\<close> bytes written and can be read from any position of the whole output. Positions are
  natural numbers: the 64 bits of the source hold more bytes than a session writes.
\<close>

section \<open>The ring of the source\<close>

record Ring =
  rgData :: "byte list"
  rgStart :: nat
  rgSize :: nat
  rgWritten :: nat

record RingRead =
  rrData :: "byte list"
  rrContext :: "byte list"
  rrEmit :: nat
  rrStart :: nat
  rrNext :: nat
  rrEnd :: nat
  rrTruncated :: bool

text \<open>\<open>copy(destination[pos:], source)\<close>: the bytes that fit; the count is \<open>min\<close> of the two lengths.\<close>

definition copy_at :: "byte list \<Rightarrow> nat \<Rightarrow> byte list \<Rightarrow> byte list" where
  "copy_at data pos source =
     (let n = min (length data - pos) (length source) in take pos data @ take n source @ drop (pos + n) data)"

definition NewRing :: "int \<Rightarrow> Ring" where
  "NewRing capacity =
     (let n = (if capacity \<le> 0 then 1 else capacity) in \<lparr>rgData = replicate (nat n) 0, rgStart = 0, rgSize = 0, rgWritten = 0\<rparr>)"

definition CanReadFrom :: "Ring \<Rightarrow> nat \<Rightarrow> bool" where "CanReadFrom r cursor \<longleftrightarrow> cursor \<le> rgWritten r"
definition Capacity :: "Ring \<Rightarrow> nat" where "Capacity r = length (rgData r)"
definition Oldest :: "Ring \<Rightarrow> nat" where "Oldest r = rgWritten r - rgSize r"
definition Written :: "Ring \<Rightarrow> nat" where "Written r = rgWritten r"

definition ring_Write :: "Ring \<Rightarrow> byte list \<Rightarrow> Ring" where
  "ring_Write r0 p =
     (let r = r0\<lparr>rgWritten := rgWritten r0 + length p\<rparr>; capacity = length (rgData r) in
      if length p \<ge> capacity then
        r\<lparr>rgData := copy_at (rgData r) 0 (drop (length p - capacity) p), rgStart := 0, rgSize := capacity\<rparr>
      else
        (let end_pos = (rgStart r + rgSize r) mod capacity;
             first = min (capacity - end_pos) (length p);
             data = copy_at (copy_at (rgData r) end_pos p) 0 (drop first p);
             size = rgSize r + length p in
         if size > capacity
         then r\<lparr>rgData := data, rgStart := (rgStart r + (size - capacity)) mod capacity, rgSize := capacity\<rparr>
         else r\<lparr>rgData := data, rgSize := size\<rparr>))"

text \<open>Two copies: from \<open>physical\<close> to the end of the storage, the rest from its front.\<close>

definition read_wrapped :: "byte list \<Rightarrow> nat \<Rightarrow> nat \<Rightarrow> byte list" where
  "read_wrapped data physical n =
     (let first = min n (length data - physical) in take first (drop physical data) @ take (n - first) data)"

definition readFrom :: "Ring \<Rightarrow> nat \<Rightarrow> int \<Rightarrow> bool \<Rightarrow> RingRead option" where
  "readFrom r cursor limit includeContext =
     (if \<not> CanReadFrom r cursor then None
      else
        (let oldest = Oldest r;
             truncated = (cursor < oldest);
             start = (if truncated then oldest else cursor);
             available = (let a = rgWritten r - start; l = (if limit < 0 then 0 else nat limit) in if l < a then l else a);
             data = (if available = 0 then [] else
                       read_wrapped (rgData r) ((rgStart r + (start - oldest)) mod length (rgData r)) available);
             nxt = start + available in
         Some \<lparr>rrData = data,
           rrContext = (if includeContext \<and> nxt - oldest \<noteq> 0 then read_wrapped (rgData r) (rgStart r) (nxt - oldest) else []),
           rrEmit = start - oldest, rrStart = start, rrNext = nxt, rrEnd = rgWritten r, rrTruncated = truncated\<rparr>))"

definition ReadFrom :: "Ring \<Rightarrow> nat \<Rightarrow> int \<Rightarrow> RingRead option" where
  "ReadFrom r cursor limit = readFrom r cursor limit True"

definition ReadAvailableFrom :: "Ring \<Rightarrow> nat \<Rightarrow> int \<Rightarrow> RingRead option" where
  "ReadAvailableFrom r cursor limit = readFrom r cursor limit False"

section \<open>The ring as the end of a log\<close>

definition contents :: "Ring \<Rightarrow> byte list" where
  "contents r = map (\<lambda>i. rgData r ! ((rgStart r + i) mod length (rgData r))) [0..<rgSize r]"

text \<open>The ring holds the last bytes of the log, and as many of them as fit.\<close>

definition keeps_log :: "byte list \<Rightarrow> Ring \<Rightarrow> bool" where
  "keeps_log log r \<longleftrightarrow>
     0 < length (rgData r) \<and> rgStart r < length (rgData r) \<and> rgWritten r = length log \<and>
     rgSize r = min (length (rgData r)) (length log) \<and> contents r = drop (length log - rgSize r) log"

lemma copy_at_length [simp]: "pos \<le> length data \<Longrightarrow> length (copy_at data pos source) = length data"
  by (simp add: copy_at_def Let_def)

lemma copy_at_nth:
  assumes "pos \<le> length data" and "j < length data"
  shows "copy_at data pos source ! j = (if pos \<le> j \<and> j < pos + length source then source ! (j - pos) else data ! j)"
  using assms by (auto simp: copy_at_def Let_def nth_append min_def)

lemma mod_small: "x < 2 * c \<Longrightarrow> x mod c = (if x < c then x else x - (c :: nat))"
  by (simp add: mod_if)

lemma read_wrapped_length: "physical < length data \<Longrightarrow> n \<le> length data \<Longrightarrow> length (read_wrapped data physical n) = n"
  by (cases "n \<le> length data - physical") (simp_all add: read_wrapped_def Let_def)

lemma read_wrapped_nth:
  assumes "physical < length data" and "n \<le> length data"
  shows "read_wrapped data physical n = map (\<lambda>i. data ! ((physical + i) mod length data)) [0..<n]"
proof (rule nth_equalityI)
  fix i assume i: "i < length (read_wrapped data physical n)"
  then have n: "i < n" using assms by (simp add: read_wrapped_length)
  show "read_wrapped data physical n ! i = map (\<lambda>i. data ! ((physical + i) mod length data)) [0..<n] ! i"
  proof (cases "i < length data - physical")
    case True
    then show ?thesis using n assms by (simp add: read_wrapped_def Let_def nth_append)
  next
    case False
    then have "(physical + i) mod length data = i - (length data - physical)"
      using n assms by (subst mod_small) auto
    then show ?thesis using False n assms by (simp add: read_wrapped_def Let_def nth_append)
  qed
qed (use assms in \<open>simp add: read_wrapped_length\<close>)

lemma contents_slice:
  assumes "k + n \<le> rgSize r" and "rgSize r \<le> length (rgData r)" and "0 < length (rgData r)"
  shows "read_wrapped (rgData r) ((rgStart r + k) mod length (rgData r)) n = take n (drop k (contents r))"
proof -
  let ?cap = "length (rgData r)"
  have "read_wrapped (rgData r) ((rgStart r + k) mod ?cap) n = map (\<lambda>i. rgData r ! (((rgStart r + k) mod ?cap + i) mod ?cap)) [0..<n]"
    using assms by (intro read_wrapped_nth) simp_all
  also have "\<dots> = take n (drop k (contents r))"
    using assms by (intro nth_equalityI) (simp_all add: contents_def mod_simps add.assoc)
  finally show ?thesis .
qed

lemma NewRing_keeps: "keeps_log [] (NewRing capacity)"
  by (simp add: keeps_log_def NewRing_def contents_def Let_def)

lemma contents_nth: "i < rgSize r \<Longrightarrow> contents r ! i = rgData r ! ((rgStart r + i) mod length (rgData r))"
  by (simp add: contents_def)

text \<open>A write that is smaller than the ring: where the byte at a position of the storage comes from.\<close>

lemma wrapped_write_nth:
  assumes "j < length data" and "e < length data" and "length p < length data"
  defines "first \<equiv> min (length data - e) (length p)"
  shows "copy_at (copy_at data e p) 0 (drop first p) ! j =
    (let k = (j + length data - e) mod length data in if k < length p then p ! k else data ! j)"
proof -
  have outer: "copy_at (copy_at data e p) 0 (drop first p) ! j =
      (if j < length p - first then p ! (first + j) else copy_at data e p ! j)"
  proof -
    have "first \<le> length p" by (simp add: first_def)
    then show ?thesis using assms(1,2) copy_at_nth [of 0 "copy_at data e p" j "drop first p"] by simp
  qed
  have inner: "copy_at data e p ! j = (if e \<le> j \<and> j < e + length p then p ! (j - e) else data ! j)"
    using assms(1,2) by (subst copy_at_nth) simp_all
  show ?thesis
  proof (cases "e \<le> j")
    case True
    then have "(j + length data - e) mod length data = j - e" using assms(1,2) by (subst mod_small) auto
    moreover have "\<not> j < length p - first" using True assms(1-3) by (simp add: first_def)
    ultimately show ?thesis using True outer inner by (simp add: Let_def less_diff_conv2)
  next
    case False
    then have k: "(j + length data - e) mod length data = j + length data - e" using assms(1,2) by simp
    show ?thesis
    proof (cases "length data - e < length p")
      case True
      then have f: "first = length data - e" by (simp add: first_def)
      have iff: "(j < length p - first) = (j + length data - e < length p)" "first + j = j + length data - e"
        using f assms(2) by arith+
      show ?thesis unfolding outer iff k Let_def unfolding inner using False by simp
    next
      case no: False
      then have "first = length p" by (simp add: first_def)
      then have "\<not> j < length p - first" "\<not> j + length data - e < length p" using no assms(2) by arith+
      then show ?thesis unfolding outer k Let_def unfolding inner using False by simp
    qed
  qed
qed

lemma mod_back: "t < c \<Longrightarrow> d < c \<Longrightarrow> ((t + d) mod c + c - t) mod c = (d :: nat)"
  using mod_small [of "t + d" c] mod_small [of "(t + d) mod c + c - t" c] by (auto split: if_splits)

lemma mod_distance:
  assumes "0 < c" and "q < n + c" and "n \<le> (c :: nat)"
  shows "((s + q) mod c + c - (s + n) mod c) mod c = (if n \<le> q then q - n else q + c - n)"
proof -
  let ?d = "if n \<le> q then q - n else q + c - n"
  have "((s + n) mod c + ?d) mod c = (s + n + ?d) mod c" by (rule mod_add_left_eq)
  also have "\<dots> = (s + q) mod c"
  proof (cases "n \<le> q")
    case False
    then have eq: "s + n + ?d = (s + q) + c" using assms(3) by simp
    show ?thesis unfolding eq by (rule mod_add_self2)
  qed simp
  finally have "(s + q) mod c = ((s + n) mod c + ?d) mod c" by simp
  moreover have "?d < c" using assms by auto
  ultimately show ?thesis using mod_back [of "(s + n) mod c" c ?d] assms(1) by simp
qed

lemma ring_Write_keeps:
  assumes "keeps_log log r"
  shows "keeps_log (log @ p) (ring_Write r p)"
proof -
  let ?cap = "length (rgData r)"
  have r: "0 < ?cap" "rgStart r < ?cap" "rgWritten r = length log" "rgSize r = min ?cap (length log)"
    "contents r = drop (length log - rgSize r) log" using assms by (simp_all add: keeps_log_def)
  show ?thesis
  proof (cases "length p \<ge> ?cap")
    case True
    let ?r = "ring_Write r p"
    have copied: "copy_at (rgData r) 0 (drop (length p - ?cap) p) = drop (length p - ?cap) p"
      using True by (simp add: copy_at_def Let_def)
    have w: "rgData ?r = drop (length p - ?cap) p" "rgStart ?r = 0" "rgSize ?r = ?cap" "rgWritten ?r = length log + length p"
      using True r(3) by (simp_all add: ring_Write_def copied Let_def)
    have len: "length (rgData ?r) = ?cap" using True w(1) by simp
    have "contents ?r = drop (length p - ?cap) p"
      unfolding contents_def len w(2,3) by (rule nth_equalityI) (use len w(1) in simp_all)
    then show ?thesis using True w len r(1) by (simp add: keeps_log_def)
  next
    case False
    let ?r = "ring_Write r p" and ?n = "rgSize r" and ?m = "length p"
    let ?e = "(rgStart r + ?n) mod ?cap"
    have e: "?e < ?cap" using r(1) by simp
    have data: "rgData ?r = copy_at (copy_at (rgData r) ?e p) 0 (drop (min (?cap - ?e) ?m) p)"
      and fields: "rgWritten ?r = length log + ?m" "rgSize ?r = min ?cap (?n + ?m)"
        "rgStart ?r = (rgStart r + (?n + ?m - rgSize ?r)) mod ?cap"
      using False r by (auto simp: ring_Write_def Let_def)
    have len: "length (rgData ?r) = ?cap" using data e by simp
    have size: "rgSize ?r = min ?cap (length (log @ p))" using fields(2) r(4) by auto
    have "contents ?r = drop (length (log @ p) - rgSize ?r) (log @ p)"
    proof (rule nth_equalityI)
      show "length (contents ?r) = length (drop (length (log @ p) - rgSize ?r) (log @ p))"
        using size by (simp add: contents_def)
      fix i assume "i < length (contents ?r)"
      then have i: "i < rgSize ?r" "i < ?cap" using fields(2) by (simp_all add: contents_def)
      let ?k = "?n + ?m - rgSize ?r"
      let ?q = "?k + i" and ?c = "?cap"
      have n: "?n \<le> ?c" using r(4) by simp
      have q: "?q < ?n + ?m" "?n + ?m \<le> ?q + ?c" using i(1) fields(2) by auto
      have j: "(rgStart ?r + i) mod ?c = (rgStart r + ?q) mod ?c" unfolding fields(3) by (simp add: mod_simps add.assoc)
      have d: "((rgStart r + ?q) mod ?c + ?c - ?e) mod ?c = (if ?n \<le> ?q then ?q - ?n else ?q + ?c - ?n)"
        using q(1) False n r(1) by (intro mod_distance) simp_all
      have at: "contents ?r ! i = (let k = (if ?n \<le> ?q then ?q - ?n else ?q + ?c - ?n) in
          if k < ?m then p ! k else rgData r ! ((rgStart r + ?q) mod ?c))"
      proof -
        have "(rgStart r + ?q) mod ?c < ?c" "?m < ?c" using r(1) False by simp_all
        note w = wrapped_write_nth [OF this(1) e this(2), unfolded d]
        show ?thesis unfolding contents_nth [OF i(1)] len j unfolding data by (rule w)
      qed
      have "length (log @ p) - rgSize ?r + i = length log - ?n + ?q" using r(4) size fields(2) by auto
      then have rhs: "drop (length (log @ p) - rgSize ?r) (log @ p) ! i = (log @ p) ! (length log - ?n + ?q)"
        by (simp add: nth_drop add.assoc del: drop_append length_append)
      show "contents ?r ! i = drop (length (log @ p) - rgSize ?r) (log @ p) ! i"
      proof (cases "?n \<le> ?q")
        case True
        then have lt: "?q - ?n < ?m" using q(1) by simp
        have idx: "length log - ?n + ?q = length log + (?q - ?n)" using True r(4) by simp
        show ?thesis unfolding at rhs idx Let_def nth_append_length_plus by (simp only: if_P [OF True] if_P [OF lt])
      next
        case lt: False
        then have "\<not> ?q + ?c - ?n < ?m" using q(2) by simp
        moreover have "contents r ! ?q = log ! (length log - ?n + ?q)"
          using lt r(4,5) by (simp add: nth_drop)
        moreover have "length log - ?n + ?q < length log" using lt r(4) by simp
        ultimately show ?thesis unfolding at rhs using lt contents_nth [of ?q r] by (simp add: Let_def nth_append)
      qed
    qed
    then show ?thesis using fields(1,3) size len r(1) by (simp add: keeps_log_def)
  qed
qed

lemma writes_keep_log: "keeps_log log r \<Longrightarrow> keeps_log (log @ concat chunks) (foldl ring_Write r chunks)"
proof (induction chunks arbitrary: log r)
  case (Cons p chunks)
  from Cons.IH [OF ring_Write_keeps [OF Cons.prems, of p]] show ?case by simp
qed simp

lemma ring_Write_capacity: "keeps_log log r \<Longrightarrow> length (rgData (ring_Write r p)) = length (rgData r)"
  by (auto simp: ring_Write_def Let_def keeps_log_def)

lemma writes_capacity: "keeps_log log r \<Longrightarrow> length (rgData (foldl ring_Write r chunks)) = length (rgData r)"
proof (induction chunks arbitrary: log r)
  case (Cons p chunks)
  from Cons.IH [OF ring_Write_keeps [OF Cons.prems, of p]] show ?case by (simp add: ring_Write_capacity [OF Cons.prems])
qed simp

text \<open>What a read of a log gives: the specification that the ring implements.\<close>

definition log_read :: "byte list \<Rightarrow> nat \<Rightarrow> nat \<Rightarrow> int \<Rightarrow> bool \<Rightarrow> RingRead option" where
  "log_read log capacity cursor limit includeContext =
     (let oldest = length log - capacity; start = max cursor oldest; n = min (nat limit) (length log - start) in
      if cursor > length log then None
      else Some \<lparr>rrData = take n (drop start log), rrContext = (if includeContext then take (start + n - oldest) (drop oldest log) else []),
        rrEmit = start - oldest, rrStart = start, rrNext = start + n, rrEnd = length log, rrTruncated = (cursor < oldest)\<rparr>)"

lemma readFrom_log:
  assumes "keeps_log log r"
  shows "readFrom r cursor limit includeContext = log_read log (length (rgData r)) cursor limit includeContext"
proof (cases "cursor > length log")
  case True
  then show ?thesis using assms by (simp add: readFrom_def CanReadFrom_def log_read_def keeps_log_def Let_def)
next
  case False
  let ?cap = "length (rgData r)" and ?oldest = "length log - length (rgData r)"
  have r: "0 < ?cap" "rgStart r < ?cap" "rgWritten r = length log" "rgSize r = min ?cap (length log)"
    "contents r = drop ?oldest log" "Oldest r = ?oldest"
    using assms by (auto simp: keeps_log_def Oldest_def min_def)
  define start where "start = max cursor ?oldest"
  define n where "n = min (nat limit) (length log - start)"
  have start: "(if cursor < ?oldest then ?oldest else cursor) = start" by (simp add: start_def)
  have n: "(let a = length log - start; l = (if limit < 0 then 0 else nat limit) in if l < a then l else a) = n"
    by (simp add: n_def Let_def)
  have bounds: "?oldest \<le> start" "start \<le> length log" "start + n \<le> length log"
    using False by (auto simp: start_def n_def)
  have data: "read_wrapped (rgData r) ((rgStart r + (start - ?oldest)) mod ?cap) n = take n (drop start log)"
  proof -
    have "start - ?oldest + n \<le> rgSize r" using bounds r(4) by auto
    from contents_slice [OF this] r(1,4,5) bounds show ?thesis by simp
  qed
  have ctx: "read_wrapped (rgData r) (rgStart r) (start + n - ?oldest) = take (start + n - ?oldest) (drop ?oldest log)"
  proof -
    have "0 + (start + n - ?oldest) \<le> rgSize r" using bounds r(4) by auto
    from contents_slice [OF this] r(1,2,4,5) show ?thesis by simp
  qed
  have "readFrom r cursor limit includeContext =
      Some \<lparr>rrData = (if n = 0 then [] else read_wrapped (rgData r) ((rgStart r + (start - ?oldest)) mod ?cap) n),
        rrContext = (if includeContext \<and> start + n - ?oldest \<noteq> 0 then read_wrapped (rgData r) (rgStart r) (start + n - ?oldest) else []),
        rrEmit = start - ?oldest, rrStart = start, rrNext = start + n, rrEnd = length log, rrTruncated = (cursor < ?oldest)\<rparr>"
    using False unfolding readFrom_def CanReadFrom_def r(3,6) Let_def start n [unfolded Let_def] by simp
  also have "\<dots> = log_read log ?cap cursor limit includeContext"
    using False unfolding data ctx by (auto simp: log_read_def Let_def start_def [symmetric] n_def [symmetric])
  finally show ?thesis .
qed

text \<open>
  C17. The ring implements a log: after any writes, a read from any position gives exactly the slice of
  all output that starts there, or at the oldest byte that is still kept, with the context before it,
  the positions around it, and a mark if bytes before it are gone; a position in the future is refused.
\<close>

theorem Ring_refines_log:
  "let r = foldl ring_Write (NewRing capacity) chunks; log = concat chunks; kept = nat (max 1 capacity) in
     ReadFrom r cursor limit = log_read log kept cursor limit True \<and>
     ReadAvailableFrom r cursor limit = log_read log kept cursor limit False \<and>
     Written r = length log \<and> Oldest r = length log - kept"
proof -
  let ?r = "foldl ring_Write (NewRing capacity) chunks"
  have keeps: "keeps_log (concat chunks) ?r" using writes_keep_log [OF NewRing_keeps] by simp
  have cap: "length (rgData ?r) = nat (max 1 capacity)"
    using writes_capacity [OF NewRing_keeps, of capacity chunks] by (simp add: NewRing_def Let_def max_def)
  have "Oldest ?r = length (concat chunks) - length (rgData ?r)"
    using keeps by (auto simp: keeps_log_def Oldest_def min_def)
  then show ?thesis
    using readFrom_log [OF keeps] keeps cap by (simp add: ReadFrom_def ReadAvailableFrom_def Written_def keeps_log_def Let_def)
qed

end
