(* ===== verification/RandomId.thy ===== *)
theory RandomId
  imports GoText
begin

text \<open>
  Identifiers and tokens from random bytes (internal/randomid/randomid.go), with the two encodings of
  the standard library they use. The random source is the list of the bytes it still gives; a source
  that runs dry is the error of \<open>io.ReadFull\<close>.
\<close>

section \<open>Decimal and hexadecimal\<close>

definition digit_char :: "nat \<Rightarrow> char" where
  "digit_char n = ''0123456789abcdef'' ! n"

text \<open>\<open>strconv.FormatUint(n, 10)\<close>.\<close>

fun FormatUint :: "nat \<Rightarrow> gostring" where
  "FormatUint n = (if n < 10 then [digit_char n] else FormatUint (n div 10) @ [digit_char (n mod 10)])"

declare FormatUint.simps [simp del]

lemma digit_char_value: "n < 10 \<Longrightarrow> digit_value (digit_char n) = n \<and> is_digit (digit_char n)"
proof -
  assume "n < 10"
  then have "n \<in> {0, 1, 2, 3, 4, 5, 6, 7, 8, 9}" by auto
  then show ?thesis by (auto simp: digit_char_def digit_value_def is_digit_def)
qed

lemma FormatUint_value: "decimal_value (FormatUint n) = n \<and> list_all is_digit (FormatUint n) \<and> FormatUint n \<noteq> []"
proof (induction n rule: FormatUint.induct)
  case (1 n)
  show ?case
  proof (cases "n < 10")
    case True
    then show ?thesis by (simp add: FormatUint.simps [of n] decimal_value_def digit_char_value)
  next
    case False
    then have "decimal_value (FormatUint (n div 10) @ [digit_char (n mod 10)]) = n div 10 * 10 + n mod 10"
      using 1 digit_char_value [of "n mod 10"] by (simp add: decimal_value_def)
    then show ?thesis using 1 False digit_char_value [of "n mod 10"] by (simp add: FormatUint.simps [of n])
  qed
qed

lemma FormatUint_inject: "FormatUint m = FormatUint n \<Longrightarrow> m = n"
  by (metis FormatUint_value)

text \<open>\<open>hex.EncodeToString\<close>.\<close>

definition hex_encode :: "byte list \<Rightarrow> gostring" where
  "hex_encode bytes = concat (map (\<lambda>b. [digit_char (unat b div 16), digit_char (unat b mod 16)]) bytes)"

section \<open>\<open>base64.RawURLEncoding\<close>\<close>

definition url_alphabet :: gostring where
  "url_alphabet = ''ABCDEFGHIJKLMNOPQRSTUVWXYZabcdefghijklmnopqrstuvwxyz0123456789-_''"

definition url_char :: "nat \<Rightarrow> char" where "url_char n = url_alphabet ! n"

definition url_value :: "char \<Rightarrow> nat option" where
  "url_value c =
     (let n = byte_of c in
      if 65 \<le> n \<and> n \<le> 90 then Some (n - 65)
      else if 97 \<le> n \<and> n \<le> 122 then Some (n - 71)
      else if 48 \<le> n \<and> n \<le> 57 then Some (n + 4)
      else if n = 45 then Some 62 else if n = 95 then Some 63 else None)"

fun encode_bytes :: "nat list \<Rightarrow> gostring" where
  "encode_bytes (a # b # c # rest) =
     [url_char (a div 4), url_char (a mod 4 * 16 + b div 16), url_char (b mod 16 * 4 + c div 64), url_char (c mod 64)] @ encode_bytes rest"
| "encode_bytes [a, b] = [url_char (a div 4), url_char (a mod 4 * 16 + b div 16), url_char (b mod 16 * 4)]"
| "encode_bytes [a] = [url_char (a div 4), url_char (a mod 4 * 16)]"
| "encode_bytes [] = []"

definition RawURLEncode :: "byte list \<Rightarrow> gostring" where
  "RawURLEncode bytes = encode_bytes (map unat bytes)"

text \<open>The decoder drops line ends and the bits that no byte needs; one character alone is an error.\<close>

fun decode_values :: "nat list \<Rightarrow> nat list option" where
  "decode_values (w # x # y # z # rest) =
     map_option (\<lambda>bytes. [w * 4 + x div 16, x mod 16 * 16 + y div 4, y mod 4 * 64 + z] @ bytes) (decode_values rest)"
| "decode_values [w, x, y] = Some [w * 4 + x div 16, x mod 16 * 16 + y div 4]"
| "decode_values [w, x] = Some [w * 4 + x div 16]"
| "decode_values [w] = None"
| "decode_values [] = Some []"

definition RawURLDecode :: "gostring \<Rightarrow> nat list option" where
  "RawURLDecode s =
     (let chars = filter (\<lambda>c. c \<noteq> CR \<and> c \<noteq> LF) s in
      if list_all (\<lambda>c. url_value c \<noteq> None) chars then decode_values (map (\<lambda>c. the (url_value c)) chars) else None)"

lemma url_value_char: "n < 64 \<Longrightarrow> url_value (url_char n) = Some n"
proof -
  have indexes: "[0..<64] = [0 :: nat, 1, 2, 3, 4, 5, 6, 7, 8, 9, 10, 11, 12, 13, 14, 15, 16, 17, 18, 19, 20,
      21, 22, 23, 24, 25, 26, 27, 28, 29, 30, 31, 32, 33, 34, 35, 36, 37, 38, 39, 40, 41, 42,
      43, 44, 45, 46, 47, 48, 49, 50, 51, 52, 53, 54, 55, 56, 57, 58, 59, 60, 61, 62, 63]"
    by code_simp
  have "list_all (\<lambda>n. url_value (url_char n) = Some n) [0..<64]"
    unfolding indexes by (simp add: url_char_def url_alphabet_def url_value_def byte_of_def)
  then show "n < 64 \<Longrightarrow> url_value (url_char n) = Some n" by (simp add: list_all_iff)
qed

lemma url_char_line: "n < 64 \<Longrightarrow> url_char n \<noteq> CR \<and> url_char n \<noteq> LF"
  using url_value_char [of n] by (auto simp: url_value_def byte_of_def Let_def)

fun sextets :: "nat list \<Rightarrow> nat list" where
  "sextets (a # b # c # rest) = [a div 4, a mod 4 * 16 + b div 16, b mod 16 * 4 + c div 64, c mod 64] @ sextets rest"
| "sextets [a, b] = [a div 4, a mod 4 * 16 + b div 16, b mod 16 * 4]"
| "sextets [a] = [a div 4, a mod 4 * 16]"
| "sextets [] = []"

lemma encode_sextets: "encode_bytes bytes = map url_char (sextets bytes)"
  by (induction bytes rule: encode_bytes.induct) simp_all

lemma sextet_bounds:
  "a < 256 \<Longrightarrow> a div 4 < (64 :: nat)" "r < 16 \<Longrightarrow> a mod 4 * 16 + r < (64 :: nat)" "r < 4 \<Longrightarrow> a mod 16 * 4 + r < (64 :: nat)"
  by arith+

lemma byte_parts: "b < 256 \<Longrightarrow> b div 16 < (16 :: nat)" "c < 256 \<Longrightarrow> c div 64 < (4 :: nat)"
  by arith+

lemma sextets_small: "list_all (\<lambda>b. b < 256) bytes \<Longrightarrow> list_all (\<lambda>n. n < 64) (sextets bytes)"
proof (induction bytes rule: sextets.induct)
  case (2 a b)
  then show ?case using sextet_bounds(1) [of a] sextet_bounds(2) [OF byte_parts(1), of b a] sextet_bounds(3) [of 0 b] by simp
next
  case (3 a)
  then show ?case using sextet_bounds(1) [of a] sextet_bounds(2) [of 0 a] by simp
qed (simp_all add: sextet_bounds byte_parts)

lemma sextets_length: "length (sextets bytes) = (4 * length bytes + 2) div 3"
  by (induction bytes rule: sextets.induct) simp_all

lemma join_sextets:
  "r < 16 \<Longrightarrow> a div 4 * 4 + (a mod 4 * 16 + r) div 16 = (a :: nat)"
  "b div 16 < 16 \<Longrightarrow> s < 4 \<Longrightarrow> (q * 16 + b div 16) mod 16 * 16 + (b mod 16 * 4 + s) div 4 = (b :: nat)"
  "c div 64 < 4 \<Longrightarrow> (q * 4 + c div 64) mod 4 * 64 + c mod 64 = (c :: nat)"
  by simp_all

lemma decode_sextets: "list_all (\<lambda>b. b < 256) bytes \<Longrightarrow> decode_values (sextets bytes) = Some bytes"
proof (induction bytes rule: sextets.induct)
  case (1 a b c rest)
  then have "b div 16 < 16" "c div 64 < 4" "decode_values (sextets rest) = Some rest" using byte_parts by simp_all
  then show ?case using join_sextets(1) [of "b div 16" a] join_sextets(2) [of b "c div 64" "a mod 4"] join_sextets(3) [of c "b mod 16"]
    by (simp only: sextets.simps append.simps decode_values.simps option.map)
next
  case (2 a b)
  then have "b div 16 < 16" using byte_parts by simp
  then show ?case using join_sextets(1) [of "b div 16" a] join_sextets(2) [of b 0 "a mod 4"]
    by (simp only: sextets.simps decode_values.simps) simp
next
  case (3 a)
  show ?case using join_sextets(1) [of 0 a] by (simp only: sextets.simps decode_values.simps) simp
qed simp

lemma decode_chars:
  assumes "list_all (\<lambda>n. n < 64) ns"
  shows "RawURLDecode (map url_char ns) = decode_values ns"
proof -
  have "filter (\<lambda>c. c \<noteq> CR \<and> c \<noteq> LF) (map url_char ns) = map url_char ns"
    using assms url_char_line by (auto simp: list_all_iff intro: filter_True)
  moreover have "list_all (\<lambda>c. url_value c \<noteq> None) (map url_char ns)"
    using assms url_value_char by (simp add: list_all_iff)
  moreover have "map (\<lambda>c. the (url_value c)) (map url_char ns) = ns"
    using assms url_value_char by (induction ns) simp_all
  ultimately show ?thesis by (simp add: RawURLDecode_def Let_def)
qed

lemma RawURL_roundtrip: "RawURLDecode (RawURLEncode bytes) = Some (map unat bytes)"
proof -
  have "unat b < 256" for b :: byte using unsigned_less [where 'b = 8, of b] by simp
  then have "list_all (\<lambda>b. b < 256) (map unat bytes)" by (simp add: list_all_iff)
  then show ?thesis
    unfolding RawURLEncode_def encode_sextets using decode_chars [OF sextets_small] decode_sextets by simp
qed

lemma RawURLEncode_inject: "RawURLEncode as = RawURLEncode bs \<Longrightarrow> as = bs"
proof -
  assume "RawURLEncode as = RawURLEncode bs"
  from arg_cong [OF this, of RawURLDecode] have "map unat as = map unat bs"
    unfolding RawURL_roundtrip by (rule option.inject [THEN iffD1])
  then show ?thesis by (rule map_injective) (simp add: inj_def unsigned_word_eqI)
qed

section \<open>Tokens and identifiers\<close>

definition idBytes :: nat where "idBytes = 16"
definition tokenBytes :: nat where "tokenBytes = 32"
definition unusedIDAttempts :: nat where "unusedIDAttempts = 8"

text \<open>\<open>io.ReadFull\<close>: all of the bytes, or an error and nothing left.\<close>

definition ReadFull :: "nat \<Rightarrow> byte list \<Rightarrow> byte list option \<times> byte list" where
  "ReadFull n random = (if length random < n then (None, []) else (Some (take n random), drop n random))"

definition Token :: "byte list \<Rightarrow> gostring option \<times> byte list" where
  "Token random = (case ReadFull tokenBytes random of
     (None, rest) \<Rightarrow> (None, rest) | (Some raw, rest) \<Rightarrow> (Some (RawURLEncode raw), rest))"

text \<open>43 characters: \<open>RawURLEncoding.EncodedLen(32)\<close>.\<close>

definition IsToken :: "gostring \<Rightarrow> bool" where
  "IsToken v \<longleftrightarrow> length v = (tokenBytes * 8 + 5) div 6 \<and>
     (case RawURLDecode v of None \<Rightarrow> False | Some bytes \<Rightarrow> length bytes = tokenBytes)"

datatype id_error = ErrExhausted | ErrRandom | ErrInUse

text \<open>\<open>inUse\<close> answers whether an identifier is taken, or fails.\<close>

fun unused_loop :: "nat \<Rightarrow> byte list \<Rightarrow> (gostring \<Rightarrow> bool option) \<Rightarrow> (id_error + gostring) \<times> byte list" where
  "unused_loop 0 random inUse = (Inl ErrExhausted, random)"
| "unused_loop (Suc n) random inUse =
     (case ReadFull idBytes random of
        (None, rest) \<Rightarrow> (Inl ErrRandom, rest)
      | (Some raw, rest) \<Rightarrow>
          (let ident = hex_encode raw in
           case inUse ident of
             None \<Rightarrow> (Inl ErrInUse, rest)
           | Some False \<Rightarrow> (Inr ident, rest)
           | Some True \<Rightarrow> unused_loop n rest inUse))"

definition UnusedID :: "byte list \<Rightarrow> (gostring \<Rightarrow> bool option) \<Rightarrow> (id_error + gostring) \<times> byte list" where
  "UnusedID random inUse = unused_loop unusedIDAttempts random inUse"

lemma Token_is_token: "Token random = (Some t, rest) \<Longrightarrow> IsToken t"
proof -
  assume "Token random = (Some t, rest)"
  then obtain raw where raw: "t = RawURLEncode raw" "length raw = 32"
    by (auto simp: Token_def ReadFull_def tokenBytes_def split: if_splits)
  have "length t = 43" by (simp add: raw RawURLEncode_def encode_sextets sextets_length)
  then show ?thesis using raw by (simp add: IsToken_def tokenBytes_def RawURL_roundtrip)
qed

lemma Token_drawn: "Token random = (Some t, rest) \<Longrightarrow> random = take 32 random @ rest \<and> t = RawURLEncode (take 32 random) \<and> 32 \<le> length random"
  by (auto simp: Token_def ReadFull_def tokenBytes_def split: if_splits)

lemma Token_nonempty: "Token random = (Some t, rest) \<Longrightarrow> t \<noteq> []"
  using Token_is_token [of random t rest] by (auto simp: IsToken_def tokenBytes_def)

lemma unused_loop_ok:
  "unused_loop n random inUse = (Inr ident, rest) \<Longrightarrow>
     inUse ident = Some False \<and> length ident = 32 \<and> (\<exists>k<n. rest = drop (16 * Suc k) random)"
proof (induction n arbitrary: random)
  case (Suc n)
  show ?case
  proof (cases "length random < 16")
    case False
    let ?ident = "hex_encode (take 16 random)"
    have read: "ReadFull idBytes random = (Some (take 16 random), drop 16 random)" using False by (simp add: ReadFull_def idBytes_def)
    have hex: "length (hex_encode bytes) = 2 * length bytes" for bytes by (induction bytes) (simp_all add: hex_encode_def)
    consider "inUse ?ident = Some False" | "inUse ?ident = Some True" using Suc.prems read by (cases "inUse ?ident") (auto simp: Let_def)
    then show ?thesis
    proof cases
      case 1
      then show ?thesis using Suc.prems read hex [of "take 16 random"] False by (auto simp: Let_def)
    next
      case 2
      then have "unused_loop n (drop 16 random) inUse = (Inr ident, rest)" using Suc.prems read by (simp add: Let_def)
      from Suc.IH [OF this] show ?thesis by (auto simp: add.commute)
    qed
  qed (use Suc.prems in \<open>simp add: ReadFull_def idBytes_def\<close>)
qed simp

text \<open>
  C39. Tokens and identifiers are what they should be: a token has the form that is accepted back,
  two tokens are equal only if their 32 random bytes are, and an identifier is one that is not in use,
  found after at most eight draws.
\<close>

theorem Token_and_UnusedID:
  assumes "Token r1 = (Some t1, s1)" and "Token r2 = (Some t2, s2)" and "UnusedID r3 inUse = (Inr ident, s3)"
  shows "IsToken t1 \<and> (t1 = t2 \<longleftrightarrow> take 32 r1 = take 32 r2) \<and>
    inUse ident = Some False \<and> length ident = 32 \<and> length r3 - length s3 \<le> 128"
proof -
  have "t1 = t2 \<longleftrightarrow> take 32 r1 = take 32 r2"
    using Token_drawn [OF assms(1)] Token_drawn [OF assms(2)] RawURLEncode_inject by metis
  moreover have "inUse ident = Some False \<and> length ident = 32 \<and> (\<exists>k<8. s3 = drop (16 * Suc k) r3)"
    using unused_loop_ok [of 8 r3 inUse ident s3] assms(3) by (simp add: UnusedID_def unusedIDAttempts_def)
  ultimately show ?thesis using Token_is_token [OF assms(1)] by auto
qed

theorem Token_and_UnusedID_witness:
  "IsToken (RawURLEncode (replicate 32 0)) \<and> length (hex_encode (replicate 16 7)) = 32"
proof -
  have t: "Token (replicate 32 0) = (Some (RawURLEncode (replicate 32 0)), [])"
    by (simp add: Token_def ReadFull_def tokenBytes_def)
  have u: "UnusedID (replicate 16 7) (\<lambda>_. Some False) = (Inr (hex_encode (replicate 16 7)), [])"
    by (simp add: UnusedID_def unusedIDAttempts_def eval_nat_numeral ReadFull_def idBytes_def)
  from Token_and_UnusedID [OF t t u] show ?thesis by blast
qed

end
