(* ===== verification/Sessions.thy ===== *)
theory Sessions
  imports RandomId "HOL-Library.AList"
begin

text \<open>
  Browser sessions (internal/session): the manager with its bootstrap token (manager.go), the CSRF
  tokens of a session (csrf_tokens.go) and the one-time tokens of a confirmed operation (action.go).

  SHA-256 is the parameter \<open>sha\<close>; the maps of the source are association lists with one entry for
  a key, so that their sizes can be counted; a time is a number of nanoseconds, 0 is the zero time.
  Every operation holds the manager's mutex, so it is one step.
\<close>

section \<open>State\<close>

datatype session_error =
    ErrInvalidBootstrap | ErrBootstrapUsed | ErrInvalidLifetime | ErrRandomSource
  | ErrInvalidAction | ErrActionExpired | ErrUnknownSession | ErrTooManyActions

record Credentials =
  crSessionID :: gostring
  crCSRFToken :: gostring

record issuedCSRFToken =
  ctHash :: gostring
  ctReplaced :: bool

record actionRecord =
  acHash :: gostring
  acKind :: gostring
  acTarget :: gostring
  acEvidence :: gostring
  acExpiresAt :: int

record Session =
  seTokens :: "issuedCSRFToken list"
  seActions :: "(gostring \<times> actionRecord) list"
  seExpiresAt :: int
  seIdleTimeout :: int
  seLastUsedAt :: int
  seInFlight :: int
  seRegistration :: gostring

record Expiry =
  exLifetime :: int
  exIdleTimeout :: int

record Manager =
  mgRandom :: "byte list"
  mgBootstrapHash :: gostring
  mgBootstrapUsed :: bool
  mgSessions :: "(gostring \<times> Session) list"
  mgNow :: int

definition BrowserSessionIdleTimeout :: int where "BrowserSessionIdleTimeout = 12 * 3600 * 1000000000"
definition BrowserSessionLifetime :: int where "BrowserSessionLifetime = 7 * 24 * 3600 * 1000000000"
definition lastUsedCoalesce :: int where "lastUsedCoalesce = 60 * 1000000000"
definition MaxCSRFTokensPerSession :: nat where "MaxCSRFTokensPerSession = 8"
definition ActionTokenTTL :: int where "ActionTokenTTL = 2 * 60 * 1000000000"
definition MaxActionTokensPerSession :: nat where "MaxActionTokensPerSession = 32"

definition browserExpiry :: Expiry where
  "browserExpiry = \<lparr>exLifetime = BrowserSessionLifetime, exIdleTimeout = BrowserSessionIdleTimeout\<rparr>"

section \<open>The CSRF tokens of a session\<close>

text \<open>\<open>subtle.ConstantTimeSelect\<close> keeps the last match; \<open>None\<close> is \<open>-1\<close>.\<close>

definition find_token :: "(gostring \<Rightarrow> gostring) \<Rightarrow> issuedCSRFToken list \<Rightarrow> gostring \<Rightarrow> nat option" where
  "find_token sha tokens presented =
     fold (\<lambda>i found. if ctHash (tokens ! i) = sha presented then Some i else found) [0..<length tokens] None"

definition newIssuedCSRFTokens :: "(gostring \<Rightarrow> gostring) \<Rightarrow> gostring \<Rightarrow> issuedCSRFToken list" where
  "newIssuedCSRFTokens sha csrf = [\<lparr>ctHash = sha csrf, ctReplaced = False\<rparr>]"

definition delete_at :: "nat \<Rightarrow> 'a list \<Rightarrow> 'a list" where
  "delete_at i xs = take i xs @ drop (Suc i) xs"

definition markUsed :: "nat \<Rightarrow> issuedCSRFToken list \<Rightarrow> issuedCSRFToken list" where
  "markUsed i tokens = delete_at i tokens @ [(tokens ! i)\<lparr>ctReplaced := False\<rparr>]"

definition markReplaced :: "nat \<Rightarrow> issuedCSRFToken list \<Rightarrow> issuedCSRFToken list" where
  "markReplaced i tokens =
     (let rest = delete_at i tokens; firstInUse = length (takeWhile ctReplaced rest) in
      take firstInUse rest @ [(tokens ! i)\<lparr>ctReplaced := True\<rparr>] @ drop firstInUse rest)"

definition add_token :: "(gostring \<Rightarrow> gostring) \<Rightarrow> gostring \<Rightarrow> issuedCSRFToken list \<Rightarrow> issuedCSRFToken list" where
  "add_token sha csrf tokens =
     drop (length tokens + 1 - MaxCSRFTokensPerSession) tokens @ [\<lparr>ctHash = sha csrf, ctReplaced = False\<rparr>]"

section \<open>The manager\<close>

definition draw :: "Manager \<Rightarrow> gostring option \<times> Manager" where
  "draw m = (case Token (mgRandom m) of (t, rest) \<Rightarrow> (t, m\<lparr>mgRandom := rest\<rparr>))"

definition NewManager :: "(gostring \<Rightarrow> gostring) \<Rightarrow> byte list \<Rightarrow> int \<Rightarrow> (Manager \<times> gostring) option" where
  "NewManager sha random now =
     (case Token random of
        (None, _) \<Rightarrow> None
      | (Some bootstrap, rest) \<Rightarrow>
          Some (\<lparr>mgRandom = rest, mgBootstrapHash = sha bootstrap, mgBootstrapUsed = False, mgSessions = [], mgNow = now\<rparr>, bootstrap))"

definition Reissue :: "(gostring \<Rightarrow> gostring) \<Rightarrow> Manager \<Rightarrow> Manager \<times> gostring option" where
  "Reissue sha m =
     (case draw m of
        (None, m) \<Rightarrow> (m, None)
      | (Some fresh, m) \<Rightarrow> (m\<lparr>mgBootstrapHash := sha fresh, mgBootstrapUsed := False\<rparr>, Some fresh))"

definition expired :: "Session \<Rightarrow> int \<Rightarrow> bool" where
  "expired s now \<longleftrightarrow>
     (seExpiresAt s \<noteq> 0 \<and> \<not> now < seExpiresAt s) \<or>
     (seIdleTimeout s > 0 \<and> seInFlight s = 0 \<and> now - seLastUsedAt s \<ge> seIdleTimeout s)"

definition pruneExpiredLocked :: "Manager \<Rightarrow> Manager" where
  "pruneExpiredLocked m = m\<lparr>mgSessions := filter (\<lambda>(key, s). \<not> expired s (mgNow m)) (mgSessions m)\<rparr>"

definition set_session :: "gostring \<Rightarrow> Session \<Rightarrow> Manager \<Rightarrow> Manager" where
  "set_session key s m = m\<lparr>mgSessions := AList.update key s (mgSessions m)\<rparr>"

definition delete_session :: "gostring \<Rightarrow> Manager \<Rightarrow> Manager" where
  "delete_session key m = m\<lparr>mgSessions := AList.delete key (mgSessions m)\<rparr>"

definition sessionLocked :: "(gostring \<Rightarrow> gostring) \<Rightarrow> gostring \<Rightarrow> Manager \<Rightarrow> Manager \<times> Session option" where
  "sessionLocked sha sessionID m =
     (let key = sha sessionID in
      case map_of (mgSessions m) key of
        None \<Rightarrow> (m, None)
      | Some s \<Rightarrow>
          (if expired s (mgNow m) then (delete_session key m, None)
           else if mgNow m - seLastUsedAt s \<ge> lastUsedCoalesce
           then (let s' = s\<lparr>seLastUsedAt := mgNow m\<rparr> in (set_session key s' m, Some s'))
           else (m, Some s)))"

definition new_session :: "(gostring \<Rightarrow> gostring) \<Rightarrow> gostring \<Rightarrow> int \<Rightarrow> Expiry \<Rightarrow> Session" where
  "new_session sha csrf now expiry =
     \<lparr>seTokens = newIssuedCSRFTokens sha csrf, seActions = [], seExpiresAt = now + exLifetime expiry,
      seIdleTimeout = exIdleTimeout expiry, seLastUsedAt = now, seInFlight = 0, seRegistration = []\<rparr>"

definition issueLocked :: "(gostring \<Rightarrow> gostring) \<Rightarrow> Expiry \<Rightarrow> Manager \<Rightarrow> Manager \<times> Credentials option" where
  "issueLocked sha expiry m =
     (case draw m of
        (None, m) \<Rightarrow> (m, None)
      | (Some sessionID, m) \<Rightarrow>
          (case draw m of
             (None, m) \<Rightarrow> (m, None)
           | (Some csrf, m) \<Rightarrow>
               (set_session (sha sessionID) (new_session sha csrf (mgNow m) expiry) m,
                Some \<lparr>crSessionID = sessionID, crCSRFToken = csrf\<rparr>)))"

definition issueBrowserLocked :: "(gostring \<Rightarrow> gostring) \<Rightarrow> Manager \<Rightarrow> Manager \<times> Credentials option" where
  "issueBrowserLocked sha m = issueLocked sha browserExpiry (pruneExpiredLocked m)"

definition IssueExpiring :: "(gostring \<Rightarrow> gostring) \<Rightarrow> Expiry \<Rightarrow> Manager \<Rightarrow> Manager \<times> (session_error + Credentials)" where
  "IssueExpiring sha expiry m =
     (if exLifetime expiry \<le> 0 \<or> exIdleTimeout expiry < 0 then (m, Inl ErrInvalidLifetime)
      else (case issueLocked sha expiry (pruneExpiredLocked m) of
              (m, None) \<Rightarrow> (m, Inl ErrRandomSource) | (m, Some c) \<Rightarrow> (m, Inr c)))"

text \<open>The credentials and whether the cookie is to be set.\<close>

definition joinOrIssueLocked :: "(gostring \<Rightarrow> gostring) \<Rightarrow> gostring \<Rightarrow> Manager \<Rightarrow> Manager \<times> (Credentials \<times> bool) option" where
  "joinOrIssueLocked sha existingSessionID m =
     (case sessionLocked sha existingSessionID m of
        (m, Some existing) \<Rightarrow>
          (case draw m of
             (None, m) \<Rightarrow> (m, None)
           | (Some csrf, m) \<Rightarrow>
               (set_session (sha existingSessionID) (existing\<lparr>seTokens := add_token sha csrf (seTokens existing)\<rparr>) m,
                Some (\<lparr>crSessionID = existingSessionID, crCSRFToken = csrf\<rparr>, False)))
      | (m, None) \<Rightarrow>
          (case issueBrowserLocked sha m of (m, None) \<Rightarrow> (m, None) | (m, Some c) \<Rightarrow> (m, Some (c, True))))"

definition BootstrapForSession ::
  "(gostring \<Rightarrow> gostring) \<Rightarrow> gostring \<Rightarrow> gostring \<Rightarrow> Manager \<Rightarrow> Manager \<times> (session_error + (Credentials \<times> bool))" where
  "BootstrapForSession sha presented existingSessionID m =
     (if mgBootstrapUsed m then (m, Inl ErrBootstrapUsed)
      else if sha presented \<noteq> mgBootstrapHash m then (m, Inl ErrInvalidBootstrap)
      else (case joinOrIssueLocked sha existingSessionID m of
              (m, None) \<Rightarrow> (m, Inl ErrRandomSource)
            | (m, Some r) \<Rightarrow> (m\<lparr>mgBootstrapUsed := True\<rparr>, Inr r)))"

text \<open>The zero value of a session that is not in the map, as Go reads it.\<close>

definition zero_session :: Session where
  "zero_session = \<lparr>seTokens = [], seActions = [], seExpiresAt = 0, seIdleTimeout = 0, seLastUsedAt = 0, seInFlight = 0, seRegistration = []\<rparr>"

definition JoinOrIssue ::
  "(gostring \<Rightarrow> gostring) \<Rightarrow> gostring \<Rightarrow> gostring \<Rightarrow> Manager \<Rightarrow> Manager \<times> (Credentials \<times> bool) option" where
  "JoinOrIssue sha existingSessionID registration m =
     (case joinOrIssueLocked sha existingSessionID m of
        (m, None) \<Rightarrow> (m, None)
      | (m, Some (c, setCookie)) \<Rightarrow>
          (let key = sha (crSessionID c);
               entered = (case map_of (mgSessions m) key of Some s \<Rightarrow> s | None \<Rightarrow> zero_session) in
           (set_session key (entered\<lparr>seRegistration := registration\<rparr>) m, Some (c, setCookie))))"

definition RevokeRegistration :: "gostring \<Rightarrow> Manager \<Rightarrow> Manager \<times> nat" where
  "RevokeRegistration registration m =
     (if registration = [] then (m, 0)
      else
        (let kept = filter (\<lambda>(key, s). seRegistration s \<noteq> registration) (mgSessions m) in
         (m\<lparr>mgSessions := kept\<rparr>, length (mgSessions m) - length kept)))"

definition Revoke :: "(gostring \<Rightarrow> gostring) \<Rightarrow> gostring \<Rightarrow> Manager \<Rightarrow> Manager \<times> bool" where
  "Revoke sha sessionID m =
     (case map_of (mgSessions m) (sha sessionID) of
        None \<Rightarrow> (m, False) | Some _ \<Rightarrow> (delete_session (sha sessionID) m, True))"

definition RenewCSRF :: "(gostring \<Rightarrow> gostring) \<Rightarrow> gostring \<Rightarrow> gostring \<Rightarrow> Manager \<Rightarrow> Manager \<times> gostring option" where
  "RenewCSRF sha sessionID presented m =
     (case sessionLocked sha sessionID m of
        (m, None) \<Rightarrow> (m, None)
      | (m, Some existing) \<Rightarrow>
          (case find_token sha (seTokens existing) presented of
             None \<Rightarrow> (m, None)
           | Some i \<Rightarrow>
               (case draw m of
                  (None, m) \<Rightarrow> (m, None)
                | (Some csrf, m) \<Rightarrow>
                    (let tokens = add_token sha csrf (markUsed i (seTokens existing)) in
                     (set_session (sha sessionID) (existing\<lparr>seTokens := markReplaced (length tokens - 2) tokens\<rparr>) m, Some csrf)))))"

text \<open>The request that began returns its end, which is applied to the manager of that moment.\<close>

definition BeginRequest :: "(gostring \<Rightarrow> gostring) \<Rightarrow> gostring \<Rightarrow> Manager \<Rightarrow> Manager \<times> bool" where
  "BeginRequest sha sessionID m =
     (case sessionLocked sha sessionID m of
        (m, None) \<Rightarrow> (m, False)
      | (m, Some s) \<Rightarrow> (set_session (sha sessionID) (s\<lparr>seInFlight := seInFlight s + 1\<rparr>) m, True))"

definition endRequest :: "gostring \<Rightarrow> Manager \<Rightarrow> Manager" where
  "endRequest key m =
     (case map_of (mgSessions m) key of
        None \<Rightarrow> m
      | Some s \<Rightarrow> set_session key (s\<lparr>seInFlight := seInFlight s - 1, seLastUsedAt := mgNow m\<rparr>) m)"

definition VerifyCSRF :: "(gostring \<Rightarrow> gostring) \<Rightarrow> gostring \<Rightarrow> gostring \<Rightarrow> Manager \<Rightarrow> Manager \<times> bool" where
  "VerifyCSRF sha sessionID csrf m =
     (case sessionLocked sha sessionID m of
        (m, None) \<Rightarrow> (m, False)
      | (m, Some s) \<Rightarrow>
          (case find_token sha (seTokens s) csrf of
             None \<Rightarrow> (m, False)
           | Some i \<Rightarrow> (set_session (sha sessionID) (s\<lparr>seTokens := markUsed i (seTokens s)\<rparr>) m, True)))"

section \<open>Tokens of a confirmed operation\<close>

definition knownActionKinds :: "gostring list" where
  "knownActionKinds =
     [''diagnostics.reachability'', ''diagnostics.authentication'', ''known_hosts.delete'', ''known_hosts.scan'', ''known_hosts.add'',
      ''remote_key.register'', ''private_key.reveal'', ''credential.reveal'', ''vpn_profile.reveal'', ''trash.purge'', ''sftp.delete'',
      ''sftp.chmod'', ''sftp.symlink'', ''sftp.symlink.create'', ''sftp.ownership'', ''snippet.execute'',
      ''terminal.command.broadcast'', ''sync.force_push'', ''update.install'']"

definition KnownActionKind :: "gostring \<Rightarrow> bool" where "KnownActionKind kind \<longleftrightarrow> kind \<in> set knownActionKinds"

record ActionRequest =
  arKind :: gostring
  arTarget :: gostring
  arEvidence :: gostring

definition expireLocked :: "int \<Rightarrow> Session \<Rightarrow> Session" where
  "expireLocked now s = s\<lparr>seActions := filter (\<lambda>(hash, r). \<not> now > acExpiresAt r) (seActions s)\<rparr>"

definition IssueAction ::
  "(gostring \<Rightarrow> gostring) \<Rightarrow> gostring \<Rightarrow> ActionRequest \<Rightarrow> Manager \<Rightarrow> Manager \<times> (session_error + gostring)" where
  "IssueAction sha sessionID request m0 =
     (if \<not> KnownActionKind (arKind request) \<or> arTarget request = [] then (m0, Inl ErrInvalidAction)
      else
        (case sessionLocked sha sessionID m0 of
           (m, None) \<Rightarrow> (m, Inl ErrUnknownSession)
         | (m, Some s0) \<Rightarrow>
             (let s = expireLocked (mgNow m) s0; m = set_session (sha sessionID) s m in
              if length (seActions s) \<ge> MaxActionTokensPerSession then (m, Inl ErrTooManyActions)
              else
                (case draw m of
                   (None, m) \<Rightarrow> (m, Inl ErrRandomSource)
                 | (Some v, m) \<Rightarrow>
                     (let r = \<lparr>acHash = sha v, acKind = arKind request, acTarget = arTarget request,
                        acEvidence = arEvidence request, acExpiresAt = mgNow m + ActionTokenTTL\<rparr> in
                      (set_session (sha sessionID) (s\<lparr>seActions := AList.update (sha v) r (seActions s)\<rparr>) m, Inr v))))))"

definition ConsumeAction ::
  "(gostring \<Rightarrow> gostring) \<Rightarrow> gostring \<Rightarrow> gostring \<Rightarrow> ActionRequest \<Rightarrow> Manager \<Rightarrow> Manager \<times> session_error option" where
  "ConsumeAction sha sessionID presented request m0 =
     (case sessionLocked sha sessionID m0 of
        (m, None) \<Rightarrow> (m, Some ErrUnknownSession)
      | (m, Some s) \<Rightarrow>
          (case map_of (seActions s) (sha presented) of
             None \<Rightarrow> (m, Some ErrInvalidAction)
           | Some r \<Rightarrow>
               (let s = expireLocked (mgNow m) (s\<lparr>seActions := AList.delete (sha presented) (seActions s)\<rparr>);
                    m = set_session (sha sessionID) s m in
                if mgNow m > acExpiresAt r then (m, Some ErrActionExpired)
                else if sha presented = acHash r \<and> acKind r = arKind request \<and> acTarget r = arTarget request \<and> acEvidence r = arEvidence request
                then (m, None)
                else (m, Some ErrInvalidAction))))"

end
