(* ===== verification/BrowserAuth.thy ===== *)
theory BrowserAuth
  imports Sessions
begin

text \<open>
  Registrations of browsers (internal/browserauth: store.go, rotations.go, identifiers.go,
  entrance.go): the token that a browser keeps to come back after a restart, its rotation with a
  grace for other tabs, the detection of a copied token, and the sessions that fall with it.

  The document is a value: the JSON text is not modelled, only whether a schema version and a
  document can be read from it. SHA-256 is the parameter \<open>sha\<close>. A write either succeeds as a whole
  or leaves the file alone. Times are nanoseconds, 0 is the zero time.
\<close>

section \<open>State\<close>

definition SchemaVersion :: int where "SchemaVersion = 3"
definition MaxRegistrations :: nat where "MaxRegistrations = 16"
definition RegistrationLifetime :: int where "RegistrationLifetime = 30 * 24 * 3600 * 1000000000"
definition rotationGrace :: int where "rotationGrace = 60 * 1000000000"
definition MaxRetiredTokens :: nat where "MaxRetiredTokens = 64"

record registration =
  brHash :: gostring
  brRetired :: "gostring list"
  brIssuedAt :: int
  brLastUsedAt :: int

record document =
  dcSchemaVersion :: int
  dcPort :: int
  dcRegistrations :: "registration list"

datatype stored_file = NoFile | Unreadable | Contents "int option" "document option"

record rotation =
  roToken :: gostring
  roUntil :: int

record Store =
  bsDisk :: stored_file
  bsWritable :: bool
  bsRandom :: "byte list"
  bsNow :: int
  bsRotations :: "(gostring \<times> rotation) list"
  bsByHash :: "(gostring \<times> gostring) list"
  bsIssued :: nat

record Recovery =
  rcToken :: gostring
  rcRegistration :: gostring
  rcStolen :: gostring

datatype store_error = ErrInvalidDocument | ErrReadFile | ErrWriteFile | ErrNoRandom

definition no_recovery :: Recovery where "no_recovery = \<lparr>rcToken = [], rcRegistration = [], rcStolen = []\<rparr>"

definition rc_Accepted :: "Recovery \<Rightarrow> bool" where "rc_Accepted r \<longleftrightarrow> rcToken r \<noteq> []"

definition EnginePort_ok :: "int \<Rightarrow> bool" where "EnginePort_ok port \<longleftrightarrow> \<not> (port < 1024 \<or> port > 65535)"

definition hashToken :: "(gostring \<Rightarrow> byte list) \<Rightarrow> gostring \<Rightarrow> gostring" where
  "hashToken sha token = RawURLEncode (sha token)"

definition validHash :: "gostring \<Rightarrow> bool" where
  "validHash encoded \<longleftrightarrow> (case RawURLDecode encoded of None \<Rightarrow> False | Some bytes \<Rightarrow> length bytes = 32)"

section \<open>Identifiers of this process\<close>

definition id_of :: "gostring \<Rightarrow> Store \<Rightarrow> Store \<times> gostring" where
  "id_of hash s =
     (case map_of (bsByHash s) hash of
        Some ident \<Rightarrow> (s, ident)
      | None \<Rightarrow>
          (let n = bsIssued s + 1; ident = ''registration-'' @ FormatUint n in
           (s\<lparr>bsIssued := n, bsByHash := AList.update hash ident (bsByHash s)\<rparr>, ident)))"

definition id_rotate :: "gostring \<Rightarrow> gostring \<Rightarrow> Store \<Rightarrow> Store \<times> gostring" where
  "id_rotate previousHash newHash s =
     (case id_of previousHash s of
        (s, ident) \<Rightarrow> (s\<lparr>bsByHash := AList.update newHash ident (AList.delete previousHash (bsByHash s))\<rparr>, ident))"

section \<open>Looking registrations up\<close>

definition currentHash :: "registration \<Rightarrow> gostring list" where "currentHash r = [brHash r]"
definition retiredHashes :: "registration \<Rightarrow> gostring list" where "retiredHashes r = brRetired r"

text \<open>The last match, as the constant-time loop leaves it.\<close>

definition indexOf :: "registration list \<Rightarrow> gostring \<Rightarrow> (registration \<Rightarrow> gostring list) \<Rightarrow> nat option" where
  "indexOf regs hash field =
     fold (\<lambda>i found. if list_ex (\<lambda>c. c \<noteq> [] \<and> c = hash) (field (regs ! i)) then Some i else found) [0..<length regs] None"

definition retire :: "gostring list \<Rightarrow> gostring \<Rightarrow> gostring list" where
  "retire retired hash = (let r = retired @ [hash] in if length r > MaxRetiredTokens then drop (length r - MaxRetiredTokens) r else r)"

definition live :: "Store \<Rightarrow> registration list \<Rightarrow> registration list" where
  "live s regs = filter (\<lambda>r. bsNow s < brLastUsedAt r + RegistrationLifetime) regs"

definition used_before :: "registration \<Rightarrow> registration \<Rightarrow> bool" where
  "used_before entry candidate \<longleftrightarrow> brLastUsedAt entry < brLastUsedAt candidate \<or>
     (brLastUsedAt entry = brLastUsedAt candidate \<and> brIssuedAt entry < brIssuedAt candidate)"

definition leastRecentlyUsed :: "registration list \<Rightarrow> nat" where
  "leastRecentlyUsed regs = fold (\<lambda>i oldest. if used_before (regs ! i) (regs ! oldest) then i else oldest) [0..<length regs] 0"

definition keepOnly :: "registration list \<Rightarrow> Store \<Rightarrow> Store" where
  "keepOnly regs s = s\<lparr>bsByHash := filter (\<lambda>(hash, _). indexOf regs hash currentHash \<noteq> None) (bsByHash s)\<rparr>"

definition pruneRotations :: "(gostring \<Rightarrow> byte list) \<Rightarrow> registration list \<Rightarrow> Store \<Rightarrow> Store" where
  "pruneRotations sha regs s =
     keepOnly regs (s\<lparr>bsRotations := filter (\<lambda>(hash, ro). \<not> (\<not> bsNow s < roUntil ro \<or>
        indexOf regs (hashToken sha (roToken ro)) currentHash = None)) (bsRotations s)\<rparr>)"

definition rotateCachedTokens :: "(gostring \<Rightarrow> byte list) \<Rightarrow> gostring \<Rightarrow> gostring \<Rightarrow> int \<Rightarrow> Store \<Rightarrow> Store" where
  "rotateCachedTokens sha previousHash token until s =
     s\<lparr>bsRotations := AList.update previousHash \<lparr>roToken = token, roUntil = until\<rparr>
        (map (\<lambda>(hash, ro). (hash, if hashToken sha (roToken ro) = previousHash then ro\<lparr>roToken := token\<rparr> else ro)) (bsRotations s))\<rparr>"

section \<open>The document on disk\<close>

definition empty_document :: document where
  "empty_document = \<lparr>dcSchemaVersion = SchemaVersion, dcPort = 0, dcRegistrations = []\<rparr>"

fun entries_ok :: "gostring list \<Rightarrow> registration list \<Rightarrow> bool" where
  "entries_ok seen [] = True"
| "entries_ok seen (r # rs) =
     (if \<not> validHash (brHash r) \<or> brHash r \<in> set seen \<or> length (brRetired r) > MaxRetiredTokens \<or> brIssuedAt r = 0 \<or> brLastUsedAt r = 0 then False
      else if list_ex (\<lambda>h. \<not> validHash h) (brRetired r) then False
      else entries_ok (brHash r # seen) rs)"

definition load :: "Store \<Rightarrow> store_error + document" where
  "load s =
     (case bsDisk s of
        NoFile \<Rightarrow> Inr empty_document
      | Unreadable \<Rightarrow> Inl ErrReadFile
      | Contents header decoded \<Rightarrow>
          (if (case header of Some v \<Rightarrow> v > 0 \<and> v < SchemaVersion | None \<Rightarrow> False) then Inr empty_document
           else (case decoded of
                   None \<Rightarrow> Inl ErrInvalidDocument
                 | Some d \<Rightarrow>
                     (if dcSchemaVersion d \<noteq> SchemaVersion \<or> length (dcRegistrations d) > MaxRegistrations \<or>
                          (dcPort d \<noteq> 0 \<and> \<not> EnginePort_ok (dcPort d)) then Inl ErrInvalidDocument
                      else if \<not> entries_ok [] (dcRegistrations d) then Inl ErrInvalidDocument
                      else Inr d))))"

definition store_write :: "document \<Rightarrow> Store \<Rightarrow> Store \<times> bool" where
  "store_write d s =
     (if bsWritable s then (s\<lparr>bsDisk := Contents (Some SchemaVersion) (Some (d\<lparr>dcSchemaVersion := SchemaVersion\<rparr>))\<rparr>, True) else (s, False))"

definition store_draw :: "Store \<Rightarrow> gostring option \<times> Store" where
  "store_draw s = (case Token (bsRandom s) of (t, rest) \<Rightarrow> (t, s\<lparr>bsRandom := rest\<rparr>))"

section \<open>The operations\<close>

definition HasRegistrations :: "Store \<Rightarrow> store_error + bool" where
  "HasRegistrations s = (case load s of Inl e \<Rightarrow> Inl e | Inr d \<Rightarrow> Inr (live s (dcRegistrations d) \<noteq> []))"

definition SetPort :: "int \<Rightarrow> Store \<Rightarrow> Store \<times> store_error option" where
  "SetPort port s =
     (if \<not> EnginePort_ok port then (s, Some ErrInvalidDocument)
      else (case load s of
              Inl e \<Rightarrow> (s, Some e)
            | Inr d \<Rightarrow>
                (if dcPort d = port then (s, None)
                 else (case store_write (d\<lparr>dcPort := port, dcRegistrations := []\<rparr>) (s\<lparr>bsRotations := []\<rparr>) of
                         (s, True) \<Rightarrow> (s, None) | (s, False) \<Rightarrow> (s, Some ErrWriteFile)))))"

definition valid_rotation :: "gostring \<Rightarrow> Store \<Rightarrow> rotation option" where
  "valid_rotation hash s =
     (case map_of (bsRotations s) hash of Some recent \<Rightarrow> (if bsNow s < roUntil recent then Some recent else None) | None \<Rightarrow> None)"

definition remove_at :: "nat \<Rightarrow> 'a list \<Rightarrow> 'a list" where
  "remove_at i xs = take i xs @ drop (i + 1) xs"

definition rotated :: "(gostring \<Rightarrow> byte list) \<Rightarrow> gostring \<Rightarrow> int \<Rightarrow> registration \<Rightarrow> registration" where
  "rotated sha token now r = r\<lparr>brRetired := retire (brRetired r) (brHash r), brHash := hashToken sha token, brLastUsedAt := now\<rparr>"

definition Recover :: "(gostring \<Rightarrow> byte list) \<Rightarrow> gostring \<Rightarrow> Store \<Rightarrow> Store \<times> (store_error + Recovery)" where
  "Recover sha presented s0 =
     (if \<not> IsToken presented then (s0, Inr no_recovery)
      else (case load s0 of
        Inl e \<Rightarrow> (s0, Inl e)
      | Inr d \<Rightarrow>
          (let hash = hashToken sha presented; regs = live s0 (dcRegistrations d); s = pruneRotations sha regs s0 in
           case indexOf regs hash currentHash of
             Some i \<Rightarrow>
               (case store_draw s of
                  (None, s) \<Rightarrow> (s, Inl ErrNoRandom)
                | (Some token, s) \<Rightarrow>
                    (case store_write (d\<lparr>dcRegistrations := regs[i := rotated sha token (bsNow s) (regs ! i)]\<rparr>) s of
                       (s, False) \<Rightarrow> (s, Inl ErrWriteFile)
                     | (s, True) \<Rightarrow>
                         (case id_rotate hash (hashToken sha token) (rotateCachedTokens sha hash token (bsNow s + rotationGrace) s) of
                            (s, ident) \<Rightarrow> (s, Inr (no_recovery\<lparr>rcToken := token, rcRegistration := ident\<rparr>)))))
           | None \<Rightarrow>
               (case valid_rotation hash s of
                  Some recent \<Rightarrow>
                    (case id_of (hashToken sha (roToken recent)) s of
                       (s, ident) \<Rightarrow> (s, Inr (no_recovery\<lparr>rcToken := roToken recent, rcRegistration := ident\<rparr>)))
                | None \<Rightarrow>
                    (case indexOf regs hash retiredHashes of
                       None \<Rightarrow> (s, Inr no_recovery)
                     | Some i \<Rightarrow>
                         (case id_of (brHash (regs ! i)) s of
                            (s, stolen) \<Rightarrow>
                              (case store_write (d\<lparr>dcRegistrations := remove_at i regs\<rparr>) s of
                                 (s, False) \<Rightarrow> (s, Inl ErrWriteFile)
                               | (s, True) \<Rightarrow> (pruneRotations sha (remove_at i regs) s, Inr (no_recovery\<lparr>rcStolen := stolen\<rparr>)))))))))"

text \<open>The registration that a token names: by its current hash, a retired one, or a rotation.\<close>

definition named_by :: "(gostring \<Rightarrow> byte list) \<Rightarrow> registration list \<Rightarrow> gostring \<Rightarrow> Store \<Rightarrow> nat option" where
  "named_by sha regs hash s =
     (case indexOf regs hash currentHash of
        Some i \<Rightarrow> Some i
      | None \<Rightarrow>
          (case indexOf regs hash retiredHashes of
             Some i \<Rightarrow> Some i
           | None \<Rightarrow>
               (case map_of (bsRotations s) hash of
                  Some recent \<Rightarrow> indexOf regs (hashToken sha (roToken recent)) currentHash
                | None \<Rightarrow> None)))"

definition Forget :: "(gostring \<Rightarrow> byte list) \<Rightarrow> gostring \<Rightarrow> Store \<Rightarrow> Store \<times> (store_error + gostring)" where
  "Forget sha presented s0 =
     (if \<not> IsToken presented then (s0, Inr [])
      else (case load s0 of
        Inl e \<Rightarrow> (s0, Inl e)
      | Inr d \<Rightarrow>
          (let regs = live s0 (dcRegistrations d); s = pruneRotations sha regs s0 in
           case named_by sha regs (hashToken sha presented) s of
             None \<Rightarrow> (s, Inr [])
           | Some i \<Rightarrow>
               (case id_of (brHash (regs ! i)) s of
                  (s, forgotten) \<Rightarrow>
                    (case store_write (d\<lparr>dcRegistrations := remove_at i regs\<rparr>) s of
                       (s, False) \<Rightarrow> (s, Inl ErrWriteFile)
                     | (s, True) \<Rightarrow> (pruneRotations sha (remove_at i regs) s, Inr forgotten))))))"

text \<open>The new token, if one was issued.\<close>

definition Register :: "(gostring \<Rightarrow> byte list) \<Rightarrow> gostring \<Rightarrow> Store \<Rightarrow> Store \<times> (store_error + gostring option)" where
  "Register sha presented s0 =
     (case load s0 of
        Inl e \<Rightarrow> (s0, Inl e)
      | Inr d \<Rightarrow>
          (let regs = live s0 (dcRegistrations d); s = pruneRotations sha regs s0 in
           case (if IsToken presented then indexOf regs (hashToken sha presented) currentHash else None) of
             Some i \<Rightarrow>
               (case store_write (d\<lparr>dcRegistrations := regs[i := (regs ! i)\<lparr>brLastUsedAt := bsNow s\<rparr>]\<rparr>) s of
                  (s, True) \<Rightarrow> (s, Inr None) | (s, False) \<Rightarrow> (s, Inl ErrWriteFile))
           | None \<Rightarrow>
               (case store_draw s of
                  (None, s) \<Rightarrow> (s, Inl ErrNoRandom)
                | (Some token, s) \<Rightarrow>
                    (let kept = (if length regs \<ge> MaxRegistrations then remove_at (leastRecentlyUsed regs) regs else regs);
                         all = kept @ [\<lparr>brHash = hashToken sha token, brRetired = [], brIssuedAt = bsNow s, brLastUsedAt = bsNow s\<rparr>] in
                     (case store_write (d\<lparr>dcRegistrations := all\<rparr>) s of
                        (s, False) \<Rightarrow> (s, Inl ErrWriteFile)
                      | (s, True) \<Rightarrow> (pruneRotations sha all s, Inr (Some token)))))))"

section \<open>The entrance\<close>

record Entry =
  enCredentials :: Credentials
  enSetCookie :: bool
  enBrowserToken :: gostring

datatype entrance_error = ErrRegistrationRejected | ErrSessionNotIssued | ErrStore store_error

text \<open>\<open>msha\<close> is SHA-256 as the manager keeps it.\<close>

definition entrance_Recover ::
  "(gostring \<Rightarrow> byte list) \<Rightarrow> (gostring \<Rightarrow> gostring) \<Rightarrow> gostring \<Rightarrow> gostring \<Rightarrow> Store \<times> Manager \<Rightarrow>
     (Store \<times> Manager) \<times> (entrance_error + Entry)" where
  "entrance_Recover sha msha existingSessionID presented st =
     (case Recover sha presented (fst st) of
        (s, Inl e) \<Rightarrow> ((s, snd st), Inl (ErrStore e))
      | (s, Inr recovery) \<Rightarrow>
          (let m = fst (RevokeRegistration (rcStolen recovery) (snd st)) in
           if \<not> rc_Accepted recovery then ((s, m), Inl ErrRegistrationRejected)
           else (case JoinOrIssue msha existingSessionID (rcRegistration recovery) m of
                   (m, None) \<Rightarrow> ((s, m), Inl ErrSessionNotIssued)
                 | (m, Some (credentials, setCookie)) \<Rightarrow>
                     ((s, m), Inr \<lparr>enCredentials = credentials, enSetCookie = setCookie, enBrowserToken = rcToken recovery\<rparr>))))"

definition entrance_SignOut ::
  "(gostring \<Rightarrow> byte list) \<Rightarrow> (gostring \<Rightarrow> gostring) \<Rightarrow> gostring \<Rightarrow> gostring \<Rightarrow> Store \<times> Manager \<Rightarrow>
     (Store \<times> Manager) \<times> store_error option" where
  "entrance_SignOut sha msha sessionID presented st =
     (if presented \<noteq> [] then
        (case Forget sha presented (fst st) of
           (s, Inl e) \<Rightarrow> ((s, snd st), Some e)
         | (s, Inr forgotten) \<Rightarrow>
             ((s, fst (Revoke msha sessionID (fst (RevokeRegistration forgotten (snd st))))), None))
      else ((fst st, fst (Revoke msha sessionID (snd st))), None))"

end
