(* ===== verification/SessionSafety.thy ===== *)
theory SessionSafety
  imports Sessions
begin

text \<open>
  What the session manager keeps under every sequence of its operations: bounds of the tokens, one
  entry for a key, and that a confirmed operation runs only if its token was issued for it.
\<close>

section \<open>Lists of tokens\<close>

lemma find_token_bound: "find_token sha tokens presented = Some i \<Longrightarrow> i < length tokens \<and> ctHash (tokens ! i) = sha presented"
  unfolding find_token_def by (rule last_index(1))

lemma find_token_None: "find_token sha tokens presented = None \<longleftrightarrow> sha presented \<notin> ctHash ` set tokens"
proof -
  have "find_token sha tokens presented = None \<longleftrightarrow> (\<forall>i<length tokens. ctHash (tokens ! i) \<noteq> sha presented)"
    unfolding find_token_def by (rule last_index(2))
  also have "\<dots> \<longleftrightarrow> (\<forall>t \<in> set tokens. ctHash t \<noteq> sha presented)" by (simp add: all_set_conv_all_nth)
  also have "\<dots> \<longleftrightarrow> sha presented \<notin> ctHash ` set tokens" unfolding image_iff by metis
  finally show ?thesis .
qed

lemma mark_lengths [simp]:
  "i < length tokens \<Longrightarrow> length (markUsed i tokens) = length tokens"
  "i < length tokens \<Longrightarrow> length (markReplaced i tokens) = length tokens"
proof -
  assume i: "i < length tokens"
  then have d: "length (delete_at i tokens) = length tokens - 1" by (auto simp: delete_at_def min_def)
  then show "length (markUsed i tokens) = length tokens" using i by (simp add: markUsed_def)
  have "length (takeWhile ctReplaced (delete_at i tokens)) \<le> length (delete_at i tokens)" by (rule length_takeWhile_le)
  then show "length (markReplaced i tokens) = length tokens" using i d by (simp add: markReplaced_def Let_def)
qed

lemma add_token_length: "length (add_token sha csrf tokens) \<le> MaxCSRFTokensPerSession \<and> 0 < length (add_token sha csrf tokens)"
  by (simp add: add_token_def MaxCSRFTokensPerSession_def)

section \<open>Association lists\<close>

lemma update_entries: "set (AList.update k v xs) \<subseteq> insert (k, v) (set xs)"
  by (induction xs) auto

lemma delete_entries: "set (AList.delete k xs) \<subseteq> set xs"
  by (auto simp: AList.delete_eq)

lemma update_length: "length (AList.update k v xs) \<le> Suc (length xs)"
  by (induction xs) auto

section \<open>The invariant\<close>

definition session_ok :: "Session \<Rightarrow> bool" where
  "session_ok s \<longleftrightarrow> length (seTokens s) \<le> MaxCSRFTokensPerSession \<and> length (seActions s) \<le> MaxActionTokensPerSession \<and>
     distinct (map fst (seActions s)) \<and> list_all (\<lambda>(h, r). acHash r = h) (seActions s)"

definition manager_ok :: "Manager \<Rightarrow> bool" where
  "manager_ok m \<longleftrightarrow> distinct (map fst (mgSessions m)) \<and> list_all (\<lambda>(key, s). session_ok s) (mgSessions m)"

definition actions_of :: "Manager \<Rightarrow> gostring \<Rightarrow> (gostring \<times> actionRecord) list" where
  "actions_of m key = (case map_of (mgSessions m) key of Some s \<Rightarrow> seActions s | None \<Rightarrow> [])"

text \<open>A step that keeps the invariant, keeps the clock and adds no token of an operation.\<close>

definition tame :: "Manager \<Rightarrow> Manager \<Rightarrow> bool" where
  "tame m m' \<longleftrightarrow> manager_ok m' \<and> mgNow m' = mgNow m \<and> (\<forall>key. set (actions_of m' key) \<subseteq> set (actions_of m key))"

lemma tame_refl: "manager_ok m \<Longrightarrow> tame m m"
  by (simp add: tame_def)

lemma tame_trans: "tame m m' \<Longrightarrow> tame m' m'' \<Longrightarrow> tame m m''"
  unfolding tame_def by (metis subset_trans)

lemma tame_ok: "tame m m' \<Longrightarrow> manager_ok m'"
  by (simp add: tame_def)

lemma session_in: "manager_ok m \<Longrightarrow> map_of (mgSessions m) key = Some s \<Longrightarrow> session_ok s"
  by (auto simp: manager_ok_def list_all_iff dest: map_of_SomeD)

lemma tame_same_sessions: "manager_ok m \<Longrightarrow> mgSessions m' = mgSessions m \<Longrightarrow> mgNow m' = mgNow m \<Longrightarrow> tame m m'"
  by (simp add: tame_def manager_ok_def actions_of_def)

lemma set_session_ok: "manager_ok m \<Longrightarrow> session_ok s \<Longrightarrow> manager_ok (set_session key s m)"
  using update_entries [of key s "mgSessions m"]
  by (auto simp: manager_ok_def set_session_def list_all_iff distinct_update)

lemma actions_of_set: "actions_of (set_session key s m) k = (if k = key then seActions s else actions_of m k)"
  by (simp add: actions_of_def set_session_def update_conv)

lemma tame_set:
  "manager_ok m \<Longrightarrow> session_ok s \<Longrightarrow> set (seActions s) \<subseteq> set (actions_of m key) \<Longrightarrow> tame m (set_session key s m)"
  using set_session_ok by (simp add: tame_def actions_of_set) (simp add: set_session_def)

lemma tame_delete: "manager_ok m \<Longrightarrow> tame m (delete_session key m)"
proof -
  assume m: "manager_ok m"
  then have "manager_ok (delete_session key m)"
    using delete_entries [of key "mgSessions m"] by (auto simp: manager_ok_def delete_session_def list_all_iff distinct_delete)
  moreover have "actions_of (delete_session key m) k = (if k = key then [] else actions_of m k)" for k
    by (simp add: actions_of_def delete_session_def delete_conv)
  ultimately show ?thesis by (simp add: tame_def) (simp add: delete_session_def)
qed

lemma map_of_filter_some:
  "distinct (map fst xs) \<Longrightarrow> map_of (filter P xs) k = Some v \<Longrightarrow> map_of xs k = Some v"
  by (auto dest!: map_of_SomeD)

lemma tame_filter:
  assumes "manager_ok m"
  shows "tame m (m\<lparr>mgSessions := filter P (mgSessions m)\<rparr>)"
proof -
  have d: "distinct (map fst (mgSessions m))" using assms by (simp add: manager_ok_def)
  have "manager_ok (m\<lparr>mgSessions := filter P (mgSessions m)\<rparr>)"
    using assms by (auto simp: manager_ok_def list_all_iff distinct_map_filter)
  moreover have "set (actions_of (m\<lparr>mgSessions := filter P (mgSessions m)\<rparr>) k) \<subseteq> set (actions_of m k)" for k
    using map_of_filter_some [OF d, of P k]
    by (cases "map_of (filter P (mgSessions m)) k") (simp_all add: actions_of_def)
  ultimately show ?thesis by (simp add: tame_def)
qed

lemma tame_draw: "manager_ok m \<Longrightarrow> draw m = (t, m') \<Longrightarrow> tame m m' \<and> mgSessions m' = mgSessions m"
  by (auto simp: draw_def split: prod.splits intro!: tame_same_sessions)

lemma sessionLocked_tame:
  assumes "manager_ok m" and "sessionLocked sha sid m = (m', found)"
  shows "tame m m' \<and> (\<forall>s. found = Some s \<longrightarrow> map_of (mgSessions m') (sha sid) = Some s \<and> session_ok s \<and> \<not> expired s (mgNow m'))"
proof (cases "map_of (mgSessions m) (sha sid)")
  case None
  then show ?thesis using assms by (auto simp: sessionLocked_def Let_def tame_refl)
next
  case (Some s)
  note ok = session_in [OF assms(1) Some]
  show ?thesis
  proof (cases "expired s (mgNow m)")
    case True
    then show ?thesis using assms Some by (auto simp: sessionLocked_def Let_def tame_delete)
  next
    case live: False
    let ?s = "s\<lparr>seLastUsedAt := mgNow m\<rparr>"
    have ok': "session_ok ?s" "\<not> expired ?s (mgNow m)" using ok live by (auto simp: session_ok_def expired_def)
    have "tame m (set_session (sha sid) ?s m)"
      by (rule tame_set [OF assms(1) ok'(1)]) (simp add: actions_of_def Some)
    moreover have "map_of (mgSessions (set_session (sha sid) ?s m)) (sha sid) = Some ?s" "mgNow (set_session (sha sid) ?s m) = mgNow m"
      by (simp_all add: set_session_def update_conv)
    ultimately show ?thesis using assms Some live ok ok' tame_refl [OF assms(1)]
      by (auto simp: sessionLocked_def Let_def split: if_splits)
  qed
qed

section \<open>Every operation keeps it\<close>

lemma session_ok_tokens: "session_ok s \<Longrightarrow> length ts \<le> MaxCSRFTokensPerSession \<Longrightarrow> session_ok (s\<lparr>seTokens := ts\<rparr>)"
  by (simp add: session_ok_def)

lemma session_ok_fields [simp]:
  "session_ok (s\<lparr>seInFlight := n\<rparr>) = session_ok s" "session_ok (s\<lparr>seLastUsedAt := t\<rparr>) = session_ok s"
  "session_ok (s\<lparr>seRegistration := r\<rparr>) = session_ok s"
  by (simp_all add: session_ok_def)

lemma new_session_ok: "session_ok (new_session sha csrf now expiry)"
  by (simp add: session_ok_def new_session_def newIssuedCSRFTokens_def MaxCSRFTokensPerSession_def)

lemma tame_update:
  assumes "manager_ok m" and "map_of (mgSessions m) key = Some s" and "session_ok s'" and "seActions s' = seActions s"
  shows "tame m (set_session key s' m)"
  by (rule tame_set) (use assms in \<open>simp_all add: actions_of_def\<close>)

lemma issue_tame:
  assumes "manager_ok m" and "issueLocked sha expiry m = (m', c)"
  shows "tame m m' \<and> (\<forall>cr. c = Some cr \<longrightarrow> map_of (mgSessions m') (sha (crSessionID cr)) \<noteq> None)"
proof -
  obtain t1 m1 where d1: "draw m = (t1, m1)" by fastforce
  note tame1 = tame_draw [OF assms(1) d1]
  show ?thesis
  proof (cases t1)
    case None
    then show ?thesis using assms(2) d1 tame1 by (simp add: issueLocked_def)
  next
    case (Some sessionID)
    obtain t2 m2 where d2: "draw m1 = (t2, m2)" by fastforce
    note tame2 = tame_draw [OF tame_ok [OF conjunct1 [OF tame1]] d2]
    have both: "tame m m2" using tame1 tame2 tame_trans by blast
    show ?thesis
    proof (cases t2)
      case None
      then show ?thesis using assms(2) d1 d2 Some both by (simp add: issueLocked_def)
    next
      case csrf: (Some csrf)
      have "tame m2 (set_session (sha sessionID) (new_session sha csrf (mgNow m2) expiry) m2)"
        by (rule tame_set [OF tame_ok [OF both] new_session_ok]) (simp add: new_session_def)
      then show ?thesis using assms(2) d1 d2 Some csrf tame_trans [OF both]
        by (auto simp: issueLocked_def set_session_def update_conv)
    qed
  qed
qed

lemma prune_tame: "manager_ok m \<Longrightarrow> tame m (pruneExpiredLocked m)"
  unfolding pruneExpiredLocked_def by (rule tame_filter)

lemma issueBrowser_tame:
  "manager_ok m \<Longrightarrow> issueBrowserLocked sha m = (m', c) \<Longrightarrow>
     tame m m' \<and> (\<forall>cr. c = Some cr \<longrightarrow> map_of (mgSessions m') (sha (crSessionID cr)) \<noteq> None)"
  unfolding issueBrowserLocked_def using issue_tame [OF tame_ok [OF prune_tame]] tame_trans [OF prune_tame] by blast

lemma join_tame:
  assumes "manager_ok m" and "joinOrIssueLocked sha sid m = (m', r)"
  shows "tame m m'"
proof -
  obtain m1 found where s: "sessionLocked sha sid m = (m1, found)" by fastforce
  note t1 = sessionLocked_tame [OF assms(1) s]
  note ok1 = tame_ok [OF conjunct1 [OF t1]]
  show ?thesis
  proof (cases found)
    case None
    obtain m2 c where i: "issueBrowserLocked sha m1 = (m2, c)" by fastforce
    then show ?thesis using assms(2) s None t1 issueBrowser_tame [OF ok1 i] tame_trans
      by (auto simp: joinOrIssueLocked_def split: option.splits)
  next
    case (Some e)
    obtain t m2 where d: "draw m1 = (t, m2)" by fastforce
    note t2 = tame_draw [OF ok1 d]
    have both: "tame m m2" using t1 t2 tame_trans by blast
    show ?thesis
    proof (cases t)
      case None
      then show ?thesis using assms(2) s Some d both by (simp add: joinOrIssueLocked_def)
    next
      case csrf: (Some csrf)
      have "tame m2 (set_session (sha sid) (e\<lparr>seTokens := add_token sha csrf (seTokens e)\<rparr>) m2)"
        by (rule tame_update [OF tame_ok [OF both]]) (use t1 t2 Some add_token_length in \<open>auto intro: session_ok_tokens\<close>)
      then show ?thesis using assms(2) s Some d csrf tame_trans [OF both] by (simp add: joinOrIssueLocked_def)
    qed
  qed
qed

lemma JoinOrIssue_tame:
  assumes "manager_ok m" and "JoinOrIssue sha sid reg m = (m', r)"
  shows "tame m m'"
proof -
  obtain m1 r1 where j: "joinOrIssueLocked sha sid m = (m1, r1)" by fastforce
  note t1 = join_tame [OF assms(1) j]
  show ?thesis
  proof (cases r1)
    case (Some p)
    obtain c b where p: "p = (c, b)" by fastforce
    let ?key = "sha (crSessionID c)"
    let ?s = "case map_of (mgSessions m1) ?key of Some s \<Rightarrow> s | None \<Rightarrow> zero_session"
    have "tame m1 (set_session ?key (?s\<lparr>seRegistration := reg\<rparr>) m1)"
    proof (rule tame_set [OF tame_ok [OF t1]])
      show "session_ok (?s\<lparr>seRegistration := reg\<rparr>)"
        using session_in [OF tame_ok [OF t1], of ?key]
        by (cases "map_of (mgSessions m1) ?key") (simp_all add: session_ok_def zero_session_def)
    qed (simp add: actions_of_def zero_session_def split: option.split)
    then show ?thesis using assms(2) j Some p tame_trans [OF t1] by (simp add: JoinOrIssue_def Let_def)
  qed (use assms(2) j t1 in \<open>simp add: JoinOrIssue_def\<close>)
qed

lemma Bootstrap_tame: "manager_ok m \<Longrightarrow> BootstrapForSession sha presented sid m = (m', r) \<Longrightarrow> tame m m'"
proof -
  assume m: "manager_ok m" and b: "BootstrapForSession sha presented sid m = (m', r)"
  obtain m1 r1 where j: "joinOrIssueLocked sha sid m = (m1, r1)" by fastforce
  note t1 = join_tame [OF m j]
  have "tame m1 (m1\<lparr>mgBootstrapUsed := True\<rparr>)" by (rule tame_same_sessions [OF tame_ok [OF t1]]) simp_all
  then show "tame m m'" using b j t1 tame_trans [OF t1] tame_refl [OF m]
    by (auto simp: BootstrapForSession_def split: if_splits option.splits)
qed

lemma Reissue_tame: "manager_ok m \<Longrightarrow> Reissue sha m = (m', r) \<Longrightarrow> tame m m'"
proof -
  assume m: "manager_ok m" and r: "Reissue sha m = (m', r)"
  obtain t m1 where d: "draw m = (t, m1)" by fastforce
  note t1 = tame_draw [OF m d]
  have "tame m1 (m1\<lparr>mgBootstrapHash := h, mgBootstrapUsed := False\<rparr>)" for h
    by (rule tame_same_sessions) (use tame_ok t1 in auto)
  then show "tame m m'" using r d t1 tame_trans by (auto simp: Reissue_def split: option.splits)
qed

text \<open>An operation that looks the session up and, if it is there, writes it back with the same operations.\<close>

lemma locked_update_tame:
  assumes "manager_ok m" and "sessionLocked sha sid m = (m1, Some s)" and "tame m1 m2" and "mgSessions m2 = mgSessions m1"
    and "session_ok s'" and "seActions s' = seActions s"
  shows "tame m (set_session (sha sid) s' m2)"
proof -
  note t = sessionLocked_tame [OF assms(1,2)]
  have "map_of (mgSessions m2) (sha sid) = Some s" using t assms(4) by simp
  from tame_update [OF tame_ok [OF assms(3)] this assms(5,6)] show ?thesis
    using t assms(3) tame_trans by blast
qed

lemma Renew_tame: "manager_ok m \<Longrightarrow> RenewCSRF sha sid presented m = (m', r) \<Longrightarrow> tame m m'"
proof -
  assume m: "manager_ok m" and r: "RenewCSRF sha sid presented m = (m', r)"
  obtain m1 found where s: "sessionLocked sha sid m = (m1, found)" by fastforce
  note t1 = sessionLocked_tame [OF m s]
  show "tame m m'"
  proof (cases "case found of None \<Rightarrow> None | Some e \<Rightarrow> find_token sha (seTokens e) presented")
    case None
    then show ?thesis using r s t1 by (auto simp: RenewCSRF_def split: option.splits)
  next
    case (Some i)
    then obtain e where e: "found = Some e" "find_token sha (seTokens e) presented = Some i" by (cases found) auto
    obtain t m2 where d: "draw m1 = (t, m2)" by fastforce
    note t2 = tame_draw [OF tame_ok [OF conjunct1 [OF t1]] d]
    show ?thesis
    proof (cases t)
      case None
      then show ?thesis using r s e d t1 t2 tame_trans by (auto simp: RenewCSRF_def)
    next
      case csrf: (Some csrf)
      let ?ts = "add_token sha csrf (markUsed i (seTokens e))"
      have len: "length ?ts - 2 < length ?ts" "length ?ts \<le> MaxCSRFTokensPerSession"
        using add_token_length [of sha csrf "markUsed i (seTokens e)"] by auto
      have "tame m (set_session (sha sid) (e\<lparr>seTokens := markReplaced (length ?ts - 2) ?ts\<rparr>) m2)"
        by (rule locked_update_tame [OF m s [unfolded e(1)] conjunct1 [OF t2] conjunct2 [OF t2]])
          (use t1 e len in \<open>auto intro: session_ok_tokens\<close>)
      then show ?thesis using r s e d csrf by (simp add: RenewCSRF_def Let_def)
    qed
  qed
qed

lemma Verify_tame: "manager_ok m \<Longrightarrow> VerifyCSRF sha sid csrf m = (m', b) \<Longrightarrow> tame m m'"
proof -
  assume m: "manager_ok m" and v: "VerifyCSRF sha sid csrf m = (m', b)"
  obtain m1 found where s: "sessionLocked sha sid m = (m1, found)" by fastforce
  note t1 = sessionLocked_tame [OF m s]
  show "tame m m'"
  proof (cases "case found of None \<Rightarrow> None | Some e \<Rightarrow> find_token sha (seTokens e) csrf")
    case None
    then show ?thesis using v s t1 by (auto simp: VerifyCSRF_def split: option.splits)
  next
    case (Some i)
    then obtain e where e: "found = Some e" "find_token sha (seTokens e) csrf = Some i" by (cases found) auto
    have "tame m (set_session (sha sid) (e\<lparr>seTokens := markUsed i (seTokens e)\<rparr>) m1)"
      by (rule locked_update_tame [OF m s [unfolded e(1)] tame_refl refl])
        (use t1 e find_token_bound [OF e(2)] tame_ok in \<open>auto simp: session_ok_def\<close>)
    then show ?thesis using v s e by (simp add: VerifyCSRF_def)
  qed
qed

lemma Begin_tame: "manager_ok m \<Longrightarrow> BeginRequest sha sid m = (m', b) \<Longrightarrow> tame m m'"
proof -
  assume m: "manager_ok m" and b: "BeginRequest sha sid m = (m', b)"
  obtain m1 found where s: "sessionLocked sha sid m = (m1, found)" by fastforce
  note t1 = sessionLocked_tame [OF m s]
  show "tame m m'"
  proof (cases found)
    case None
    then show ?thesis using b s t1 by (simp add: BeginRequest_def)
  next
    case (Some e)
    have "tame m (set_session (sha sid) (e\<lparr>seInFlight := seInFlight e + 1\<rparr>) m1)"
      by (rule locked_update_tame [OF m s [unfolded Some] tame_refl refl]) (use t1 Some tame_ok in auto)
    then show ?thesis using b s Some by (simp add: BeginRequest_def)
  qed
qed

lemma end_tame: "manager_ok m \<Longrightarrow> tame m (endRequest key m)"
proof (cases "map_of (mgSessions m) key")
  case (Some s)
  assume m: "manager_ok m"
  have "tame m (set_session key (s\<lparr>seInFlight := seInFlight s - 1, seLastUsedAt := mgNow m\<rparr>) m)"
    by (rule tame_update [OF m Some]) (use session_in [OF m Some] in \<open>simp_all add: session_ok_def\<close>)
  then show ?thesis using Some by (simp add: endRequest_def)
qed (simp add: endRequest_def tame_refl)

lemma Revoke_tame: "manager_ok m \<Longrightarrow> tame m (fst (Revoke sha sid m))"
  by (simp add: Revoke_def tame_refl tame_delete split: option.split)

lemma RevokeRegistration_tame: "manager_ok m \<Longrightarrow> tame m (fst (RevokeRegistration reg m))"
  by (simp add: RevokeRegistration_def tame_refl tame_filter Let_def)

lemma IssueExpiring_tame: "manager_ok m \<Longrightarrow> tame m (fst (IssueExpiring sha expiry m))"
proof -
  assume m: "manager_ok m"
  obtain m1 c where i: "issueLocked sha expiry (pruneExpiredLocked m) = (m1, c)" by fastforce
  have "tame m m1" using issue_tame [OF tame_ok [OF prune_tame [OF m]] i] tame_trans [OF prune_tame [OF m]] by blast
  then show ?thesis using i tame_refl [OF m] by (simp add: IssueExpiring_def split: option.split)
qed

lemma session_ok_expire: "session_ok s \<Longrightarrow> session_ok (expireLocked now s)"
proof -
  assume s: "session_ok s"
  then have "length (filter P (seActions s)) \<le> MaxActionTokensPerSession" for P
    by (intro order_trans [OF length_filter_le]) (simp add: session_ok_def)
  then show ?thesis using s by (auto simp: session_ok_def expireLocked_def list_all_iff distinct_map_filter)
qed

lemma session_ok_delete: "session_ok s \<Longrightarrow> session_ok (s\<lparr>seActions := AList.delete key (seActions s)\<rparr>)"
  using length_delete_le [of key "seActions s"] delete_entries [of key "seActions s"]
  by (auto simp: session_ok_def list_all_iff distinct_delete)

lemma Consume_tame: "manager_ok m \<Longrightarrow> ConsumeAction sha sid presented request m = (m', e) \<Longrightarrow> tame m m'"
proof -
  assume m: "manager_ok m" and c: "ConsumeAction sha sid presented request m = (m', e)"
  obtain m1 found where s: "sessionLocked sha sid m = (m1, found)" by fastforce
  note t1 = sessionLocked_tame [OF m s]
  show "tame m m'"
  proof (cases "case found of None \<Rightarrow> None | Some e \<Rightarrow> map_of (seActions e) (sha presented)")
    case None
    then show ?thesis using c s t1 by (auto simp: ConsumeAction_def split: option.splits)
  next
    case (Some r)
    then obtain e where e: "found = Some e" "map_of (seActions e) (sha presented) = Some r" by (cases found) auto
    let ?s = "expireLocked (mgNow m1) (e\<lparr>seActions := AList.delete (sha presented) (seActions e)\<rparr>)"
    have "tame m1 (set_session (sha sid) ?s m1)"
    proof (rule tame_set [OF tame_ok [OF conjunct1 [OF t1]]])
      show "session_ok ?s" using t1 e by (intro session_ok_expire session_ok_delete) simp
      show "set (seActions ?s) \<subseteq> set (actions_of m1 (sha sid))"
        using t1 e delete_entries [of "sha presented" "seActions e"] by (auto simp: expireLocked_def actions_of_def)
    qed
    then have "tame m (set_session (sha sid) ?s m1)" using t1 tame_trans by blast
    then show ?thesis using c s e by (auto simp: ConsumeAction_def Let_def split: if_splits)
  qed
qed

section \<open>Runs of the manager\<close>

inductive session_op :: "(gostring \<Rightarrow> gostring) \<Rightarrow> Manager \<Rightarrow> Manager \<Rightarrow> bool" for sha where
  reissue: "Reissue sha m = (m', r) \<Longrightarrow> session_op sha m m'"
| bootstrap: "BootstrapForSession sha presented sid m = (m', b) \<Longrightarrow> session_op sha m m'"
| join: "JoinOrIssue sha sid registration m = (m', j) \<Longrightarrow> session_op sha m m'"
| issue_expiring: "session_op sha m (fst (IssueExpiring sha expiry m))"
| revoke: "session_op sha m (fst (Revoke sha sid m))"
| revoke_registration: "session_op sha m (fst (RevokeRegistration registration m))"
| renew: "RenewCSRF sha sid presented m = (m', r) \<Longrightarrow> session_op sha m m'"
| verify: "VerifyCSRF sha sid csrf m = (m', v) \<Longrightarrow> session_op sha m m'"
| begin_request: "BeginRequest sha sid m = (m', v) \<Longrightarrow> session_op sha m m'"
| end_request: "session_op sha m (endRequest key m)"
| consume: "ConsumeAction sha sid presented request m = (m', e) \<Longrightarrow> session_op sha m m'"

inductive_cases session_opE: "session_op sha m m'"

lemma session_op_tame: "session_op sha m m' \<Longrightarrow> manager_ok m \<Longrightarrow> tame m m'"
  by (induction rule: session_op.induct)
    (auto intro: Reissue_tame Bootstrap_tame JoinOrIssue_tame IssueExpiring_tame Revoke_tame RevokeRegistration_tame
      Renew_tame Verify_tame Begin_tame end_tame Consume_tame)

text \<open>The tokens issued so far: session, hash of the token, the operation and the time.\<close>

record issued =
  isKey :: gostring
  isHash :: gostring
  isRequest :: ActionRequest
  isAt :: int

inductive session_run :: "(gostring \<Rightarrow> gostring) \<Rightarrow> issued list \<Rightarrow> Manager \<Rightarrow> bool" for sha where
  start: "NewManager sha random now = Some (m, bootstrap) \<Longrightarrow> session_run sha [] m"
| clock: "session_run sha log m \<Longrightarrow> session_run sha log (m\<lparr>mgNow := t\<rparr>)"
| operation: "session_run sha log m \<Longrightarrow> session_op sha m m' \<Longrightarrow> session_run sha log m'"
| issue_failed: "session_run sha log m \<Longrightarrow> IssueAction sha sid request m = (m', Inl e) \<Longrightarrow> session_run sha log m'"
| issue: "session_run sha log m \<Longrightarrow> IssueAction sha sid request m = (m', Inr v) \<Longrightarrow>
    session_run sha (log @ [\<lparr>isKey = sha sid, isHash = sha v, isRequest = request, isAt = mgNow m\<rparr>]) m'"

definition matches_issue :: "gostring \<Rightarrow> gostring \<Rightarrow> actionRecord \<Rightarrow> issued \<Rightarrow> bool" where
  "matches_issue key h r e \<longleftrightarrow> isKey e = key \<and> isHash e = h \<and>
     isRequest e = \<lparr>arKind = acKind r, arTarget = acTarget r, arEvidence = acEvidence r\<rparr> \<and> acExpiresAt r = isAt e + ActionTokenTTL"

definition logged :: "issued list \<Rightarrow> Manager \<Rightarrow> bool" where
  "logged log m \<longleftrightarrow> (\<forall>key h r. (h, r) \<in> set (actions_of m key) \<longrightarrow> (\<exists>e \<in> set log. matches_issue key h r e))"

lemma tame_logged: "tame m m' \<Longrightarrow> logged log m \<Longrightarrow> logged log m'"
  unfolding tame_def logged_def by blast

text \<open>Issuing: either nothing is added, or one record for the operation and the time.\<close>

lemma IssueAction_cases:
  assumes "manager_ok m" and "IssueAction sha sid request m = (m', res)"
  obtains (failed) e where "res = Inl e" "tame m m'"
    | (issued) v m1 r where "res = Inr v" "tame m m1" "manager_ok m'"
      "matches_issue (sha sid) (sha v) r \<lparr>isKey = sha sid, isHash = sha v, isRequest = request, isAt = mgNow m\<rparr>"
      "\<And>key. set (actions_of m' key) \<subseteq> set (actions_of m1 key) \<union> (if key = sha sid then {(sha v, r)} else {})"
proof (cases "\<not> KnownActionKind (arKind request) \<or> arTarget request = []")
  case True
  then show thesis using assms failed tame_refl by (auto simp: IssueAction_def split: if_splits)
next
  case False
  obtain m1 found where s: "sessionLocked sha sid m = (m1, found)" by fastforce
  note t1 = sessionLocked_tame [OF assms(1) s]
  show thesis
  proof (cases found)
    case None
    then show thesis using assms(2) False s t1 failed by (auto simp: IssueAction_def)
  next
    case (Some e)
    let ?s = "expireLocked (mgNow m1) e" and ?key = "sha sid"
    have ok: "session_ok ?s" using t1 Some session_ok_expire by simp
    have "tame m1 (set_session ?key ?s m1)"
      by (rule tame_set [OF tame_ok [OF conjunct1 [OF t1]] ok]) (use t1 Some in \<open>auto simp: expireLocked_def actions_of_def\<close>)
    then have t2: "tame m (set_session ?key ?s m1)" using t1 tame_trans by blast
    obtain t m3 where d: "draw (set_session ?key ?s m1) = (t, m3)" by fastforce
    note t3 = tame_draw [OF tame_ok [OF t2] d]
    have t03: "tame m m3" using t2 t3 tame_trans by blast
    consider (full) "length (seActions ?s) \<ge> MaxActionTokensPerSession" | (dry) "\<not> length (seActions ?s) \<ge> MaxActionTokensPerSession" "t = None"
      | (drawn) v where "\<not> length (seActions ?s) \<ge> MaxActionTokensPerSession" "t = Some v" by (cases t) auto
    then show thesis
    proof cases
      case full
      then show thesis using assms(2) False s Some t2 failed by (auto simp: IssueAction_def Let_def)
    next
      case dry
      then show thesis using assms(2) False s Some d t03 failed by (auto simp: IssueAction_def Let_def)
    next
      case drawn
      let ?r = "\<lparr>acHash = sha v, acKind = arKind request, acTarget = arTarget request, acEvidence = arEvidence request,
        acExpiresAt = mgNow m3 + ActionTokenTTL\<rparr>"
      let ?s' = "?s\<lparr>seActions := AList.update (sha v) ?r (seActions ?s)\<rparr>"
      have res: "m' = set_session ?key ?s' m3" "res = Inr v"
        using assms(2) False s Some d drawn by (auto simp: IssueAction_def Let_def)
      have "session_ok ?s'"
        using ok drawn(1) update_length [of "sha v" ?r "seActions ?s"] update_entries [of "sha v" ?r "seActions ?s"]
        by (auto simp: session_ok_def list_all_iff distinct_update)
      then have ok': "manager_ok m'" unfolding res(1) by (rule set_session_ok [OF tame_ok [OF t03]])
      have now: "mgNow m3 = mgNow m" using t03 by (simp add: tame_def)
      have acts: "actions_of m3 ?key = seActions ?s" using t3 by (simp add: actions_of_def set_session_def update_conv)
      show thesis
      proof (rule issued [OF res(2) t03 ok', of ?r])
        show "matches_issue ?key (sha v) ?r \<lparr>isKey = ?key, isHash = sha v, isRequest = request, isAt = mgNow m\<rparr>"
          by (simp add: matches_issue_def now)
        show "set (actions_of m' key) \<subseteq> set (actions_of m3 key) \<union> (if key = ?key then {(sha v, ?r)} else {})" for key
          using update_entries [of "sha v" ?r "seActions ?s"] acts by (auto simp: res(1) actions_of_set)
      qed
    qed
  qed
qed

lemma session_run_safe: "session_run sha log m \<Longrightarrow> manager_ok m \<and> logged log m"
proof (induction rule: session_run.induct)
  case (start random now m bootstrap)
  then show ?case by (auto simp: NewManager_def manager_ok_def logged_def actions_of_def split: prod.splits option.splits)
next
  case (clock log m t)
  then show ?case by (simp add: manager_ok_def logged_def actions_of_def)
next
  case (operation log m m')
  have "tame m m'" using session_op_tame operation by simp
  then show ?case using tame_logged tame_ok operation.IH by simp
next
  case (issue_failed log m sid request m' e)
  have "tame m m'" by (rule IssueAction_cases [OF conjunct1 [OF issue_failed.IH] issue_failed.hyps(2)]) simp_all
  then show ?case using tame_logged tame_ok issue_failed.IH by simp
next
  case (issue log m sid request m' v)
  let ?e = "\<lparr>isKey = sha sid, isHash = sha v, isRequest = request, isAt = mgNow m\<rparr>"
  obtain m1 r where i: "tame m m1" "manager_ok m'" "matches_issue (sha sid) (sha v) r ?e"
    "\<And>key. set (actions_of m' key) \<subseteq> set (actions_of m1 key) \<union> (if key = sha sid then {(sha v, r)} else {})"
    by (rule IssueAction_cases [OF conjunct1 [OF issue.IH] issue.hyps(2)]) auto
  have "logged log m1" using tame_logged i(1) issue.IH by blast
  then have "logged (log @ [?e]) m'"
    unfolding logged_def
  proof (intro allI impI)
    fix key h r' assume in': "(h, r') \<in> set (actions_of m' key)"
    show "\<exists>e \<in> set (log @ [?e]). matches_issue key h r' e"
    proof (cases "(h, r') \<in> set (actions_of m1 key)")
      case True
      then show ?thesis using \<open>logged log m1\<close> by (auto simp: logged_def)
    next
      case False
      then have "key = sha sid" "h = sha v" "r' = r" using i(4) [of key] in' by (auto split: if_splits)
      then show ?thesis using i(3) by auto
    qed
  qed
  then show ?case using i(2) by simp
qed

section \<open>Confirmed operations\<close>

lemma set_session_now [simp]: "mgNow (set_session key s m) = mgNow m"
  by (simp add: set_session_def)

lemma Consume_burns:
  "snd (ConsumeAction sha sid presented request' ((fst (ConsumeAction sha sid presented request m))\<lparr>mgNow := t\<rparr>)) \<noteq> None"
proof -
  obtain m1 found where s: "sessionLocked sha sid m = (m1, found)" by fastforce
  let ?m' = "fst (ConsumeAction sha sid presented request m)"
  have gone: "(h, r) \<in> set (actions_of ?m' (sha sid)) \<Longrightarrow> h \<noteq> sha presented" for h r
  proof -
    assume in': "(h, r) \<in> set (actions_of ?m' (sha sid))"
    show "h \<noteq> sha presented"
    proof (cases found)
      case None
      then have "map_of (mgSessions m1) (sha sid) = None"
        using s by (auto simp: sessionLocked_def Let_def delete_session_def delete_conv split: option.splits if_splits)
      then show ?thesis using in' s None by (simp add: ConsumeAction_def actions_of_def)
    next
      case (Some e)
      have at: "map_of (mgSessions m1) (sha sid) = Some e"
        using s Some by (auto simp: sessionLocked_def Let_def set_session_def update_conv split: option.splits if_splits)
      show ?thesis
      proof (cases "map_of (seActions e) (sha presented)")
        case None
        then have "actions_of ?m' (sha sid) = seActions e" using s Some at by (simp add: ConsumeAction_def actions_of_def)
        then show ?thesis using in' None by (auto simp: map_of_eq_None_iff image_iff)
      next
        case r: (Some r)
        let ?s = "expireLocked (mgNow m1) (e\<lparr>seActions := AList.delete (sha presented) (seActions e)\<rparr>)"
        have "?m' = set_session (sha sid) ?s m1"
          using s Some r by (simp add: ConsumeAction_def Let_def split: if_split)
        then have "set (actions_of ?m' (sha sid)) \<subseteq> set (AList.delete (sha presented) (seActions e))"
          by (simp add: actions_of_set) (auto simp: expireLocked_def)
        then have "h \<in> fst ` set (AList.delete (sha presented) (seActions e))" using in' by (metis fst_conv image_eqI subsetD)
        then show ?thesis using delete_notin_dom [of "sha presented" "seActions e"] by blast
      qed
    qed
  qed
  let ?n = "?m'\<lparr>mgNow := t\<rparr>"
  obtain n1 found1 where s1: "sessionLocked sha sid ?n = (n1, found1)" by fastforce
  show ?thesis
  proof (cases found1)
    case (Some e)
    have "seActions e = actions_of ?m' (sha sid)"
      using s1 Some by (auto simp: sessionLocked_def Let_def actions_of_def split: option.splits if_splits)
    then have "map_of (seActions e) (sha presented) = None"
      by (metis gone map_of_SomeD not_None_eq)
    then show ?thesis using s1 Some by (simp add: ConsumeAction_def)
  qed (use s1 in \<open>simp add: ConsumeAction_def\<close>)
qed

text \<open>
  C34. An operation that asks for confirmation runs only if it was confirmed: in every run of the
  manager, a token is accepted only for the session, the operation, the target and the evidence it was
  issued for, at most two minutes later, and it is used up by any presentation, so that it is never
  accepted a second time.
\<close>

theorem confirmed_operation:
  assumes "session_run sha log m" and "ConsumeAction sha sid presented request m = (m', None)"
  shows "(\<exists>e \<in> set log. isKey e = sha sid \<and> isHash e = sha presented \<and> isRequest e = request \<and> mgNow m \<le> isAt e + ActionTokenTTL) \<and>
    (\<forall>request' t. snd (ConsumeAction sha sid presented request' (m'\<lparr>mgNow := t\<rparr>)) \<noteq> None)"
proof -
  have safe: "manager_ok m" "logged log m" using session_run_safe [OF assms(1)] by auto
  obtain m1 found where s: "sessionLocked sha sid m = (m1, found)" by fastforce
  note t1 = sessionLocked_tame [OF safe(1) s]
  obtain e r where e: "found = Some e" "map_of (seActions e) (sha presented) = Some r" "mgNow m1 \<le> acExpiresAt r"
    and parts: "acKind r = arKind request" "acTarget r = arTarget request" "acEvidence r = arEvidence request"
    using assms(2) s by (simp add: ConsumeAction_def Let_def split: option.splits if_splits)
  have request: "request = \<lparr>arKind = acKind r, arTarget = acTarget r, arEvidence = acEvidence r\<rparr>"
    using parts by (cases request) simp
  have "(sha presented, r) \<in> set (actions_of m1 (sha sid))" using t1 e(1,2) by (simp add: actions_of_def map_of_SomeD)
  then have "(sha presented, r) \<in> set (actions_of m (sha sid))" using t1 by (auto simp: tame_def)
  then obtain i where i: "i \<in> set log" "matches_issue (sha sid) (sha presented) r i" using safe(2) unfolding logged_def by blast
  have "mgNow m1 = mgNow m" using t1 by (simp add: tame_def)
  then have "\<exists>e \<in> set log. isKey e = sha sid \<and> isHash e = sha presented \<and> isRequest e = request \<and> mgNow m \<le> isAt e + ActionTokenTTL"
    using i e(3) request by (auto simp: matches_issue_def)
  moreover have "snd (ConsumeAction sha sid presented request' (m'\<lparr>mgNow := t\<rparr>)) \<noteq> None" for request' t
    using Consume_burns [where sha = sha and sid = sid and presented = presented and request' = request' and request = request and m = m and t = t]
      assms(2) by simp
  ultimately show ?thesis by blast
qed

definition sample_request :: ActionRequest where
  "sample_request = \<lparr>arKind = ''trash.purge'', arTarget = ''e'', arEvidence = []\<rparr>"

definition sample_sha :: "gostring \<Rightarrow> gostring" where "sample_sha s = s"

definition sample_manager :: Manager where
  "sample_manager = fst (the (NewManager sample_sha (replicate 160 1) 5))"

definition sample_joined :: "Manager \<times> (Credentials \<times> bool) option" where
  "sample_joined = JoinOrIssue sample_sha [] ''r'' sample_manager"

definition sample_id :: gostring where "sample_id = RawURLEncode (replicate 32 1)"

definition sample_issued :: "Manager \<times> (session_error + gostring)" where
  "sample_issued = IssueAction sample_sha sample_id sample_request (fst sample_joined)"

lemma sample_token: "32 \<le> n \<Longrightarrow> Token (replicate n 1) = (Some sample_id, replicate (n - 32) 1)"
  by (simp add: Token_def ReadFull_def tokenBytes_def sample_id_def)

lemma sample_run:
  "session_run sample_sha [\<lparr>isKey = sample_id, isHash = sample_id, isRequest = sample_request, isAt = 5\<rparr>] (fst sample_issued) \<and>
   ConsumeAction sample_sha sample_id sample_id sample_request (fst sample_issued) =
     (fst (ConsumeAction sample_sha sample_id sample_id sample_request (fst sample_issued)), None)"
proof -
  have new: "NewManager sample_sha (replicate 160 1) 5 =
      Some (\<lparr>mgRandom = replicate 128 1, mgBootstrapHash = sample_id, mgBootstrapUsed = False, mgSessions = [], mgNow = 5\<rparr>, sample_id)"
    by (simp add: NewManager_def sample_token sample_sha_def)
  then have m: "sample_manager = \<lparr>mgRandom = replicate 128 1, mgBootstrapHash = sample_id, mgBootstrapUsed = False, mgSessions = [], mgNow = 5\<rparr>"
    by (simp add: sample_manager_def)
  let ?s = "(new_session sample_sha sample_id 5 browserExpiry)\<lparr>seRegistration := ''r''\<rparr>"
  have joined: "sample_joined = (\<lparr>mgRandom = replicate 64 1, mgBootstrapHash = sample_id, mgBootstrapUsed = False,
      mgSessions = [(sample_id, ?s)], mgNow = 5\<rparr>, Some (\<lparr>crSessionID = sample_id, crCSRFToken = sample_id\<rparr>, True))"
    unfolding sample_joined_def m
    by (simp add: JoinOrIssue_def joinOrIssueLocked_def sessionLocked_def issueBrowserLocked_def pruneExpiredLocked_def issueLocked_def
      draw_def sample_token set_session_def sample_sha_def Let_def)
  have known: "KnownActionKind ''trash.purge''" by (simp add: KnownActionKind_def knownActionKinds_def)
  have live: "\<not> expired ?s 5" "\<not> 5 - seLastUsedAt ?s \<ge> lastUsedCoalesce"
    by (simp_all add: expired_def new_session_def browserExpiry_def BrowserSessionLifetime_def BrowserSessionIdleTimeout_def lastUsedCoalesce_def)
  let ?r = "\<lparr>acHash = sample_id, acKind = ''trash.purge'', acTarget = ''e'', acEvidence = [], acExpiresAt = 5 + ActionTokenTTL\<rparr>"
  let ?s' = "?s\<lparr>seActions := [(sample_id, ?r)]\<rparr>"
  have issued: "sample_issued = (\<lparr>mgRandom = replicate 32 1, mgBootstrapHash = sample_id, mgBootstrapUsed = False,
      mgSessions = [(sample_id, ?s')], mgNow = 5\<rparr>, Inr sample_id)"
    unfolding sample_issued_def joined
    using known live by (simp add: IssueAction_def sample_request_def sessionLocked_def expireLocked_def MaxActionTokensPerSession_def
      new_session_def draw_def sample_token set_session_def sample_sha_def Let_def)
  have live': "\<not> expired ?s' 5" "\<not> 5 - seLastUsedAt ?s' \<ge> lastUsedCoalesce" using live by (simp_all add: expired_def)
  have run: "session_run sample_sha [] (fst sample_joined)"
    using session_run.operation [OF session_run.start [OF new] session_op.join] m sample_joined_def by (metis prod.collapse)
  have "session_run sample_sha ([] @ [\<lparr>isKey = sample_sha sample_id, isHash = sample_sha sample_id, isRequest = sample_request,
      isAt = mgNow (fst sample_joined)\<rparr>]) (fst sample_issued)"
    by (rule session_run.issue [OF run]) (use issued in \<open>simp add: sample_issued_def\<close>)
  moreover have "snd (ConsumeAction sample_sha sample_id sample_id sample_request (fst sample_issued)) = None"
    using live' by (simp add: issued ConsumeAction_def sessionLocked_def sample_sha_def sample_request_def ActionTokenTTL_def Let_def)
  ultimately show ?thesis using joined by (simp add: sample_sha_def prod_eq_iff)
qed

theorem confirmed_operation_witness:
  "snd (ConsumeAction sample_sha sample_id sample_id sample_request
     ((fst (ConsumeAction sample_sha sample_id sample_id sample_request (fst sample_issued)))\<lparr>mgNow := 6\<rparr>)) \<noteq> None"
  using confirmed_operation [OF conjunct1 [OF sample_run] conjunct2 [OF sample_run]] by blast

text \<open>
  C37. In every run of the manager each session has at most eight CSRF tokens and at most 32 pending
  confirmations, one session for a key, and every pending confirmation stands under its own hash.
\<close>

theorem session_run_bounded:
  assumes "session_run sha log m"
  shows "distinct (map fst (mgSessions m)) \<and>
    (\<forall>key s. map_of (mgSessions m) key = Some s \<longrightarrow>
       length (seTokens s) \<le> 8 \<and> length (seActions s) \<le> 32 \<and> distinct (map fst (seActions s)) \<and>
       (\<forall>h r. map_of (seActions s) h = Some r \<longrightarrow> acHash r = h))"
proof -
  have ok: "manager_ok m" using session_run_safe [OF assms] by simp
  have "session_ok s" if "map_of (mgSessions m) key = Some s" for key s using session_in [OF ok that] .
  then show ?thesis using ok
    by (fastforce simp: manager_ok_def session_ok_def MaxCSRFTokensPerSession_def MaxActionTokensPerSession_def list_all_iff dest: map_of_SomeD)
qed

theorem session_run_bounded_witness:
  "distinct (map fst (mgSessions (fst sample_issued)))"
  using session_run_bounded [OF conjunct1 [OF sample_run]] by blast

section \<open>Renewing a CSRF token\<close>

lemma delete_at_set: "i < length xs \<Longrightarrow> insert (xs ! i) (set (delete_at i xs)) = set xs"
proof -
  assume i: "i < length xs"
  then have "xs = take i xs @ xs ! i # drop (Suc i) xs" by (rule id_take_nth_drop)
  from arg_cong [OF this, of set] show ?thesis by (simp add: delete_at_def)
qed

lemma markUsed_hashes: "i < length tokens \<Longrightarrow> ctHash ` set (markUsed i tokens) = ctHash ` set tokens"
  using arg_cong [OF delete_at_set [of i tokens], of "image ctHash"] by (simp add: markUsed_def)

lemma markReplaced_hashes: "i < length tokens \<Longrightarrow> ctHash ` set (markReplaced i tokens) = ctHash ` set tokens"
proof -
  assume i: "i < length tokens"
  let ?n = "length (takeWhile ctReplaced (delete_at i tokens))"
  have "set (take ?n (delete_at i tokens)) \<union> set (drop ?n (delete_at i tokens)) = set (delete_at i tokens)"
    by (metis append_take_drop_id set_append)
  then have "ctHash ` set (take ?n (delete_at i tokens)) \<union> ctHash ` set (drop ?n (delete_at i tokens)) = ctHash ` set (delete_at i tokens)"
    by (metis image_Un)
  then show ?thesis using arg_cong [OF delete_at_set [OF i], of "image ctHash"]
    by (auto simp: markReplaced_def Let_def image_Un)
qed

lemma add_token_hashes:
  "sha csrf \<in> ctHash ` set (add_token sha csrf tokens)"
  "tokens \<noteq> [] \<Longrightarrow> ctHash (last tokens) \<in> ctHash ` set (add_token sha csrf tokens)"
proof -
  show "sha csrf \<in> ctHash ` set (add_token sha csrf tokens)" by (simp add: add_token_def)
  assume t: "tokens \<noteq> []"
  then have "last tokens \<in> set (drop (length tokens + 1 - MaxCSRFTokensPerSession) tokens)"
    by (cases tokens rule: rev_cases) (auto simp: MaxCSRFTokensPerSession_def)
  then show "ctHash (last tokens) \<in> ctHash ` set (add_token sha csrf tokens)" by (simp add: add_token_def)
qed

lemma sessionLocked_there:
  assumes "map_of (mgSessions m) (sha sid) = Some s" and "\<not> expired s (mgNow m)"
  shows "\<exists>m1 s1. sessionLocked sha sid m = (m1, Some s1) \<and> seTokens s1 = seTokens s \<and> seActions s1 = seActions s"
  using assms by (auto simp: sessionLocked_def Let_def)

lemma VerifyCSRF_there:
  assumes "map_of (mgSessions m) (sha sid) = Some s" and "\<not> expired s (mgNow m)"
  shows "snd (VerifyCSRF sha sid csrf m) \<longleftrightarrow> sha csrf \<in> ctHash ` set (seTokens s)"
proof -
  obtain m1 s1 where "sessionLocked sha sid m = (m1, Some s1)" "seTokens s1 = seTokens s"
    using sessionLocked_there [of m sha sid s] assms by blast
  then show ?thesis using find_token_None [of sha "seTokens s" csrf]
    by (cases "find_token sha (seTokens s) csrf") (simp_all add: VerifyCSRF_def)
qed

text \<open>
  C38. Renewing does not lock a tab out: after a renewal both the new token and the token that was
  presented are accepted, also when the session already holds as many tokens as it may.
\<close>

theorem RenewCSRF_keeps_both:
  assumes "manager_ok m" and "RenewCSRF sha sid presented m = (m', Some csrf)"
  shows "snd (VerifyCSRF sha sid csrf m') \<and> snd (VerifyCSRF sha sid presented m')"
proof -
  obtain m1 found where s: "sessionLocked sha sid m = (m1, found)" by fastforce
  note t1 = sessionLocked_tame [OF assms(1) s]
  obtain e i where e: "found = Some e" "find_token sha (seTokens e) presented = Some i"
    using assms(2) s by (auto simp: RenewCSRF_def split: option.splits)
  obtain m2 where d: "draw m1 = (Some csrf, m2)"
    using assms(2) s e by (auto simp: RenewCSRF_def Let_def split: option.splits prod.splits)
  note i = find_token_bound [OF e(2)]
  let ?ts = "add_token sha csrf (markUsed i (seTokens e))"
  let ?s = "e\<lparr>seTokens := markReplaced (length ?ts - 2) ?ts\<rparr>"
  have m': "m' = set_session (sha sid) ?s m2" using assms(2) s e d by (simp add: RenewCSRF_def Let_def)
  have now: "mgNow m2 = mgNow m1" using d by (auto simp: draw_def split: prod.splits)
  have there: "map_of (mgSessions m') (sha sid) = Some ?s" by (simp add: m' set_session_def update_conv)
  have live: "\<not> expired ?s (mgNow m')" using t1 e now by (simp add: m' expired_def)
  have "length ?ts - 2 < length ?ts" using add_token_length [of sha csrf "markUsed i (seTokens e)"] by simp
  note hashes = markReplaced_hashes [OF this]
  have "markUsed i (seTokens e) \<noteq> []" "ctHash (last (markUsed i (seTokens e))) = sha presented"
    using i by (simp_all add: markUsed_def)
  then have "sha csrf \<in> ctHash ` set ?ts" "sha presented \<in> ctHash ` set ?ts"
    using add_token_hashes by metis+
  then show ?thesis using VerifyCSRF_there [where sha = sha and sid = sid, OF there live] hashes by simp
qed

theorem RenewCSRF_keeps_both_witness:
  "snd (VerifyCSRF sample_sha sample_id sample_id (fst (RenewCSRF sample_sha sample_id sample_id (fst sample_issued))))"
proof -
  have "manager_ok (fst sample_issued)" using session_run_safe [OF conjunct1 [OF sample_run]] by simp
  moreover have "snd (RenewCSRF sample_sha sample_id sample_id (fst sample_issued)) = Some sample_id"
    by code_simp
  ultimately show ?thesis
    using RenewCSRF_keeps_both [of "fst sample_issued" sample_sha sample_id sample_id
      "fst (RenewCSRF sample_sha sample_id sample_id (fst sample_issued))" sample_id]
    by (metis prod.collapse)
qed

end
