(* ===== verification/BrowserAuthSafety.thy ===== *)
theory BrowserAuthSafety
  imports BrowserAuth SessionSafety
begin

text \<open>
  What the registrations keep: a document that can always be read again, families of hashes that do
  not overlap, and rotations that lead to the registration they came from; then what follows for a
  copied token.
\<close>

section \<open>Families of hashes\<close>

definition hashes :: "registration \<Rightarrow> gostring set" where
  "hashes r = insert (brHash r) (set (brRetired r))"

definition apart :: "registration \<Rightarrow> registration \<Rightarrow> bool" where
  "apart r q \<longleftrightarrow> hashes r \<inter> hashes q = {}"

definition entry_ok :: "registration \<Rightarrow> bool" where
  "entry_ok r \<longleftrightarrow> (\<forall>h \<in> hashes r. validHash h) \<and> length (brRetired r) \<le> MaxRetiredTokens \<and> brIssuedAt r \<noteq> 0 \<and> brLastUsedAt r \<noteq> 0"

definition regs_ok :: "registration list \<Rightarrow> bool" where
  "regs_ok rs \<longleftrightarrow> length rs \<le> MaxRegistrations \<and> list_all entry_ok rs \<and> sorted_wrt apart rs"

lemma apart_sym: "apart r q \<Longrightarrow> apart q r"
  by (auto simp: apart_def)

lemma validHash_nonempty: "validHash h \<Longrightarrow> h \<noteq> []"
  by (auto simp: validHash_def RawURLDecode_def Let_def)

lemma apart_at:
  assumes "sorted_wrt apart rs" and "i < length rs" and "j < length rs" and "i \<noteq> j"
  shows "apart (rs ! i) (rs ! j)"
  using assms sorted_wrt_nth_less [of apart rs i j] sorted_wrt_nth_less [of apart rs j i] apart_sym
  by (cases "i < j") auto

lemma family_unique:
  assumes "sorted_wrt apart rs" and "r \<in> set rs" and "q \<in> set rs" and "h \<in> hashes r" and "h \<in> hashes q"
  shows "r = q"
proof -
  obtain i j where ij: "i < length rs" "rs ! i = r" "j < length rs" "rs ! j = q" using assms(2,3) by (auto simp: in_set_conv_nth)
  show ?thesis
  proof (cases "i = j")
    case False
    then have "apart r q" using apart_at [OF assms(1), of i j] ij by simp
    then show ?thesis using assms(4,5) by (auto simp: apart_def)
  qed (use ij in simp)
qed

lemma regs_filter: "regs_ok rs \<Longrightarrow> regs_ok (filter P rs)"
proof -
  assume rs: "regs_ok rs"
  then have "length (filter P rs) \<le> MaxRegistrations"
    by (intro order_trans [OF length_filter_le]) (simp add: regs_ok_def)
  then show ?thesis using rs by (auto simp: regs_ok_def list_all_iff intro: sorted_wrt_filter)
qed

lemma remove_at_set: "set (remove_at i xs) \<subseteq> set xs"
  by (auto simp: remove_at_def dest: in_set_takeD in_set_dropD)

lemma apart_removed:
  assumes "sorted_wrt apart rs" and "i < length rs" and "q \<in> set (remove_at i rs)"
  shows "apart (rs ! i) q"
proof -
  have "sorted_wrt apart (take i rs @ rs ! i # drop (i + 1) rs)" using assms(1,2) by (simp add: id_take_nth_drop [symmetric])
  then have "apart (rs ! i) q \<or> apart q (rs ! i)" using assms(3) by (auto simp: remove_at_def sorted_wrt_append)
  then show ?thesis using apart_sym by blast
qed

lemma regs_remove: "regs_ok rs \<Longrightarrow> regs_ok (remove_at i rs)"
proof -
  assume rs: "regs_ok rs"
  have whole: "sorted_wrt apart (take i rs @ drop i rs)" using rs by (simp add: regs_ok_def)
  have "set (drop (i + 1) rs) \<subseteq> set (drop i rs)" by (rule set_drop_subset_set_drop) simp
  then have "\<forall>x \<in> set (take i rs). \<forall>y \<in> set (drop (i + 1) rs). apart x y"
    using whole unfolding sorted_wrt_append by blast
  moreover have "sorted_wrt apart (take i rs)" "sorted_wrt apart (drop (i + 1) rs)"
    using rs by (simp_all add: regs_ok_def sorted_wrt_take sorted_wrt_drop)
  ultimately have "sorted_wrt apart (remove_at i rs)" by (simp add: remove_at_def sorted_wrt_append)
  moreover have "list_all entry_ok (remove_at i rs)" using rs remove_at_set [of i rs] by (auto simp: regs_ok_def list_all_iff)
  moreover have "length (remove_at i rs) \<le> MaxRegistrations" using rs by (auto simp: remove_at_def regs_ok_def min_def)
  ultimately show ?thesis by (simp add: regs_ok_def)
qed

lemma apart_update:
  assumes "sorted_wrt apart rs" and "i < length rs" and "\<And>q. q \<in> set rs \<Longrightarrow> q \<noteq> rs ! i \<Longrightarrow> apart r q"
  shows "sorted_wrt apart (rs[i := r])"
proof -
  have "apart r q" if "j < length rs" "j \<noteq> i" "q = rs ! j" for j q
  proof -
    have "apart (rs ! i) q" using apart_at [OF assms(1,2) that(1)] that by simp
    then have "q \<noteq> rs ! i" by (auto simp: apart_def hashes_def)
    then show ?thesis using assms(3) that by simp
  qed
  then have new: "apart r (rs ! j)" "apart (rs ! j) r" if "j < length rs" "j \<noteq> i" for j using that apart_sym by auto
  show ?thesis
    unfolding sorted_wrt_iff_nth_less
  proof (intro allI impI)
    fix j k assume jk: "j < k" "k < length (rs[i := r])"
    then have "apart (rs ! j) (rs ! k)" using apart_at [OF assms(1), of j k] by simp
    then show "apart (rs[i := r] ! j) (rs[i := r] ! k)" using jk new assms(2) by (cases "j = i"; cases "k = i") simp_all
  qed
qed

lemma retire_subset: "set (retire retired h) \<subseteq> insert h (set retired)" "h \<in> set (retire retired h)" "length (retire retired h) \<le> MaxRetiredTokens"
proof -
  have m: "MaxRetiredTokens = 64" by (simp add: MaxRetiredTokens_def)
  show "set (retire retired h) \<subseteq> insert h (set retired)"
    using set_drop_subset [of _ "retired @ [h]"] by (simp add: retire_def Let_def m del: drop_append)
  show "h \<in> set (retire retired h)" "length (retire retired h) \<le> MaxRetiredTokens"
    by (simp_all add: retire_def Let_def m)
qed

lemma rotated_hashes:
  "hashes (rotated sha token now r) \<subseteq> insert (hashToken sha token) (hashes r)" "brHash r \<in> hashes (rotated sha token now r)"
  using retire_subset [where retired = "brRetired r" and h = "brHash r"] by (auto simp: hashes_def rotated_def)

lemma hashToken_valid: "length (sha t) = 32 \<Longrightarrow> validHash (hashToken sha t)"
  by (simp add: validHash_def hashToken_def RawURL_roundtrip)

section \<open>Indexes\<close>

lemma indexOf_Some:
  assumes "indexOf regs h field = Some i"
  shows "i < length regs \<and> h \<in> set (field (regs ! i)) \<and> h \<noteq> []"
  using last_index(1) [OF assms [unfolded indexOf_def]] by (auto simp: list_ex_iff)

lemma indexOf_None: "indexOf regs h field = None \<longleftrightarrow> h = [] \<or> (\<forall>r \<in> set regs. h \<notin> set (field r))"
  unfolding indexOf_def last_index(2) by (auto simp: list_ex_iff all_set_conv_all_nth)

lemma indexOf_current: "indexOf regs h currentHash \<noteq> None \<longleftrightarrow> h \<noteq> [] \<and> h \<in> brHash ` set regs"
  by (auto simp: indexOf_None currentHash_def)

section \<open>The invariant of the store\<close>

definition disk_regs :: "Store \<Rightarrow> registration list" where
  "disk_regs s = (case load s of Inr d \<Rightarrow> dcRegistrations d | Inl _ \<Rightarrow> [])"

text \<open>A rotation whose token belongs to a registration's family leads to the current token of it.\<close>

definition leads :: "(gostring \<Rightarrow> byte list) \<Rightarrow> registration list \<Rightarrow> gostring \<times> rotation \<Rightarrow> bool" where
  "leads sha rs e \<longleftrightarrow> (\<forall>r \<in> set rs. fst e \<in> hashes r \<longrightarrow> hashToken sha (roToken (snd e)) = brHash r)"

definition rotations_ok :: "(gostring \<Rightarrow> byte list) \<Rightarrow> registration list \<Rightarrow> (gostring \<times> rotation) list \<Rightarrow> bool" where
  "rotations_ok sha rs rots \<longleftrightarrow> distinct (map fst rots) \<and> (\<forall>e \<in> set rots. leads sha rs e)"

lemma leads_fewer: "leads sha rs e \<Longrightarrow> set rs' \<subseteq> set rs \<Longrightarrow> leads sha rs' e"
  unfolding leads_def by blast

definition document_ok :: "document \<Rightarrow> bool" where
  "document_ok d \<longleftrightarrow> dcSchemaVersion d = SchemaVersion \<and> regs_ok (dcRegistrations d) \<and> (dcPort d = 0 \<or> EnginePort_ok (dcPort d))"

definition disk_ok :: "stored_file \<Rightarrow> bool" where
  "disk_ok f \<longleftrightarrow> (case f of NoFile \<Rightarrow> True | Unreadable \<Rightarrow> False
     | Contents header decoded \<Rightarrow> header = Some SchemaVersion \<and> (\<exists>d. decoded = Some d \<and> document_ok d))"

text \<open>The hashes in \<open>F\<close> name nothing any more.\<close>

definition dead :: "gostring set \<Rightarrow> registration list \<Rightarrow> (gostring \<times> rotation) list \<Rightarrow> bool" where
  "dead F rs rots \<longleftrightarrow> (\<forall>r \<in> set rs. hashes r \<inter> F = {}) \<and> fst ` set rots \<inter> F = {}"

definition store_ok :: "(gostring \<Rightarrow> byte list) \<Rightarrow> gostring set \<Rightarrow> Store \<Rightarrow> bool" where
  "store_ok sha F s \<longleftrightarrow> disk_ok (bsDisk s) \<and> bsNow s \<noteq> 0 \<and> rotations_ok sha (disk_regs s) (bsRotations s) \<and> dead F (disk_regs s) (bsRotations s)"

text \<open>The next token has a hash that was never seen.\<close>

definition draws_fresh :: "(gostring \<Rightarrow> byte list) \<Rightarrow> gostring set \<Rightarrow> Store \<Rightarrow> bool" where
  "draws_fresh sha F s \<longleftrightarrow> (\<forall>t. fst (store_draw s) = Some t \<longrightarrow>
     hashToken sha t \<notin> F \<union> (\<Union>r \<in> set (disk_regs s). hashes r) \<union> fst ` set (bsRotations s))"

lemma entries_ok_iff:
  "entries_ok seen rs \<longleftrightarrow> list_all entry_ok rs \<and> distinct (map brHash rs) \<and> set seen \<inter> brHash ` set rs = {}"
  by (induction seen rs rule: entries_ok.induct) (auto simp: entry_ok_def hashes_def list_ex_iff)

lemma regs_entries: "regs_ok rs \<Longrightarrow> entries_ok [] rs"
proof -
  assume rs: "regs_ok rs"
  have "brHash (rs ! i) \<noteq> brHash (rs ! j)" if "i < length rs" "j < length rs" "i \<noteq> j" for i j
    using apart_at [of rs i j] rs that by (auto simp: regs_ok_def apart_def hashes_def)
  then have "distinct (map brHash rs)" by (simp add: distinct_conv_nth)
  then show ?thesis using rs by (simp add: entries_ok_iff regs_ok_def)
qed

lemma load_ok: "disk_ok (bsDisk s) \<Longrightarrow> \<exists>d. load s = Inr d \<and> document_ok d"
proof (cases "bsDisk s")
  case (Contents header decoded)
  assume "disk_ok (bsDisk s)"
  then obtain d where d: "header = Some SchemaVersion" "decoded = Some d" "document_ok d" using Contents by (auto simp: disk_ok_def)
  then have "load s = Inr d"
    using Contents regs_entries [of "dcRegistrations d"] by (auto simp: load_def document_ok_def regs_ok_def)
  then show ?thesis using d(3) by blast
qed (auto simp: load_def disk_ok_def document_ok_def empty_document_def regs_ok_def)

lemma load_disk: "bsDisk s = bsDisk s' \<Longrightarrow> load s = load s'"
  by (simp add: load_def)

lemma rotations_fewer: "rotations_ok sha rs rots \<Longrightarrow> set rs' \<subseteq> set rs \<Longrightarrow> rotations_ok sha rs' (filter P rots)"
  unfolding rotations_ok_def using leads_fewer by (simp add: distinct_map_filter) blast

lemma write_load:
  assumes "store_write d s = (s', True)" and "regs_ok (dcRegistrations d)" and "dcPort d = 0 \<or> EnginePort_ok (dcPort d)"
  shows "disk_ok (bsDisk s') \<and> disk_regs s' = dcRegistrations d \<and> load s' = Inr (d\<lparr>dcSchemaVersion := SchemaVersion\<rparr>)"
proof -
  have s': "bsDisk s' = Contents (Some SchemaVersion) (Some (d\<lparr>dcSchemaVersion := SchemaVersion\<rparr>))"
    using assms(1) by (auto simp: store_write_def split: if_splits)
  moreover have "document_ok (d\<lparr>dcSchemaVersion := SchemaVersion\<rparr>)" using assms(2,3) by (simp add: document_ok_def)
  ultimately have ok: "disk_ok (bsDisk s')" by (simp add: disk_ok_def)
  moreover have "load s' = Inr (d\<lparr>dcSchemaVersion := SchemaVersion\<rparr>)"
    using s' assms(2,3) regs_entries [of "dcRegistrations d"] by (auto simp: load_def regs_ok_def)
  ultimately show ?thesis by (simp add: disk_regs_def)
qed

lemma write_fields:
  assumes "store_write d s = (s', ok)"
  shows "bsNow s' = bsNow s" "bsRotations s' = bsRotations s" "bsByHash s' = bsByHash s" "bsIssued s' = bsIssued s"
    "bsRandom s' = bsRandom s" "bsWritable s' = bsWritable s" "\<not> ok \<Longrightarrow> s' = s" "ok \<longleftrightarrow> bsWritable s"
  using assms by (auto simp: store_write_def split: if_splits)

lemma id_of_fields [simp]:
  "bsDisk (fst (id_of h s)) = bsDisk s" "bsNow (fst (id_of h s)) = bsNow s" "bsRotations (fst (id_of h s)) = bsRotations s"
  "bsWritable (fst (id_of h s)) = bsWritable s" "bsRandom (fst (id_of h s)) = bsRandom s"
  by (simp_all add: id_of_def Let_def split: option.split)

lemma id_rotate_fields [simp]:
  "bsDisk (fst (id_rotate h n s)) = bsDisk s" "bsNow (fst (id_rotate h n s)) = bsNow s" "bsRotations (fst (id_rotate h n s)) = bsRotations s"
  "bsWritable (fst (id_rotate h n s)) = bsWritable s"
  using id_of_fields [of h s] by (cases "id_of h s"; simp add: id_rotate_def)+

lemma prune_fields [simp]:
  "bsDisk (pruneRotations sha rs s) = bsDisk s" "bsNow (pruneRotations sha rs s) = bsNow s"
  "bsWritable (pruneRotations sha rs s) = bsWritable s" "bsRandom (pruneRotations sha rs s) = bsRandom s"
  "bsRotations (pruneRotations sha rs s) = filter (\<lambda>(hash, ro). bsNow s < roUntil ro \<and>
     indexOf rs (hashToken sha (roToken ro)) currentHash \<noteq> None) (bsRotations s)"
  by (simp_all add: pruneRotations_def keepOnly_def)

lemma draw_fields:
  assumes "store_draw s = (t, s')"
  shows "bsDisk s' = bsDisk s" "bsNow s' = bsNow s" "bsRotations s' = bsRotations s" "bsByHash s' = bsByHash s"
    "bsWritable s' = bsWritable s" "bsIssued s' = bsIssued s"
  using assms by (auto simp: store_draw_def split: prod.splits)

lemma rotate_cached_ok:
  assumes rots: "rotations_ok sha rs rots" and rs: "sorted_wrt apart rs" and i: "i < length rs"
    and p: "p = brHash (rs ! i)" and n: "n = hashToken sha token" and fresh: "n \<notin> (\<Union>r \<in> set rs. hashes r) \<union> fst ` set rots"
  shows "rotations_ok sha (rs[i := rotated sha token now (rs ! i)])
    (AList.update p \<lparr>roToken = token, roUntil = until\<rparr>
       (map (\<lambda>(hash, ro). (hash, if hashToken sha (roToken ro) = p then ro\<lparr>roToken := token\<rparr> else ro)) rots))"
proof -
  let ?new = "rotated sha token now (rs ! i)"
  let ?rots = "map (\<lambda>(hash, ro). (hash, if hashToken sha (roToken ro) = p then ro\<lparr>roToken := token\<rparr> else ro)) rots"
  have old: "rs ! i \<in> set rs" using i by simp
  have new: "brHash ?new = n" by (simp add: rotated_def n)
  have keys: "map fst ?rots = map fst rots" by (auto simp: split_beta)
  have member: "(q = ?new) \<or> (q \<in> set rs \<and> q \<noteq> rs ! i)" if q: "q \<in> set (rs[i := ?new])" for q
  proof -
    obtain j where j: "j < length rs" "q = rs[i := ?new] ! j"
      using q [unfolded in_set_conv_nth] by auto
    show ?thesis
    proof (cases "j = i")
      case False
      then have "apart (rs ! i) (rs ! j)" using apart_at [OF rs i j(1)] by simp
      then have "rs ! j \<noteq> rs ! i" by (auto simp: apart_def hashes_def)
      then show ?thesis using j False by simp
    qed (use j i in simp)
  qed
  have mine: "hashes ?new \<subseteq> insert n (hashes (rs ! i))" using rotated_hashes(1) by (simp add: n)
  have lead: "hashToken sha (roToken ro) = brHash q"
    if e: "(h, ro) \<in> insert (p, \<lparr>roToken = token, roUntil = until\<rparr>) (set ?rots)" and q: "q \<in> set (rs[i := ?new])" and h: "h \<in> hashes q" for h ro q
  proof (cases "(h, ro) = (p, \<lparr>roToken = token, roUntil = until\<rparr>)")
    case True
    have "q = ?new"
    proof (rule ccontr)
      assume "q \<noteq> ?new"
      then have "q \<in> set rs" "q \<noteq> rs ! i" using member [OF q] by auto
      moreover have "p \<in> hashes (rs ! i)" by (simp add: p hashes_def)
      ultimately show False using family_unique [OF rs, of q "rs ! i" p] old h True by auto
    qed
    then show ?thesis using True new n by simp
  next
    case False
    then obtain ro0 where ro0: "(h, ro0) \<in> set rots" "ro = (if hashToken sha (roToken ro0) = p then ro0\<lparr>roToken := token\<rparr> else ro0)"
      using e by auto
    have "h \<in> fst ` set rots" by (rule image_eqI [OF _ ro0(1)]) simp
    then have hn: "h \<noteq> n" using fresh by blast
    have orig: "hashToken sha (roToken ro0) = brHash r" if "r \<in> set rs" "h \<in> hashes r" for r
    proof -
      have "leads sha rs (h, ro0)" using rots ro0(1) unfolding rotations_ok_def by blast
      then show ?thesis using that unfolding leads_def by simp
    qed
    show ?thesis
    proof (cases "q = ?new")
      case True
      then have "h \<in> hashes (rs ! i)" using h mine hn by auto
      then have "hashToken sha (roToken ro0) = p" using orig old p by simp
      then show ?thesis using ro0(2) True new n by simp
    next
      case other: False
      then have qr: "q \<in> set rs" "q \<noteq> rs ! i" using member [OF q] by auto
      then have "hashToken sha (roToken ro0) = brHash q" using orig h by simp
      moreover have "brHash q \<noteq> p"
        using family_unique [OF rs qr(1) old, of p] qr(2) p by (auto simp: hashes_def)
      ultimately show ?thesis using ro0(2) by simp
    qed
  qed
  have "distinct (map fst (AList.update p \<lparr>roToken = token, roUntil = until\<rparr> ?rots))"
    by (rule distinct_update) (use rots keys in \<open>simp only: rotations_ok_def\<close>)
  moreover have "leads sha (rs[i := ?new]) e" if "e \<in> set (AList.update p \<lparr>roToken = token, roUntil = until\<rparr> ?rots)" for e
  proof -
    have "(fst e, snd e) \<in> insert (p, \<lparr>roToken = token, roUntil = until\<rparr>) (set ?rots)"
      using subsetD [OF update_entries that] by simp
    then show ?thesis unfolding leads_def by (intro ballI impI) (rule lead)
  qed
  ultimately show ?thesis by (simp add: rotations_ok_def)
qed

section \<open>Every operation keeps the invariant\<close>

lemma store_ok_fewer:
  assumes "store_ok sha F s" and "bsDisk s' = bsDisk s" and "bsNow s' = bsNow s" and "bsRotations s' = filter P (bsRotations s)"
  shows "store_ok sha F s'"
proof -
  have "disk_regs s' = disk_regs s" using load_disk [OF assms(2)] by (simp add: disk_regs_def)
  then show ?thesis using assms rotations_fewer [of sha "disk_regs s" "bsRotations s" "disk_regs s" P]
    by (auto simp: store_ok_def dead_def)
qed

lemma store_ok_same:
  "store_ok sha F s \<Longrightarrow> bsDisk s' = bsDisk s \<Longrightarrow> bsNow s' = bsNow s \<Longrightarrow> bsRotations s' = bsRotations s \<Longrightarrow> store_ok sha F s'"
  by (rule store_ok_fewer [where P = "\<lambda>_. True"]) simp_all

lemma store_ok_write:
  assumes "store_write d s = (s', ok)" and "store_ok sha F s" and "regs_ok (dcRegistrations d)" and "dcPort d = 0 \<or> EnginePort_ok (dcPort d)"
    and "rotations_ok sha (dcRegistrations d) (bsRotations s)" and "dead F (dcRegistrations d) (bsRotations s)"
  shows "store_ok sha F s'"
proof (cases ok)
  case True
  then show ?thesis using write_load [of d s s'] write_fields [OF assms(1)] assms by (simp add: store_ok_def)
next
  case False
  then show ?thesis using write_fields(7) [OF assms(1)] assms(2) by simp
qed

lemma store_ok_load:
  assumes "store_ok sha F s"
  obtains d where "load s = Inr d" "disk_regs s = dcRegistrations d" "regs_ok (dcRegistrations d)" "dcPort d = 0 \<or> EnginePort_ok (dcPort d)"
  using load_ok [of s] assms by (auto simp: store_ok_def document_ok_def disk_regs_def)

lemma live_set: "set (live s rs) \<subseteq> set rs" by (auto simp: live_def)

lemma regs_live: "regs_ok rs \<Longrightarrow> regs_ok (live s rs)" by (simp add: live_def regs_filter)

lemma dead_fewer: "dead F rs rots \<Longrightarrow> set rs' \<subseteq> set rs \<Longrightarrow> dead F rs' (filter P rots)"
  unfolding dead_def by auto

lemma prune_ok: "store_ok sha F s \<Longrightarrow> store_ok sha F (pruneRotations sha rs s)"
  by (rule store_ok_fewer) simp_all

lemma prune_regs [simp]: "disk_regs (pruneRotations sha rs s) = disk_regs s"
  by (simp add: disk_regs_def load_disk [of "pruneRotations sha rs s" s])

text \<open>A write of registrations that were already there.\<close>

lemma store_ok_write_fewer:
  assumes "store_write d s = (s', ok)" and "store_ok sha F s" and "regs_ok (dcRegistrations d)" and "dcPort d = 0 \<or> EnginePort_ok (dcPort d)"
    and "set (dcRegistrations d) \<subseteq> set (disk_regs s)"
  shows "store_ok sha F s'"
  using store_ok_write [OF assms(1-4)] rotations_fewer [of sha "disk_regs s" "bsRotations s" "dcRegistrations d" "\<lambda>_. True"]
    dead_fewer [of F "disk_regs s" "bsRotations s" "dcRegistrations d" "\<lambda>_. True"] assms(2,5)
  by (simp add: store_ok_def)

lemma rotated_ok:
  assumes "regs_ok rs" and "i < length rs" and "length (sha token) = 32" and "now \<noteq> 0"
    and "hashToken sha token \<notin> (\<Union>r \<in> set rs. hashes r)"
  shows "regs_ok (rs[i := rotated sha token now (rs ! i)])"
proof -
  let ?new = "rotated sha token now (rs ! i)"
  have old: "rs ! i \<in> set rs" "entry_ok (rs ! i)" using assms(1,2) by (auto simp: regs_ok_def list_all_iff)
  have "entry_ok ?new"
    using old(2) rotated_hashes(1) [of sha token now "rs ! i"] hashToken_valid [of sha token] retire_subset(3) assms(3,4)
    by (auto simp: entry_ok_def) (auto simp: rotated_def)
  then have "list_all entry_ok (rs[i := ?new])"
    using assms(1) set_update_subset_insert [of rs i ?new] by (auto simp: regs_ok_def list_all_iff)
  moreover have "sorted_wrt apart (rs[i := ?new])"
  proof (rule apart_update [OF _ assms(2)])
    fix q assume q: "q \<in> set rs" "q \<noteq> rs ! i"
    have "hashes (rs ! i) \<inter> hashes q = {}"
      using family_unique [of rs q "rs ! i"] q old(1) assms(1) by (auto simp: regs_ok_def)
    moreover have "hashToken sha token \<notin> hashes q" using assms(5) q(1) by blast
    ultimately show "apart ?new q" using rotated_hashes(1) [of sha token now "rs ! i"] unfolding apart_def by blast
  qed (use assms(1) in \<open>simp add: regs_ok_def\<close>)
  ultimately show ?thesis using assms(1) by (simp add: regs_ok_def)
qed

text \<open>The ways a recovery goes.\<close>

lemma Recover_cases:
  assumes "Recover sha presented s0 = (s', out)" and "load s0 = Inr d"
  defines "hash \<equiv> hashToken sha presented" and "regs \<equiv> live s0 (dcRegistrations d)"
  defines "s \<equiv> pruneRotations sha (live s0 (dcRegistrations d)) s0"
  obtains (not_a_token) "\<not> IsToken presented" "s' = s0" "out = Inr no_recovery"
  | (no_random) i s1 where "indexOf regs hash currentHash = Some i" "store_draw s = (None, s1)" "s' = s1" "out = Inl ErrNoRandom"
  | (not_written) i token s1 where "indexOf regs hash currentHash = Some i" "store_draw s = (Some token, s1)"
      "store_write (d\<lparr>dcRegistrations := regs[i := rotated sha token (bsNow s1) (regs ! i)]\<rparr>) s1 = (s', False)" "out = Inl ErrWriteFile"
  | (rotation) i token s1 s2 ident where "IsToken presented" "indexOf regs hash currentHash = Some i" "store_draw s = (Some token, s1)"
      "store_write (d\<lparr>dcRegistrations := regs[i := rotated sha token (bsNow s1) (regs ! i)]\<rparr>) s1 = (s2, True)"
      "id_rotate hash (hashToken sha token) (rotateCachedTokens sha hash token (bsNow s2 + rotationGrace) s2) = (s', ident)"
      "out = Inr (no_recovery\<lparr>rcToken := token, rcRegistration := ident\<rparr>)"
  | (grace) recent ident where "indexOf regs hash currentHash = None" "valid_rotation hash s = Some recent"
      "id_of (hashToken sha (roToken recent)) s = (s', ident)" "out = Inr (no_recovery\<lparr>rcToken := roToken recent, rcRegistration := ident\<rparr>)"
  | (unknown) "indexOf regs hash currentHash = None" "s' = s" "out = Inr no_recovery"
  | (stolen_not_written) i stolen s1 where "indexOf regs hash retiredHashes = Some i" "id_of (brHash (regs ! i)) s = (s1, stolen)"
      "store_write (d\<lparr>dcRegistrations := remove_at i regs\<rparr>) s1 = (s', False)" "out = Inl ErrWriteFile"
  | (stolen) i stolen s1 s2 where "indexOf regs hash currentHash = None" "valid_rotation hash s = None" "indexOf regs hash retiredHashes = Some i"
      "id_of (brHash (regs ! i)) s = (s1, stolen)" "store_write (d\<lparr>dcRegistrations := remove_at i regs\<rparr>) s1 = (s2, True)"
      "s' = pruneRotations sha (remove_at i regs) s2" "out = Inr (no_recovery\<lparr>rcStolen := stolen\<rparr>)"
proof (cases "IsToken presented")
  case False
  then show ?thesis using assms(1) not_a_token by (simp add: Recover_def)
next
  case True
  note unfolded = assms(1) [unfolded Recover_def Let_def] True assms(2)
  note names = hash_def regs_def s_def
  show ?thesis
  proof (cases "indexOf regs hash currentHash")
    case (Some i)
    obtain drawn s1 where draw: "store_draw s = (drawn, s1)" by (cases "store_draw s")
    show ?thesis
    proof (cases drawn)
      case None
      then show ?thesis using unfolded Some draw no_random by (simp add: names)
    next
      case token: (Some token)
      obtain s2 ok where w: "store_write (d\<lparr>dcRegistrations := regs[i := rotated sha token (bsNow s1) (regs ! i)]\<rparr>) s1 = (s2, ok)" by fastforce
      obtain s3 ident where r: "id_rotate hash (hashToken sha token) (rotateCachedTokens sha hash token (bsNow s2 + rotationGrace) s2) = (s3, ident)" by fastforce
      show ?thesis
        by (cases ok) (use unfolded Some draw token w r rotation [of i token s1 s2 ident] not_written [of i token s1] in \<open>simp_all add: names\<close>)
    qed
  next
    case None
    show ?thesis
    proof (cases "valid_rotation hash s")
      case (Some recent)
      obtain s1 ident where "id_of (hashToken sha (roToken recent)) s = (s1, ident)" by fastforce
      then show ?thesis using unfolded None Some grace by (simp add: names)
    next
      case invalid: None
      show ?thesis
      proof (cases "indexOf regs hash retiredHashes")
        case None
        then show ?thesis using unfolded \<open>indexOf regs hash currentHash = None\<close> invalid unknown by (simp add: names)
      next
        case (Some i)
        obtain s1 gone where i: "id_of (brHash (regs ! i)) s = (s1, gone)" by fastforce
        obtain s2 ok where w: "store_write (d\<lparr>dcRegistrations := remove_at i regs\<rparr>) s1 = (s2, ok)" by fastforce
        show ?thesis
        proof (cases ok)
          case True
          then have "s' = pruneRotations sha (remove_at i regs) s2" "out = Inr (no_recovery\<lparr>rcStolen := gone\<rparr>)"
            using unfolded None invalid Some i w by (simp_all add: names)
          then show ?thesis using stolen [OF None invalid Some i] w [unfolded True [THEN eq_True [THEN iffD2], THEN eq_reflection]] by blast
        next
          case False
          then have "s' = s2" "out = Inl ErrWriteFile" using unfolded None invalid Some i w by (simp_all add: names)
          then show ?thesis using stolen_not_written [OF Some i] w [unfolded False [THEN eq_False [THEN iffD2], THEN eq_reflection]] by blast
        qed
      qed
    qed
  qed
qed

lemma prune_subset: "set (bsRotations (pruneRotations sha rs s)) \<subseteq> set (bsRotations s)"
  by simp

lemma fresh_prune: "draws_fresh sha F s \<Longrightarrow> draws_fresh sha F (pruneRotations sha rs s)"
proof -
  have "fst (store_draw (pruneRotations sha rs s)) = fst (store_draw s)" by (simp add: store_draw_def split_beta)
  then show "draws_fresh sha F s \<Longrightarrow> draws_fresh sha F (pruneRotations sha rs s)" by (auto simp: draws_fresh_def)
qed

lemma draw_ok: "store_ok sha F s \<Longrightarrow> store_draw s = (t, s') \<Longrightarrow> store_ok sha F s'"
  using draw_fields by (blast intro: store_ok_same)

lemma disjoint_insert_subset: "A \<subseteq> insert h B \<Longrightarrow> h \<notin> F \<Longrightarrow> B \<inter> F = {} \<Longrightarrow> A \<inter> F = {}"
  by blast

lemma rotate_cached_keys:
  "fst ` set (bsRotations (rotateCachedTokens sha hash token until s)) \<subseteq> insert hash (fst ` set (bsRotations s))"
proof -
  let ?f = "\<lambda>(h, ro). (h, if hashToken sha (roToken ro) = hash then ro\<lparr>roToken := token\<rparr> else ro)"
  have "fst ` set (bsRotations (rotateCachedTokens sha hash token until s)) \<subseteq>
      fst ` insert (hash, \<lparr>roToken = token, roUntil = until\<rparr>) (?f ` set (bsRotations s))"
    using image_mono [OF update_entries [of hash "\<lparr>roToken = token, roUntil = until\<rparr>" "map ?f (bsRotations s)"], of fst]
    by (simp only: rotateCachedTokens_def Store.simps Store.select_convs Store.update_convs set_map) simp
  also have "\<dots> = insert hash ((\<lambda>x. fst (?f x)) ` set (bsRotations s))" by (simp only: image_insert image_image fst_conv)
  also have "(\<lambda>x. fst (?f x)) = fst" by (simp add: fun_eq_iff split_beta)
  finally show ?thesis .
qed

text \<open>A rotation keeps what the store promises.\<close>

lemma rotation_ok:
  assumes s: "store_ok sha F s" and sha: "\<forall>t. length (sha t) = 32" and fresh: "draws_fresh sha F s"
    and regs: "regs_ok regs" "set regs \<subseteq> set (disk_regs s)" and port: "dcPort d = 0 \<or> EnginePort_ok (dcPort d)"
    and i: "i < length regs" and hash: "hash = brHash (regs ! i)"
    and draw: "store_draw s = (Some token, s1)"
    and w: "store_write (d\<lparr>dcRegistrations := regs[i := rotated sha token (bsNow s1) (regs ! i)]\<rparr>) s1 = (s2, True)"
  shows "store_ok sha F (fst (id_rotate hash (hashToken sha token) (rotateCachedTokens sha hash token until s2)))"
proof -
  let ?n = "hashToken sha token" and ?rs = "regs[i := rotated sha token (bsNow s1) (regs ! i)]"
  let ?s3 = "rotateCachedTokens sha hash token until s2" and ?d = "d\<lparr>dcRegistrations := regs[i := rotated sha token (bsNow s1) (regs ! i)]\<rparr>"
  have n: "?n \<notin> F \<union> (\<Union>r \<in> set (disk_regs s). hashes r) \<union> fst ` set (bsRotations s)"
    using fresh draw by (simp add: draws_fresh_def)
  then have n': "?n \<notin> (\<Union>r \<in> set regs. hashes r)" using regs(2) by blast
  have now: "bsNow s1 \<noteq> 0" using s draw_fields(2) [OF draw] by (simp add: store_ok_def)
  have new: "regs_ok ?rs" by (rule rotated_ok [OF regs(1) i _ now n']) (simp add: sha)
  have rots: "bsRotations s2 = bsRotations s" using write_fields(2) [OF w] draw_fields(3) [OF draw] by simp
  have "rotations_ok sha regs (bsRotations s)"
    using rotations_fewer [of sha "disk_regs s" "bsRotations s" regs "\<lambda>_. True"] s regs(2) by (simp add: store_ok_def)
  then have leading: "rotations_ok sha ?rs (bsRotations ?s3)"
    using rotate_cached_ok [of sha regs "bsRotations s" i hash ?n token "bsNow s1" until] regs(1) i hash n n' rots
    by (simp add: rotateCachedTokens_def regs_ok_def)
  have dead: "dead F ?rs (bsRotations ?s3)"
  proof -
    have old: "hashes r \<inter> F = {}" if "r \<in> set regs" for r using s regs(2) that by (auto simp: store_ok_def dead_def)
    have families: "hashes r \<inter> F = {}" if "r \<in> set ?rs" for r
    proof -
      have "r = rotated sha token (bsNow s1) (regs ! i) \<or> r \<in> set regs" using subsetD [OF set_update_subset_insert that] by simp
      then show ?thesis
      proof
        assume "r = rotated sha token (bsNow s1) (regs ! i)"
        then have "hashes r \<subseteq> insert ?n (hashes (regs ! i))" using rotated_hashes(1) by simp
        then show ?thesis using old [OF nth_mem [OF i]] n by blast
      qed (rule old)
    qed
    have "hash \<notin> F" using old [OF nth_mem [OF i]] hash by (auto simp: hashes_def)
    moreover have "fst ` set (bsRotations s) \<inter> F = {}" using s by (simp add: store_ok_def dead_def)
    ultimately have "fst ` set (bsRotations ?s3) \<inter> F = {}"
      using disjoint_insert_subset rotate_cached_keys [of sha hash token until s2] rots by simp
    then show ?thesis using families by (simp add: dead_def)
  qed
  have "disk_ok (bsDisk s2)" "disk_regs s2 = ?rs" using write_load [OF w] new port by simp_all
  moreover have "disk_regs ?s3 = disk_regs s2" "bsDisk ?s3 = bsDisk s2" "bsNow ?s3 = bsNow s1"
    using write_fields(1) [OF w] by (simp_all add: rotateCachedTokens_def disk_regs_def load_def)
  ultimately have "store_ok sha F ?s3" using leading dead now by (simp add: store_ok_def)
  then show ?thesis by (rule store_ok_same) simp_all
qed

lemma Recover_ok:
  assumes s: "store_ok sha F s" and sha: "\<forall>t. length (sha t) = 32" and fresh: "draws_fresh sha F s"
  shows "store_ok sha F (fst (Recover sha presented s))"
proof -
  obtain s' out where run: "Recover sha presented s = (s', out)" by fastforce
  obtain d where d: "load s = Inr d" "disk_regs s = dcRegistrations d" "regs_ok (dcRegistrations d)" "dcPort d = 0 \<or> EnginePort_ok (dcPort d)"
    using store_ok_load [OF s] .
  let ?regs = "live s (dcRegistrations d)" and ?s = "pruneRotations sha (live s (dcRegistrations d)) s"
  have p: "store_ok sha F ?s" by (rule prune_ok [OF s])
  have sub: "set ?regs \<subseteq> set (disk_regs ?s)" using live_set d(2) by simp
  have written: "store_ok sha F s2" if "store_write (d\<lparr>dcRegistrations := rs\<rparr>) s1 = (s2, ok)" "store_ok sha F s1" "bsDisk s1 = bsDisk s"
      "regs_ok rs" "set rs \<subseteq> set (dcRegistrations d)" for rs s1 s2 ok
    by (rule store_ok_write_fewer [OF that(1,2)])
      (use that d load_disk [OF that(3)] in \<open>simp_all add: disk_regs_def\<close>)
  have removed: "regs_ok (remove_at i ?regs)" "set (remove_at i ?regs) \<subseteq> set (dcRegistrations d)" for i
    using regs_remove [OF regs_live [OF d(3)]] remove_at_set [of i ?regs] live_set [of s "dcRegistrations d"] by auto
  have gone: "store_ok sha F s1" "bsDisk s1 = bsDisk s" if "id_of h ?s = (s1, ident)" for h s1 ident
    using store_ok_same [OF p, of s1] id_of_fields [of h ?s] that by simp_all
  show ?thesis
    using run d(1)
  proof (cases rule: Recover_cases)
    case not_a_token
    then show ?thesis using s run by simp
  next
    case (no_random i s1)
    then show ?thesis using draw_ok [OF p] run by simp
  next
    case (not_written i token s1)
    then show ?thesis using draw_ok [OF p] write_fields(7) [OF not_written(3)] run by simp
  next
    case (rotation i token s1 s2 ident)
    have i: "i < length ?regs" "hashToken sha presented = brHash (?regs ! i)"
      using indexOf_Some [OF rotation(2)] by (simp_all add: currentHash_def)
    show ?thesis
      using rotation_ok [OF p sha fresh_prune [OF fresh] regs_live [OF d(3)] sub d(4) i rotation(3,4)] rotation(5) run
      by (metis fst_conv)
  next
    case (grace recent ident)
    then show ?thesis using gone(1) run by simp
  next
    case unknown
    then show ?thesis using p run by simp
  next
    case (stolen_not_written i gone' s1)
    then show ?thesis using written removed gone run by (metis fst_conv)
  next
    case (stolen i stolen' s1 s2)
    have "store_ok sha F s2" using written [OF stolen(5)] removed gone [OF stolen(4)] by simp
    then show ?thesis using prune_ok stolen(6) run by simp
  qed
qed

lemma Forget_ok:
  assumes s: "store_ok sha F s"
  shows "store_ok sha F (fst (Forget sha presented s))"
proof (cases "IsToken presented")
  case False
  then show ?thesis using s by (simp add: Forget_def)
next
  case True
  obtain d where d: "load s = Inr d" "disk_regs s = dcRegistrations d" "regs_ok (dcRegistrations d)" "dcPort d = 0 \<or> EnginePort_ok (dcPort d)"
    using store_ok_load [OF s] .
  let ?regs = "live s (dcRegistrations d)" and ?s = "pruneRotations sha (live s (dcRegistrations d)) s"
  have p: "store_ok sha F ?s" by (rule prune_ok [OF s])
  show ?thesis
  proof (cases "named_by sha ?regs (hashToken sha presented) ?s")
    case None
    then show ?thesis using True d(1) p by (simp add: Forget_def Let_def)
  next
    case (Some i)
    let ?d = "d\<lparr>dcRegistrations := remove_at i ?regs\<rparr>"
    obtain s1 gone where s1: "id_of (brHash (?regs ! i)) ?s = (s1, gone)" by fastforce
    obtain s2 ok where w: "store_write ?d s1 = (s2, ok)" by fastforce
    have ok1: "store_ok sha F s1" and disk: "bsDisk s1 = bsDisk s"
      using store_ok_same [OF p, of s1] id_of_fields [of "brHash (?regs ! i)" ?s] s1 by simp_all
    have "set (remove_at i ?regs) \<subseteq> set (disk_regs s1)"
      using remove_at_set [of i ?regs] live_set [of s "dcRegistrations d"] load_disk [OF disk] d(1) by (auto simp: disk_regs_def)
    then have "store_ok sha F s2"
      using store_ok_write_fewer [OF w ok1] regs_remove [OF regs_live [OF d(3)]] d(4) by simp
    then show ?thesis using True d(1) Some s1 w prune_ok by (cases ok) (simp_all add: Forget_def Let_def)
  qed
qed

text \<open>Registrations whose hashes were there already.\<close>

lemma covered_ok:
  assumes "rotations_ok sha rs rots" and "dead F rs rots" and "\<And>r. r \<in> set rs' \<Longrightarrow> \<exists>q \<in> set rs. hashes r = hashes q \<and> brHash r = brHash q"
  shows "rotations_ok sha rs' rots \<and> dead F rs' rots"
proof
  have "leads sha rs' e" if "leads sha rs e" for e
    unfolding leads_def
  proof (intro ballI impI)
    fix r assume "r \<in> set rs'" "fst e \<in> hashes r"
    then show "hashToken sha (roToken (snd e)) = brHash r" using assms(3) [of r] that unfolding leads_def by auto
  qed
  then show "rotations_ok sha rs' rots" using assms(1) by (simp add: rotations_ok_def)
  have "hashes r \<inter> F = {}" if "r \<in> set rs'" for r
    using assms(3) [OF that] assms(2) unfolding dead_def by (elim bexE conjE) simp
  then show "dead F rs' rots" using assms(2) by (simp add: dead_def)
qed

lemma touched_ok:
  assumes "regs_ok rs" and "i < length rs" and "now \<noteq> 0"
  shows "regs_ok (rs[i := (rs ! i)\<lparr>brLastUsedAt := now\<rparr>])"
proof -
  let ?new = "(rs ! i)\<lparr>brLastUsedAt := now\<rparr>"
  have "apart ?new q" if "q \<in> set rs" "q \<noteq> rs ! i" for q
  proof -
    have "hashes (rs ! i) \<inter> hashes q = {}"
      using family_unique [of rs q "rs ! i"] that nth_mem [OF assms(2)] assms(1) by (auto simp: regs_ok_def)
    then show ?thesis by (simp add: apart_def hashes_def)
  qed
  then have "sorted_wrt apart (rs[i := ?new])" using apart_update assms(1,2) by (simp add: regs_ok_def)
  moreover have "entry_ok ?new" using assms by (auto simp: regs_ok_def list_all_iff entry_ok_def hashes_def)
  then have "list_all entry_ok (rs[i := ?new])"
    using assms(1) set_update_subset_insert [of rs i ?new] by (auto simp: regs_ok_def list_all_iff)
  ultimately show ?thesis using assms(1) by (simp add: regs_ok_def)
qed

lemma added_ok:
  assumes "regs_ok rs" and "length rs < MaxRegistrations" and "validHash n" and "now \<noteq> 0" and "n \<notin> (\<Union>r \<in> set rs. hashes r)"
  shows "regs_ok (rs @ [\<lparr>brHash = n, brRetired = [], brIssuedAt = now, brLastUsedAt = now\<rparr>])" (is "regs_ok (rs @ [?r])")
proof -
  have r: "hashes ?r = {n}" "entry_ok ?r" using assms(3,4) by (simp_all add: hashes_def entry_ok_def)
  then have "\<forall>q \<in> set rs. apart q ?r" using assms(5) by (auto simp: apart_def)
  then show ?thesis using assms(1,2) r(2) by (simp add: regs_ok_def sorted_wrt_append)
qed

lemma added_store_ok:
  assumes "rotations_ok sha rs rots" and "dead F rs rots" and "n \<notin> F" and "n \<notin> fst ` set rots"
  shows "rotations_ok sha (rs @ [\<lparr>brHash = n, brRetired = [], brIssuedAt = now, brLastUsedAt = now\<rparr>]) rots"
    and "dead F (rs @ [\<lparr>brHash = n, brRetired = [], brIssuedAt = now, brLastUsedAt = now\<rparr>]) rots"
proof -
  have "leads sha (rs @ [\<lparr>brHash = n, brRetired = [], brIssuedAt = now, brLastUsedAt = now\<rparr>]) e" if "leads sha rs e" "e \<in> set rots" for e
    using that assms(4) unfolding leads_def by (auto simp: hashes_def)
  then show "rotations_ok sha (rs @ [\<lparr>brHash = n, brRetired = [], brIssuedAt = now, brLastUsedAt = now\<rparr>]) rots"
    using assms(1) by (simp add: rotations_ok_def)
  show "dead F (rs @ [\<lparr>brHash = n, brRetired = [], brIssuedAt = now, brLastUsedAt = now\<rparr>]) rots"
    using assms(2,3) by (auto simp: dead_def hashes_def)
qed

lemma leastRecentlyUsed_bound: "rs \<noteq> [] \<Longrightarrow> leastRecentlyUsed rs < length rs"
proof -
  assume "rs \<noteq> []"
  then have "fold (\<lambda>i oldest. if used_before (rs ! i) (rs ! oldest) then i else oldest) is k < length rs"
    if "set is \<subseteq> {..< length rs}" "k < length rs" for "is" k
    using that by (induction "is" arbitrary: k) auto
  from this [of "[0..<length rs]" 0] show ?thesis using \<open>rs \<noteq> []\<close> by (simp add: leastRecentlyUsed_def atLeast0LessThan)
qed

lemma not_in_families: "n \<notin> (\<Union>r \<in> A. hashes r) \<Longrightarrow> B \<subseteq> A \<Longrightarrow> n \<notin> (\<Union>r \<in> B. hashes r)"
  by blast

text \<open>A full list makes room for the new registration.\<close>

lemma register_room:
  assumes "regs_ok rs"
  defines "kept \<equiv> if length rs \<ge> MaxRegistrations then remove_at (leastRecentlyUsed rs) rs else rs"
  shows "regs_ok kept" and "set kept \<subseteq> set rs" and "length kept < MaxRegistrations"
proof -
  show "regs_ok kept" "set kept \<subseteq> set rs"
    using assms(1) regs_remove remove_at_set [of _ rs] by (simp_all add: kept_def)
  show "length kept < MaxRegistrations"
  proof (cases "length rs \<ge> MaxRegistrations")
    case True
    then have "length rs = MaxRegistrations" "rs \<noteq> []" using assms(1) by (auto simp: regs_ok_def MaxRegistrations_def)
    then show ?thesis using leastRecentlyUsed_bound [of rs] by (simp add: kept_def remove_at_def)
  qed (simp add: kept_def)
qed

lemma Register_ok:
  assumes s: "store_ok sha F s" and sha: "\<forall>t. length (sha t) = 32" and fresh: "draws_fresh sha F s"
  shows "store_ok sha F (fst (Register sha presented s))"
proof -
  obtain d where d: "load s = Inr d" "disk_regs s = dcRegistrations d" "regs_ok (dcRegistrations d)" "dcPort d = 0 \<or> EnginePort_ok (dcPort d)"
    using store_ok_load [OF s] .
  let ?regs = "live s (dcRegistrations d)" and ?s = "pruneRotations sha (live s (dcRegistrations d)) s"
  have p: "store_ok sha F ?s" by (rule prune_ok [OF s])
  have now: "bsNow ?s \<noteq> 0" using p by (simp add: store_ok_def)
  have fewer: "rotations_ok sha rs (bsRotations ?s) \<and> dead F rs (bsRotations ?s)" if "set rs \<subseteq> set ?regs" for rs
  proof -
    have "set rs \<subseteq> set (disk_regs ?s)" using that live_set [of s "dcRegistrations d"] d(2) by simp
    then show ?thesis using rotations_fewer [of sha "disk_regs ?s" "bsRotations ?s" rs "\<lambda>_. True"]
      dead_fewer [of F "disk_regs ?s" "bsRotations ?s" rs "\<lambda>_. True"] p by (simp add: store_ok_def del: prune_fields)
  qed
  show ?thesis
  proof (cases "if IsToken presented then indexOf ?regs (hashToken sha presented) currentHash else None")
    case (Some i)
    let ?new = "(?regs ! i)\<lparr>brLastUsedAt := bsNow ?s\<rparr>"
    let ?d = "d\<lparr>dcRegistrations := ?regs[i := ?new]\<rparr>"
    have i: "i < length ?regs" using Some indexOf_Some by (simp split: if_splits)
    obtain s2 ok where w: "store_write ?d ?s = (s2, ok)" by fastforce
    have "\<exists>q \<in> set ?regs. hashes r = hashes q \<and> brHash r = brHash q" if "r \<in> set (?regs[i := ?new])" for r
      using subsetD [OF set_update_subset_insert that] nth_mem [OF i] by (auto simp: hashes_def)
    then have "rotations_ok sha (?regs[i := ?new]) (bsRotations ?s) \<and> dead F (?regs[i := ?new]) (bsRotations ?s)"
      using covered_ok fewer [OF order_refl] by blast
    then have "store_ok sha F s2"
      using store_ok_write [OF w p] touched_ok [OF regs_live [OF d(3)] i now] d(4) by simp
    then show ?thesis using d(1) Some w by (cases ok) (simp_all add: Register_def Let_def)
  next
    case None
    obtain drawn s1 where draw: "store_draw ?s = (drawn, s1)" by fastforce
    have p1: "store_ok sha F s1" by (rule draw_ok [OF p draw])
    show ?thesis
    proof (cases drawn)
      case no: None
      then show ?thesis using d(1) None draw p1 by (simp add: Register_def Let_def)
    next
      case (Some token)
      let ?kept = "if length ?regs \<ge> MaxRegistrations then remove_at (leastRecentlyUsed ?regs) ?regs else ?regs"
      let ?n = "hashToken sha token"
      let ?new = "\<lparr>brHash = ?n, brRetired = [], brIssuedAt = bsNow s1, brLastUsedAt = bsNow s1\<rparr>"
      let ?d = "d\<lparr>dcRegistrations := ?kept @ [?new]\<rparr>"
      obtain s2 ok where w: "store_write ?d s1 = (s2, ok)" by fastforce
      have same: "bsRotations s1 = bsRotations ?s" "bsNow s1 = bsNow ?s" using draw_fields [OF draw] by simp_all
      have n: "?n \<notin> F" "?n \<notin> (\<Union>r \<in> set (disk_regs ?s). hashes r)" "?n \<notin> fst ` set (bsRotations ?s)"
        using fresh_prune [OF fresh, of "?regs"] draw Some by (simp_all add: draws_fresh_def del: prune_fields)
      have kept: "regs_ok ?kept" "set ?kept \<subseteq> set ?regs" and room: "length ?kept < MaxRegistrations"
        using register_room [OF regs_live [OF d(3)]] .
      have unseen: "?n \<notin> (\<Union>r \<in> set ?kept. hashes r)"
        by (rule not_in_families [OF n(2)]) (simp only: prune_regs d(2) order_trans [OF kept(2) live_set])
      have "regs_ok (?kept @ [?new])"
        using added_ok [OF kept(1) room _ _ unseen] hashToken_valid sha now same(2) by simp
      moreover have "rotations_ok sha (?kept @ [?new]) (bsRotations s1)" "dead F (?kept @ [?new]) (bsRotations s1)"
        using added_store_ok [of sha ?kept "bsRotations ?s" F ?n "bsNow s1"] fewer [OF kept(2)] n(1,3) same(1) by simp_all
      ultimately have "store_ok sha F s2" using store_ok_write [OF w p1] d(4) by simp
      then show ?thesis using d(1) None draw Some w prune_ok by (cases ok) (simp_all add: Register_def Let_def)
    qed
  qed
qed

lemma SetPort_ok: "store_ok sha F s \<Longrightarrow> store_ok sha F (fst (SetPort port s))"
proof -
  assume s: "store_ok sha F s"
  obtain d where d: "load s = Inr d" "disk_regs s = dcRegistrations d" "regs_ok (dcRegistrations d)" "dcPort d = 0 \<or> EnginePort_ok (dcPort d)"
    using store_ok_load [OF s] .
  let ?d = "d\<lparr>dcPort := port, dcRegistrations := []\<rparr>" and ?s = "s\<lparr>bsRotations := []\<rparr>"
  have p: "store_ok sha F ?s" by (rule store_ok_fewer [OF s, where P = "\<lambda>_. False"]) simp_all
  obtain s2 ok where w: "store_write ?d ?s = (s2, ok)" by fastforce
  have "store_ok sha F s2" if "EnginePort_ok port"
    by (rule store_ok_write_fewer [OF w p]) (simp_all add: regs_ok_def that)
  then show "store_ok sha F (fst (SetPort port s))" using s d(1) w by (cases ok) (simp_all add: SetPort_def)
qed

section \<open>Runs of the store\<close>

text \<open>
  Anything a server may see: the operations, the clock, the file system and the random source, and
  a restart that forgets what is only in memory.
\<close>

inductive auth_op :: "(gostring \<Rightarrow> byte list) \<Rightarrow> gostring set \<Rightarrow> Store \<Rightarrow> Store \<Rightarrow> bool" for sha F where
  recover: "draws_fresh sha F s \<Longrightarrow> auth_op sha F s (fst (Recover sha presented s))"
| register: "draws_fresh sha F s \<Longrightarrow> auth_op sha F s (fst (Register sha presented s))"
| forget: "auth_op sha F s (fst (Forget sha presented s))"
| set_port: "auth_op sha F s (fst (SetPort port s))"
| tick: "now \<noteq> 0 \<Longrightarrow> auth_op sha F s (s\<lparr>bsNow := now\<rparr>)"
| surroundings: "auth_op sha F s (s\<lparr>bsRandom := random, bsWritable := writable\<rparr>)"
| restart: "auth_op sha F s (s\<lparr>bsRotations := [], bsByHash := [], bsIssued := 0\<rparr>)"

inductive auth_run :: "(gostring \<Rightarrow> byte list) \<Rightarrow> gostring set \<Rightarrow> Store \<Rightarrow> Store \<Rightarrow> bool" for sha F where
  start: "auth_run sha F s s"
| further: "auth_run sha F s s' \<Longrightarrow> auth_op sha F s' s'' \<Longrightarrow> auth_run sha F s s''"

lemma auth_op_ok: "auth_op sha F s s' \<Longrightarrow> \<forall>t. length (sha t) = 32 \<Longrightarrow> store_ok sha F s \<Longrightarrow> store_ok sha F s'"
proof (induction rule: auth_op.induct)
  case (tick now s)
  then have "disk_regs (s\<lparr>bsNow := now\<rparr>) = disk_regs s" by (simp add: disk_regs_def load_def)
  then show ?case using tick by (simp add: store_ok_def)
next
  case surroundings: (surroundings s _ _)
  show ?case by (rule store_ok_same [OF surroundings(2)]) simp_all
next
  case (restart s)
  show ?case by (rule store_ok_fewer [OF restart(2), where P = "\<lambda>_. False"]) simp_all
qed (simp_all add: Recover_ok Register_ok Forget_ok SetPort_ok)

lemma auth_run_ok: "auth_run sha F s s' \<Longrightarrow> \<forall>t. length (sha t) = 32 \<Longrightarrow> store_ok sha F s \<Longrightarrow> store_ok sha F s'"
  by (induction rule: auth_run.induct) (auto intro: auth_op_ok)

definition fresh_store :: "Store \<Rightarrow> bool" where
  "fresh_store s \<longleftrightarrow> bsDisk s = NoFile \<and> bsRotations s = [] \<and> bsByHash s = [] \<and> bsNow s \<noteq> 0"

lemma fresh_store_ok: "fresh_store s \<Longrightarrow> store_ok sha F s"
  by (simp add: fresh_store_def store_ok_def disk_ok_def disk_regs_def load_def empty_document_def rotations_ok_def dead_def)

section \<open>Copied tokens\<close>

lemma not_in_fewer: "h \<notin> fst ` set ys \<Longrightarrow> set xs \<subseteq> set ys \<Longrightarrow> h \<notin> fst ` set xs"
  by blast

lemma valid_rotation_None: "h \<notin> fst ` set (bsRotations s) \<Longrightarrow> valid_rotation h s = None"
  by (simp add: valid_rotation_def map_of_eq_None_iff [THEN iffD2])

lemma Recover_dead:
  assumes "store_ok sha F s" and "hashToken sha presented \<in> F" and "snd (Recover sha presented s) = Inr rc"
  shows "\<not> rc_Accepted rc"
proof -
  obtain s' where run: "Recover sha presented s = (s', Inr rc)" using assms(3) by (cases "Recover sha presented s") simp
  obtain d where d: "load s = Inr d" "disk_regs s = dcRegistrations d" using store_ok_load [OF assms(1)] by metis
  let ?regs = "live s (dcRegistrations d)" and ?h = "hashToken sha presented"
  have "?h \<notin> hashes r" if "r \<in> set ?regs" for r
  proof -
    have "r \<in> set (disk_regs s)" using subsetD [OF live_set that] d(2) by simp
    then have "hashes r \<inter> F = {}" using assms(1) by (simp add: store_ok_def dead_def)
    then show ?thesis using assms(2) by blast
  qed
  then have current: "indexOf ?regs ?h currentHash = None" unfolding indexOf_None by (auto simp: currentHash_def hashes_def)
  have "fst ` set (bsRotations s) \<inter> F = {}" using assms(1) by (simp add: store_ok_def dead_def)
  then have "?h \<notin> fst ` set (bsRotations s)" using assms(2) by blast
  then have none: "valid_rotation ?h (pruneRotations sha ?regs s) = None"
    by (intro valid_rotation_None not_in_fewer [OF _ prune_subset])
  show ?thesis
    using run d(1) by (cases rule: Recover_cases) (use current none in \<open>auto simp: no_recovery_def rc_Accepted_def\<close>)
qed

text \<open>What the detection of a copied token leaves behind.\<close>

lemma Recover_stolen:
  assumes s: "store_ok sha F s" and run: "Recover sha presented s = (s', Inr rc)" and stolen: "rcStolen rc \<noteq> []"
    and r: "r \<in> set (disk_regs s)" "hashToken sha presented \<in> hashes r" and sha: "\<forall>t. length (sha t) = 32"
    and fresh: "draws_fresh sha F s"
  shows "store_ok sha (hashes r) s'"
proof -
  obtain d where d: "load s = Inr d" "disk_regs s = dcRegistrations d" "regs_ok (dcRegistrations d)" "dcPort d = 0 \<or> EnginePort_ok (dcPort d)"
    using store_ok_load [OF s] .
  let ?regs = "live s (dcRegistrations d)" and ?h = "hashToken sha presented"
  have ok: "store_ok sha F s'" using Recover_ok [OF s sha fresh, of presented] run by simp
  show ?thesis
    using run d(1)
  proof (cases rule: Recover_cases)
    case (stolen i gone s1 s2)
    let ?left = "remove_at i ?regs"
    have i: "i < length ?regs" "?h \<in> hashes (?regs ! i)"
      using indexOf_Some [OF stolen(3)] by (auto simp: retiredHashes_def hashes_def)
    have wrt: "sorted_wrt apart ?regs" using regs_live [OF d(3)] by (simp add: regs_ok_def)
    have "?regs ! i \<in> set (dcRegistrations d)" using subsetD [OF live_set nth_mem [OF i(1)]] .
    then have r_i: "r = ?regs ! i" using family_unique [of "dcRegistrations d" r "?regs ! i" ?h] r i(2) d(2,3) by (simp add: regs_ok_def)
    have left: "hashes q \<inter> hashes r = {}" if "q \<in> set ?left" for q
      using apart_removed [OF wrt i(1) that] r_i by (simp add: apart_def Int_commute)
    have regs': "disk_regs s' = ?left" "load s' = load s2"
    proof -
      show "disk_regs s' = ?left" using write_load [OF stolen(5)] regs_remove [OF regs_live [OF d(3)]] d(4) stolen(6) by simp
      show "load s' = load s2" using stolen(6) by (intro load_disk) simp
    qed
    have "fst e \<notin> hashes r" if e: "e \<in> set (bsRotations s')" for e
    proof
      assume "fst e \<in> hashes r"
      have rots: "bsRotations s2 = bsRotations s1" "bsRotations s1 = bsRotations (pruneRotations sha ?regs s)"
        using write_fields(2) [OF stolen(5)] id_of_fields(3) [of "brHash (?regs ! i)" "pruneRotations sha ?regs s"] stolen(4) by simp_all
      have "e \<in> set (bsRotations s)" and current: "indexOf ?left (hashToken sha (roToken (snd e))) currentHash \<noteq> None"
        using e rots stolen(6) by auto
      moreover have "\<forall>e \<in> set (bsRotations s). leads sha (disk_regs s) e" using s by (simp add: store_ok_def rotations_ok_def)
      ultimately have "hashToken sha (roToken (snd e)) = brHash r" using r(1) \<open>fst e \<in> hashes r\<close> by (simp add: leads_def)
      then obtain q where "q \<in> set ?left" "brHash q = brHash r" using current unfolding indexOf_current by auto
      then show False using left [of q] by (auto simp: hashes_def)
    qed
    then have "dead (hashes r) (disk_regs s') (bsRotations s')" using left regs'(1) by (auto simp: dead_def)
    then show ?thesis using ok by (simp add: store_ok_def)
  qed (use assms(3) in \<open>simp_all add: no_recovery_def\<close>)
qed

text \<open>
  C36. In every run of the browser registrations, restarts and failing writes included, the document
  can be read again and holds at most sixteen registrations, and no hash, current or retired, belongs
  to two of them. Assumed: SHA-256 has 32 bytes and random tokens do not repeat.
\<close>

theorem registrations_always_load:
  assumes "auth_run sha {} s s'" and "fresh_store s" and "\<forall>t. length (sha t) = 32"
  shows "\<exists>d. load s' = Inr d \<and> length (dcRegistrations d) \<le> 16 \<and>
    (\<forall>i < length (dcRegistrations d). \<forall>j < length (dcRegistrations d). i \<noteq> j \<longrightarrow>
      hashes (dcRegistrations d ! i) \<inter> hashes (dcRegistrations d ! j) = {})"
proof -
  have "store_ok sha {} s'" using auth_run_ok [OF assms(1,3) fresh_store_ok [OF assms(2)]] .
  then obtain d where d: "load s' = Inr d" "regs_ok (dcRegistrations d)" using store_ok_load by metis
  then show ?thesis using apart_at [of "dcRegistrations d"] by (auto simp: regs_ok_def MaxRegistrations_def apart_def)
qed

text \<open>
  C33. When a copied token is detected, the whole family it came from is dead: in every later run, no
  token whose hash is the registration's current or retired one recovers a session.
\<close>

theorem stolen_family_dead:
  assumes "auth_run sha {} s s1" and "fresh_store s" and "\<forall>t. length (sha t) = 32"
    and "draws_fresh sha {} s1" and "Recover sha presented s1 = (s2, Inr rc)" and "rcStolen rc \<noteq> []"
    and "r \<in> set (disk_regs s1)" and "hashToken sha presented \<in> hashes r"
    and "auth_run sha (hashes r) s2 s3" and "hashToken sha later \<in> hashes r" and "Recover sha later s3 = (s4, Inr rc')"
  shows "\<not> rc_Accepted rc'"
proof -
  have "store_ok sha {} s1" using auth_run_ok [OF assms(1,3) fresh_store_ok [OF assms(2)]] .
  then have "store_ok sha (hashes r) s2" using Recover_stolen assms(3-8) by blast
  then have "store_ok sha (hashes r) s3" using auth_run_ok assms(3,9) by blast
  then show ?thesis using Recover_dead [OF _ assms(10)] assms(11) by simp
qed

end
