(* ===== verification/BrowserReplay.thy ===== *)
theory BrowserReplay
  imports BrowserAuthSafety
begin

text \<open>
  The identifiers by which the entrance knows a registration (internal/browserauth/identifiers.go),
  and what a copied token does to the sessions opened with it (entrance.go).
\<close>

section \<open>A rotated token that comes back after its grace\<close>

lemma map_of_filter_key: "Q k \<Longrightarrow> map_of (filter (\<lambda>(key, _). Q key) xs) k = map_of xs k"
  by (induction xs) auto

lemma id_known: "map_of (bsByHash s) h = Some ident \<Longrightarrow> id_of h s = (s, ident)"
  by (simp add: id_of_def)

lemma id_rotate_known: "id_rotate h n s = (s', ident) \<Longrightarrow> map_of (bsByHash s') n = Some ident"
  by (cases "id_of h s") (auto simp: id_rotate_def update_conv')

lemma id_of_nonempty: "id_of h s = (s', ident) \<Longrightarrow> map_of (bsByHash s) h = None \<Longrightarrow> ident \<noteq> []"
  by (auto simp: id_of_def Let_def)

text \<open>No registration is called by the empty name.\<close>

definition ids_ok :: "Store \<Rightarrow> bool" where
  "ids_ok s \<longleftrightarrow> (\<forall>e \<in> set (bsByHash s). snd e \<noteq> [])"

lemma id_of_ids: "ids_ok s \<Longrightarrow> id_of h s = (s', ident) \<Longrightarrow> ids_ok s' \<and> ident \<noteq> []"
proof (cases "map_of (bsByHash s) h")
  case None
  assume "ids_ok s" "id_of h s = (s', ident)"
  then have "bsByHash s' = AList.update h ident (bsByHash s)" "ident \<noteq> []" using None by (auto simp: id_of_def Let_def)
  then show ?thesis using \<open>ids_ok s\<close> update_entries [of h ident "bsByHash s"] by (auto simp: ids_ok_def)
next
  case (Some i)
  assume "ids_ok s" "id_of h s = (s', ident)"
  then show ?thesis using Some map_of_SomeD [OF Some] by (auto simp: id_of_def ids_ok_def)
qed

lemma id_rotate_ids: "ids_ok s \<Longrightarrow> id_rotate h n s = (s', ident) \<Longrightarrow> ids_ok s' \<and> ident \<noteq> []"
proof -
  assume a: "ids_ok s" "id_rotate h n s = (s', ident)"
  obtain s1 i where s1: "id_of h s = (s1, i)" by fastforce
  then have "ids_ok s1" "i \<noteq> []" using id_of_ids [OF a(1)] by auto
  moreover have "bsByHash s' = AList.update n i (AList.delete h (bsByHash s1))" "ident = i" using a(2) s1 by (auto simp: id_rotate_def)
  ultimately show ?thesis
    using subsetD [OF update_entries [of n i "AList.delete h (bsByHash s1)"]] subsetD [OF delete_entries [of h "bsByHash s1"]]
    unfolding ids_ok_def by (metis insertE snd_conv)
qed

lemma ids_same: "ids_ok s \<Longrightarrow> bsByHash s' = bsByHash s \<Longrightarrow> ids_ok s'"
  by (simp add: ids_ok_def)

lemma prune_ids: "ids_ok s \<Longrightarrow> ids_ok (pruneRotations sha rs s)"
  by (simp add: ids_ok_def pruneRotations_def keepOnly_def)

lemma write_ids: "store_write d s = (s', ok) \<Longrightarrow> ids_ok s \<Longrightarrow> ids_ok s'"
  using ids_same write_fields(3) by blast

lemma draw_ids: "store_draw s = (t, s') \<Longrightarrow> ids_ok s \<Longrightarrow> ids_ok s'"
  using ids_same draw_fields(4) by blast

lemma cached_ids: "ids_ok s \<Longrightarrow> ids_ok (rotateCachedTokens sha h t until s)"
  by (simp add: ids_ok_def rotateCachedTokens_def)

lemma load_failed: "load s = Inl e \<Longrightarrow> fst (Recover sha t s) = s"
  by (simp add: Recover_def)

lemma Recover_ids:
  assumes ids: "ids_ok s" and run: "Recover sha presented s = (s', result)"
  shows "ids_ok s' \<and> (\<forall>rc. result = Inr rc \<longrightarrow> rc_Accepted rc \<longrightarrow> rcRegistration rc \<noteq> [])"
proof (cases "load s")
  case (Inl e)
  then show ?thesis using load_failed [OF Inl, of sha presented] run ids
    by (cases "IsToken presented") (auto simp: Recover_def no_recovery_def rc_Accepted_def)
next
  case (Inr d)
  let ?s = "pruneRotations sha (live s (dcRegistrations d)) s"
  have p: "ids_ok ?s" by (rule prune_ids [OF ids])
  show ?thesis
    using run Inr
  proof (cases rule: Recover_cases)
    case (rotation i token s1 s2 ident)
    show ?thesis using id_rotate_ids [OF cached_ids [OF write_ids [OF rotation(4) draw_ids [OF rotation(3) p]]] rotation(5)] rotation(6)
      by (simp add: no_recovery_def)
  next
    case (grace recent ident)
    then show ?thesis using id_of_ids [OF p grace(3)] by (simp add: no_recovery_def)
  next
    case (stolen_not_written i gone s1)
    then show ?thesis using id_of_ids [OF p stolen_not_written(2)] write_ids by simp
  next
    case (stolen i gone s1 s2)
    then have "ids_ok s2" using id_of_ids [OF p stolen(4)] write_ids [OF stolen(5)] by simp
    then show ?thesis using stolen(6,7) prune_ids by (simp add: no_recovery_def rc_Accepted_def)
  qed (use ids p draw_ids write_ids in \<open>auto simp: no_recovery_def rc_Accepted_def\<close>)
qed

lemma Forget_ids:
  assumes ids: "ids_ok s"
  shows "ids_ok (fst (Forget sha presented s))"
proof (cases "load s")
  case (Inr d)
  let ?regs = "live s (dcRegistrations d)" and ?s = "pruneRotations sha (live s (dcRegistrations d)) s"
  have p: "ids_ok ?s" by (rule prune_ids [OF ids])
  show ?thesis
  proof (cases "named_by sha ?regs (hashToken sha presented) ?s")
    case (Some i)
    obtain s1 gone where s1: "id_of (brHash (?regs ! i)) ?s = (s1, gone)" by fastforce
    obtain s2 ok where w: "store_write (d\<lparr>dcRegistrations := remove_at i ?regs\<rparr>) s1 = (s2, ok)" by fastforce
    have "ids_ok s2" using write_ids [OF w] id_of_ids [OF p s1] by simp
    then show ?thesis using ids Inr Some s1 w prune_ids by (cases ok; cases "IsToken presented") (simp_all add: Forget_def Let_def)
  qed (use ids p Inr in \<open>simp add: Forget_def Let_def\<close>)
qed (use ids in \<open>simp add: Forget_def\<close>)

lemma Register_ids:
  assumes ids: "ids_ok s"
  shows "ids_ok (fst (Register sha presented s))"
proof (cases "load s")
  case (Inr d)
  let ?s = "pruneRotations sha (live s (dcRegistrations d)) s"
  have p: "ids_ok ?s" by (rule prune_ids [OF ids])
  have written: "ids_ok s2" if "store_write d' s1 = (s2, ok)" "ids_ok s1" for d' s1 s2 ok using write_ids that .
  show ?thesis
    by (auto simp: Register_def Inr Let_def split: option.splits prod.splits bool.splits if_splits
        dest!: written draw_ids intro!: p prune_ids)
qed (use ids in \<open>simp add: Register_def\<close>)

lemma SetPort_ids: "ids_ok s \<Longrightarrow> ids_ok (fst (SetPort port s))"
  by (auto simp: SetPort_def split: sum.splits prod.splits bool.splits dest!: write_ids) (simp_all add: ids_ok_def)

lemma auth_op_ids: "auth_op sha F s s' \<Longrightarrow> ids_ok s \<Longrightarrow> ids_ok s'"
proof (induction rule: auth_op.induct)
  case (recover s presented)
  then show ?case using Recover_ids [OF recover(2), of sha presented] by (cases "Recover sha presented s") simp
qed (simp_all add: Register_ids Forget_ids SetPort_ids, simp_all add: ids_ok_def)

lemma auth_run_ids: "auth_run sha F s s' \<Longrightarrow> ids_ok s \<Longrightarrow> ids_ok s'"
  by (induction rule: auth_run.induct) (auto intro: auth_op_ids)

text \<open>The state that a rotation leaves.\<close>

lemma rotation_leaves:
  assumes s: "store_ok sha {} s" and sha: "\<forall>t. length (sha t) = 32" and fresh: "draws_fresh sha {} s"
    and run: "Recover sha presented s = (s1, Inr rc)" and acc: "rc_Accepted rc"
    and r: "r \<in> set (live s (disk_regs s))" "brHash r = hashToken sha presented"
  obtains r' until where "r' \<in> set (disk_regs s1)" "hashToken sha presented \<in> set (brRetired r')" "brHash r' \<noteq> hashToken sha presented"
    "brLastUsedAt r' = bsNow s" "map_of (bsByHash s1) (brHash r') = Some (rcRegistration rc)"
    "map_of (bsRotations s1) (hashToken sha presented) = Some \<lparr>roToken = rcToken rc, roUntil = bsNow s + rotationGrace\<rparr>"
    "IsToken presented" "bsWritable s1" "bsNow s1 = bsNow s"
proof -
  obtain d where d: "load s = Inr d" "disk_regs s = dcRegistrations d" "regs_ok (dcRegistrations d)" "dcPort d = 0 \<or> EnginePort_ok (dcPort d)"
    using store_ok_load [OF s] .
  let ?regs = "live s (dcRegistrations d)" and ?h = "hashToken sha presented" and ?s = "pruneRotations sha (live s (dcRegistrations d)) s"
  have "?h \<in> brHash ` set ?regs" using r(1) r(2) [symmetric] d(2) by simp
  moreover have "?h \<noteq> []" using hashToken_valid [of sha presented] sha validHash_nonempty by blast
  ultimately have hit: "indexOf ?regs ?h currentHash \<noteq> None" unfolding indexOf_current by simp
  show ?thesis
    using run d(1)
  proof (cases rule: Recover_cases)
    case (rotation i token t1 t2 ident)
    let ?n = "hashToken sha token" and ?r' = "rotated sha token (bsNow t1) (?regs ! i)"
    have i: "i < length ?regs" "brHash (?regs ! i) = ?h" using indexOf_Some [OF rotation(2)] by (simp_all add: currentHash_def)
    have out: "rcToken rc = token" "rcRegistration rc = ident" using rotation(6) by (simp_all add: no_recovery_def)
    have now: "bsNow t1 = bsNow s" "bsNow t2 = bsNow s" using draw_fields(2) [OF rotation(3)] write_fields(1) [OF rotation(4)] by simp_all
    have "?n \<notin> (\<Union>r \<in> set (disk_regs ?s). hashes r)"
      using fresh_prune [OF fresh, of ?regs] rotation(3) by (simp add: draws_fresh_def)
    then have unseen: "?n \<notin> (\<Union>r \<in> set ?regs. hashes r)"
      by (rule not_in_families) (simp only: prune_regs d(2) live_set)
    then have "?n \<noteq> ?h" using nth_mem [OF i(1)] i(2) by (auto simp: hashes_def)
    have new: "regs_ok (?regs[i := ?r'])"
      by (rule rotated_ok [OF regs_live [OF d(3)] i(1) _ _ unseen]) (use sha s now(1) in \<open>simp_all add: store_ok_def\<close>)
    have disk: "disk_regs s1 = ?regs[i := ?r']"
    proof -
      have "bsDisk s1 = bsDisk t2"
        using id_rotate_fields(1) [of ?h ?n "rotateCachedTokens sha ?h token (bsNow t2 + rotationGrace) t2", unfolded rotation(5)]
        by (simp add: rotateCachedTokens_def)
      then have "disk_regs s1 = disk_regs t2" using load_disk [of s1 t2] by (simp add: disk_regs_def)
      then show ?thesis using write_load [OF rotation(4)] new d(4) by simp
    qed
    have cached: "bsRotations s1 = bsRotations (rotateCachedTokens sha ?h token (bsNow t2 + rotationGrace) t2)"
        "bsNow s1 = bsNow t2" "bsWritable s1 = bsWritable t2"
      using id_rotate_fields [of ?h ?n "rotateCachedTokens sha ?h token (bsNow t2 + rotationGrace) t2", unfolded rotation(5)]
      by (simp_all add: rotateCachedTokens_def)
    show ?thesis
    proof (rule that [of ?r'])
      show "?r' \<in> set (disk_regs s1)" using disk set_update_memI [OF i(1)] by simp
      show "?h \<in> set (brRetired ?r')" using retire_subset(2) [of ?h "brRetired (?regs ! i)"] i(2) by (simp add: rotated_def)
      show "brHash ?r' \<noteq> ?h" using \<open>?n \<noteq> ?h\<close> by (simp add: rotated_def)
      show "brLastUsedAt ?r' = bsNow s" using now(1) by (simp add: rotated_def)
      show "map_of (bsByHash s1) (brHash ?r') = Some (rcRegistration rc)"
        using id_rotate_known [OF rotation(5)] out(2) by (simp add: rotated_def)
      show "map_of (bsRotations s1) ?h = Some \<lparr>roToken = rcToken rc, roUntil = bsNow s + rotationGrace\<rparr>"
        using cached(1) out(1) now(2) by (simp add: rotateCachedTokens_def update_conv')
      show "IsToken presented" using rotation(1) .
      show "bsWritable s1" using cached(3) write_fields(6,8) [OF rotation(4)] by simp
      show "bsNow s1 = bsNow s" using cached(2) now(2) by simp
    qed
  qed (use hit acc in \<open>simp_all add: no_recovery_def rc_Accepted_def\<close>)
qed

lemma id_after_prune:
  assumes "map_of (bsByHash s) h = Some ident" and "indexOf rs h currentHash \<noteq> None"
  shows "id_of h (pruneRotations sha rs s) = (pruneRotations sha rs s, ident)"
proof -
  have "map_of (bsByHash (pruneRotations sha rs s)) h = map_of (bsByHash s) h"
    using map_of_filter_key [of "\<lambda>h. indexOf rs h currentHash \<noteq> None" h "bsByHash s"] assms(2)
    by (simp add: pruneRotations_def keepOnly_def)
  then show ?thesis using assms(1) by (simp add: id_known)
qed

section \<open>Families over a run\<close>

text \<open>
  Where a registration on the disk comes from, seen from an earlier state: it is one of those, or it
  has rotated once and keeps the former hash among the retired ones, or it is new. The hashes in
  \<open>F\<close> are no longer given out.
\<close>

definition heir :: "gostring set \<Rightarrow> Store \<Rightarrow> registration \<Rightarrow> bool" where
  "heir F s r \<longleftrightarrow> (\<exists>q \<in> set (disk_regs s). brHash r = brHash q \<and> brRetired r = brRetired q) \<or>
     (\<exists>q \<in> set (disk_regs s). brHash r \<notin> F \<and> brRetired r = retire (brRetired q) (brHash q)) \<or>
     (brHash r \<notin> F \<and> brRetired r = [])"

definition remembered :: "Store \<Rightarrow> gostring \<times> rotation \<Rightarrow> bool" where
  "remembered s e \<longleftrightarrow> (\<exists>e' \<in> set (bsRotations s). fst e = fst e' \<and> roUntil (snd e) = roUntil (snd e')) \<or>
     fst e \<in> brHash ` set (disk_regs s)"

definition descends :: "gostring set \<Rightarrow> Store \<Rightarrow> Store \<Rightarrow> bool" where
  "descends F s s' \<longleftrightarrow> (\<forall>r \<in> set (disk_regs s'). heir F s r) \<and> (\<forall>e \<in> set (bsRotations s'). remembered s e)"

lemma heir_old: "r \<in> set (disk_regs s) \<Longrightarrow> heir F s r"
  unfolding heir_def by blast

lemma heir_same: "heir F s q \<Longrightarrow> brHash r = brHash q \<Longrightarrow> brRetired r = brRetired q \<Longrightarrow> heir F s r"
  by (simp only: heir_def)

lemma heir_new: "brHash r \<notin> F \<Longrightarrow> brRetired r = [] \<Longrightarrow> heir F s r"
  by (simp only: heir_def simp_thms)

lemma remembered_old: "e \<in> set (bsRotations s) \<Longrightarrow> remembered s e"
  unfolding remembered_def by blast

lemma descends_fewer:
  "set (disk_regs s') \<subseteq> set (disk_regs s) \<Longrightarrow> set (bsRotations s') \<subseteq> set (bsRotations s) \<Longrightarrow> descends F s s'"
  unfolding descends_def using heir_old remembered_old by blast

lemma disk_regs_same: "bsDisk s' = bsDisk s \<Longrightarrow> disk_regs s' = disk_regs s"
  using load_disk [of s' s] by (simp add: disk_regs_def)

lemma descends_same: "bsDisk s' = bsDisk s \<Longrightarrow> set (bsRotations s') \<subseteq> set (bsRotations s) \<Longrightarrow> descends F s s'"
  using disk_regs_same [of s' s] by (simp add: descends_fewer)

lemma descends_mono:
  "descends F s s' \<Longrightarrow> bsDisk s'' = bsDisk s' \<Longrightarrow> set (bsRotations s'') \<subseteq> set (bsRotations s') \<Longrightarrow> descends F s s''"
  unfolding descends_def using disk_regs_same [of s'' s'] by auto

lemma descends_written:
  assumes w: "store_write d s1 = (s2, ok)" and same: "bsDisk s1 = bsDisk s" "set (bsRotations s1) \<subseteq> set (bsRotations s)"
    and d: "regs_ok (dcRegistrations d)" "dcPort d = 0 \<or> EnginePort_ok (dcPort d)" "\<forall>r \<in> set (dcRegistrations d). heir F s r"
  shows "descends F s s2"
proof (cases ok)
  case True
  then have "disk_regs s2 = dcRegistrations d" using write_load [of d s1 s2] w d(1,2) by simp
  moreover have "bsRotations s2 = bsRotations s1" by (rule write_fields(2) [OF w])
  ultimately show ?thesis using d(3) same(2) remembered_old [of _ s] by (auto simp: descends_def)
next
  case False
  then have "s2 = s1" by (rule write_fields(7) [OF w])
  then show ?thesis using same by (simp add: descends_same)
qed

lemma fresh_fewer: "draws_fresh sha F s \<Longrightarrow> draws_fresh sha {} s"
  by (auto simp: draws_fresh_def)

lemma auth_op_fewer: "auth_op sha F s s' \<Longrightarrow> auth_op sha {} s s'"
  by (induction rule: auth_op.induct) (auto intro: auth_op.intros fresh_fewer)

lemma rotate_cached_remembered:
  assumes e: "e \<in> set (bsRotations (rotateCachedTokens sha hash token until s))"
  shows "fst e = hash \<or> (\<exists>e' \<in> set (bsRotations s). fst e = fst e' \<and> roUntil (snd e) = roUntil (snd e'))"
proof -
  let ?f = "\<lambda>(h, ro). (h, if hashToken sha (roToken ro) = hash then ro\<lparr>roToken := token\<rparr> else ro)"
  have "e \<in> insert (hash, \<lparr>roToken = token, roUntil = until\<rparr>) (set (map ?f (bsRotations s)))"
    using e subsetD [OF update_entries [of hash "\<lparr>roToken = token, roUntil = until\<rparr>" "map ?f (bsRotations s)"]]
    by (simp add: rotateCachedTokens_def)
  then consider "e = (hash, \<lparr>roToken = token, roUntil = until\<rparr>)" | e' where "e' \<in> set (bsRotations s)" "e = ?f e'"
    by auto
  then show ?thesis
  proof cases
    case (2 e')
    then have "fst e = fst e' \<and> roUntil (snd e) = roUntil (snd e')" by (simp add: split_beta)
    then show ?thesis using 2(1) by blast
  qed simp
qed

lemma heir_rotated:
  "q \<in> set (disk_regs s) \<Longrightarrow> brHash r \<notin> F \<Longrightarrow> brRetired r = retire (brRetired q) (brHash q) \<Longrightarrow> heir F s r"
  unfolding heir_def by blast

lemma rotation_descends:
  assumes s: "store_ok sha {} s" and sha: "\<forall>t. length (sha t) = 32" and fresh: "draws_fresh sha F s"
    and regs: "regs_ok regs" "set regs \<subseteq> set (disk_regs s)" and port: "dcPort d = 0 \<or> EnginePort_ok (dcPort d)"
    and i: "i < length regs" and hash: "hash = brHash (regs ! i)"
    and draw: "store_draw s = (Some token, s1)"
    and w: "store_write (d\<lparr>dcRegistrations := regs[i := rotated sha token (bsNow s1) (regs ! i)]\<rparr>) s1 = (s2, True)"
  shows "descends F s (fst (id_rotate hash (hashToken sha token) (rotateCachedTokens sha hash token until s2)))"
proof -
  let ?n = "hashToken sha token" and ?r = "rotated sha token (bsNow s1) (regs ! i)"
  let ?s3 = "rotateCachedTokens sha hash token until s2"
  have mine: "regs ! i \<in> set (disk_regs s)" using subsetD [OF regs(2) nth_mem [OF i]] .
  have n: "?n \<notin> F \<union> (\<Union>r \<in> set (disk_regs s). hashes r) \<union> fst ` set (bsRotations s)"
    using fresh draw by (simp add: draws_fresh_def)
  then have n': "?n \<notin> (\<Union>r \<in> set regs. hashes r)" using regs(2) by blast
  have now: "bsNow s1 \<noteq> 0" using s draw_fields(2) [OF draw] by (simp add: store_ok_def)
  have ok: "regs_ok (regs[i := ?r])" by (rule rotated_ok [OF regs(1) i _ now n']) (simp add: sha)
  have "disk_regs ?s3 = disk_regs s2" by (rule disk_regs_same) (simp add: rotateCachedTokens_def)
  then have disk: "disk_regs ?s3 = regs[i := ?r]" using write_load [OF w] ok port by simp
  have "heir F s ?r" by (rule heir_rotated [OF mine]) (use n in \<open>simp_all add: rotated_def\<close>)
  then have families: "heir F s r" if "r \<in> set (regs[i := ?r])" for r
    using subsetD [OF set_update_subset_insert that] heir_old [OF subsetD [OF regs(2)]] by blast
  have rots: "bsRotations s2 = bsRotations s" using write_fields(2) [OF w] draw_fields(3) [OF draw] by simp
  have "remembered s e" if "e \<in> set (bsRotations ?s3)" for e
  proof -
    have "hash \<in> brHash ` set (disk_regs s)" using mine hash by simp
    then show ?thesis using rotate_cached_remembered [OF that] rots unfolding remembered_def by auto
  qed
  then have "descends F s ?s3" using families disk by (simp add: descends_def)
  then show ?thesis by (rule descends_mono) simp_all
qed

lemma descends_from_pruned: "descends F (pruneRotations sha rs s) s' \<Longrightarrow> descends F s s'"
proof -
  assume a: "descends F (pruneRotations sha rs s) s'"
  have "remembered s e" if "remembered (pruneRotations sha rs s) e" for e
    using that subsetD [OF prune_subset [of sha rs s]] unfolding remembered_def prune_regs by blast
  moreover have "heir F (pruneRotations sha rs s) = heir F s" by (simp add: heir_def fun_eq_iff)
  ultimately show ?thesis using a by (simp add: descends_def)
qed

lemma Recover_descends:
  assumes s: "store_ok sha {} s" and sha: "\<forall>t. length (sha t) = 32" and fresh: "draws_fresh sha F s"
  shows "descends F s (fst (Recover sha presented s))"
proof -
  obtain s' out where run: "Recover sha presented s = (s', out)" by fastforce
  obtain d where d: "load s = Inr d" "disk_regs s = dcRegistrations d" "regs_ok (dcRegistrations d)" "dcPort d = 0 \<or> EnginePort_ok (dcPort d)"
    using store_ok_load [OF s] .
  let ?regs = "live s (dcRegistrations d)" and ?s = "pruneRotations sha (live s (dcRegistrations d)) s"
  have old: "heir F s r" if "r \<in> set ?regs" for r using heir_old subsetD [OF live_set that] d(2) by simp
  have pruned: "set (bsRotations ?s) \<subseteq> set (bsRotations s)" by (rule prune_subset)
  have removed: "\<forall>r \<in> set (dcRegistrations (d\<lparr>dcRegistrations := remove_at i ?regs\<rparr>)). heir F s r"
    "regs_ok (dcRegistrations (d\<lparr>dcRegistrations := remove_at i ?regs\<rparr>))" for i
    using old subsetD [OF remove_at_set [of i ?regs]] regs_remove [OF regs_live [OF d(3)]] by auto
  have p: "store_ok sha {} ?s" by (rule prune_ok [OF s])
  have sub: "set ?regs \<subseteq> set (disk_regs ?s)" using live_set d(2) by simp
  have named: "bsDisk s1 = bsDisk s" "set (bsRotations s1) \<subseteq> set (bsRotations s)" if "id_of h ?s = (s1, ident)" for h s1 ident
    using id_of_fields [of h ?s] that pruned by auto
  have "descends F s s'"
    using run d(1)
  proof (cases rule: Recover_cases)
    case (no_random i s1)
    then show ?thesis using draw_fields(1,3) [OF no_random(2)] pruned by (simp add: descends_same)
  next
    case (not_written i token s1)
    then show ?thesis using draw_fields(1,3) [OF not_written(2)] write_fields(7) [OF not_written(3)] pruned by (simp add: descends_same)
  next
    case (rotation i token s1 s2 ident)
    have i: "i < length ?regs" "hashToken sha presented = brHash (?regs ! i)"
      using indexOf_Some [OF rotation(2)] by (simp_all add: currentHash_def)
    show ?thesis
      using rotation_descends [OF p sha fresh_prune [OF fresh] regs_live [OF d(3)] sub d(4) i rotation(3,4)] rotation(5) pruned
        descends_from_pruned by (metis fst_conv)
  next
    case (grace recent ident)
    then show ?thesis using named [OF grace(3)] by (simp add: descends_same)
  next
    case (stolen_not_written i gone s1)
    show ?thesis by (rule descends_written [OF stolen_not_written(3) named [OF stolen_not_written(2)] removed(2) _ removed(1)]) (simp add: d(4))
  next
    case (stolen i gone s1 s2)
    have "descends F s s2"
      by (rule descends_written [OF stolen(5) named [OF stolen(4)] removed(2) _ removed(1)]) (simp add: d(4))
    then show ?thesis by (rule descends_mono) (simp_all add: stolen(6) prune_subset del: prune_fields(5))
  qed (use pruned in \<open>simp_all add: descends_same\<close>)
  then show ?thesis using run by simp
qed

lemma Forget_descends:
  assumes s: "store_ok sha {} s"
  shows "descends F s (fst (Forget sha presented s))"
proof (cases "IsToken presented")
  case False
  then show ?thesis by (simp add: Forget_def descends_same)
next
  case True
  obtain d where d: "load s = Inr d" "disk_regs s = dcRegistrations d" "regs_ok (dcRegistrations d)" "dcPort d = 0 \<or> EnginePort_ok (dcPort d)"
    using store_ok_load [OF s] .
  let ?regs = "live s (dcRegistrations d)" and ?s = "pruneRotations sha (live s (dcRegistrations d)) s"
  have p: "descends F s ?s" by (rule descends_same [OF _ prune_subset]) simp
  show ?thesis
  proof (cases "named_by sha ?regs (hashToken sha presented) ?s")
    case None
    then show ?thesis using True d(1) p by (simp add: Forget_def Let_def)
  next
    case (Some i)
    let ?d = "d\<lparr>dcRegistrations := remove_at i ?regs\<rparr>"
    obtain s1 gone where s1: "id_of (brHash (?regs ! i)) ?s = (s1, gone)" by fastforce
    obtain s2 ok where w: "store_write ?d s1 = (s2, ok)" by fastforce
    have same: "bsDisk s1 = bsDisk s" "set (bsRotations s1) \<subseteq> set (bsRotations s)"
      using id_of_fields [of "brHash (?regs ! i)" ?s] s1 prune_subset [of sha ?regs s] by simp_all
    have "heir F s r" if "r \<in> set (remove_at i ?regs)" for r
      using heir_old subsetD [OF live_set subsetD [OF remove_at_set that]] d(2) by simp
    then have "descends F s s2"
      using descends_written [OF w same] regs_remove [OF regs_live [OF d(3)]] d(4) by simp
    then have "descends F s (pruneRotations sha rs s2)" "descends F s s2" for rs
      using descends_mono [OF _ _ prune_subset] by simp_all
    then show ?thesis using True d(1) Some s1 w by (cases ok) (simp_all add: Forget_def Let_def)
  qed
qed

lemma Register_descends:
  assumes s: "store_ok sha {} s" and sha: "\<forall>t. length (sha t) = 32" and fresh: "draws_fresh sha F s"
  shows "descends F s (fst (Register sha presented s))"
proof -
  obtain d where d: "load s = Inr d" "disk_regs s = dcRegistrations d" "regs_ok (dcRegistrations d)" "dcPort d = 0 \<or> EnginePort_ok (dcPort d)"
    using store_ok_load [OF s] .
  let ?regs = "live s (dcRegistrations d)" and ?s = "pruneRotations sha (live s (dcRegistrations d)) s"
  have p: "descends F s ?s" by (rule descends_same [OF _ prune_subset]) simp
  have now: "bsNow ?s \<noteq> 0" using s by (simp add: store_ok_def)
  have old: "heir F s r" if "r \<in> set ?regs" for r using heir_old subsetD [OF live_set that] d(2) by simp
  show ?thesis
  proof (cases "if IsToken presented then indexOf ?regs (hashToken sha presented) currentHash else None")
    case (Some i)
    let ?new = "(?regs ! i)\<lparr>brLastUsedAt := bsNow ?s\<rparr>"
    let ?d = "d\<lparr>dcRegistrations := ?regs[i := ?new]\<rparr>"
    have i: "i < length ?regs" using Some indexOf_Some by (simp split: if_splits)
    obtain s2 ok where w: "store_write ?d ?s = (s2, ok)" by fastforce
    have "heir F s ?new" by (rule heir_same [OF old [OF nth_mem [OF i]]]) simp_all
    have "heir F s r" if "r \<in> set (?regs[i := ?new])" for r
      using subsetD [OF set_update_subset_insert that] old \<open>heir F s ?new\<close> by (elim insertE) simp_all
    then have "descends F s s2"
      using descends_written [OF w _ prune_subset] touched_ok [OF regs_live [OF d(3)] i now] d(4) by simp
    then show ?thesis using d(1) Some w by (cases ok) (simp_all add: Register_def Let_def)
  next
    case None
    obtain drawn s1 where draw: "store_draw ?s = (drawn, s1)" by fastforce
    have same: "bsDisk s1 = bsDisk s" "set (bsRotations s1) \<subseteq> set (bsRotations s)" "bsNow s1 \<noteq> 0"
      using draw_fields(1-3) [OF draw] prune_subset [of sha ?regs s] now by simp_all
    show ?thesis
    proof (cases drawn)
      case no: None
      then show ?thesis using d(1) None draw descends_same [OF same(1,2)] by (simp add: Register_def Let_def)
    next
      case (Some token)
      let ?kept = "if length ?regs \<ge> MaxRegistrations then remove_at (leastRecentlyUsed ?regs) ?regs else ?regs"
      let ?n = "hashToken sha token"
      let ?new = "\<lparr>brHash = ?n, brRetired = [], brIssuedAt = bsNow s1, brLastUsedAt = bsNow s1\<rparr>"
      let ?d = "d\<lparr>dcRegistrations := ?kept @ [?new]\<rparr>"
      obtain s2 ok where w: "store_write ?d s1 = (s2, ok)" by fastforce
      have n: "?n \<notin> F \<union> (\<Union>r \<in> set (disk_regs ?s). hashes r) \<union> fst ` set (bsRotations ?s)"
        using fresh_prune [OF fresh, of ?regs] draw Some by (simp add: draws_fresh_def del: prune_fields)
      have kept: "regs_ok ?kept" "set ?kept \<subseteq> set ?regs" "length ?kept < MaxRegistrations"
        using register_room [OF regs_live [OF d(3)]] .
      have "set ?kept \<subseteq> set (disk_regs ?s)" using kept(2) live_set [of s "dcRegistrations d"] by (simp only: prune_regs d(2))
      then have unseen: "?n \<notin> (\<Union>r \<in> set ?kept. hashes r)" using n by blast
      have "regs_ok (?kept @ [?new])" by (rule added_ok [OF kept(1,3) _ same(3) unseen]) (simp add: hashToken_valid sha)
      moreover have "heir F s ?new" by (rule heir_new) (use n in simp_all)
      then have "\<forall>r \<in> set (?kept @ [?new]). heir F s r" using old [OF subsetD [OF kept(2)]] by (simp only: set_append Un_iff) simp
      ultimately have "descends F s s2" using descends_written [OF w same(1,2)] d(4) by simp
      then have "descends F s (pruneRotations sha rs s2)" "descends F s s2" for rs
        using descends_mono [OF _ _ prune_subset] by simp_all
      then show ?thesis using d(1) None draw Some w by (cases ok) (simp_all add: Register_def Let_def)
    qed
  qed
qed

lemma SetPort_descends: "store_ok sha {} s \<Longrightarrow> descends F s (fst (SetPort port s))"
proof -
  assume s: "store_ok sha {} s"
  obtain d where d: "load s = Inr d" using store_ok_load [OF s] .
  obtain s2 ok where w: "store_write (d\<lparr>dcPort := port, dcRegistrations := []\<rparr>) (s\<lparr>bsRotations := []\<rparr>) = (s2, ok)" by fastforce
  have "descends F s s2" if "EnginePort_ok port"
    by (rule descends_written [OF w]) (simp_all add: regs_ok_def that)
  then show "descends F s (fst (SetPort port s))" using d w by (cases ok) (simp_all add: SetPort_def descends_same)
qed

lemma auth_op_descends:
  "auth_op sha F s s' \<Longrightarrow> \<forall>t. length (sha t) = 32 \<Longrightarrow> store_ok sha {} s \<Longrightarrow> descends F s s'"
  by (induction rule: auth_op.induct)
    (simp_all add: Recover_descends Register_descends Forget_descends SetPort_descends descends_same)

text \<open>
  The family \<open>F\<close> with its retired hash \<open>h\<close> over a run: whoever carries a hash of the family has \<open>h\<close>
  among the retired ones, or has as many retired ones as are kept; and the grace of \<open>h\<close> is not
  extended.
\<close>

definition keeps_retired :: "gostring set \<Rightarrow> gostring \<Rightarrow> int \<Rightarrow> Store \<Rightarrow> bool" where
  "keeps_retired F h until s \<longleftrightarrow>
     (\<forall>r \<in> set (disk_regs s). hashes r \<inter> F \<noteq> {} \<longrightarrow>
        brHash r \<noteq> h \<and> (h \<in> set (brRetired r) \<or> MaxRetiredTokens \<le> length (brRetired r))) \<and>
     (\<forall>e \<in> set (bsRotations s). fst e = h \<longrightarrow> roUntil (snd e) = until)"

lemma retire_keeps:
  "h \<in> set retired \<or> MaxRetiredTokens \<le> length retired \<Longrightarrow>
     h \<in> set (retire retired hash) \<or> MaxRetiredTokens \<le> length (retire retired hash)"
  by (auto simp: retire_def Let_def)

lemma heir_keeps:
  assumes "keeps_retired F h until s" and "h \<in> F" and "heir F s r" and "hashes r \<inter> F \<noteq> {}"
  shows "brHash r \<noteq> h \<and> (h \<in> set (brRetired r) \<or> MaxRetiredTokens \<le> length (brRetired r))"
proof -
  from assms(3) consider (same) q where "q \<in> set (disk_regs s)" "brHash r = brHash q" "brRetired r = brRetired q"
    | (rotated) q where "q \<in> set (disk_regs s)" "brHash r \<notin> F" "brRetired r = retire (brRetired q) (brHash q)"
    | (new) "brHash r \<notin> F" "brRetired r = []"
    unfolding heir_def by blast
  then show ?thesis
  proof cases
    case same
    then have "hashes r = hashes q" by (simp add: hashes_def)
    then show ?thesis using assms(1,4) same by (simp add: keeps_retired_def)
  next
    case rotated
    have "set (brRetired r) \<subseteq> hashes q"
      using retire_subset(1) [of "brRetired q" "brHash q"] rotated(3) by (simp add: hashes_def)
    then have "hashes q \<inter> F \<noteq> {}" using assms(4) rotated(2) by (auto simp: hashes_def [of r])
    then have "h \<in> set (brRetired q) \<or> MaxRetiredTokens \<le> length (brRetired q)"
      using assms(1) rotated(1) unfolding keeps_retired_def by blast
    then show ?thesis using retire_keeps rotated(2,3) assms(2) by auto
  next
    case new
    then show ?thesis using assms(4) by (simp add: hashes_def)
  qed
qed

lemma descends_keeps:
  assumes "keeps_retired F h until s" and "h \<in> F" and "descends F s s'"
  shows "keeps_retired F h until s'"
  unfolding keeps_retired_def
proof (intro conjI ballI impI)
  fix e assume "e \<in> set (bsRotations s')" and e: "fst e = h"
  then have "remembered s e" using assms(3) by (simp add: descends_def)
  moreover have "fst e \<notin> brHash ` set (disk_regs s)"
    using assms(1,2) e unfolding keeps_retired_def by (auto simp: hashes_def)
  ultimately show "roUntil (snd e) = until" using assms(1) e unfolding remembered_def keeps_retired_def by metis
next
  fix r assume "r \<in> set (disk_regs s')" "hashes r \<inter> F \<noteq> {}"
  then have "heir F s r" using assms(3) by (simp add: descends_def)
  from heir_keeps [OF assms(1,2) this \<open>hashes r \<inter> F \<noteq> {}\<close>]
  show "brHash r \<noteq> h" "h \<in> set (brRetired r) \<or> MaxRetiredTokens \<le> length (brRetired r)" by blast+
qed

lemma auth_run_fewer: "auth_run sha F s s' \<Longrightarrow> auth_run sha {} s s'"
  by (induction rule: auth_run.induct) (auto intro: auth_run.intros auth_op_fewer)

lemma auth_run_keeps:
  "auth_run sha F s s' \<Longrightarrow> \<forall>t. length (sha t) = 32 \<Longrightarrow> store_ok sha {} s \<Longrightarrow> h \<in> F \<Longrightarrow> keeps_retired F h until s \<Longrightarrow>
     keeps_retired F h until s'"
proof (induction rule: auth_run.induct)
  case (further s s' s'')
  have "store_ok sha {} s'" by (rule auth_run_ok [OF auth_run_fewer [OF further(1)] further(4,5)])
  then show ?case using descends_keeps [OF further(3) _ auth_op_descends [OF further(2)]] further by blast
qed

section \<open>A retired token comes back\<close>

text \<open>Whatever its generation, it takes the registration with its whole family off the disk.\<close>

lemma replay_detected:
  assumes s: "store_ok sha {} s" and sha: "\<forall>t. length (sha t) = 32" and token: "IsToken presented"
    and r: "r \<in> set (live s (disk_regs s))" "hashToken sha presented \<in> set (brRetired r)" "brHash r \<noteq> hashToken sha presented"
    and late: "\<forall>e \<in> set (bsRotations s). fst e = hashToken sha presented \<longrightarrow> roUntil (snd e) \<le> bsNow s"
    and writable: "bsWritable s" and named: "map_of (bsByHash s) (brHash r) = Some ident"
  obtains s2 where "Recover sha presented s = (s2, Inr (no_recovery\<lparr>rcStolen := ident\<rparr>))"
    "\<forall>x \<in> set (disk_regs s2). hashes x \<inter> hashes r = {}"
proof -
  let ?h = "hashToken sha presented"
  obtain d where d: "load s = Inr d" "disk_regs s = dcRegistrations d" "regs_ok (dcRegistrations d)" "dcPort d = 0 \<or> EnginePort_ok (dcPort d)"
    using store_ok_load [OF s] .
  let ?regs = "live s (dcRegistrations d)" and ?s = "pruneRotations sha (live s (dcRegistrations d)) s"
  have regs: "sorted_wrt apart ?regs" using regs_live [OF d(3)] by (simp add: regs_ok_def)
  have mine: "r \<in> set ?regs" using r(1) d(2) by simp
  have only: "q = r" if "q \<in> set ?regs" "?h \<in> hashes q" for q
    by (rule family_unique [OF regs that(1) mine that(2)]) (use r(2) in \<open>simp add: hashes_def\<close>)
  have current: "indexOf ?regs ?h currentHash = None"
    unfolding indexOf_None using only r(3) by (auto simp: currentHash_def hashes_def)
  have gone: "valid_rotation ?h ?s = None"
  proof (cases "map_of (bsRotations ?s) ?h")
    case (Some ro)
    have "(?h, ro) \<in> set (bsRotations s)" using map_of_SomeD [OF Some] by simp
    then have "roUntil ro \<le> bsNow s" using late by fastforce
    moreover have "bsNow s < roUntil ro" using map_of_SomeD [OF Some] by simp
    ultimately show ?thesis by simp
  qed (simp only: valid_rotation_def option.case)
  have "?h \<noteq> []" using hashToken_valid [of sha presented] sha validHash_nonempty by blast
  then have "indexOf ?regs ?h retiredHashes \<noteq> None" unfolding indexOf_None using mine r(2) by (auto simp: retiredHashes_def)
  then obtain i where i: "indexOf ?regs ?h retiredHashes = Some i" by blast
  have i': "?regs ! i = r" "i < length ?regs" using indexOf_Some [OF i] only [of "?regs ! i"] by (auto simp: retiredHashes_def hashes_def)
  have "brHash r \<noteq> []" using mine regs_live [OF d(3), of s] validHash_nonempty
    by (auto simp: regs_ok_def list_all_iff entry_ok_def hashes_def)
  then have "indexOf ?regs (brHash r) currentHash \<noteq> None" unfolding indexOf_current using mine by simp
  then have ident: "id_of (brHash r) ?s = (?s, ident)" using id_after_prune named by simp
  obtain s2 ok where w: "store_write (d\<lparr>dcRegistrations := remove_at i ?regs\<rparr>) ?s = (s2, ok)" by fastforce
  then have "ok" using write_fields(8) [OF w] writable by simp
  let ?out = "pruneRotations sha (remove_at i ?regs) s2"
  have "disk_regs ?out = remove_at i ?regs"
    using write_load [of _ ?s s2] w \<open>ok\<close> regs_remove [OF regs_live [OF d(3)]] d(4) by simp
  then have "\<forall>x \<in> set (disk_regs ?out). hashes x \<inter> hashes r = {}"
    using apart_removed [OF regs i'(2)] i'(1) by (auto simp: apart_def)
  moreover have "Recover sha presented s = (?out, Inr (no_recovery\<lparr>rcStolen := ident\<rparr>))"
    using token d(1) current gone i i'(1) ident w \<open>ok\<close> by (simp add: Recover_def Let_def)
  ultimately show ?thesis using that by blast
qed

text \<open>After a rotation, and through any later run, the hash that was rotated away stays with its family.\<close>

lemma rotated_away:
  assumes s: "store_ok sha {} sp" and sha: "\<forall>t. length (sha t) = 32" and fresh: "draws_fresh sha {} sp"
    and run: "Recover sha presented sp = (s1, Inr rc)" and acc: "rc_Accepted rc"
    and r0: "r0 \<in> set (live sp (disk_regs sp))" "brHash r0 = hashToken sha presented"
    and q: "q \<in> set (disk_regs s1)" "hashToken sha presented \<in> hashes q"
    and later: "auth_run sha (hashes q) s1 s"
  shows "IsToken presented \<and> store_ok sha {} s \<and> keeps_retired (hashes q) (hashToken sha presented) (bsNow sp + rotationGrace) s"
proof -
  let ?h = "hashToken sha presented"
  obtain r' where r': "r' \<in> set (disk_regs s1)" "?h \<in> set (brRetired r')" "brHash r' \<noteq> ?h" "IsToken presented"
      "map_of (bsRotations s1) ?h = Some \<lparr>roToken = rcToken rc, roUntil = bsNow sp + rotationGrace\<rparr>"
    using rotation_leaves [OF s sha fresh run acc r0] by metis
  have s1: "store_ok sha {} s1" using Recover_ok [OF s sha fresh, of presented] run by simp
  then have wrt: "sorted_wrt apart (disk_regs s1)" using store_ok_load [OF s1] by (metis regs_ok_def)
  have "x = q" if "x \<in> set (disk_regs s1)" "hashes x \<inter> hashes q \<noteq> {}" for x
    using family_unique [OF wrt that(1) q(1)] that(2) by blast
  moreover have "r' = q" using family_unique [OF wrt r'(1) q(1) _ q(2)] r'(2) by (simp add: hashes_def)
  moreover have "roUntil (snd e) = bsNow sp + rotationGrace" if "e \<in> set (bsRotations s1)" "fst e = ?h" for e
  proof -
    have "distinct (map fst (bsRotations s1))" using s1 by (simp add: store_ok_def rotations_ok_def)
    then have "map_of (bsRotations s1) ?h = Some (snd e)" using that by (metis map_of_is_SomeI prod.collapse)
    then have "snd e = \<lparr>roToken = rcToken rc, roUntil = bsNow sp + rotationGrace\<rparr>" using r'(5) by simp
    then show ?thesis by simp
  qed
  ultimately have "keeps_retired (hashes q) ?h (bsNow sp + rotationGrace) s1"
    using r'(2,3) unfolding keeps_retired_def by blast
  then show ?thesis
    using auth_run_keeps [OF later sha s1 q(2)] auth_run_ok [OF auth_run_fewer [OF later] sha s1] r'(4) by blast
qed

text \<open>
  C35. A rotated token that comes back after its grace is a copied one, whatever its generation: any
  run may lie between its rotation and its return, with further rotations, restarts and failing
  writes. The recovery is refused, the registration is taken off the disk with its whole family, and
  the sessions opened with it are gone. The conditions: the registration of the family is still there,
  not expired and with fewer than the 64 retired hashes that are kept; the grace of the token is
  over; the document can be written; and \<open>ident\<close> is the name this process has for the registration.
\<close>

theorem replay_ends_sessions:
  assumes "auth_run sha {} s0 sp" and "fresh_store s0" and "\<forall>t. length (sha t) = 32" and "draws_fresh sha {} sp"
    and "Recover sha presented sp = (s1, Inr rc)" and "rc_Accepted rc"
    and "r0 \<in> set (live sp (disk_regs sp))" and "brHash r0 = hashToken sha presented"
    and "q \<in> set (disk_regs s1)" and "hashToken sha presented \<in> hashes q"
    and "auth_run sha (hashes q) s1 s" and "bsNow sp + rotationGrace \<le> bsNow s"
    and "r \<in> set (live s (disk_regs s))" and "hashes r \<inter> hashes q \<noteq> {}" and "length (brRetired r) < MaxRetiredTokens"
    and "bsWritable s" and "map_of (bsByHash s) (brHash r) = Some ident"
    and "entrance_Recover sha msha existing presented (s, m) = ((s2, m2), result)"
  shows "result = Inl ErrRegistrationRejected \<and> ident \<notin> seRegistration ` snd ` set (mgSessions m2) \<and>
    (\<forall>x \<in> set (disk_regs s2). hashes x \<inter> hashes r = {})"
proof -
  let ?h = "hashToken sha presented"
  have sp: "store_ok sha {} sp" using auth_run_ok [OF assms(1,3) fresh_store_ok [OF assms(2)]] .
  have away: "IsToken presented" "store_ok sha {} s" "keeps_retired (hashes q) ?h (bsNow sp + rotationGrace) s"
    using rotated_away [OF sp assms(3-11)] by blast+
  have "r \<in> set (disk_regs s)" using subsetD [OF live_set assms(13)] .
  then have "brHash r \<noteq> ?h" "?h \<in> set (brRetired r)"
    using away(3) assms(14,15) unfolding keeps_retired_def by auto
  moreover have "\<forall>e \<in> set (bsRotations s). fst e = ?h \<longrightarrow> roUntil (snd e) \<le> bsNow s"
    using away(3) assms(12) unfolding keeps_retired_def by auto
  ultimately obtain t where t: "Recover sha presented s = (t, Inr (no_recovery\<lparr>rcStolen := ident\<rparr>))"
      "\<forall>x \<in> set (disk_regs t). hashes x \<inter> hashes r = {}"
    using replay_detected [OF away(2) assms(3) away(1) assms(13) _ _ _ assms(16,17)] by metis
  have "ids_ok sp" using auth_run_ids [OF assms(1)] assms(2) by (simp add: fresh_store_def ids_ok_def)
  then have "ids_ok s" using auth_run_ids [OF assms(11)] Recover_ids [OF _ assms(5)] by blast
  then have "ident \<noteq> []" using map_of_SomeD [OF assms(17)] by (auto simp: ids_ok_def)
  moreover have "result = Inl ErrRegistrationRejected" "m2 = fst (RevokeRegistration ident m)" "s2 = t"
    using assms(18) t(1) by (simp_all add: entrance_Recover_def Let_def rc_Accepted_def no_recovery_def)
  ultimately show ?thesis using t(2) by (auto simp: RevokeRegistration_def Let_def)
qed

section \<open>One run in full\<close>

text \<open>A stand-in for SHA-256: the first 32 characters of the token.\<close>

definition sample_hash :: "gostring \<Rightarrow> byte list" where
  "sample_hash t = take 32 (map (\<lambda>c. of_nat (of_char c)) t @ replicate 32 0)"

definition sample_start :: Store where
  "sample_start = \<lparr>bsDisk = NoFile, bsWritable = True, bsRandom = replicate 32 1 @ replicate 32 2, bsNow = 1, bsRotations = [], bsByHash = [], bsIssued = 0\<rparr>"

definition sample_token :: gostring where "sample_token = ''AQEBAQEBAQEBAQEBAQEBAQEBAQEBAQEBAQEBAQEBAQE''"
definition sample_hash1 :: gostring where "sample_hash1 = ''QVFFQkFRRUJBUUVCQVFFQkFRRUJBUUVCQVFFQkFRRUI''"
definition sample_successor :: gostring where "sample_successor = ''AgICAgICAgICAgICAgICAgICAgICAgICAgICAgICAgI''"
definition sample_hash2 :: gostring where "sample_hash2 = ''QWdJQ0FnSUNBZ0lDQWdJQ0FnSUNBZ0lDQWdJQ0FnSUM''"

definition sample_file :: "registration \<Rightarrow> stored_file" where
  "sample_file r = Contents (Some 3) (Some \<lparr>dcSchemaVersion = 3, dcPort = 0, dcRegistrations = [r]\<rparr>)"

definition sample_registered :: Store where
  "sample_registered = sample_start\<lparr>
     bsDisk := sample_file \<lparr>brHash = sample_hash1, brRetired = [], brIssuedAt = 1, brLastUsedAt = 1\<rparr>, bsRandom := replicate 32 2\<rparr>"

definition sample_registration :: registration where
  "sample_registration = \<lparr>brHash = sample_hash2, brRetired = [sample_hash1], brIssuedAt = 1, brLastUsedAt = 1\<rparr>"

definition sample_rotated :: Store where
  "sample_rotated = sample_start\<lparr>bsDisk := sample_file sample_registration, bsRandom := [],
     bsRotations := [(sample_hash1, \<lparr>roToken = sample_successor, roUntil = 60000000001\<rparr>)],
     bsByHash := [(sample_hash2, ''registration-1'')], bsIssued := 1\<rparr>"

definition sample_recovery :: Recovery where
  "sample_recovery = \<lparr>rcToken = sample_successor, rcRegistration = ''registration-1'', rcStolen = []\<rparr>"

definition sample_late :: Store where "sample_late = sample_rotated\<lparr>bsNow := 100000000000\<rparr>"

definition sample_after :: Store where
  "sample_after = sample_start\<lparr>bsNow := 100000000000, bsDisk := Contents (Some 3) (Some \<lparr>dcSchemaVersion = 3, dcPort = 0, dcRegistrations = []\<rparr>),
     bsRandom := [], bsIssued := 1\<rparr>"

lemma sample_hash_length: "\<forall>t. length (sample_hash t) = 32"
  by (auto simp: sample_hash_def)

lemma draws_fresh_iff [code]:
  "draws_fresh sha F s \<longleftrightarrow> (case fst (store_draw s) of None \<Rightarrow> True | Some t \<Rightarrow>
     hashToken sha t \<notin> F \<and> list_all (\<lambda>r. hashToken sha t \<notin> hashes r) (disk_regs s) \<and> hashToken sha t \<notin> fst ` set (bsRotations s))"
  by (auto simp: draws_fresh_def list_all_iff split: option.split)

lemma sample_steps:
  "fst (Register sample_hash [] sample_start) = sample_registered"
  "Recover sample_hash sample_token sample_registered = (sample_rotated, Inr sample_recovery)"
  "Recover sample_hash sample_token sample_late = (sample_after, Inr (no_recovery\<lparr>rcStolen := ''registration-1''\<rparr>))"
  "Recover sample_hash sample_successor sample_after = (sample_after, Inr no_recovery)"
  by code_simp+

lemma sample_draws:
  "draws_fresh sample_hash {} sample_start" "draws_fresh sample_hash {} sample_registered" "draws_fresh sample_hash {} sample_late"
  by code_simp+

lemma sample_members:
  "live sample_registered (disk_regs sample_registered) = [\<lparr>brHash = sample_hash1, brRetired = [], brIssuedAt = 1, brLastUsedAt = 1\<rparr>]"
  "disk_regs sample_late = [sample_registration]"
  "hashToken sample_hash sample_token = sample_hash1" "hashToken sample_hash sample_successor = sample_hash2"
  by code_simp+

lemma sample_fresh: "fresh_store sample_start" by (simp add: fresh_store_def sample_start_def)

lemma sample_runs:
  "auth_run sample_hash {} sample_start sample_registered"
  "auth_run sample_hash {} sample_start sample_late"
proof -
  show registered: "auth_run sample_hash {} sample_start sample_registered"
    using auth_run.further [OF auth_run.start auth_op.register [OF sample_draws(1), of "[]"]] by (simp only: sample_steps(1))
  have "auth_run sample_hash {} sample_start sample_rotated"
    using auth_run.further [OF registered auth_op.recover [OF sample_draws(2), of sample_token]] by (simp only: sample_steps(2) fst_conv)
  then show "auth_run sample_hash {} sample_start sample_late"
    unfolding sample_late_def by (rule auth_run.further [OF _ auth_op.tick]) simp
qed

theorem registrations_always_load_witness: "\<exists>d. load sample_late = Inr d \<and> length (dcRegistrations d) \<le> 16"
  using registrations_always_load [OF sample_runs(2) sample_fresh sample_hash_length] by blast

theorem stolen_family_dead_witness:
  "Recover sample_hash sample_successor sample_after = (sample_after, Inr no_recovery) \<and> \<not> rc_Accepted no_recovery"
proof -
  have "sample_registration \<in> set (disk_regs sample_late)" "hashToken sample_hash sample_token \<in> hashes sample_registration"
    "hashToken sample_hash sample_successor \<in> hashes sample_registration"
    by (simp_all add: sample_members hashes_def sample_registration_def)
  from stolen_family_dead [OF sample_runs(2) sample_fresh sample_hash_length sample_draws(3) sample_steps(3) _ this(1,2)
      auth_run.start this(3) sample_steps(4)]
  show ?thesis using sample_steps(4) by simp
qed

text \<open>
  The replay of a token two generations back: the browser rotates a second time, then the first
  token comes back.
\<close>

definition sample_hash3 :: gostring where "sample_hash3 = ''QXdNREF3TURBd01EQXdNREF3TURBd01EQXdNREF3TUQ''"

definition sample_third :: registration where
  "sample_third = \<lparr>brHash = sample_hash3, brRetired = [sample_hash1, sample_hash2], brIssuedAt = 1, brLastUsedAt = 1\<rparr>"

definition sample_more :: Store where "sample_more = sample_rotated\<lparr>bsRandom := replicate 32 3, bsWritable := True\<rparr>"

definition sample_newest :: gostring where "sample_newest = ''AwMDAwMDAwMDAwMDAwMDAwMDAwMDAwMDAwMDAwMDAwM''"

definition sample_second :: Store where
  "sample_second = sample_start\<lparr>bsDisk := sample_file sample_third, bsRandom := [],
     bsRotations := [(sample_hash1, \<lparr>roToken = sample_newest, roUntil = 60000000001\<rparr>),
       (sample_hash2, \<lparr>roToken = sample_newest, roUntil = 60000000001\<rparr>)],
     bsByHash := [(sample_hash3, ''registration-1'')], bsIssued := 1\<rparr>"

definition sample_twice :: Store where "sample_twice = sample_second\<lparr>bsNow := 100000000000\<rparr>"

lemma sample_rotates_again: "fst (Recover sample_hash sample_successor sample_more) = sample_second"
  by code_simp

lemma sample_more_fresh: "draws_fresh sample_hash (hashes sample_registration) sample_more"
  by code_simp

lemma sample_twice_facts:
  "live sample_twice (disk_regs sample_twice) = [sample_third]" "disk_regs sample_rotated = [sample_registration]"
  by code_simp+

lemma sample_twice_fields:
  "bsNow sample_twice = 100000000000" "bsWritable sample_twice"
  "map_of (bsByHash sample_twice) (brHash sample_third) = Some ''registration-1''"
  by (simp_all add: sample_twice_def sample_second_def sample_start_def sample_third_def)

lemma sample_twice_run: "auth_run sample_hash (hashes sample_registration) sample_rotated sample_twice"
proof -
  have "auth_run sample_hash (hashes sample_registration) sample_rotated sample_more"
    unfolding sample_more_def by (rule auth_run.further [OF auth_run.start auth_op.surroundings])
  then have "auth_run sample_hash (hashes sample_registration) sample_rotated (fst (Recover sample_hash sample_successor sample_more))"
    by (rule auth_run.further [OF _ auth_op.recover [OF sample_more_fresh]])
  then show ?thesis unfolding sample_twice_def sample_rotates_again by (rule auth_run.further [OF _ auth_op.tick]) simp
qed

theorem replay_ends_sessions_witness:
  "snd (entrance_Recover sample_hash id [] sample_token (sample_twice, fst sample_issued)) = Inl ErrRegistrationRejected"
proof -
  let ?out = "entrance_Recover sample_hash id [] sample_token (sample_twice, fst sample_issued)"
  let ?r = "\<lparr>brHash = sample_hash1, brRetired = [], brIssuedAt = 1, brLastUsedAt = 1\<rparr>"
  have acc: "rc_Accepted sample_recovery" by (simp add: rc_Accepted_def sample_recovery_def sample_successor_def)
  have r: "?r \<in> set (live sample_registered (disk_regs sample_registered))" "brHash ?r = hashToken sample_hash sample_token"
    by (simp_all add: sample_members)
  have q: "sample_registration \<in> set (disk_regs sample_rotated)" "hashToken sample_hash sample_token \<in> hashes sample_registration"
    by (simp_all add: sample_twice_facts sample_members hashes_def sample_registration_def)
  have late: "bsNow sample_registered + rotationGrace \<le> bsNow sample_twice"
    by (simp add: sample_twice_fields sample_registered_def sample_start_def rotationGrace_def)
  have third: "sample_third \<in> set (live sample_twice (disk_regs sample_twice))" "hashes sample_third \<inter> hashes sample_registration \<noteq> {}"
    "length (brRetired sample_third) < MaxRetiredTokens"
    by (simp_all add: sample_twice_facts) (simp_all add: hashes_def sample_third_def sample_registration_def MaxRetiredTokens_def)
  have out: "?out = ((fst (fst ?out), snd (fst ?out)), snd ?out)" by simp
  from replay_ends_sessions [OF sample_runs(1) sample_fresh sample_hash_length sample_draws(2) sample_steps(2) acc r q sample_twice_run
      late third sample_twice_fields(2,3) out]
  show ?thesis by simp
qed

end
