(* ===== verification/StoreWorld.thy ===== *)
theory StoreWorld
  imports GoText "HOL-Library.AList" "HOL-Library.Word"
begin

text \<open>
  The disk under the storage transactions (internal/storage: filesystem.go, filesystem_unix.go,
  workspace.go, payload_limits.go) and programs that may stop at any operation.

  A path is a cleaned absolute path as its list of segments, so \<open>filepath.Dir\<close> is \<open>butlast\<close>,
  \<open>filepath.Join\<close> is append, and \<open>nativepath.Identity\<close> is the path (the Unix build). Every operation
  on the disk takes one outcome from the world: it works, it fails without effect, or the machine
  stops before it. What an operation did is on the disk when it returns; \<open>SyncDir\<close> can only fail.
\<close>

section \<open>The disk\<close>

type_synonym fpath = "gostring list"
type_synonym bytes = "byte list"

datatype node = RegularFile bytes nat | Directory nat | SymbolicLink

datatype outcome = Works | Fails | Stops

datatype store_failure =
    ErrIO | ErrNotExist | ErrOutsideWorkspace | ErrSymlinkPath | ErrMissingDirectory | ErrNotDirectory
  | ErrNotRegularFile | ErrFileTooLarge | ErrPendingTransaction | ErrNoChanges | ErrDuplicatePath
  | ErrInvalidOperation | ErrDirectoryNotEmpty | ErrIrreversibleChange | ErrMoveTargetExists | ErrMissingSource
  | ErrIrreversibleRemoval | ErrAtomicWriteOnly | ErrConflict fpath | ErrTransactionTooLarge | ErrInvalidJournal
  | ErrUnknownTransaction | ErrCannotComplete | ErrCannotRollback | ErrRecoveryStateUnknown | ErrValidation | ErrUnseal
  | ErrNoPreviousCopy

datatype action = actionWrite | actionMove | actionRemove | actionMakeDir | actionRemoveDir | actionNote

datatype record_status = statusStaging | statusStaged | statusApplied | statusCompleted | statusRolledBack

text \<open>\<open>None\<close> is the empty string of the source for a path that is not set.\<close>

record journalEntry =
  jeAction :: action
  jePath :: fpath
  jeTarget :: "fpath option"
  jeTemp :: "fpath option"
  jeBackup :: "fpath option"
  jeNoBackup :: bool
  jeHadPrevious :: bool
  jeMode :: nat
  jePreviousMode :: nat
  jeDigest :: gostring
  jePreviousDigest :: gostring

record journalRecord =
  jrID :: gostring
  jrVersion :: int
  jrOperation :: gostring
  jrStatus :: record_status
  jrStartedAt :: int
  jrFinishedAt :: "int option"
  jrCommitted :: nat
  jrAtomic :: bool
  jrDiscardBackups :: bool
  jrEntries :: "journalEntry list"

text \<open>
  The documents of the journal and of the history are kept by their identifier, the backups by their
  path, apart from the files of the workspace. \<open>wdRecord\<close> is the record that the running process holds
  in memory; \<open>wdNames\<close> are the names that \<open>createPrivateTemp\<close> will draw.
\<close>

record World =
  wdFiles :: "(fpath \<times> node) list"
  wdJournal :: "(gostring \<times> journalRecord) list"
  wdHistory :: "(gostring \<times> journalRecord) list"
  wdBackups :: "(fpath \<times> node) list"
  wdRecord :: journalRecord
  wdOutcomes :: "outcome list"
  wdNames :: "gostring list"
  wdRandom :: bytes
  wdNow :: int

text \<open>What does not change while the process runs.\<close>

record Storage =
  stRoot :: fpath
  stDigest :: "bytes \<Rightarrow> gostring"
  stSeal :: "(bytes \<Rightarrow> bytes option) option"
  stUnseal :: "(bytes \<Rightarrow> bytes option) option"
  stReportsExecutableBit :: bool

section \<open>Programs\<close>

datatype 'a completion = Done 'a | Failed store_failure | Stopped

type_synonym 'a act = "World \<Rightarrow> 'a completion \<times> World"

definition ret :: "'a \<Rightarrow> 'a act" where "ret x w = (Done x, w)"
definition failing :: "store_failure \<Rightarrow> 'a act" where "failing e w = (Failed e, w)"

definition chain :: "'a act \<Rightarrow> ('a \<Rightarrow> 'b act) \<Rightarrow> 'b act" where
  "chain m f w = (case m w of (Done x, w') \<Rightarrow> f x w' | (Failed e, w') \<Rightarrow> (Failed e, w') | (Stopped, w') \<Rightarrow> (Stopped, w'))"

text \<open>A failure can be handled, a stop of the machine cannot.\<close>

definition handle :: "'a act \<Rightarrow> (store_failure \<Rightarrow> 'a act) \<Rightarrow> 'a act" where
  "handle m h w = (case m w of (Done x, w') \<Rightarrow> (Done x, w') | (Failed e, w') \<Rightarrow> h e w' | (Stopped, w') \<Rightarrow> (Stopped, w'))"

definition get :: "(World \<Rightarrow> 'a) \<Rightarrow> 'a act" where "get f w = (Done (f w), w)"
definition modify :: "(World \<Rightarrow> World) \<Rightarrow> unit act" where "modify f w = (Done (), f w)"
definition unless_fails :: "bool \<Rightarrow> store_failure \<Rightarrow> unit act" where
  "unless_fails ok e = (if ok then ret () else failing e)"

text \<open>A loop that returns at the first error.\<close>

fun each :: "('a \<Rightarrow> unit act) \<Rightarrow> 'a list \<Rightarrow> unit act" where
  "each f [] = ret ()"
| "each f (x # xs) = chain (f x) (\<lambda>_. each f xs)"

definition operation :: "unit act" where
  "operation w = (case wdOutcomes w of
      [] \<Rightarrow> (Done (), w)
    | Works # os \<Rightarrow> (Done (), w\<lparr>wdOutcomes := os\<rparr>)
    | Fails # os \<Rightarrow> (Failed ErrIO, w\<lparr>wdOutcomes := os\<rparr>)
    | Stops # os \<Rightarrow> (Stopped, w\<lparr>wdOutcomes := os\<rparr>))"

section \<open>Operations on files\<close>

definition MaxFileSize :: int where "MaxFileSize = 1048576"
definition MaxAssetFileSize :: int where "MaxAssetFileSize = 1073741824"
definition DirectoryPermission :: nat where "DirectoryPermission = 448"
definition FilePermission :: nat where "FilePermission = 384"

definition node_at :: "fpath \<Rightarrow> World \<Rightarrow> node option" where "node_at p w = map_of (wdFiles w) p"

definition put_node :: "fpath \<Rightarrow> node \<Rightarrow> World \<Rightarrow> World" where
  "put_node p n w = w\<lparr>wdFiles := AList.update p n (wdFiles w)\<rparr>"

definition drop_node :: "fpath \<Rightarrow> World \<Rightarrow> World" where
  "drop_node p w = w\<lparr>wdFiles := AList.delete p (wdFiles w)\<rparr>"

text \<open>\<open>None\<close> is \<open>fs.ErrNotExist\<close>.\<close>

definition Lstat :: "fpath \<Rightarrow> node option act" where
  "Lstat p = chain operation (\<lambda>_. get (node_at p))"

definition ReadDir :: "fpath \<Rightarrow> gostring list option act" where
  "ReadDir p = chain operation (\<lambda>_. chain (get (node_at p)) (\<lambda>n. case n of
      None \<Rightarrow> ret None
    | Some (Directory _) \<Rightarrow>
        get (\<lambda>w. Some (map (\<lambda>(q, _). last q) (filter (\<lambda>(q, _). q \<noteq> [] \<and> butlast q = p) (wdFiles w))))
    | Some _ \<Rightarrow> failing ErrNotDirectory))"

definition SyncDir :: "fpath \<Rightarrow> unit act" where "SyncDir p = operation"

definition Remove :: "fpath \<Rightarrow> unit act" where
  "Remove p = chain operation (\<lambda>_. chain (get (node_at p)) (\<lambda>n. case n of
      None \<Rightarrow> failing ErrNotExist
    | Some (Directory _) \<Rightarrow> chain (get wdFiles) (\<lambda>fs.
        if list_ex (\<lambda>(q, _). q \<noteq> [] \<and> butlast q = p) fs then failing ErrIO else modify (drop_node p))
    | Some _ \<Rightarrow> modify (drop_node p)))"

definition is_directory :: "node option \<Rightarrow> bool" where
  "is_directory n \<longleftrightarrow> (case n of Some (Directory _) \<Rightarrow> True | _ \<Rightarrow> False)"

text \<open>\<open>renameat\<close> replaces a file that is in the way. A transaction renames files; a directory is refused here.\<close>

definition Rename :: "fpath \<Rightarrow> fpath \<Rightarrow> unit act" where
  "Rename old_path new_path = chain operation (\<lambda>_. chain (get (node_at old_path)) (\<lambda>n. chain (get (node_at new_path)) (\<lambda>t.
     case n of
       None \<Rightarrow> failing ErrNotExist
     | Some (Directory _) \<Rightarrow> failing ErrIO
     | Some n \<Rightarrow> chain (get (node_at (butlast new_path))) (\<lambda>parent.
                  if \<not> is_directory parent then failing ErrNotExist
                  else if is_directory t then failing ErrIO
                  else modify (\<lambda>w. put_node new_path n (drop_node old_path w))))))"

definition MovePrivate :: "fpath \<Rightarrow> fpath \<Rightarrow> unit act" where "MovePrivate = Rename"

definition MkdirAll :: "fpath \<Rightarrow> unit act" where
  "MkdirAll p = chain operation (\<lambda>_. chain (get (node_at p)) (\<lambda>n. case n of
      None \<Rightarrow> modify (put_node p (Directory DirectoryPermission))
    | Some (Directory _) \<Rightarrow> ret ()
    | Some _ \<Rightarrow> failing ErrNotDirectory))"

definition tempCollisionLimit :: nat where "tempCollisionLimit = 128"

fun create_temp :: "nat \<Rightarrow> fpath \<Rightarrow> gostring \<Rightarrow> fpath act" where
  "create_temp 0 directory pre = failing ErrIO"
| "create_temp (Suc attempts) directory pre =
     chain (get wdNames) (\<lambda>names. case names of
        [] \<Rightarrow> failing ErrIO
      | name # rest \<Rightarrow> chain (modify (\<lambda>w. w\<lparr>wdNames := rest\<rparr>)) (\<lambda>_.
          chain (get (node_at (directory @ [pre @ name]))) (\<lambda>n.
            if n \<noteq> None then create_temp attempts directory pre else ret (directory @ [pre @ name]))))"

text \<open>The file is created empty, then its mode and contents are written and flushed.\<close>

definition WriteTemp :: "fpath \<Rightarrow> gostring \<Rightarrow> nat \<Rightarrow> bytes \<Rightarrow> fpath act" where
  "WriteTemp directory pre permission contents =
     chain operation (\<lambda>_. chain (get (node_at directory)) (\<lambda>d.
       if \<not> is_directory d then failing ErrNotExist
       else chain (create_temp tempCollisionLimit directory pre) (\<lambda>p.
         chain (modify (put_node p (RegularFile [] FilePermission))) (\<lambda>_.
         chain (handle operation (\<lambda>e. chain (handle (Remove p) (\<lambda>_. ret ())) (\<lambda>_. failing e))) (\<lambda>_.
         chain (modify (put_node p (RegularFile contents permission))) (\<lambda>_. ret p))))))"

definition temporaryPrefix :: gostring where "temporaryPrefix = ''.sshc-''"

text \<open>The temporary file is gone again when the rename fails; only a stop leaves it.\<close>

definition WriteAtomicFile :: "fpath \<Rightarrow> gostring \<Rightarrow> nat \<Rightarrow> bytes \<Rightarrow> unit act" where
  "WriteAtomicFile p pre permission contents =
     chain (WriteTemp (butlast p) pre permission contents) (\<lambda>temporary.
       chain (handle (Rename temporary p) (\<lambda>e. chain (handle (Remove temporary) (\<lambda>_. ret ())) (\<lambda>_. failing e)))
         (\<lambda>_. SyncDir (butlast p)))"

definition Contains :: "fpath \<Rightarrow> fpath \<Rightarrow> bool" where "Contains root p \<longleftrightarrow> take (length root) p = root"

definition StateDirectoryName :: gostring where "StateDirectoryName = ''sshc''"
definition StateDir :: "Storage \<Rightarrow> fpath" where "StateDir st = stRoot st @ [StateDirectoryName]"

definition PayloadLimit :: "fpath \<Rightarrow> int" where
  "PayloadLimit relative =
     (if take 2 relative = [StateDirectoryName, ''backgrounds''] \<and> length relative > 2 then MaxAssetFileSize else MaxFileSize)"

definition observableOwnerMode :: "Storage \<Rightarrow> nat \<Rightarrow> nat" where
  "observableOwnerMode st mode = (if stReportsExecutableBit st then and mode 448 else and mode 128)"

definition ownerModesMatch :: "Storage \<Rightarrow> nat \<Rightarrow> nat \<Rightarrow> bool" where
  "ownerModesMatch st a b \<longleftrightarrow> observableOwnerMode st a = observableOwnerMode st b"

definition is_lower_hex :: "char \<Rightarrow> bool" where
  "is_lower_hex c \<longleftrightarrow> is_digit c \<or> c \<in> set ''abcdef''"

definition validJournalIdentifier :: "gostring \<Rightarrow> bool" where
  "validJournalIdentifier s \<longleftrightarrow> length s = 28 \<and> list_all is_digit (take 8 s) \<and> s ! 8 = CHR ''T'' \<and>
     list_all is_digit (take 6 (drop 9 s)) \<and> s ! 15 = CHR ''.'' \<and> list_all is_digit (take 3 (drop 16 s)) \<and>
     s ! 19 = CHR ''-'' \<and> list_all is_lower_hex (drop 20 s)"

text \<open>A backup is allowed twice the size of what it holds.\<close>

definition TransactionFileLimit :: "Storage \<Rightarrow> fpath \<Rightarrow> int" where
  "TransactionFileLimit st p =
     (if \<not> Contains (stRoot st) p then MaxFileSize
      else (case drop (length (stRoot st)) p of
          a # b # identifier # c # original \<Rightarrow>
            (if a = StateDirectoryName \<and> b = ''backups'' \<and> validJournalIdentifier identifier then 2 * PayloadLimit (c # original)
             else PayloadLimit (a # b # identifier # c # original))
        | relative \<Rightarrow> PayloadLimit relative))"

definition ReadTransactionFile :: "Storage \<Rightarrow> fpath \<Rightarrow> bytes act" where
  "ReadTransactionFile st p = chain operation (\<lambda>_. chain (get (node_at p)) (\<lambda>n. case n of
      None \<Rightarrow> failing ErrNotExist
    | Some (RegularFile contents _) \<Rightarrow>
        (if int (length contents) > TransactionFileLimit st p then failing ErrFileTooLarge else ret contents)
    | Some _ \<Rightarrow> failing ErrNotRegularFile))"

text \<open>Whether the file exists, its contents and the owner's permission bits.\<close>

definition currentState :: "Storage \<Rightarrow> fpath \<Rightarrow> (bytes \<times> nat) option act" where
  "currentState st p = chain (Lstat p) (\<lambda>info. case info of
      None \<Rightarrow> ret None
    | Some n \<Rightarrow> chain (ReadTransactionFile st p) (\<lambda>contents.
        ret (Some (contents, (case n of RegularFile _ m \<Rightarrow> and m 448 | Directory m \<Rightarrow> and m 448 | SymbolicLink \<Rightarrow> 448)))))"

section \<open>The workspace\<close>

definition validateRoot :: "Storage \<Rightarrow> bool \<Rightarrow> unit act" where
  "validateRoot st allowMissing = chain (Lstat (stRoot st)) (\<lambda>info. case info of
      None \<Rightarrow> (if allowMissing then ret () else failing ErrMissingDirectory)
    | Some SymbolicLink \<Rightarrow> failing ErrSymlinkPath
    | Some (Directory _) \<Rightarrow> ret ()
    | Some (RegularFile _ _) \<Rightarrow> failing ErrNotDirectory)"

text \<open>The path that is checked, the segments behind it.\<close>

fun resolve_write :: "(fpath \<Rightarrow> bool) \<Rightarrow> fpath \<Rightarrow> gostring list \<Rightarrow> unit act" where
  "resolve_write planned current [] = ret ()"
| "resolve_write planned current (segment # segments) =
     (let next = current @ [segment]; at_end = segments = [] in
      chain (Lstat next) (\<lambda>info. case info of
          None \<Rightarrow> (if at_end then ret ()
                   else if planned next then resolve_write planned next segments else failing ErrMissingDirectory)
        | Some SymbolicLink \<Rightarrow> failing ErrSymlinkPath
        | Some (Directory _) \<Rightarrow> (if at_end then failing ErrNotRegularFile else resolve_write planned next segments)
        | Some (RegularFile _ _) \<Rightarrow> (if at_end then ret () else failing ErrNotDirectory)))"

definition ResolveForWriteUnder :: "Storage \<Rightarrow> fpath \<Rightarrow> (fpath \<Rightarrow> bool) \<Rightarrow> fpath act" where
  "ResolveForWriteUnder st candidate planned =
     (if \<not> Contains (stRoot st) candidate then failing ErrOutsideWorkspace
      else chain (validateRoot st False) (\<lambda>_.
        if candidate = stRoot st then failing ErrOutsideWorkspace
        else chain (resolve_write planned (stRoot st) (drop (length (stRoot st)) candidate)) (\<lambda>_. ret candidate)))"

definition ResolveForWrite :: "Storage \<Rightarrow> fpath \<Rightarrow> fpath act" where
  "ResolveForWrite st candidate = ResolveForWriteUnder st candidate (\<lambda>_. False)"

fun resolve_directory :: "fpath \<Rightarrow> gostring list \<Rightarrow> unit act" where
  "resolve_directory current [] = ret ()"
| "resolve_directory current (segment # segments) =
     chain (Lstat (current @ [segment])) (\<lambda>info. case info of
        None \<Rightarrow> ret ()
      | Some SymbolicLink \<Rightarrow> failing ErrSymlinkPath
      | Some (Directory _) \<Rightarrow> resolve_directory (current @ [segment]) segments
      | Some (RegularFile _ _) \<Rightarrow> failing ErrNotDirectory)"

definition ResolveDirectory :: "Storage \<Rightarrow> fpath \<Rightarrow> fpath act" where
  "ResolveDirectory st candidate =
     (if \<not> Contains (stRoot st) candidate then failing ErrOutsideWorkspace
      else chain (validateRoot st True) (\<lambda>_.
        if candidate = stRoot st then failing ErrOutsideWorkspace
        else chain (resolve_directory (stRoot st) (drop (length (stRoot st)) candidate)) (\<lambda>_. ret candidate)))"

fun ensure_segments :: "Storage \<Rightarrow> fpath \<Rightarrow> gostring list \<Rightarrow> unit act" where
  "ensure_segments st current [] = ret ()"
| "ensure_segments st current (segment # segments) =
     (let next = current @ [segment] in
      chain (Lstat next) (\<lambda>info. case info of
          None \<Rightarrow> chain (MkdirAll next) (\<lambda>_. ensure_segments st next segments)
        | Some SymbolicLink \<Rightarrow> failing ErrSymlinkPath
        | Some (RegularFile _ _) \<Rightarrow> failing ErrNotDirectory
        | Some (Directory _) \<Rightarrow>
            (if Contains (StateDir st) next then chain (MkdirAll next) (\<lambda>_. ensure_segments st next segments)
             else ensure_segments st next segments)))"

definition EnsureDirectory :: "Storage \<Rightarrow> fpath \<Rightarrow> unit act" where
  "EnsureDirectory st candidate =
     (if \<not> Contains (stRoot st) candidate then failing ErrOutsideWorkspace
      else chain (Lstat (stRoot st)) (\<lambda>info.
        chain (case info of
            None \<Rightarrow> MkdirAll (stRoot st)
          | Some SymbolicLink \<Rightarrow> failing ErrSymlinkPath
          | Some (Directory _) \<Rightarrow> ret ()
          | Some (RegularFile _ _) \<Rightarrow> failing ErrNotDirectory)
        (\<lambda>_. ensure_segments st (stRoot st) (drop (length (stRoot st)) candidate))))"

section \<open>Which paths a request has claimed\<close>

type_synonym claimedPaths = "fpath list"

definition claim :: "fpath \<Rightarrow> claimedPaths \<Rightarrow> claimedPaths option" where
  "claim p c = (if p \<in> set c then None else Some (p # c))"

end
