(* ===== verification/StoreJournal.thy ===== *)
theory StoreJournal
  imports StoreWorld RandomId "HOL-Library.Char_ord"
begin

text \<open>
  The journal of the storage transactions (internal/storage: journal.go, backup.go, record_limits.go and
  the second half of transaction.go): which records are accepted when they are read back, how they are
  written, and how a transaction is finished.

  A document is the record that its JSON text holds; \<open>record_bytes\<close> is the length of that text.
  Formatting the time of an identifier is the parameter \<open>format_time\<close>. Pruning old history at the end of
  \<open>finish\<close> cannot fail the transaction and is left out.
\<close>

section \<open>Entries\<close>

definition journalVersion :: int where "journalVersion = 2"
definition maxTransactionEntries :: nat where "maxTransactionEntries = 8192"
definition maxRecordBytes :: int where "maxRecordBytes = 8192 * 4096"

definition sameContentsWrite :: "journalEntry \<Rightarrow> bool" where
  "sameContentsWrite e \<longleftrightarrow> jeAction e = actionWrite \<and> jeHadPrevious e \<and> jeDigest e = jePreviousDigest e"

definition noOpWrite :: "journalEntry \<Rightarrow> bool" where
  "noOpWrite e \<longleftrightarrow> sameContentsWrite e \<and> jeMode e = jePreviousMode e"

definition checkReversible :: "journalEntry \<Rightarrow> store_failure option" where
  "checkReversible e =
     (if jeAction e = actionRemove \<and> jeNoBackup e then Some ErrIrreversibleRemoval
      else if jeAction e = actionWrite \<and> jeHadPrevious e \<and> jeNoBackup e \<and> \<not> sameContentsWrite e then Some ErrIrreversibleChange
      else None)"

definition touchedPaths :: "journalRecord \<Rightarrow> fpath list" where
  "touchedPaths r = concat (map (\<lambda>e. jePath e # (case jeTarget e of Some t \<Rightarrow> [t] | None \<Rightarrow> [])) (jrEntries r))"

section \<open>Which documents are accepted\<close>

definition validJournalDigest :: "gostring \<Rightarrow> bool" where
  "validJournalDigest digest \<longleftrightarrow> length digest = 64 \<and> list_all is_lower_hex digest"

definition validOwnerFileMode :: "nat \<Rightarrow> bool" where "validOwnerFileMode mode \<longleftrightarrow> and mode 448 = mode"

definition validLoadedWorkspacePath :: "Storage \<Rightarrow> fpath \<Rightarrow> bool" where
  "validLoadedWorkspacePath st p \<longleftrightarrow> p \<noteq> stRoot st \<and> Contains (stRoot st) p"

definition backupRoot :: "Storage \<Rightarrow> gostring \<Rightarrow> fpath" where
  "backupRoot st identifier = StateDir st @ [''backups'', identifier]"

definition backup_path :: "Storage \<Rightarrow> gostring \<Rightarrow> fpath \<Rightarrow> fpath" where
  "backup_path st identifier p = backupRoot st identifier @ drop (length (stRoot st)) p"

datatype record_place = InJournal | InHistory

definition validateLoadedBackup :: "Storage \<Rightarrow> journalRecord \<Rightarrow> journalEntry \<Rightarrow> bool \<Rightarrow> bool" where
  "validateLoadedBackup st r e pending \<longleftrightarrow>
     (if \<not> (jeHadPrevious e \<and> \<not> jeNoBackup e) then jeBackup e = None
      else (case jeBackup e of
          None \<Rightarrow> (jrDiscardBackups r \<and> jrStatus r \<in> {statusApplied, statusCompleted, statusRolledBack}) \<or>
                  (pending \<and> jrStatus r = statusStaging) \<or> jrStatus r = statusRolledBack
        | Some b \<Rightarrow> Contains (stRoot st) (jePath e) \<and> jePath e \<noteq> stRoot st \<and> b = backup_path st (jrID r) (jePath e)))"

definition temp_prefix :: "gostring \<Rightarrow> gostring" where "temp_prefix identifier = temporaryPrefix @ identifier @ ''-''"

definition validateLoadedJournalEntry :: "Storage \<Rightarrow> journalRecord \<Rightarrow> journalEntry \<Rightarrow> bool \<Rightarrow> bool" where
  "validateLoadedJournalEntry st r e pending \<longleftrightarrow>
     validLoadedWorkspacePath st (jePath e) \<and>
     (case jeTarget e of None \<Rightarrow> True | Some t \<Rightarrow> validLoadedWorkspacePath st t) \<and>
     (case jeTemp e of None \<Rightarrow> True | Some t \<Rightarrow> validLoadedWorkspacePath st t) \<and>
     (case jeAction e of
        actionWrite \<Rightarrow>
          jeTarget e = None \<and> validOwnerFileMode (jeMode e) \<and> validJournalDigest (jeDigest e) \<and>
          \<not> (jrAtomic r \<and> jeNoBackup e) \<and> jeHadPrevious e = validJournalDigest (jePreviousDigest e) \<and>
          \<not> (\<not> jeHadPrevious e \<and> jePreviousMode e \<noteq> 0) \<and> validOwnerFileMode (jePreviousMode e) \<and>
          (case jeTemp e of None \<Rightarrow> True
           | Some t \<Rightarrow> butlast t = butlast (jePath e) \<and> has_prefix (last t) (temp_prefix (jrID r)) \<and> jrStatus r \<noteq> statusCompleted) \<and>
          validateLoadedBackup st r e pending
      | actionMove \<Rightarrow>
          jeTarget e \<noteq> None \<and> jeTemp e = None \<and> jeBackup e = None \<and> \<not> jeNoBackup e \<and> jeHadPrevious e \<and>
          jePreviousMode e = 0 \<and> validOwnerFileMode (jeMode e) \<and> validJournalDigest (jeDigest e) \<and>
          jePreviousDigest e = jeDigest e \<and> \<not> jrAtomic r
      | actionRemove \<Rightarrow>
          jeTarget e = None \<and> jeTemp e = None \<and> jeHadPrevious e \<and> validOwnerFileMode (jeMode e) \<and>
          jePreviousMode e = 0 \<and> validJournalDigest (jeDigest e) \<and> jePreviousDigest e = jeDigest e \<and> \<not> jrAtomic r \<and>
          validateLoadedBackup st r e pending
      | actionMakeDir \<Rightarrow>
          jeTarget e = None \<and> jeTemp e = None \<and> jeBackup e = None \<and> \<not> jeNoBackup e \<and> jeDigest e = [] \<and>
          jePreviousDigest e = [] \<and> jePreviousMode e = 0 \<and> jeMode e = DirectoryPermission
      | actionRemoveDir \<Rightarrow>
          jeTarget e = None \<and> jeTemp e = None \<and> jeBackup e = None \<and> \<not> jeNoBackup e \<and> jeHadPrevious e \<and> jeDigest e = [] \<and>
          jePreviousDigest e = [] \<and> jePreviousMode e = 0 \<and> and (jeMode e) 511 = jeMode e \<and> \<not> jrAtomic r
      | actionNote \<Rightarrow>
          jeTarget e = None \<and> jeTemp e = None \<and> jeBackup e = None \<and> \<not> jeNoBackup e \<and> \<not> jeHadPrevious e \<and>
          jeDigest e = [] \<and> jePreviousDigest e = [] \<and> jePreviousMode e = 0 \<and> jeMode e = 0)"

fun claim_entries :: "journalEntry list \<Rightarrow> claimedPaths \<Rightarrow> bool" where
  "claim_entries [] c = True"
| "claim_entries (e # es) c =
     (case claim (jePath e) c of
        None \<Rightarrow> False
      | Some c \<Rightarrow>
          (case jeTarget e of
             None \<Rightarrow> claim_entries es c
           | Some t \<Rightarrow> (case claim t c of None \<Rightarrow> False | Some c \<Rightarrow> claim_entries es c)))"

definition validateLoadedJournalRecord :: "Storage \<Rightarrow> journalRecord \<Rightarrow> gostring \<Rightarrow> record_place \<Rightarrow> bool" where
  "validateLoadedJournalRecord st r identifier place \<longleftrightarrow>
     validJournalIdentifier identifier \<and> jrID r = identifier \<and> jrVersion r = journalVersion \<and>
     jrOperation r \<noteq> [] \<and> jrStartedAt r \<noteq> 0 \<and> jrEntries r \<noteq> [] \<and> jrCommitted r \<le> length (jrEntries r) \<and>
     (case place of
        InJournal \<Rightarrow> jrStatus r \<in> {statusStaging, statusStaged, statusApplied}
      | InHistory \<Rightarrow> jrStatus r \<in> {statusCompleted, statusRolledBack}) \<and>
     (if jrStatus r \<in> {statusStaging, statusStaged, statusApplied} then
        jrFinishedAt r = None \<and>
        \<not> (jrStatus r = statusApplied \<and> (\<not> jrAtomic r \<or> \<not> jrDiscardBackups r \<or> jrCommitted r \<noteq> length (jrEntries r))) \<and>
        \<not> (jrStatus r = statusStaging \<and> \<not> jrAtomic r \<and> jrCommitted r \<noteq> 0)
      else
        (case jrFinishedAt r of None \<Rightarrow> False | Some t \<Rightarrow> \<not> t < jrStartedAt r) \<and>
        \<not> (jrStatus r = statusCompleted \<and> jrCommitted r \<noteq> length (jrEntries r)) \<and>
        \<not> (jrStatus r = statusRolledBack \<and> jrCommitted r \<noteq> 0)) \<and>
     list_all (\<lambda>e. validateLoadedJournalEntry st r e (place = InJournal)) (jrEntries r) \<and>
     claim_entries (jrEntries r) [] \<and>
     (let notes = length (filter (\<lambda>e. jeAction e = actionNote) (jrEntries r)) in
      notes = 0 \<or> (notes = length (jrEntries r) \<and> place = InHistory \<and> jrStatus r = statusCompleted \<and> \<not> jrAtomic r)) \<and>
     \<not> (jrDiscardBackups r \<and> \<not> jrAtomic r)"

section \<open>Reading and writing documents\<close>

definition put_record :: "record_place \<Rightarrow> journalRecord \<Rightarrow> World \<Rightarrow> World" where
  "put_record place r w =
     (case place of
        InJournal \<Rightarrow> w\<lparr>wdJournal := AList.update (jrID r) r (wdJournal w)\<rparr>
      | InHistory \<Rightarrow> w\<lparr>wdHistory := AList.update (jrID r) r (wdHistory w)\<rparr>)"

text \<open>\<open>WriteAtomicFile\<close> on a document: the temporary file, the rename, the directory.\<close>

definition atomic_document :: "(World \<Rightarrow> World) \<Rightarrow> unit act" where
  "atomic_document put =
     chain operation (\<lambda>_. chain
       (handle operation (\<lambda>e. chain (handle operation (\<lambda>_. ret ())) (\<lambda>_. failing e)))
       (\<lambda>_. chain (modify put) (\<lambda>_. operation)))"

definition writeRecord :: "(journalRecord \<Rightarrow> int) \<Rightarrow> record_place \<Rightarrow> journalRecord \<Rightarrow> unit act" where
  "writeRecord record_bytes place r =
     (if record_bytes r > maxRecordBytes then failing ErrTransactionTooLarge else atomic_document (put_record place r))"

text \<open>The newest identifiers come last; \<open>skip\<close> leaves out documents of other versions.\<close>

definition started_before :: "journalRecord \<Rightarrow> journalRecord \<Rightarrow> bool" where
  "started_before a b \<longleftrightarrow> jrStartedAt a < jrStartedAt b \<or> (jrStartedAt a = jrStartedAt b \<and> ord_class.lexordp_eq (jrID a) (jrID b))"

fun insert_record :: "journalRecord \<Rightarrow> journalRecord list \<Rightarrow> journalRecord list" where
  "insert_record r [] = [r]"
| "insert_record r (q # qs) = (if started_before r q then r # q # qs else q # insert_record r qs)"

fun read_documents :: "Storage \<Rightarrow> record_place \<Rightarrow> bool \<Rightarrow> (gostring \<times> journalRecord) list \<Rightarrow> journalRecord list act" where
  "read_documents st place skip [] = ret []"
| "read_documents st place skip ((identifier, r) # docs) =
     chain operation (\<lambda>_.
       if jrVersion r \<noteq> journalVersion \<and> skip then read_documents st place skip docs
       else if \<not> validateLoadedJournalRecord st r identifier place then failing ErrInvalidJournal
       else chain (read_documents st place skip docs) (\<lambda>rs. ret (insert_record r rs)))"

definition readRecords :: "Storage \<Rightarrow> record_place \<Rightarrow> bool \<Rightarrow> journalRecord list act" where
  "readRecords st place skip =
     chain operation (\<lambda>_. chain (get (case place of InJournal \<Rightarrow> wdJournal | InHistory \<Rightarrow> wdHistory))
       (\<lambda>docs. if list_ex (\<lambda>(identifier, _). \<not> validJournalIdentifier identifier) docs then failing ErrInvalidJournal
               else read_documents st place skip docs))"

definition ensureNoPendingTransaction :: "Storage \<Rightarrow> unit act" where
  "ensureNoPendingTransaction st =
     chain (readRecords st InJournal False) (\<lambda>rs. unless_fails (rs = []) ErrPendingTransaction)"

definition newIdentifier :: "(int \<Rightarrow> gostring) \<Rightarrow> gostring act" where
  "newIdentifier format_time =
     chain (get wdRandom) (\<lambda>random. case ReadFull 4 random of
        (None, rest) \<Rightarrow> chain (modify (\<lambda>w. w\<lparr>wdRandom := rest\<rparr>)) (\<lambda>_. failing ErrIO)
      | (Some random_suffix, rest) \<Rightarrow>
          chain (modify (\<lambda>w. w\<lparr>wdRandom := rest\<rparr>)) (\<lambda>_. chain (get wdNow) (\<lambda>now.
            ret (format_time now @ ''-'' @ hex_encode random_suffix))))"

section \<open>Backups\<close>

definition ReadBackupFile :: "Storage \<Rightarrow> gostring \<Rightarrow> fpath \<Rightarrow> bytes act" where
  "ReadBackupFile st identifier p =
     chain operation (\<lambda>_. chain (get (\<lambda>w. map_of (wdBackups w) p)) (\<lambda>n. case n of
        None \<Rightarrow> failing ErrNotExist
      | Some (RegularFile contents _) \<Rightarrow>
          (if int (length contents) > 2 * PayloadLimit (drop (length (backupRoot st identifier)) p) then failing ErrFileTooLarge else ret contents)
      | Some _ \<Rightarrow> failing ErrNotRegularFile))"

definition validBackupReadPath :: "Storage \<Rightarrow> fpath \<Rightarrow> bool" where
  "validBackupReadPath st p \<longleftrightarrow>
     (let base = StateDir st @ [''backups''] in
      Contains base p \<and> length p \<ge> length base + 2 \<and> validJournalIdentifier (p ! length base))"

definition ReadBackup :: "Storage \<Rightarrow> gostring \<Rightarrow> fpath \<Rightarrow> bytes act" where
  "ReadBackup st identifier p =
     (if \<not> validBackupReadPath st p then failing ErrInvalidJournal
      else chain (ReadBackupFile st identifier p) (\<lambda>contents. case stUnseal st of
         None \<Rightarrow> ret contents
       | Some unseal \<Rightarrow> (case unseal contents of None \<Rightarrow> failing ErrUnseal | Some plaintext \<Rightarrow> ret plaintext)))"

section \<open>Finishing a transaction\<close>

definition update_record :: "(journalRecord \<Rightarrow> journalRecord) \<Rightarrow> unit act" where
  "update_record f = modify (\<lambda>w. w\<lparr>wdRecord := f (wdRecord w)\<rparr>)"

definition update_entry :: "nat \<Rightarrow> (journalEntry \<Rightarrow> journalEntry) \<Rightarrow> unit act" where
  "update_entry i f = update_record (\<lambda>r. r\<lparr>jrEntries := (jrEntries r)[i := f (jrEntries r ! i)]\<rparr>)"

definition get_entry :: "nat \<Rightarrow> journalEntry act" where "get_entry i = get (\<lambda>w. jrEntries (wdRecord w) ! i)"

definition entry_indices :: "World \<Rightarrow> nat list" where "entry_indices w = [0..<length (jrEntries (wdRecord w))]"

definition ignoring_missing :: "unit act \<Rightarrow> unit act" where
  "ignoring_missing m = handle m (\<lambda>e. if e = ErrNotExist then ret () else failing e)"

definition removeStagedTemps :: "unit act" where
  "removeStagedTemps = chain (get entry_indices) (each (\<lambda>i. chain (get_entry i) (\<lambda>e.
     case jeTemp e of
       None \<Rightarrow> ret ()
     | Some temp \<Rightarrow> chain (ignoring_missing (Remove temp)) (\<lambda>_. update_entry i (\<lambda>e. e\<lparr>jeTemp := None\<rparr>)))))"

definition remove_leftovers :: "gostring \<Rightarrow> fpath \<Rightarrow> unit act" where
  "remove_leftovers identifier directory =
     chain (ReadDir directory) (\<lambda>children. case children of
        None \<Rightarrow> ret ()
      | Some names \<Rightarrow> each (\<lambda>name. if has_prefix name (temp_prefix identifier)
          then ignoring_missing (Remove (directory @ [name])) else ret ()) names)"

fun unscanned :: "fpath list \<Rightarrow> fpath list \<Rightarrow> fpath list" where
  "unscanned seen [] = []"
| "unscanned seen (d # ds) = (if d \<in> set seen then unscanned seen ds else d # unscanned (d # seen) ds)"

definition removeLeftoverTemps :: "unit act" where
  "removeLeftoverTemps = chain (get wdRecord) (\<lambda>r.
     each (remove_leftovers (jrID r))
       (unscanned [] (map (\<lambda>e. butlast (jePath e)) (filter (\<lambda>e. jeAction e = actionWrite) (jrEntries r)))))"

definition remove_backup :: "fpath \<Rightarrow> unit act" where
  "remove_backup p = chain operation (\<lambda>_. modify (\<lambda>w. w\<lparr>wdBackups := AList.delete p (wdBackups w)\<rparr>))"

definition discardRollbackBackups :: "unit act" where
  "discardRollbackBackups = chain (get entry_indices) (each (\<lambda>i. chain (get_entry i) (\<lambda>e.
     case jeBackup e of
       None \<Rightarrow> ret ()
     | Some b \<Rightarrow> chain (remove_backup b) (\<lambda>_. chain (SyncDir (butlast b)) (\<lambda>_. update_entry i (\<lambda>e. e\<lparr>jeBackup := None\<rparr>))))))"

definition finish :: "(journalRecord \<Rightarrow> int) \<Rightarrow> record_status \<Rightarrow> unit act" where
  "finish record_bytes status =
     chain removeStagedTemps (\<lambda>_. chain removeLeftoverTemps (\<lambda>_.
     chain (get wdRecord) (\<lambda>r. chain (if jrDiscardBackups r then discardRollbackBackups else ret ()) (\<lambda>_.
     chain (get wdNow) (\<lambda>now. chain (update_record (\<lambda>r. r\<lparr>jrFinishedAt := Some now, jrStatus := status\<rparr>)) (\<lambda>_.
     chain (get wdRecord) (\<lambda>r. chain (writeRecord record_bytes InHistory r) (\<lambda>_.
     chain operation (\<lambda>_. chain (modify (\<lambda>w. w\<lparr>wdJournal := AList.delete (jrID r) (wdJournal w)\<rparr>)) (\<lambda>_.
     operation))))))))))"

definition finishApplied :: "(journalRecord \<Rightarrow> int) \<Rightarrow> unit act" where
  "finishApplied record_bytes = chain (get wdRecord) (\<lambda>r.
     if jrStatus r \<noteq> statusApplied \<or> \<not> jrDiscardBackups r \<or> jrCommitted r \<noteq> length (jrEntries r) then failing ErrCannotComplete
     else finish record_bytes statusCompleted)"

end

