(* ===== verification/StoreCommit.thy ===== *)
theory StoreCommit
  imports StoreJournal
begin

text \<open>
  Committing a request (internal/storage: request.go, transaction.go, commit_builder.go, commit_run.go):
  everything is checked, the intent is written to the journal, backups and temporary files are made, the
  record is marked as staged, and only then is each entry applied.
\<close>

section \<open>Requests\<close>

record Precondition =
  pcExists :: bool
  pcDigest :: gostring
  pcMode :: nat

record Change =
  chPath :: fpath
  chContents :: bytes
  chPrecondition :: Precondition
  chMode :: nat
  chSkipBackup :: bool

record Move =
  mvFrom :: fpath
  mvTo :: fpath
  mvPrecondition :: Precondition

record Removal =
  rmPath :: fpath
  rmPrecondition :: Precondition
  rmBackup :: bool

record Request =
  rqOperation :: gostring
  rqDirectories :: "fpath list"
  rqChanges :: "Change list"
  rqMoves :: "Move list"
  rqRemovals :: "Removal list"
  rqRemoveDirectories :: "fpath list"
  rqFinalChanges :: "Change list"

record commitMode =
  cmRollbackOnError :: bool
  cmDiscardBackups :: bool

text \<open>What the manager is given: the validation of the callers and the shape of the documents.\<close>

record Manager_env =
  meStorage :: Storage
  meValidate :: "Request \<Rightarrow> bool"
  meRecordBytes :: "journalRecord \<Rightarrow> int"
  meFormatTime :: "int \<Rightarrow> gostring"

fun ParentDirectoryCreates :: "fpath \<Rightarrow> fpath list \<Rightarrow> fpath list \<Rightarrow> fpath list" where
  "ParentDirectoryCreates root seen [] = []"
| "ParentDirectoryCreates root seen (p # ps) =
     (if butlast p = root \<or> butlast p \<in> set seen then ParentDirectoryCreates root seen ps
      else butlast p # ParentDirectoryCreates root (butlast p # seen) ps)"

definition hasChangeWithoutBackup :: "Request \<Rightarrow> bool" where
  "hasChangeWithoutBackup r \<longleftrightarrow> list_ex chSkipBackup (rqChanges r) \<or> list_ex chSkipBackup (rqFinalChanges r)"

definition validateAtomicRequest :: "Request \<Rightarrow> store_failure option" where
  "validateAtomicRequest r =
     (if rqOperation r = [] then Some ErrInvalidOperation
      else if list_ex (\<lambda>m. \<not> rmBackup m) (rqRemovals r) then Some ErrIrreversibleRemoval
      else if hasChangeWithoutBackup r then Some ErrIrreversibleChange
      else None)"

definition validateDiscardBackupsRequest :: "Request \<Rightarrow> store_failure option" where
  "validateDiscardBackupsRequest r =
     (if rqOperation r = [] then Some ErrInvalidOperation
      else if rqDirectories r \<noteq> [] \<or> rqMoves r \<noteq> [] \<or> rqRemovals r \<noteq> [] \<or> rqRemoveDirectories r \<noteq> [] \<or> hasChangeWithoutBackup r
      then Some ErrAtomicWriteOnly
      else None)"

definition request_size :: "Request \<Rightarrow> nat" where
  "request_size r = length (rqChanges r) + length (rqFinalChanges r) + length (rqMoves r) + length (rqRemovals r) +
     length (rqDirectories r) + length (rqRemoveDirectories r)"

definition validateRequestShape :: "Request \<Rightarrow> store_failure option" where
  "validateRequestShape r =
     (if rqOperation r = [] then Some ErrInvalidOperation else if request_size r = 0 then Some ErrNoChanges else None)"

section \<open>The plan\<close>

text \<open>An entry with the contents to stage and the contents before it.\<close>

type_synonym planned_entry = "journalEntry \<times> bytes \<times> bytes"

record commitBuilder =
  cbPlan :: "planned_entry list"
  cbWritten :: "fpath list"
  cbClaimed :: claimedPaths

definition empty_entry :: "action \<Rightarrow> fpath \<Rightarrow> journalEntry" where
  "empty_entry a p = \<lparr>jeAction = a, jePath = p, jeTarget = None, jeTemp = None, jeBackup = None, jeNoBackup = False,
     jeHadPrevious = False, jeMode = 0, jePreviousMode = 0, jeDigest = [], jePreviousDigest = []\<rparr>"

definition plan_add :: "planned_entry \<Rightarrow> commitBuilder \<Rightarrow> commitBuilder" where
  "plan_add e b = b\<lparr>cbPlan := cbPlan b @ [e]\<rparr>"

definition builder_claim :: "fpath \<Rightarrow> commitBuilder \<Rightarrow> commitBuilder act" where
  "builder_claim p b = (case claim p (cbClaimed b) of None \<Rightarrow> failing ErrDuplicatePath | Some c \<Rightarrow> ret (b\<lparr>cbClaimed := c\<rparr>))"

text \<open>A loop that carries the builder.\<close>

fun each_with :: "('a \<Rightarrow> 'b \<Rightarrow> 'b act) \<Rightarrow> 'a list \<Rightarrow> 'b \<Rightarrow> 'b act" where
  "each_with f [] b = ret b"
| "each_with f (x # xs) b = chain (f x b) (each_with f xs)"

text \<open>The digest and the mode of a file that is moved or removed.\<close>

definition sourceState :: "Storage \<Rightarrow> fpath \<Rightarrow> Precondition \<Rightarrow> (gostring \<times> nat) act" where
  "sourceState st p pre = chain (currentState st p) (\<lambda>current. case current of
      None \<Rightarrow> failing ErrMissingSource
    | Some (contents, mode) \<Rightarrow>
        (let digest = stDigest st contents; expected = (if pcExists pre then pcDigest pre else []) in
         if digest \<noteq> expected then failing (ErrConflict p)
         else if pcMode pre \<noteq> 0 \<and> \<not> ownerModesMatch st mode (pcMode pre) then failing (ErrConflict p)
         else ret (digest, mode)))"

definition stageDirectory :: "Storage \<Rightarrow> fpath \<Rightarrow> commitBuilder \<Rightarrow> commitBuilder act" where
  "stageDirectory st p b = chain (ResolveDirectory st p) (\<lambda>target. chain (builder_claim target b) (\<lambda>b.
     chain (Lstat target) (\<lambda>info.
       ret (plan_add ((empty_entry actionMakeDir target)\<lparr>jeHadPrevious := info \<noteq> None, jeMode := DirectoryPermission\<rparr>, [], []) b))))"

definition change_entry :: "Storage \<Rightarrow> Change \<Rightarrow> fpath \<Rightarrow> (bytes \<times> nat) option \<Rightarrow> nat \<Rightarrow> planned_entry" where
  "change_entry st ch target current targetMode =
     (let e = (empty_entry actionWrite target)\<lparr>jeNoBackup := chSkipBackup ch, jeHadPrevious := current \<noteq> None,
            jeMode := targetMode, jeDigest := stDigest st (chContents ch)\<rparr> in
      case current of
        None \<Rightarrow> (e, chContents ch, [])
      | Some (previous, mode) \<Rightarrow>
          (e\<lparr>jePreviousDigest := stDigest st previous, jePreviousMode := mode\<rparr>, chContents ch, previous))"

definition stageChange :: "Storage \<Rightarrow> (fpath \<Rightarrow> bool) \<Rightarrow> Change \<Rightarrow> commitBuilder \<Rightarrow> commitBuilder act" where
  "stageChange st planned ch b =
     chain (ResolveForWriteUnder st (chPath ch) planned) (\<lambda>target. chain (builder_claim target b) (\<lambda>b.
     if int (length (chContents ch)) > TransactionFileLimit st target then failing ErrFileTooLarge
     else chain (currentState st target) (\<lambda>current.
       (let actual = (case current of None \<Rightarrow> [] | Some (previous, _) \<Rightarrow> stDigest st previous);
            expected = (if pcExists (chPrecondition ch) then pcDigest (chPrecondition ch) else []);
            wanted = pcMode (chPrecondition ch) in
        if actual \<noteq> expected then failing (ErrConflict target)
        else if wanted \<noteq> 0 \<and> (case current of None \<Rightarrow> True | Some (_, mode) \<Rightarrow> \<not> ownerModesMatch st mode wanted)
        then failing (ErrConflict target)
        else if chMode ch \<noteq> 0 \<and> chMode ch \<noteq> FilePermission \<and> chMode ch \<noteq> DirectoryPermission then failing ErrInvalidJournal
        else
          (let targetMode = (if chMode ch \<noteq> 0 then chMode ch else (case current of None \<Rightarrow> FilePermission | Some (_, mode) \<Rightarrow> mode)) in
           ret ((plan_add (change_entry st ch target current targetMode) b)\<lparr>cbWritten := cbWritten b @ [target]\<rparr>))))))"

definition stageMove :: "Storage \<Rightarrow> (fpath \<Rightarrow> bool) \<Rightarrow> Move \<Rightarrow> commitBuilder \<Rightarrow> commitBuilder act" where
  "stageMove st planned mv b =
     chain (ResolveForWrite st (mvFrom mv)) (\<lambda>source. chain (ResolveForWriteUnder st (mvTo mv) planned) (\<lambda>target.
     chain (builder_claim source b) (\<lambda>b. chain (builder_claim target b) (\<lambda>b. chain (Lstat target) (\<lambda>info.
       if info \<noteq> None then failing ErrMoveTargetExists
       else chain (sourceState st source (mvPrecondition mv)) (\<lambda>(digest, mode).
         ret ((plan_add ((empty_entry actionMove source)\<lparr>jeTarget := Some target, jeHadPrevious := True, jeMode := mode,
                 jeDigest := digest, jePreviousDigest := digest\<rparr>, [], []) b)\<lparr>cbWritten := cbWritten b @ [target]\<rparr>)))))))"

definition stageRemoval :: "Storage \<Rightarrow> Removal \<Rightarrow> commitBuilder \<Rightarrow> commitBuilder act" where
  "stageRemoval st rm b =
     chain (ResolveForWrite st (rmPath rm)) (\<lambda>target. chain (builder_claim target b) (\<lambda>b.
     chain (sourceState st target (rmPrecondition rm)) (\<lambda>(digest, mode).
     chain (if rmBackup rm then ReadTransactionFile st target else ret []) (\<lambda>previous.
       ret ((plan_add ((empty_entry actionRemove target)\<lparr>jeNoBackup := \<not> rmBackup rm, jeHadPrevious := True, jeMode := mode,
               jeDigest := digest, jePreviousDigest := digest\<rparr>, [], previous) b)\<lparr>cbWritten := cbWritten b @ [target]\<rparr>)))))"

definition stageDirectoryRemoval :: "Storage \<Rightarrow> fpath \<Rightarrow> commitBuilder \<Rightarrow> commitBuilder act" where
  "stageDirectoryRemoval st p b =
     chain (ResolveDirectory st p) (\<lambda>target. chain (builder_claim target b) (\<lambda>b. chain (Lstat target) (\<lambda>info.
       case info of
         None \<Rightarrow> ret b
       | Some (Directory mode) \<Rightarrow> chain (ReadDir target) (\<lambda>children.
           if list_ex (\<lambda>name. target @ [name] \<notin> set (cbClaimed b)) (case children of None \<Rightarrow> [] | Some names \<Rightarrow> names)
           then failing ErrDirectoryNotEmpty
           else ret (plan_add ((empty_entry actionRemoveDir target)\<lparr>jeHadPrevious := True, jeMode := mode\<rparr>, [], []) b))
       | Some _ \<Rightarrow> failing ErrNotDirectory)))"

text \<open>The deepest directories first; the sort is stable.\<close>

fun insert_deeper :: "fpath \<Rightarrow> fpath list \<Rightarrow> fpath list" where
  "insert_deeper p [] = [p]"
| "insert_deeper p (q # qs) = (if length p \<ge> length q then p # q # qs else q # insert_deeper p qs)"

definition deepest_first :: "fpath list \<Rightarrow> fpath list" where "deepest_first ps = foldr insert_deeper ps []"

definition is_planned :: "Storage \<Rightarrow> fpath list \<Rightarrow> fpath \<Rightarrow> bool" where
  "is_planned st directories p \<longleftrightarrow> Contains (stRoot st) p \<and> p \<noteq> stRoot st \<and> list_ex (\<lambda>d. Contains p d) directories"

fun resolve_directories :: "Storage \<Rightarrow> fpath list \<Rightarrow> unit act" where
  "resolve_directories st [] = ret ()"
| "resolve_directories st (p # ps) = chain (ResolveDirectory st p) (\<lambda>_. resolve_directories st ps)"

definition stage :: "Storage \<Rightarrow> Request \<Rightarrow> commitBuilder act" where
  "stage st r =
     (let planned = is_planned st (rqDirectories r) in
      chain (each_with (stageDirectory st) (rqDirectories r) \<lparr>cbPlan = [], cbWritten = [], cbClaimed = []\<rparr>) (\<lambda>b.
      chain (each_with (stageChange st planned) (rqChanges r) b) (\<lambda>b.
      chain (each_with (stageMove st planned) (rqMoves r) b) (\<lambda>b.
      chain (each_with (stageRemoval st) (rqRemovals r) b) (\<lambda>b.
      chain (each_with (stageDirectoryRemoval st) (deepest_first (rqRemoveDirectories r)) b) (\<lambda>b.
      each_with (stageChange st planned) (rqFinalChanges r) b))))))"

definition planCommit :: "Storage \<Rightarrow> Request \<Rightarrow> commitBuilder act" where
  "planCommit st r =
     (if request_size r > maxTransactionEntries then failing ErrTransactionTooLarge
      else chain (resolve_directories st (rqDirectories r)) (\<lambda>_. stage st r))"

section \<open>Applying the entries\<close>

definition isPrivateStatePath :: "Storage \<Rightarrow> fpath \<Rightarrow> bool" where "isPrivateStatePath st p \<longleftrightarrow> Contains (StateDir st) p"

definition moveFile :: "Storage \<Rightarrow> fpath \<Rightarrow> fpath \<Rightarrow> unit act" where
  "moveFile st old_path new_path =
     (if isPrivateStatePath st old_path \<or> isPrivateStatePath st new_path then MovePrivate old_path new_path else Rename old_path new_path)"

definition set_committed :: "nat \<Rightarrow> unit act" where "set_committed n = update_record (\<lambda>r. r\<lparr>jrCommitted := n\<rparr>)"

text \<open>The entry takes effect, the progress is counted, the directories are flushed.\<close>

definition apply_entry :: "Storage \<Rightarrow> journalEntry \<Rightarrow> unit act" where
  "apply_entry st e = (case jeAction e of
      actionMove \<Rightarrow> moveFile st (jePath e) (case jeTarget e of Some t \<Rightarrow> t | None \<Rightarrow> [])
    | actionRemove \<Rightarrow> Remove (jePath e)
    | actionMakeDir \<Rightarrow> EnsureDirectory st (jePath e)
    | actionRemoveDir \<Rightarrow> ignoring_missing (Remove (jePath e))
    | _ \<Rightarrow> Rename (case jeTemp e of Some t \<Rightarrow> t | None \<Rightarrow> []) (jePath e))"

definition flush_entry :: "journalEntry \<Rightarrow> unit act" where
  "flush_entry e = (case (jeAction e, jeTarget e) of
      (actionMove, Some t) \<Rightarrow> chain (SyncDir (butlast (jePath e))) (\<lambda>_. SyncDir (butlast t))
    | _ \<Rightarrow> SyncDir (butlast (jePath e)))"

definition forget_temp :: "journalEntry \<Rightarrow> nat \<Rightarrow> unit act" where
  "forget_temp e i = (if jeAction e \<in> {actionWrite, actionNote} then update_entry i (\<lambda>e. e\<lparr>jeTemp := None\<rparr>) else ret ())"

definition commit_entry :: "Storage \<Rightarrow> nat \<Rightarrow> unit act" where
  "commit_entry st i = chain (get_entry i) (\<lambda>e.
     chain (apply_entry st e) (\<lambda>_. chain (forget_temp e i) (\<lambda>_. chain (set_committed (i + 1)) (\<lambda>_. flush_entry e))))"

definition commitStaged :: "Storage \<Rightarrow> unit act" where
  "commitStaged st = chain (get wdRecord) (\<lambda>r. each (commit_entry st) [jrCommitted r..<length (jrEntries r)])"

section \<open>Rolling back\<close>

definition previousReader :: "Storage \<Rightarrow> journalRecord \<Rightarrow> fpath option \<Rightarrow> bytes act" where
  "previousReader st r backup = (case backup of
      None \<Rightarrow> failing ErrInvalidJournal
    | Some p \<Rightarrow> (if jrDiscardBackups r then ReadBackupFile st (jrID r) p else ReadBackup st (jrID r) p))"

definition writeFile :: "fpath \<Rightarrow> bytes \<Rightarrow> nat \<Rightarrow> unit act" where
  "writeFile p contents permission = WriteAtomicFile p temporaryPrefix permission contents"

definition rollbackMove :: "Storage \<Rightarrow> journalEntry \<Rightarrow> unit act" where
  "rollbackMove st e = (let target = (case jeTarget e of Some t \<Rightarrow> t | None \<Rightarrow> []) in
     chain (moveFile st target (jePath e)) (\<lambda>_. chain (SyncDir (butlast target)) (\<lambda>_. SyncDir (butlast (jePath e)))))"

definition rollbackMakeDirectory :: "journalEntry \<Rightarrow> unit act" where
  "rollbackMakeDirectory e =
     (if jeHadPrevious e then ret ()
      else chain (ReadDir (jePath e)) (\<lambda>children. case children of
          None \<Rightarrow> ret ()
        | Some names \<Rightarrow>
            (if names \<noteq> [] then ret ()
             else chain (ignoring_missing (Remove (jePath e))) (\<lambda>_. SyncDir (butlast (jePath e))))))"

definition rollbackRemoveDirectory :: "Storage \<Rightarrow> journalEntry \<Rightarrow> unit act" where
  "rollbackRemoveDirectory st e = chain (EnsureDirectory st (jePath e)) (\<lambda>_. SyncDir (butlast (jePath e)))"

definition restorePrevious :: "Storage \<Rightarrow> journalRecord \<Rightarrow> journalEntry \<Rightarrow> unit act" where
  "restorePrevious st r e =
     (if noOpWrite e \<and> jeBackup e = None then ret ()
      else if sameContentsWrite e \<and> jeBackup e = None then
        chain (ReadTransactionFile st (jePath e)) (\<lambda>contents. writeFile (jePath e) contents (jePreviousMode e))
      else chain (previousReader st r (jeBackup e)) (\<lambda>contents.
        writeFile (jePath e) contents (if jeAction e = actionWrite then jePreviousMode e else jeMode e)))"

definition removeCreatedFile :: "journalEntry \<Rightarrow> unit act" where
  "removeCreatedFile e = chain (ignoring_missing (Remove (jePath e))) (\<lambda>_. SyncDir (butlast (jePath e)))"

definition rollbackEntry :: "Storage \<Rightarrow> journalRecord \<Rightarrow> journalEntry \<Rightarrow> unit act" where
  "rollbackEntry st r e =
     (if jeAction e = actionMove then rollbackMove st e
      else if jeAction e = actionMakeDir then rollbackMakeDirectory e
      else if jeAction e = actionRemoveDir then rollbackRemoveDirectory st e
      else if jeHadPrevious e then restorePrevious st r e
      else removeCreatedFile e)"

fun first_irreversible :: "journalEntry list \<Rightarrow> store_failure option" where
  "first_irreversible [] = None"
| "first_irreversible (e # es) = (case checkReversible e of Some x \<Rightarrow> Some x | None \<Rightarrow> first_irreversible es)"

definition or_fail :: "store_failure option \<Rightarrow> unit act" where
  "or_fail e = (case e of None \<Rightarrow> ret () | Some x \<Rightarrow> failing x)"

definition rollbackRecord :: "Storage \<Rightarrow> (journalRecord \<Rightarrow> int) \<Rightarrow> unit act" where
  "rollbackRecord st record_bytes = chain (get wdRecord) (\<lambda>r.
     chain (or_fail (first_irreversible (take (jrCommitted r) (jrEntries r)))) (\<lambda>_.
     chain (each (rollbackEntry st r) (rev (take (jrCommitted r) (jrEntries r)))) (\<lambda>_.
     chain (set_committed 0) (\<lambda>_. finish record_bytes statusRolledBack))))"

section \<open>The run of one commit\<close>

definition begin_run :: "Manager_env \<Rightarrow> commitMode \<Rightarrow> gostring \<Rightarrow> journalEntry list \<Rightarrow> unit act" where
  "begin_run me mode op es =
     chain (newIdentifier (meFormatTime me)) (\<lambda>identifier.
     chain operation (\<lambda>_. chain operation (\<lambda>_. chain (get wdNow) (\<lambda>now.
     (let r = \<lparr>jrID = identifier, jrVersion = journalVersion, jrOperation = op, jrStatus = statusStaging, jrStartedAt = now,
               jrFinishedAt = None, jrCommitted = 0, jrAtomic = cmRollbackOnError mode, jrDiscardBackups = cmDiscardBackups mode,
               jrEntries = es\<rparr> in
      chain (update_record (\<lambda>_. r)) (\<lambda>_. writeRecord (meRecordBytes me) InJournal r))))))"

definition make_directory :: "Storage \<Rightarrow> nat \<Rightarrow> unit act" where
  "make_directory st i = chain (get_entry i) (\<lambda>e.
     if jeAction e \<noteq> actionMakeDir then ret ()
     else chain (EnsureDirectory st (jePath e)) (\<lambda>_. set_committed (i + 1)))"

definition makeDirectories :: "Storage \<Rightarrow> unit act" where
  "makeDirectories st = chain (get entry_indices) (each (make_directory st))"

definition sealed :: "Storage \<Rightarrow> commitMode \<Rightarrow> bytes \<Rightarrow> bytes act" where
  "sealed st mode contents = (case stSeal st of
      None \<Rightarrow> ret contents
    | Some seal \<Rightarrow> (if cmDiscardBackups mode then ret contents
                     else (case seal contents of None \<Rightarrow> failing ErrUnseal | Some s \<Rightarrow> ret s)))"

definition write_backup :: "Storage \<Rightarrow> commitMode \<Rightarrow> bytes list \<Rightarrow> nat \<Rightarrow> unit act" where
  "write_backup st mode previous i = chain (get_entry i) (\<lambda>e. chain (get wdRecord) (\<lambda>r.
     if jeAction e \<notin> {actionWrite, actionRemove} \<or> \<not> jeHadPrevious e \<or> jeNoBackup e then ret ()
     else (let p = backup_path st (jrID r) (jePath e);
               permission = (if jeAction e = actionWrite then jePreviousMode e else jeMode e) in
           chain operation (\<lambda>_. chain (sealed st mode (previous ! i)) (\<lambda>contents.
           chain (atomic_document (\<lambda>w. w\<lparr>wdBackups := AList.update p (RegularFile contents permission) (wdBackups w)\<rparr>)) (\<lambda>_.
             update_entry i (\<lambda>e. e\<lparr>jeBackup := Some p\<rparr>)))))))"

definition writeBackups :: "Storage \<Rightarrow> commitMode \<Rightarrow> bytes list \<Rightarrow> unit act" where
  "writeBackups st mode previous = chain (get entry_indices) (each (write_backup st mode previous))"

definition stage_write :: "bytes list \<Rightarrow> nat \<Rightarrow> unit act" where
  "stage_write staged i = chain (get_entry i) (\<lambda>e. chain (get wdRecord) (\<lambda>r.
     if jeAction e \<noteq> actionWrite then ret ()
     else chain (WriteTemp (butlast (jePath e)) (temp_prefix (jrID r)) (jeMode e) (staged ! i)) (\<lambda>temp.
       update_entry i (\<lambda>e. e\<lparr>jeTemp := Some temp\<rparr>))))"

definition stageWrites :: "bytes list \<Rightarrow> unit act" where
  "stageWrites staged = chain (get entry_indices) (each (stage_write staged))"

definition set_status :: "record_status \<Rightarrow> unit act" where "set_status s = update_record (\<lambda>r. r\<lparr>jrStatus := s\<rparr>)"

definition write_current :: "Manager_env \<Rightarrow> unit act" where
  "write_current me = chain (get wdRecord) (writeRecord (meRecordBytes me) InJournal)"

definition markStaged :: "Manager_env \<Rightarrow> commitMode \<Rightarrow> unit act" where
  "markStaged me mode = chain (set_status statusStaged) (\<lambda>_. handle (write_current me)
     (\<lambda>e. chain (if cmRollbackOnError mode then ret () else set_status statusStaging) (\<lambda>_. failing e)))"

text \<open>What a failed commit does before it reports the failure.\<close>

definition quietly :: "unit act \<Rightarrow> unit act" where "quietly m = handle m (\<lambda>_. ret ())"

definition run_fail :: "Manager_env \<Rightarrow> commitMode \<Rightarrow> store_failure \<Rightarrow> unit act" where
  "run_fail me mode e = chain (get wdRecord) (\<lambda>r.
     if \<not> cmRollbackOnError mode then
       (if jrStatus r = statusStaging then chain (quietly removeStagedTemps) (\<lambda>_. failing e)
        else if jrStatus r = statusStaged then chain (quietly (write_current me)) (\<lambda>_. failing e)
        else failing e)
     else
       chain (if jrStatus r \<in> {statusCompleted, statusRolledBack, statusApplied}
              then update_record (\<lambda>r. r\<lparr>jrStatus := statusStaged, jrFinishedAt := None\<rparr>) else ret ()) (\<lambda>_.
       chain (quietly (write_current me)) (\<lambda>_.
       chain (quietly (rollbackRecord (meStorage me) (meRecordBytes me))) (\<lambda>_. failing e))))"

text \<open>\<open>publish\<close> hands the new contents to the memory of the process; it has no effect on the disk.\<close>

definition run_apply :: "Manager_env \<Rightarrow> commitMode \<Rightarrow> bytes list \<Rightarrow> bytes list \<Rightarrow> unit act" where
  "run_apply me mode staged previous =
     (let st = meStorage me in
      chain (handle
        (chain (makeDirectories st) (\<lambda>_. chain (writeBackups st mode previous) (\<lambda>_. chain (stageWrites staged) (\<lambda>_.
         chain (markStaged me mode) (\<lambda>_. commitStaged st)))))
        (run_fail me mode))
      (\<lambda>_. if cmDiscardBackups mode then
             chain (handle (chain (set_status statusApplied) (\<lambda>_. write_current me)) (run_fail me mode))
               (\<lambda>_. quietly (finishApplied (meRecordBytes me)))
           else handle (finish (meRecordBytes me) statusCompleted) (run_fail me mode)))"

definition lockMutation :: "Storage \<Rightarrow> unit act" where
  "lockMutation st = chain (EnsureDirectory st (StateDir st)) (\<lambda>_. operation)"

definition commitBuilt :: "Manager_env \<Rightarrow> Request act \<Rightarrow> commitMode \<Rightarrow> unit act" where
  "commitBuilt me build mode =
     chain (lockMutation (meStorage me)) (\<lambda>_.
     chain (ensureNoPendingTransaction (meStorage me)) (\<lambda>_.
     chain build (\<lambda>request.
     chain (or_fail (validateRequestShape request)) (\<lambda>_.
     chain (planCommit (meStorage me) request) (\<lambda>b.
     chain (unless_fails (meValidate me request) ErrValidation) (\<lambda>_.
     chain (begin_run me mode (rqOperation request) (map fst (cbPlan b))) (\<lambda>_.
       run_apply me mode (map (\<lambda>(_, s, _). s) (cbPlan b)) (map (\<lambda>(_, _, p). p) (cbPlan b)))))))))"

definition commit_request :: "Manager_env \<Rightarrow> Request \<Rightarrow> commitMode \<Rightarrow> unit act" where
  "commit_request me request mode =
     chain (or_fail (validateRequestShape request)) (\<lambda>_. commitBuilt me (ret request) mode)"

definition Commit :: "Manager_env \<Rightarrow> Request \<Rightarrow> unit act" where
  "Commit me request = commit_request me request \<lparr>cmRollbackOnError = False, cmDiscardBackups = False\<rparr>"

definition CommitAtomic :: "Manager_env \<Rightarrow> Request \<Rightarrow> unit act" where
  "CommitAtomic me request = chain (or_fail (validateAtomicRequest request)) (\<lambda>_.
     commit_request me request \<lparr>cmRollbackOnError = True, cmDiscardBackups = False\<rparr>)"

definition CommitAtomicDiscardBackups :: "Manager_env \<Rightarrow> Request \<Rightarrow> unit act" where
  "CommitAtomicDiscardBackups me request = chain (or_fail (validateDiscardBackupsRequest request)) (\<lambda>_.
     commit_request me request \<lparr>cmRollbackOnError = True, cmDiscardBackups = True\<rparr>)"

definition CommitAtomicDiscardBackupsAndPublish :: "Manager_env \<Rightarrow> Request act \<Rightarrow> unit act" where
  "CommitAtomicDiscardBackupsAndPublish me build =
     commitBuilt me (chain build (\<lambda>r. chain (or_fail (validateDiscardBackupsRequest r)) (\<lambda>_. ret r)))
       \<lparr>cmRollbackOnError = True, cmDiscardBackups = True\<rparr>"

definition WithSnapshot :: "Storage \<Rightarrow> unit act \<Rightarrow> unit act" where
  "WithSnapshot st snapshot = chain (lockMutation st) (\<lambda>_. chain (ensureNoPendingTransaction st) (\<lambda>_. snapshot))"

end
