(* ===== verification/StoreRecovery.thy ===== *)
theory StoreRecovery
  imports StoreCommit
begin

text \<open>
  Recovery of an interrupted transaction (internal/storage/recovery.go, pending_contents.go): what the disk
  says about each entry, how far the transaction got, and completing it or rolling it back.
\<close>

section \<open>What the disk says\<close>

datatype entryEvidence = evidenceUnapplied | evidenceApplied | evidenceNone

definition appliedWhen :: "bool \<Rightarrow> entryEvidence" where
  "appliedWhen applied = (if applied then evidenceApplied else evidenceUnapplied)"

definition directoryPresent :: "fpath \<Rightarrow> bool act" where
  "directoryPresent p = chain (Lstat p) (\<lambda>info. case info of
      None \<Rightarrow> ret False
    | Some (Directory _) \<Rightarrow> ret True
    | Some _ \<Rightarrow> failing ErrRecoveryStateUnknown)"

text \<open>The digest and the owner's mode of a file that exists.\<close>

definition targetFileState :: "Storage \<Rightarrow> fpath \<Rightarrow> (gostring \<times> nat) option act" where
  "targetFileState st p = chain (currentState st p) (\<lambda>current. ret (map_option (\<lambda>(contents, mode). (stDigest st contents, mode)) current))"

definition targetDigest :: "Storage \<Rightarrow> fpath \<Rightarrow> gostring option act" where
  "targetDigest st p = chain (targetFileState st p) (\<lambda>state. ret (map_option fst state))"

definition writeEvidence :: "Storage \<Rightarrow> journalEntry \<Rightarrow> (gostring \<times> nat) option \<Rightarrow> entryEvidence option" where
  "writeEvidence st e state = (case state of
      None \<Rightarrow> (if \<not> jeHadPrevious e then Some evidenceUnapplied else None)
    | Some (digest, mode) \<Rightarrow>
        (if digest = jeDigest e \<and> ownerModesMatch st mode (jeMode e) then Some evidenceApplied
         else if jeHadPrevious e \<and> digest = jePreviousDigest e \<and> ownerModesMatch st mode (jePreviousMode e) then Some evidenceUnapplied
         else None))"

definition moveEvidence :: "journalEntry \<Rightarrow> gostring option \<Rightarrow> gostring option \<Rightarrow> entryEvidence option" where
  "moveEvidence e source target =
     (if source = None \<and> target = Some (jeDigest e) then Some evidenceApplied
      else if target = None \<and> source = Some (jeDigest e) then Some evidenceUnapplied
      else None)"

definition removeEvidence :: "journalEntry \<Rightarrow> gostring option \<Rightarrow> entryEvidence option" where
  "removeEvidence e state =
     (case state of None \<Rightarrow> Some evidenceApplied
      | Some digest \<Rightarrow> (if digest = jeDigest e then Some evidenceUnapplied else None))"

definition known :: "entryEvidence option \<Rightarrow> entryEvidence act" where
  "known evidence = (case evidence of None \<Rightarrow> failing ErrRecoveryStateUnknown | Some x \<Rightarrow> ret x)"

definition entryEvidence_of :: "Storage \<Rightarrow> journalEntry \<Rightarrow> entryEvidence act" where
  "entryEvidence_of st e = (case jeAction e of
      actionMakeDir \<Rightarrow>
        (if jeHadPrevious e then ret evidenceNone
         else chain (directoryPresent (jePath e)) (\<lambda>present. ret (appliedWhen present)))
    | actionRemoveDir \<Rightarrow> chain (directoryPresent (jePath e)) (\<lambda>present. ret (appliedWhen (\<not> present)))
    | actionWrite \<Rightarrow>
        (if sameContentsWrite e \<and> ownerModesMatch st (jeMode e) (jePreviousMode e) then ret evidenceNone
         else chain (targetFileState st (jePath e)) (\<lambda>state. known (writeEvidence st e state)))
    | actionMove \<Rightarrow>
        chain (targetDigest st (jePath e)) (\<lambda>source.
        chain (targetDigest st (case jeTarget e of Some t \<Rightarrow> t | None \<Rightarrow> [])) (\<lambda>target. known (moveEvidence e source target)))
    | actionRemove \<Rightarrow> chain (targetDigest st (jePath e)) (\<lambda>state. known (removeEvidence e state))
    | actionNote \<Rightarrow> failing ErrInvalidJournal)"

fun evidence_list :: "Storage \<Rightarrow> journalEntry list \<Rightarrow> entryEvidence list act" where
  "evidence_list st [] = ret []"
| "evidence_list st (e # es) = chain (entryEvidence_of st e) (\<lambda>x. chain (evidence_list st es) (\<lambda>xs. ret (x # xs)))"

text \<open>One past the last applied entry, and the first that is not.\<close>

definition lowest_of :: "entryEvidence list \<Rightarrow> nat" where
  "lowest_of xs = fold (\<lambda>i low. if xs ! i = evidenceApplied \<and> i + 1 > low then i + 1 else low) [0..<length xs] 0"

definition highest_of :: "entryEvidence list \<Rightarrow> nat" where
  "highest_of xs = fold (\<lambda>i high. if xs ! i = evidenceUnapplied \<and> i < high then i else high) [0..<length xs] (length xs)"

text \<open>Whether the record changed, and the record.\<close>

definition reconcile_progress :: "Storage \<Rightarrow> bool \<Rightarrow> journalRecord \<Rightarrow> (bool \<times> journalRecord) act" where
  "reconcile_progress st statusChanged r =
     (if \<not> jrAtomic r \<and> jrStatus r \<noteq> statusStaged then ret (False, r)
      else chain (evidence_list st (jrEntries r)) (\<lambda>xs.
        if lowest_of xs > highest_of xs then failing ErrRecoveryStateUnknown
        else ret (statusChanged \<or> jrCommitted r \<noteq> highest_of xs, r\<lparr>jrCommitted := highest_of xs\<rparr>)))"

text \<open>A record that says it was applied goes back to staged if the disk says otherwise.\<close>

definition reconcile_status :: "Storage \<Rightarrow> journalRecord \<Rightarrow> (bool \<times> journalRecord) act" where
  "reconcile_status st r =
     (if jrStatus r \<noteq> statusApplied then ret (False, r)
      else chain (evidence_list st (jrEntries r)) (\<lambda>xs.
        ret (if evidenceUnapplied \<notin> set xs then (False, r) else (True, r\<lparr>jrStatus := statusStaged\<rparr>))))"

definition reconcile_rest :: "Storage \<Rightarrow> bool \<times> journalRecord \<Rightarrow> (bool \<times> journalRecord) act" where
  "reconcile_rest st x = (case x of (statusChanged, r) \<Rightarrow>
     if jrStatus r = statusApplied then ret (False, r) else reconcile_progress st statusChanged r)"

definition reconcileRecord :: "Storage \<Rightarrow> journalRecord \<Rightarrow> (bool \<times> journalRecord) act" where
  "reconcileRecord st r =
     (if jrStatus r \<in> {statusCompleted, statusRolledBack} then ret (False, r)
      else chain (reconcile_status st r) (reconcile_rest st))"

section \<open>Loading a pending record\<close>

definition readPendingRecord :: "Storage \<Rightarrow> gostring \<Rightarrow> journalRecord act" where
  "readPendingRecord st identifier =
     (if \<not> validJournalIdentifier identifier then failing ErrUnknownTransaction
      else chain operation (\<lambda>_. chain (get (\<lambda>w. map_of (wdJournal w) identifier)) (\<lambda>found. case found of
          None \<Rightarrow> failing ErrUnknownTransaction
        | Some r \<Rightarrow> (if validateLoadedJournalRecord st r identifier InJournal then ret r else failing ErrInvalidJournal))))"

text \<open>The record goes into the memory of the process.\<close>

definition loadPending :: "Storage \<Rightarrow> (journalRecord \<Rightarrow> int) \<Rightarrow> gostring \<Rightarrow> unit act" where
  "loadPending st record_bytes identifier =
     chain (readPendingRecord st identifier) (\<lambda>r. chain (reconcileRecord st r) (\<lambda>(changed, r).
     chain (if changed then
              (if validateLoadedJournalRecord st r identifier InJournal then writeRecord record_bytes InJournal r else failing ErrInvalidJournal)
            else ret ()) (\<lambda>_. update_record (\<lambda>_. r))))"

definition stagedMatches :: "Storage \<Rightarrow> journalEntry \<Rightarrow> bool act" where
  "stagedMatches st e = (case jeTemp e of
      None \<Rightarrow> ret False
    | Some temp \<Rightarrow> handle (chain (Lstat temp) (\<lambda>info. case info of
          Some (RegularFile _ mode) \<Rightarrow>
            (if \<not> ownerModesMatch st mode (jeMode e) then ret False
             else chain operation (\<lambda>_. chain (get (node_at temp)) (\<lambda>n. case n of
               Some (RegularFile contents _) \<Rightarrow>
                 ret (int (length contents) \<le> TransactionFileLimit st (jePath e) \<and> stDigest st contents = jeDigest e)
             | _ \<Rightarrow> ret False)))
        | _ \<Rightarrow> ret False)) (\<lambda>_. ret False))"

section \<open>Completing and rolling back\<close>

definition check_staged :: "Storage \<Rightarrow> nat \<Rightarrow> unit act" where
  "check_staged st i = chain (get_entry i) (\<lambda>e.
     if jeAction e \<noteq> actionWrite then ret ()
     else chain (stagedMatches st e) (\<lambda>ok. unless_fails ok ErrCannotComplete))"

definition complete :: "Storage \<Rightarrow> (journalRecord \<Rightarrow> int) \<Rightarrow> gostring \<Rightarrow> unit act" where
  "complete st record_bytes identifier =
     chain (lockMutation st) (\<lambda>_. chain (loadPending st record_bytes identifier) (\<lambda>_. chain (get wdRecord) (\<lambda>r.
       if jrStatus r = statusApplied \<and> jrDiscardBackups r then finishApplied record_bytes
       else if jrAtomic r \<or> jrStatus r \<noteq> statusStaged then failing ErrCannotComplete
       else chain (each (check_staged st) [jrCommitted r..<length (jrEntries r)]) (\<lambda>_.
         chain (commitStaged st) (\<lambda>_. finish record_bytes statusCompleted)))))"

definition rollback :: "Storage \<Rightarrow> (journalRecord \<Rightarrow> int) \<Rightarrow> gostring \<Rightarrow> unit act" where
  "rollback st record_bytes identifier =
     chain (lockMutation st) (\<lambda>_. chain (loadPending st record_bytes identifier) (\<lambda>_. chain (get wdRecord) (\<lambda>r.
       if jrStatus r = statusApplied then failing ErrCannotRollback
       else rollbackRecord st record_bytes)))"

section \<open>What is shown of an interrupted transaction\<close>

record PendingEntry =
  peEntry :: journalEntry
  peCommitted :: bool
  peHasBackup :: bool
  peHasStaged :: bool

record Pending_item =
  piRecord :: journalRecord
  piEntries :: "PendingEntry list"
  piCanComplete :: bool
  piCanRollback :: bool

text \<open>The entry, and whether completing and rolling back are still possible behind it.\<close>

definition pending_entry :: "Storage \<Rightarrow> journalRecord \<Rightarrow> nat \<Rightarrow> Pending_item \<Rightarrow> Pending_item act" where
  "pending_entry st r i item =
     (let e = jrEntries r ! i; committed = i < jrCommitted r in
      chain (if \<not> committed \<and> jeAction e = actionWrite then stagedMatches st e else ret False) (\<lambda>staged.
        ret (item\<lparr>piEntries := piEntries item @ [\<lparr>peEntry = e, peCommitted = committed, peHasBackup = jeBackup e \<noteq> None, peHasStaged = staged\<rparr>],
          piCanRollback := piCanRollback item \<and> \<not> (committed \<and> checkReversible e \<noteq> None),
          piCanComplete := piCanComplete item \<and> \<not> (\<not> committed \<and> jeAction e = actionWrite \<and> \<not> staged)\<rparr>)))"

text \<open>A failed reconciliation leaves the record as far as it got.\<close>

definition reconcile_shown :: "Storage \<Rightarrow> journalRecord \<Rightarrow> (bool \<times> journalRecord) act" where
  "reconcile_shown st r0 =
     (if jrStatus r0 \<in> {statusCompleted, statusRolledBack} then ret (False, r0)
      else handle
        (chain (reconcile_status st r0) (\<lambda>x.
           handle (chain (reconcile_rest st x) (\<lambda>(_, r). ret (False, r))) (\<lambda>_. ret (True, snd x))))
        (\<lambda>_. ret (True, r0)))"

definition pendingItem :: "Storage \<Rightarrow> journalRecord \<Rightarrow> Pending_item act" where
  "pendingItem st r0 =
     chain (reconcile_shown st r0) (\<lambda>(unresolved, r).
       each_with (pending_entry st r) [0..<length (jrEntries r)]
         \<lparr>piRecord = r, piEntries = [],
          piCanComplete = (\<not> unresolved \<and> ((jrStatus r = statusStaged \<and> \<not> jrAtomic r) \<or> (jrStatus r = statusApplied \<and> jrDiscardBackups r))),
          piCanRollback = (\<not> unresolved \<and> jrStatus r \<noteq> statusApplied)\<rparr>)"

fun pending_items :: "Storage \<Rightarrow> journalRecord list \<Rightarrow> Pending_item list act" where
  "pending_items st [] = ret []"
| "pending_items st (r # rs) = chain (pendingItem st r) (\<lambda>x. chain (pending_items st rs) (\<lambda>xs. ret (x # xs)))"

definition Pending :: "Storage \<Rightarrow> Pending_item list act" where
  "Pending st = chain (readRecords st InJournal False) (pending_items st)"

section \<open>Both sides of an interrupted transaction\<close>

text \<open>Whether there is a file on this side, and its contents or why they could not be read.\<close>

record PendingSide =
  psExists :: bool
  psResult :: "store_failure + bytes"

record PendingContents =
  pnEntry :: journalEntry
  pnCommitted :: bool
  pnBefore :: PendingSide
  pnAfter :: PendingSide

definition no_side :: PendingSide where "no_side = \<lparr>psExists = False, psResult = Inr []\<rparr>"

definition side_of :: "bytes act \<Rightarrow> PendingSide act" where
  "side_of m = handle (chain m (\<lambda>contents. ret \<lparr>psExists = True, psResult = Inr contents\<rparr>))
     (\<lambda>e. ret \<lparr>psExists = True, psResult = Inl e\<rparr>)"

definition readSide :: "Storage \<Rightarrow> fpath \<Rightarrow> PendingSide act" where
  "readSide st p = side_of (ReadTransactionFile st p)"

definition beforeWrite :: "Storage \<Rightarrow> journalRecord \<Rightarrow> journalEntry \<Rightarrow> bool \<Rightarrow> PendingSide act" where
  "beforeWrite st r e committed =
     (if \<not> jeHadPrevious e then ret no_side
      else if \<not> committed then readSide st (jePath e)
      else if jeBackup e \<noteq> None then side_of (previousReader st r (jeBackup e))
      else if sameContentsWrite e then readSide st (jePath e)
      else side_of (failing ErrNoPreviousCopy))"

definition afterWrite :: "Storage \<Rightarrow> journalEntry \<Rightarrow> bool \<Rightarrow> PendingSide act" where
  "afterWrite st e committed =
     (if committed then readSide st (jePath e)
      else chain (stagedMatches st e) (\<lambda>ok.
        if \<not> ok then side_of (failing ErrCannotComplete)
        else readSide st (case jeTemp e of Some t \<Rightarrow> t | None \<Rightarrow> [])))"

definition beforeRemove :: "Storage \<Rightarrow> journalRecord \<Rightarrow> journalEntry \<Rightarrow> bool \<Rightarrow> PendingSide act" where
  "beforeRemove st r e committed =
     (if \<not> committed then readSide st (jePath e)
      else if jeBackup e = None then side_of (failing ErrNoPreviousCopy)
      else side_of (previousReader st r (jeBackup e)))"

definition pending_contents :: "Storage \<Rightarrow> journalRecord \<Rightarrow> nat \<Rightarrow> PendingContents act" where
  "pending_contents st r i =
     (let e = jrEntries r ! i; committed = i < jrCommitted r in
      chain (case jeAction e of
               actionWrite \<Rightarrow> beforeWrite st r e committed
             | actionRemove \<Rightarrow> beforeRemove st r e committed
             | _ \<Rightarrow> ret no_side) (\<lambda>before.
      chain (if jeAction e = actionWrite then afterWrite st e committed else ret no_side) (\<lambda>after.
        ret \<lparr>pnEntry = e, pnCommitted = committed, pnBefore = before, pnAfter = after\<rparr>)))"

definition PendingContents_of :: "Storage \<Rightarrow> gostring \<Rightarrow> PendingContents list act" where
  "PendingContents_of st identifier =
     chain (lockMutation st) (\<lambda>_. chain (readPendingRecord st identifier) (\<lambda>r.
     chain (reconcileRecord st r) (\<lambda>(_, r).
       each_with (\<lambda>i items. chain (pending_contents st r i) (\<lambda>item. ret (items @ [item]))) [0..<length (jrEntries r)] [])))"

end
