(* ===== verification/StoreLogic.thy ===== *)
theory StoreLogic
  imports StoreRecovery
begin

text \<open>
  How programs on the disk are proved: \<open>wp m Q R S w\<close> says what holds when \<open>m\<close>, started in \<open>w\<close>, is done,
  has failed, or was stopped. The rules are equations, so that a proof computes the condition of a
  program; only \<open>operation\<close> and the loops need a rule of their own. The second half is what the
  operations do to the files that a user sees.
\<close>

section \<open>Weakest preconditions\<close>

definition wp :: "'a act \<Rightarrow> ('a \<Rightarrow> World \<Rightarrow> bool) \<Rightarrow> (store_failure \<Rightarrow> World \<Rightarrow> bool) \<Rightarrow> (World \<Rightarrow> bool) \<Rightarrow> World \<Rightarrow> bool" where
  "wp m Q R S w = (case m w of (Done x, w') \<Rightarrow> Q x w' | (Failed e, w') \<Rightarrow> R e w' | (Stopped, w') \<Rightarrow> S w')"

lemma wp_ret [simp]: "wp (ret x) Q R S = Q x"
  by (rule ext) (simp add: wp_def ret_def)

lemma wp_failing [simp]: "wp (failing e) Q R S = R e"
  by (rule ext) (simp add: wp_def failing_def)

lemma wp_get [simp]: "wp (get f) Q R S = (\<lambda>w. Q (f w) w)"
  by (rule ext) (simp add: wp_def get_def)

lemma wp_modify [simp]: "wp (modify g) Q R S = (\<lambda>w. Q () (g w))"
  by (rule ext) (simp add: wp_def modify_def)

lemma wp_chain [simp]: "wp (chain m f) Q R S = wp m (\<lambda>x. wp (f x) Q R S) R S"
  by (rule ext) (simp add: wp_def chain_def split: completion.splits prod.splits)

lemma wp_handle [simp]: "wp (handle m h) Q R S = wp m Q (\<lambda>e. wp (h e) Q R S) S"
  by (rule ext) (simp add: wp_def handle_def split: completion.splits prod.splits)

lemma wp_unless_fails [simp]: "wp (unless_fails ok e) Q R S = (\<lambda>w. if ok then Q () w else R e w)"
  by (rule ext) (simp add: unless_fails_def)

lemma wp_if [simp]: "wp (if c then m else n) Q R S w = (if c then wp m Q R S w else wp n Q R S w)"
  by simp

lemma wp_mono:
  assumes "wp m Q' R' S' w"
    and "\<And>x w'. Q' x w' \<Longrightarrow> Q x w'" and "\<And>e w'. R' e w' \<Longrightarrow> R e w'" and "\<And>w'. S' w' \<Longrightarrow> S w'"
  shows "wp m Q R S w"
  using assms by (auto simp: wp_def split: completion.splits prod.splits)

lemma wp_conj:
  "wp m Q R S w \<Longrightarrow> wp m Q' R' S' w \<Longrightarrow> wp m (\<lambda>x w. Q x w \<and> Q' x w) (\<lambda>e w. R e w \<and> R' e w) (\<lambda>w. S w \<and> S' w) w"
  by (auto simp: wp_def split: completion.splits prod.splits)

text \<open>A loop with an invariant that says which elements are left.\<close>

lemma wp_each:
  assumes "I xs w"
    and "\<And>x ys w. I (x # ys) w \<Longrightarrow> wp (f x) (\<lambda>_ w'. I ys w') R S w"
    and "\<And>w. I [] w \<Longrightarrow> Q () w"
  shows "wp (each f xs) Q R S w"
  using assms(1)
proof (induction xs arbitrary: w)
  case Nil
  then show ?case using assms(3) by simp
next
  case (Cons x xs)
  show ?case using assms(2)[OF Cons.prems] Cons.IH by (auto intro: wp_mono)
qed

lemma wp_each_with:
  assumes "I xs b w"
    and "\<And>x ys b w. I (x # ys) b w \<Longrightarrow> wp (f x b) (\<lambda>b' w'. I ys b' w') R S w"
    and "\<And>b w. I [] b w \<Longrightarrow> Q b w"
  shows "wp (each_with f xs b) Q R S w"
  using assms(1)
proof (induction xs arbitrary: b w)
  case Nil
  then show ?case using assms(3) by simp
next
  case (Cons x xs)
  show ?case using assms(2)[OF Cons.prems] Cons.IH by (auto intro: wp_mono)
qed

section \<open>Operations\<close>

definition fails :: "World \<Rightarrow> nat" where "fails w = count_list (wdOutcomes w) Fails"

lemma wp_operation:
  assumes "\<And>os. (wdOutcomes w = [] \<Longrightarrow> os = []) \<Longrightarrow> count_list os Fails \<le> fails w \<Longrightarrow> Q () (w\<lparr>wdOutcomes := os\<rparr>)"
    and "\<And>os. wdOutcomes w \<noteq> [] \<Longrightarrow> count_list os Fails < fails w \<Longrightarrow> R ErrIO (w\<lparr>wdOutcomes := os\<rparr>)"
    and "\<And>os. wdOutcomes w \<noteq> [] \<Longrightarrow> count_list os Fails \<le> fails w \<Longrightarrow> S (w\<lparr>wdOutcomes := os\<rparr>)"
  shows "wp operation Q R S w"
proof (cases "wdOutcomes w")
  case Nil
  then have same: "w\<lparr>wdOutcomes := []\<rparr> = w" by (cases w) simp
  have "Q () (w\<lparr>wdOutcomes := []\<rparr>)" by (rule assms(1)) simp_all
  then have "Q () w" unfolding same .
  then show ?thesis using Nil by (simp add: wp_def operation_def)
next
  case (Cons o1 os)
  show ?thesis
  proof (cases o1)
    case Works
    then show ?thesis using assms(1)[of os] Cons by (simp add: wp_def operation_def fails_def)
  next
    case Fails
    then show ?thesis using assms(2)[of os] Cons by (simp add: wp_def operation_def fails_def)
  next
    case Stops
    then show ?thesis using assms(3)[of os] Cons by (simp add: wp_def operation_def fails_def)
  qed
qed

text \<open>Everything but the outcomes and the files, and the undisturbed world stays undisturbed.\<close>

definition keeps :: "World \<Rightarrow> World \<Rightarrow> bool" where
  "keeps w w' \<longleftrightarrow> wdJournal w' = wdJournal w \<and> wdHistory w' = wdHistory w \<and> wdBackups w' = wdBackups w \<and> wdRecord w' = wdRecord w \<and>
     wdRandom w' = wdRandom w \<and> wdNow w' = wdNow w \<and> fails w' \<le> fails w \<and> (wdOutcomes w = [] \<longrightarrow> wdOutcomes w' = [])"

lemma keeps_refl [simp]: "keeps w w"
  by (simp add: keeps_def)

lemma keeps_trans: "keeps u v \<Longrightarrow> keeps v w \<Longrightarrow> keeps u w"
  by (auto simp: keeps_def)

lemma keeps_outcomes: "count_list os Fails \<le> fails w \<Longrightarrow> (wdOutcomes w = [] \<Longrightarrow> os = []) \<Longrightarrow> keeps w (w\<lparr>wdOutcomes := os\<rparr>)"
  by (auto simp: keeps_def fails_def)

text \<open>And the files and the names as well.\<close>

definition still :: "World \<Rightarrow> World \<Rightarrow> bool" where
  "still w w' \<longleftrightarrow> keeps w w' \<and> wdFiles w' = wdFiles w \<and> wdNames w' = wdNames w"

lemma still_refl [simp]: "still w w"
  by (simp add: still_def)

lemma still_trans: "still u v \<Longrightarrow> still v w \<Longrightarrow> still u w"
  by (auto simp: still_def intro: keeps_trans)

text \<open>A program that only looks: \<open>X\<close> holds of what it returns.\<close>

definition looks :: "'a act \<Rightarrow> (World \<Rightarrow> 'a \<Rightarrow> bool) \<Rightarrow> bool" where
  "looks m X \<longleftrightarrow> (\<forall>w. wp m (\<lambda>x w'. still w w' \<and> X w x) (\<lambda>_ w'. still w w') (\<lambda>w'. still w w') w)"

text \<open>One that only fails if an operation does.\<close>

definition looks_surely :: "'a act \<Rightarrow> (World \<Rightarrow> 'a) \<Rightarrow> bool" where
  "looks_surely m f \<longleftrightarrow> (\<forall>w. wp m (\<lambda>x w'. still w w' \<and> x = f w) (\<lambda>_ w'. still w w' \<and> wdOutcomes w \<noteq> [])
     (\<lambda>w'. still w w' \<and> wdOutcomes w \<noteq> []) w)"

lemma looks_surelyD:
  "looks_surely m f \<Longrightarrow> wp m (\<lambda>x w'. still w w' \<and> x = f w) (\<lambda>_ w'. still w w' \<and> wdOutcomes w \<noteq> [])
     (\<lambda>w'. still w w' \<and> wdOutcomes w \<noteq> []) w"
  by (simp add: looks_surely_def)

lemma operation_surely: "looks_surely operation (\<lambda>_. ())"
  unfolding looks_surely_def
  by (intro allI, rule wp_operation) (auto simp: still_def intro!: keeps_outcomes)

lemma SyncDir_surely: "looks_surely (SyncDir p) (\<lambda>_. ())"
  using operation_surely by (simp add: SyncDir_def)

lemma node_at_still: "still w w' \<Longrightarrow> node_at p w' = node_at p w"
  by (simp add: still_def node_at_def)

lemma Lstat_surely: "looks_surely (Lstat p) (node_at p)"
  unfolding looks_surely_def Lstat_def
  by (intro allI) (auto simp: node_at_still intro!: wp_mono[OF looks_surelyD[OF operation_surely]])

section \<open>The files that are seen\<close>

text \<open>
  A file whose name starts with \<open>temporaryPrefix\<close> belongs to the transactions. Of the others the kind,
  the contents and the owner's permissions count, which are all that a transaction restores.
\<close>

definition visible :: "fpath \<Rightarrow> bool" where "visible p \<longleftrightarrow> p = [] \<or> \<not> has_prefix (last p) temporaryPrefix"

definition view_node :: "Storage \<Rightarrow> node \<Rightarrow> node" where
  "view_node st n = (case n of RegularFile c m \<Rightarrow> RegularFile c (observableOwnerMode st m) | _ \<Rightarrow> n)"

definition nodes :: "World \<Rightarrow> fpath \<Rightarrow> node option" where "nodes w p = node_at p w"

definition seen :: "Storage \<Rightarrow> (fpath \<Rightarrow> node option) \<Rightarrow> fpath \<Rightarrow> node option" where
  "seen st N p = (if visible p then map_option (view_node st) (N p) else None)"

definition files_of :: "Storage \<Rightarrow> World \<Rightarrow> fpath \<Rightarrow> node option" where "files_of st w = seen st (nodes w)"

lemma node_at_nodes: "node_at p w = nodes w p"
  by (simp add: nodes_def)

lemma nodes_same_files: "wdFiles w' = wdFiles w \<Longrightarrow> nodes w' = nodes w"
  by (simp add: nodes_def node_at_def fun_eq_iff)

lemma nodes_put [simp]: "nodes (put_node p n w) = (nodes w)(p := Some n)"
  by (simp add: nodes_def node_at_def put_node_def fun_eq_iff update_conv')

lemma nodes_drop [simp]: "nodes (drop_node p w) = (nodes w)(p := None)"
  by (simp add: nodes_def node_at_def drop_node_def fun_eq_iff delete_conv')

lemma nodes_updates [simp]:
  "nodes (w\<lparr>wdOutcomes := os\<rparr>) = nodes w" "nodes (w\<lparr>wdNames := ns\<rparr>) = nodes w" "nodes (w\<lparr>wdRecord := r\<rparr>) = nodes w"
  "nodes (w\<lparr>wdJournal := j\<rparr>) = nodes w" "nodes (w\<lparr>wdHistory := j\<rparr>) = nodes w" "nodes (w\<lparr>wdBackups := bs\<rparr>) = nodes w"
  "nodes (w\<lparr>wdRandom := rs\<rparr>) = nodes w"
  by (simp_all add: nodes_def node_at_def fun_eq_iff)

lemma seen_put: "seen st (N(p := Some n)) = (if visible p then (seen st N)(p := Some (view_node st n)) else seen st N)"
  by (rule ext) (simp add: seen_def)

lemma seen_drop: "seen st (N(p := None)) = (if visible p then (seen st N)(p := None) else seen st N)"
  by (rule ext) (simp add: seen_def)

lemma seen_directory: "visible p \<Longrightarrow> is_directory (seen st N p) = is_directory (N p)"
  by (cases "N p") (auto simp: seen_def is_directory_def view_node_def split: node.splits)

text \<open>No temporary name is a directory.\<close>

definition tidy :: "World \<Rightarrow> bool" where "tidy w \<longleftrightarrow> (\<forall>p. \<not> visible p \<longrightarrow> \<not> is_directory (nodes w p))"

lemma tidy_nodes: "nodes w' = nodes w \<Longrightarrow> tidy w' = tidy w"
  by (simp add: tidy_def)

lemma tidy_put: "tidy w \<Longrightarrow> nodes w' = (nodes w)(p := n) \<Longrightarrow> visible p \<or> \<not> is_directory n \<Longrightarrow> tidy w'"
  by (auto simp: tidy_def)

lemma directory_visible: "tidy w \<Longrightarrow> is_directory (nodes w p) \<Longrightarrow> visible p"
  by (auto simp: tidy_def)

text \<open>Nothing is about to disturb the process, and the random names are fresh.\<close>

definition calm :: "nat \<Rightarrow> World \<Rightarrow> bool" where
  "calm n w \<longleftrightarrow> wdOutcomes w = [] \<and> n \<le> length (wdNames w) \<and>
     (\<forall>name \<in> set (wdNames w). \<forall>d. nodes w (d @ [temporaryPrefix @ name]) = None)"

lemma calm_less: "calm n w \<Longrightarrow> m \<le> n \<Longrightarrow> calm m w"
  by (auto simp: calm_def)

lemma calm_mono:
  assumes "calm n w" "wdOutcomes w' = []" "set (wdNames w') \<subseteq> set (wdNames w)" "m \<le> length (wdNames w')"
    and "\<And>p. \<not> visible p \<Longrightarrow> nodes w p = None \<Longrightarrow> nodes w' p = None"
  shows "calm m w'"
proof -
  have "nodes w' (d @ [temporaryPrefix @ name]) = None" if "name \<in> set (wdNames w')" for d name
  proof (rule assms(5))
    show "\<not> visible (d @ [temporaryPrefix @ name])" by (simp add: visible_def has_prefix_def)
    show "nodes w (d @ [temporaryPrefix @ name]) = None" using assms that by (auto simp: calm_def)
  qed
  then show ?thesis using assms by (simp add: calm_def)
qed

lemma nodes_still: "still w w' \<Longrightarrow> nodes w' = nodes w"
  unfolding still_def by (blast intro: nodes_same_files)

lemma calm_still:
  assumes "still w w'" "calm n w" shows "calm n w'"
proof (rule calm_mono[OF assms(2)])
  show "nodes w' p = None" if "nodes w p = None" for p using that by (simp add: nodes_still[OF assms(1)])
qed (use assms in \<open>simp_all add: still_def keeps_def calm_def\<close>)

lemma still_keeps: "still w w' \<Longrightarrow> keeps w w'"
  by (simp add: still_def)

text \<open>Taking the outcome of one operation.\<close>

lemma wp_op:
  assumes "\<And>w'. still w w' \<Longrightarrow> Q () w'" and "\<And>w'. still w w' \<Longrightarrow> wdOutcomes w \<noteq> [] \<Longrightarrow> R ErrIO w'"
    and "\<And>w'. still w w' \<Longrightarrow> wdOutcomes w \<noteq> [] \<Longrightarrow> S w'"
  shows "wp operation Q R S w"
  by (rule wp_operation) (auto simp: still_def intro!: assms keeps_outcomes)

section \<open>What the operations do\<close>

lemma keeps_put [simp]: "keeps w (put_node p n w') = keeps w w'" "keeps w (drop_node p w') = keeps w w'"
  by (simp_all add: keeps_def put_node_def drop_node_def fails_def)

lemma names_put [simp]: "wdNames (put_node p n w) = wdNames w" "wdNames (drop_node p w) = wdNames w"
  "wdOutcomes (put_node p n w) = wdOutcomes w" "wdOutcomes (drop_node p w) = wdOutcomes w"
  by (simp_all add: put_node_def drop_node_def)

lemma wp_Remove:
  "wp (Remove p) (\<lambda>_ w'. keeps w w' \<and> wdNames w' = wdNames w \<and> nodes w' = (nodes w)(p := None))
     (\<lambda>e w'. still w w' \<and> (e = ErrNotExist \<longrightarrow> nodes w p = None) \<and>
        (wdOutcomes w = [] \<longrightarrow> e = ErrNotExist \<or> is_directory (nodes w p)))
     (\<lambda>w'. still w w' \<and> wdOutcomes w \<noteq> []) w"
  unfolding Remove_def wp_chain[of operation]
proof (rule wp_op)
  fix w' assume s: "still w w'"
  have f: "nodes w' = nodes w" "keeps w w'" "wdNames w' = wdNames w"
    using s by (simp_all add: nodes_still still_keeps) (simp add: still_def)
  show "wp (chain (get (node_at p)) (\<lambda>n. case n of
      None \<Rightarrow> failing ErrNotExist
    | Some (Directory _) \<Rightarrow> chain (get wdFiles) (\<lambda>fs.
        if list_ex (\<lambda>(q, _). q \<noteq> [] \<and> butlast q = p) fs then failing ErrIO else modify (drop_node p))
    | Some _ \<Rightarrow> modify (drop_node p)))
     (\<lambda>_ w'. keeps w w' \<and> wdNames w' = wdNames w \<and> nodes w' = (nodes w)(p := None))
     (\<lambda>e w'. still w w' \<and> (e = ErrNotExist \<longrightarrow> nodes w p = None) \<and>
        (wdOutcomes w = [] \<longrightarrow> e = ErrNotExist \<or> is_directory (nodes w p)))
     (\<lambda>w'. still w w' \<and> wdOutcomes w \<noteq> []) w'"
    using s f by (cases "nodes w p") (auto simp: node_at_nodes is_directory_def split: node.splits)
qed simp_all

text \<open>Removing what may be gone already.\<close>

lemma wp_Remove_ignoring:
  "wp (ignoring_missing (Remove p)) (\<lambda>_ w'. keeps w w' \<and> wdNames w' = wdNames w \<and> nodes w' = (nodes w)(p := None))
     (\<lambda>_ w'. still w w' \<and> (wdOutcomes w = [] \<longrightarrow> is_directory (nodes w p)))
     (\<lambda>w'. still w w' \<and> wdOutcomes w \<noteq> []) w"
  unfolding ignoring_missing_def
  by (auto simp: still_keeps nodes_still still_def[THEN iffD1] fun_upd_idem intro!: wp_mono[OF wp_Remove])

lemma wp_Rename:
  "wp (Rename a b)
     (\<lambda>_ w'. keeps w w' \<and> wdNames w' = wdNames w \<and>
        (\<exists>n. nodes w a = Some n \<and> \<not> is_directory (Some n) \<and> nodes w' = (nodes w)(a := None, b := Some n)))
     (\<lambda>_ w'. still w w' \<and> (wdOutcomes w = [] \<longrightarrow> nodes w a = None \<or> is_directory (nodes w a) \<or>
        is_directory (nodes w b) \<or> \<not> is_directory (nodes w (butlast b))))
     (\<lambda>w'. still w w' \<and> wdOutcomes w \<noteq> []) w"
  unfolding Rename_def wp_chain[of operation]
proof (rule wp_op)
  fix w' assume s: "still w w'"
  have f: "nodes w' = nodes w" "keeps w w'" "wdNames w' = wdNames w"
    using s by (simp_all add: nodes_still still_keeps) (simp add: still_def)
  show "wp (chain (get (node_at a)) (\<lambda>n. chain (get (node_at b)) (\<lambda>t.
     case n of
       None \<Rightarrow> failing ErrNotExist
     | Some (Directory _) \<Rightarrow> failing ErrIO
     | Some n \<Rightarrow> chain (get (node_at (butlast b))) (\<lambda>parent.
                  if \<not> is_directory parent then failing ErrNotExist
                  else if is_directory t then failing ErrIO
                  else modify (\<lambda>w. put_node b n (drop_node a w))))))
     (\<lambda>_ w'. keeps w w' \<and> wdNames w' = wdNames w \<and>
        (\<exists>n. nodes w a = Some n \<and> \<not> is_directory (Some n) \<and> nodes w' = (nodes w)(a := None, b := Some n)))
     (\<lambda>_ w'. still w w' \<and> (wdOutcomes w = [] \<longrightarrow> nodes w a = None \<or> is_directory (nodes w a) \<or>
        is_directory (nodes w b) \<or> \<not> is_directory (nodes w (butlast b))))
     (\<lambda>w'. still w w' \<and> wdOutcomes w \<noteq> []) w'"
    using s f by (cases "nodes w a") (auto simp: node_at_nodes is_directory_def[of "Some _"] split: node.splits)
qed simp_all

text \<open>Only names are taken.\<close>

definition draws :: "World \<Rightarrow> World \<Rightarrow> bool" where
  "draws w w' \<longleftrightarrow> w\<lparr>wdNames := wdNames w'\<rparr> = w' \<and> set (wdNames w') \<subseteq> set (wdNames w)"

lemma draws_refl: "draws w w"
  by (simp add: draws_def)

lemma draws_next: "wdNames w = n # ns \<Longrightarrow> draws (w\<lparr>wdNames := ns\<rparr>) w' \<Longrightarrow> draws w w'"
  by (auto simp: draws_def)

lemma draws_keeps: "draws w w' \<Longrightarrow> keeps w w' \<and> nodes w' = nodes w \<and> wdOutcomes w' = wdOutcomes w"
  by (cases w, cases w') (auto simp: draws_def keeps_def fails_def nodes_def node_at_def)

lemma wp_create_temp:
  "wp (create_temp k d pre)
     (\<lambda>p w'. draws w w' \<and> (\<exists>name. p = d @ [pre @ name]) \<and> nodes w p = None \<and>
        (wdNames w \<noteq> [] \<longrightarrow> nodes w (d @ [pre @ hd (wdNames w)]) = None \<longrightarrow> wdNames w' = tl (wdNames w)))
     (\<lambda>_ w'. draws w w' \<and> (0 < k \<longrightarrow> wdNames w \<noteq> [] \<longrightarrow> nodes w (d @ [pre @ hd (wdNames w)]) \<noteq> None))
     (\<lambda>_. False) w"
proof (induction k arbitrary: w)
  case 0
  show ?case by (simp add: draws_refl)
next
  case (Suc k)
  show ?case
  proof (cases "wdNames w")
    case Nil
    then show ?thesis by (simp add: draws_refl)
  next
    case (Cons n ns)
    show ?thesis
    proof (cases "nodes w (d @ [pre @ n])")
      case None
      then show ?thesis using Cons draws_next[OF Cons draws_refl] by (simp add: node_at_nodes)
    next
      case (Some m)
      have "wp (create_temp k d pre)
         (\<lambda>p w'. draws w w' \<and> (\<exists>name. p = d @ [pre @ name]) \<and> nodes w p = None)
         (\<lambda>_ w'. draws w w') (\<lambda>_. False) (w\<lparr>wdNames := ns\<rparr>)"
        by (rule wp_mono[OF Suc.IH]) (simp_all add: draws_next[OF Cons])
      then show ?thesis using Cons Some by (simp add: node_at_nodes)
    qed
  qed
qed

text \<open>A change that nobody sees.\<close>

definition unseen :: "World \<Rightarrow> World \<Rightarrow> bool" where
  "unseen w w' \<longleftrightarrow> keeps w w' \<and> tidy w' \<and> (\<forall>p. visible p \<longrightarrow> nodes w' p = nodes w p)"

lemma unseen_files: "unseen w w' \<Longrightarrow> files_of st w' = files_of st w"
  by (auto simp: unseen_def files_of_def seen_def)

lemma unseen_same: "tidy w \<Longrightarrow> keeps w w' \<Longrightarrow> nodes w' = nodes w \<Longrightarrow> unseen w w'"
  using tidy_nodes[of w' w] by (auto simp: unseen_def)

lemma unseen_still: "tidy w \<Longrightarrow> still w w' \<Longrightarrow> unseen w w'"
  by (rule unseen_same) (simp_all add: still_keeps nodes_still)

lemma unseen_change:
  "tidy w \<Longrightarrow> keeps w w' \<Longrightarrow> nodes w' = (nodes w)(p := n) \<Longrightarrow> \<not> visible p \<Longrightarrow> \<not> is_directory n \<Longrightarrow> unseen w w'"
  by (auto simp: unseen_def intro: tidy_put)

lemma unseen_trans: "unseen u v \<Longrightarrow> unseen v w \<Longrightarrow> unseen u w"
  by (auto simp: unseen_def intro: keeps_trans)

lemma unseen_keeps: "unseen w w' \<Longrightarrow> keeps w w'"
  by (simp add: unseen_def)

lemma hidden_name: "has_prefix pre temporaryPrefix \<Longrightarrow> \<not> visible (d @ [pre @ name])"
  by (auto simp: visible_def has_prefix_iff)

lemma not_directory [simp]: "\<not> is_directory None" "\<not> is_directory (Some (RegularFile c m))" "\<not> is_directory (Some SymbolicLink)"
  "is_directory (Some (Directory m))"
  by (simp_all add: is_directory_def)

lemma wp_write_temp_contents:
  assumes "\<not> visible p" "tidy w" "nodes w p = None"
  shows "wp (chain (modify (put_node p (RegularFile [] FilePermission))) (\<lambda>_.
         chain (handle operation (\<lambda>e. chain (handle (Remove p) (\<lambda>_. ret ())) (\<lambda>_. failing e))) (\<lambda>_.
         chain (modify (put_node p (RegularFile contents permission))) (\<lambda>_. ret p))))
     (\<lambda>q w'. q = p \<and> keeps w w' \<and> wdNames w' = wdNames w \<and> nodes w' = (nodes w)(p := Some (RegularFile contents permission)))
     (\<lambda>_ w'. unseen w w' \<and> wdOutcomes w \<noteq> []) (\<lambda>w'. unseen w w' \<and> wdOutcomes w \<noteq> []) w"
  unfolding wp_chain wp_handle wp_modify wp_ret wp_failing
proof (rule wp_op, simp_all)
  let ?w = "put_node p (RegularFile [] FilePermission) w"
  fix w' assume s: "still ?w w'"
  have k: "keeps w w'" using still_keeps[OF s] keeps_trans[of w ?w w'] by simp
  have n: "nodes w' = (nodes w)(p := Some (RegularFile [] FilePermission))" by (simp add: nodes_still[OF s])
  show "keeps w w' \<and> wdNames w' = wdNames w \<and> (nodes w')(p \<mapsto> RegularFile contents permission) = (nodes w)(p \<mapsto> RegularFile contents permission)"
    using s k n by (simp add: still_def)
  assume o: "wdOutcomes w \<noteq> []"
  show u: "unseen w w'" by (rule unseen_change[OF assms(2) k n]) (use assms in simp_all)
  show "wp (Remove p) (\<lambda>_ w'. unseen w w') (\<lambda>e. unseen w) (\<lambda>w'. unseen w w') w'"
  proof (rule wp_mono[OF wp_Remove])
    fix w'' assume "keeps w' w'' \<and> wdNames w'' = wdNames w' \<and> nodes w'' = (nodes w')(p := None)"
    then have "unseen w' w''" using u assms(1) by (auto simp: unseen_def intro: unseen_change[unfolded unseen_def] tidy_put)
    then show "unseen w w''" by (rule unseen_trans[OF u])
  next
    fix e w'' assume "still w' w'' \<and> (e = ErrNotExist \<longrightarrow> nodes w' p = None) \<and> (wdOutcomes w' = [] \<longrightarrow> e = ErrNotExist \<or> is_directory (nodes w' p))"
    then show "unseen w w''" using u unseen_still unseen_trans unseen_def by blast
  next
    fix w'' assume "still w' w'' \<and> wdOutcomes w' \<noteq> []"
    then show "unseen w w''" using u unseen_still unseen_trans unseen_def by blast
  qed
qed

lemma calm_fresh:
  assumes "calm n w" "0 < n"
  shows "wdNames w \<noteq> []" "nodes w (d @ [temporaryPrefix @ hd (wdNames w)]) = None" "wdOutcomes w = []"
proof -
  show "wdNames w \<noteq> []" using assms by (auto simp: calm_def)
  then show "nodes w (d @ [temporaryPrefix @ hd (wdNames w)]) = None" using assms by (simp add: calm_def)
  show "wdOutcomes w = []" using assms by (simp add: calm_def)
qed

lemma wp_WriteTemp:
  assumes pre: "has_prefix pre temporaryPrefix" and tidy: "tidy w"
  shows "wp (WriteTemp d pre m c)
     (\<lambda>p w'. keeps w w' \<and> set (wdNames w') \<subseteq> set (wdNames w) \<and> (\<exists>name. p = d @ [pre @ name]) \<and> nodes w p = None \<and>
        nodes w' = (nodes w)(p := Some (RegularFile c m)) \<and> is_directory (nodes w d) \<and>
        (calm 1 w \<longrightarrow> pre = temporaryPrefix \<longrightarrow> wdNames w' = tl (wdNames w)))
     (\<lambda>_ w'. unseen w w' \<and> \<not> (calm 1 w \<and> pre = temporaryPrefix \<and> is_directory (nodes w d)))
     (\<lambda>w'. unseen w w' \<and> wdOutcomes w \<noteq> []) w" (is "wp _ ?Q ?R ?S w")
  unfolding WriteTemp_def wp_chain[of operation]
proof (rule wp_op)
  fix w1 assume s1: "still w w1"
  have n1: "nodes w1 = nodes w" by (rule nodes_still[OF s1])
  have t1: "tidy w1" using tidy tidy_nodes[OF n1] by simp
  have u1: "unseen w w1" by (rule unseen_still[OF tidy s1])
  let ?fill = "\<lambda>p. chain (modify (put_node p (RegularFile [] FilePermission))) (\<lambda>_.
         chain (handle operation (\<lambda>e. chain (handle (Remove p) (\<lambda>_. ret ())) (\<lambda>_. failing e))) (\<lambda>_.
         chain (modify (put_node p (RegularFile c m))) (\<lambda>_. ret p)))"
  have body: "wp (create_temp tempCollisionLimit d pre) (\<lambda>p. wp (?fill p) ?Q ?R ?S) ?R ?S w1"
    if dir: "is_directory (nodes w d)"
  proof (rule wp_mono[OF wp_create_temp])
    fix p w2
    assume a: "draws w1 w2 \<and> (\<exists>name. p = d @ [pre @ name]) \<and> nodes w1 p = None \<and>
        (wdNames w1 \<noteq> [] \<longrightarrow> nodes w1 (d @ [pre @ hd (wdNames w1)]) = None \<longrightarrow> wdNames w2 = tl (wdNames w1))"
    have names: "wdNames w1 = wdNames w" using s1 by (simp add: still_def)
    have k2: "keeps w1 w2" and n2: "nodes w2 = nodes w1" using a draws_keeps by blast+
    have t2: "tidy w2" using t1 tidy_nodes[OF n2] by simp
    have hidden: "\<not> visible p" using a hidden_name[OF pre] by auto
    have u2: "unseen w w2" using unseen_same[OF t1 k2 n2] u1 unseen_trans by blast
    have o2: "wdOutcomes w2 \<noteq> [] \<Longrightarrow> wdOutcomes w \<noteq> []" using u2 by (auto simp: unseen_def keeps_def)
    have calm: "wdNames w2 = tl (wdNames w)" if "calm 1 w" "pre = temporaryPrefix"
      using a calm_fresh[OF that(1)] that(2) names n1 by auto
    have free: "nodes w2 p = None" using a n2 by simp
    show "wp (?fill p) ?Q ?R ?S w2"
    proof (rule wp_mono[OF wp_write_temp_contents[OF hidden t2 free]])
      fix q w3
      assume b: "q = p \<and> keeps w2 w3 \<and> wdNames w3 = wdNames w2 \<and> nodes w3 = (nodes w2)(p \<mapsto> RegularFile c m)"
      show "?Q q w3" using a b calm n1 n2 names dir keeps_trans[OF unseen_keeps[OF u2]] by (auto simp: draws_def)
    next
      fix e w3 assume "unseen w2 w3 \<and> wdOutcomes w2 \<noteq> []"
      then show "?R e w3" using unseen_trans[OF u2] o2 by (auto simp: calm_def)
    next
      fix w3 assume "unseen w2 w3 \<and> wdOutcomes w2 \<noteq> []"
      then show "?S w3" using unseen_trans[OF u2] o2 by auto
    qed
  next
    fix e w2
    assume a: "draws w1 w2 \<and> (0 < tempCollisionLimit \<longrightarrow> wdNames w1 \<noteq> [] \<longrightarrow> nodes w1 (d @ [pre @ hd (wdNames w1)]) \<noteq> None)"
    then have "unseen w w2" using draws_keeps unseen_same[OF t1] u1 unseen_trans by blast
    moreover have "calm 1 w \<Longrightarrow> pre \<noteq> temporaryPrefix"
      using a calm_fresh[of 1 w] s1 n1 by (auto simp: tempCollisionLimit_def still_def)
    ultimately show "?R e w2" by blast
  qed simp
  show "wp (chain (get (node_at d)) (\<lambda>dn. if \<not> is_directory dn then failing ErrNotExist
      else chain (create_temp tempCollisionLimit d pre) ?fill)) ?Q ?R ?S w1"
    unfolding wp_chain[of "get _"] wp_get node_at_nodes n1
  proof (cases "is_directory (nodes w d)")
    case True
    show "wp (if \<not> is_directory (nodes w d) then failing ErrNotExist
      else chain (create_temp tempCollisionLimit d pre) ?fill) ?Q ?R ?S w1"
      using body[OF True] by (simp only: True not_True_eq_False if_False wp_chain[of "create_temp _ _ _"])
  qed (use u1 in simp)
next
  fix w' assume "still w w'" "wdOutcomes w \<noteq> []"
  then show "?R ErrIO w'" using unseen_still[OF tidy] by (auto simp: calm_def)
next
  fix w' assume "still w w'" "wdOutcomes w \<noteq> []"
  then show "?S w'" using unseen_still[OF tidy] by auto
qed

lemma keeps_calm: "keeps w w' \<Longrightarrow> wdOutcomes w = [] \<Longrightarrow> wdOutcomes w' = []"
  by (simp add: keeps_def)

lemma wp_Remove_unseen:
  assumes "unseen w w1" "\<not> visible p"
  shows "wp (Remove p) (\<lambda>_ w'. unseen w w') (\<lambda>_ w'. unseen w w') (\<lambda>w'. unseen w w') w1"
proof (rule wp_mono[OF wp_Remove])
  have t1: "tidy w1" using assms by (simp add: unseen_def)
  show "unseen w w'" if "keeps w1 w' \<and> wdNames w' = wdNames w1 \<and> nodes w' = (nodes w1)(p := None)" for w'
    by (rule unseen_trans[OF assms(1) unseen_change[OF t1, of w' p None]]) (use that assms in simp_all)
  show "unseen w w'" if "still w1 w' \<and> wdOutcomes w1 \<noteq> []" for w'
    using that unseen_trans[OF assms(1) unseen_still[OF t1]] by blast
  show "unseen w w'" if "still w1 w' \<and> (e = ErrNotExist \<longrightarrow> nodes w1 p = None) \<and>
      (wdOutcomes w1 = [] \<longrightarrow> e = ErrNotExist \<or> is_directory (nodes w1 p))" for e w'
    using that unseen_trans[OF assms(1) unseen_still[OF t1]] by blast
qed

text \<open>A file is written or it is not.\<close>

lemma wp_writeFile:
  assumes vis: "visible p" and tidy: "tidy w" and free: "\<not> is_directory (nodes w p)"
  shows "wp (writeFile p c m)
     (\<lambda>_ w'. keeps w w' \<and> tidy w' \<and> files_of st w' = (files_of st w)(p := Some (view_node st (RegularFile c m))) \<and>
        (\<forall>n. calm (Suc n) w \<longrightarrow> calm n w'))
     (\<lambda>_ w'. keeps w w' \<and> tidy w' \<and>
        files_of st w' \<in> {files_of st w, (files_of st w)(p := Some (view_node st (RegularFile c m)))} \<and>
        \<not> (calm 1 w \<and> is_directory (nodes w (butlast p))))
     (\<lambda>w'. keeps w w' \<and> tidy w' \<and>
        files_of st w' \<in> {files_of st w, (files_of st w)(p := Some (view_node st (RegularFile c m)))} \<and> wdOutcomes w \<noteq> []) w"
    (is "wp _ ?Q ?R ?S w")
  unfolding writeFile_def WriteAtomicFile_def wp_chain[of "WriteTemp _ _ _ _"]
proof (rule wp_mono[OF wp_WriteTemp[OF _ tidy]])
  show "has_prefix temporaryPrefix temporaryPrefix" by (simp add: has_prefix_def)
next
  fix t w1
  assume a: "keeps w w1 \<and> set (wdNames w1) \<subseteq> set (wdNames w) \<and> (\<exists>name. t = butlast p @ [temporaryPrefix @ name]) \<and> nodes w t = None \<and>
        nodes w1 = (nodes w)(t := Some (RegularFile c m)) \<and> is_directory (nodes w (butlast p)) \<and>
        (calm 1 w \<longrightarrow> temporaryPrefix = temporaryPrefix \<longrightarrow> wdNames w1 = tl (wdNames w))"
  have hid: "\<not> visible t" using a hidden_name[of temporaryPrefix] by (auto simp: has_prefix_def)
  have u1: "unseen w w1" by (rule unseen_change[OF tidy, of _ t "Some (RegularFile c m)"]) (use a hid in simp_all)
  have tp: "t \<noteq> p" using hid vis by auto
  let ?new = "(nodes w)(p := Some (RegularFile c m))"
  have new: "seen st ?new = (files_of st w)(p := Some (view_node st (RegularFile c m)))" using vis by (simp add: seen_put files_of_def)
  have o1: "wdOutcomes w1 \<noteq> [] \<Longrightarrow> wdOutcomes w \<noteq> []" using a by (auto simp: keeps_def)
  have fin: "wp (SyncDir (butlast p)) ?Q ?R ?S w2" if k2: "keeps w w2" and n2: "nodes w2 = ?new" and names2: "wdNames w2 = wdNames w1" for w2
  proof (rule wp_mono[OF looks_surelyD[OF SyncDir_surely]])
    have o2: "wdOutcomes w2 \<noteq> [] \<Longrightarrow> wdOutcomes w \<noteq> []" using k2 by (auto simp: keeps_def)
    have done_any: "keeps w w3 \<and> tidy w3 \<and> files_of st w3 = (files_of st w)(p := Some (view_node st (RegularFile c m)))" if "still w2 w3" for w3
      using keeps_trans[OF k2 still_keeps[OF that]] tidy_put[OF tidy, of w3 p] vis new
      by (simp add: files_of_def nodes_still[OF that] n2)
    show "?Q x w3" if s: "still w2 w3 \<and> x = ()" for x w3
    proof -
      have "calm n w3" if c: "calm (Suc n) w" for n
      proof (rule calm_mono[OF c])
        have 1: "wdNames w3 = tl (wdNames w)" using s names2 a calm_less[OF c, of 1] by (simp add: still_def)
        show "wdOutcomes w3 = []" using c k2 s by (simp add: calm_def keeps_def still_def)
        show "set (wdNames w3) \<subseteq> set (wdNames w)" unfolding 1 by (cases "wdNames w") auto
        show "n \<le> length (wdNames w3)" unfolding 1 using c unfolding calm_def by (cases "wdNames w") auto
        show "nodes w3 q = None" if "\<not> visible q" "nodes w q = None" for q using s that vis n2 nodes_still[of w2 w3] by auto
      qed
      then show ?thesis using done_any s by blast
    qed
    show "?R e w3" if "still w2 w3 \<and> wdOutcomes w2 \<noteq> []" for e w3 using that done_any[of w3] o2 by (auto simp: calm_def)
    show "?S w3" if "still w2 w3 \<and> wdOutcomes w2 \<noteq> []" for w3 using that done_any[of w3] o2 by auto
  qed
  have undone: "?R e w2" if "unseen w w2" "\<not> (calm 1 w \<and> is_directory (nodes w (butlast p)))" for e w2
    using that unseen_files[OF that(1)] by (auto simp: unseen_def)
  have stop: "?S w2" if "unseen w w2" "wdOutcomes w \<noteq> []" for w2
    using that unseen_files[OF that(1)] by (auto simp: unseen_def)
  show "wp (chain (handle (Rename t p) (\<lambda>e. chain (handle (Remove t) (\<lambda>_. ret ())) (\<lambda>_. failing e))) (\<lambda>_. SyncDir (butlast p))) ?Q ?R ?S w1"
    unfolding wp_chain wp_handle wp_ret wp_failing
  proof (rule wp_mono[OF wp_Rename])
    fix x w2
    assume "keeps w1 w2 \<and> wdNames w2 = wdNames w1 \<and> (\<exists>n. nodes w1 t = Some n \<and> \<not> is_directory (Some n) \<and> nodes w2 = (nodes w1)(t := None, p := Some n))"
    then have "nodes w2 = ?new" "keeps w1 w2" "wdNames w2 = wdNames w1" using a tp by auto
    then show "wp (SyncDir (butlast p)) ?Q ?R ?S w2" using fin a keeps_trans by blast
  next
    fix e w2
    assume b: "still w1 w2 \<and> (wdOutcomes w1 = [] \<longrightarrow> nodes w1 t = None \<or> is_directory (nodes w1 t) \<or>
        is_directory (nodes w1 p) \<or> \<not> is_directory (nodes w1 (butlast p)))"
    have bp: "butlast p \<noteq> t" using a hid directory_visible[OF tidy] by metis
    have nc: "\<not> (calm 1 w \<and> is_directory (nodes w (butlast p)))" using b a free tp bp o1 by (auto simp: calm_def)
    have u2: "unseen w w2" using unseen_trans[OF u1 unseen_still] u1 b by (simp add: unseen_def)
    have ow: "wdOutcomes w \<noteq> []" using b a free tp bp o1 by auto
    show "wp (Remove t) (\<lambda>_. ?R e) (\<lambda>_. ?R e) ?S w2"
      by (rule wp_mono[OF wp_Remove_unseen[OF u2 hid]]) (use undone[OF _ nc] stop[OF _ ow] in blast)+
  next
    fix w2 assume "still w1 w2 \<and> wdOutcomes w1 \<noteq> []"
    then show "?S w2" using stop unseen_trans[OF u1 unseen_still] u1 o1 by (simp add: unseen_def)
  qed
next
  fix e w1 assume "unseen w w1 \<and> \<not> (calm 1 w \<and> temporaryPrefix = temporaryPrefix \<and> is_directory (nodes w (butlast p)))"
  then show "?R e w1" using unseen_files[of w w1 st] by (auto simp: unseen_def)
next
  fix w1 assume "unseen w w1 \<and> wdOutcomes w \<noteq> []"
  then show "?S w1" using unseen_files[of w w1 st] by (auto simp: unseen_def)
qed

section \<open>Programs that only look\<close>

text \<open>
  \<open>X\<close> is what is known of the result when the files are \<open>N\<close>; if \<open>G\<close> holds of the files and nothing disturbs
  the process, the program does not fail.
\<close>

definition reads :: "'a act \<Rightarrow> ((fpath \<Rightarrow> node option) \<Rightarrow> bool) \<Rightarrow> ((fpath \<Rightarrow> node option) \<Rightarrow> 'a \<Rightarrow> bool) \<Rightarrow> bool" where
  "reads m G X \<longleftrightarrow> (\<forall>w. wp m (\<lambda>x w'. still w w' \<and> X (nodes w) x)
     (\<lambda>_ w'. still w w' \<and> (wdOutcomes w = [] \<longrightarrow> \<not> G (nodes w))) (\<lambda>w'. still w w' \<and> wdOutcomes w \<noteq> []) w)"

lemma wp_reads:
  assumes "reads m G X"
    and "\<And>x w'. still w w' \<Longrightarrow> X (nodes w) x \<Longrightarrow> Q x w'"
    and "\<And>e w'. still w w' \<Longrightarrow> (wdOutcomes w = [] \<Longrightarrow> \<not> G (nodes w)) \<Longrightarrow> R e w'"
    and "\<And>w'. still w w' \<Longrightarrow> wdOutcomes w \<noteq> [] \<Longrightarrow> S w'"
  shows "wp m Q R S w"
  using assms(1)[unfolded reads_def, rule_format, of w] by (rule wp_mono) (use assms(2-4) in auto)

lemma reads_mono:
  "reads m G' X' \<Longrightarrow> (\<And>N. G N \<Longrightarrow> G' N) \<Longrightarrow> (\<And>N x. X' N x \<Longrightarrow> X N x) \<Longrightarrow> reads m G X"
  unfolding reads_def by (intro allI, erule allE, erule wp_mono) auto

lemma still_empty: "still w w' \<Longrightarrow> wdOutcomes w = [] \<Longrightarrow> wdOutcomes w' = []"
  by (simp add: still_def keeps_def)

lemma reads_chain:
  assumes "reads m G X" and "\<And>x. reads (f x) (H x) (Y x)"
  shows "reads (chain m f) (\<lambda>N. G N \<and> (\<forall>x. X N x \<longrightarrow> H x N)) (\<lambda>N y. \<exists>x. X N x \<and> Y x N y)"
  unfolding reads_def wp_chain
proof (intro allI, rule wp_reads[OF assms(1)])
  fix w x w' assume s: "still w w'" and x: "X (nodes w) x"
  have n: "nodes w' = nodes w" by (rule nodes_still[OF s])
  show "wp (f x) (\<lambda>y w'. still w w' \<and> (\<exists>x. X (nodes w) x \<and> Y x (nodes w) y))
     (\<lambda>_ w'. still w w' \<and> (wdOutcomes w = [] \<longrightarrow> \<not> (G (nodes w) \<and> (\<forall>x. X (nodes w) x \<longrightarrow> H x (nodes w)))))
     (\<lambda>w'. still w w' \<and> wdOutcomes w \<noteq> []) w'"
    by (rule wp_reads[OF assms(2)]) (use s x n still_trans[OF s] still_empty[OF s] in auto)
qed auto

lemma reads_ret: "reads (ret x) (\<lambda>_. True) (\<lambda>_ y. y = x)"
  by (simp add: reads_def)

lemma reads_failing: "reads (failing e) (\<lambda>_. False) (\<lambda>_ _. False)"
  by (simp add: reads_def)

lemma reads_if: "reads m G X \<Longrightarrow> reads n H Y \<Longrightarrow>
    reads (if c then m else n) (\<lambda>N. if c then G N else H N) (\<lambda>N x. if c then X N x else Y N x)"
  by simp

lemma reads_operation: "reads operation (\<lambda>_. True) (\<lambda>_ _. True)"
  unfolding reads_def by (intro allI, rule wp_op) auto

lemma reads_node_at: "reads (get (node_at p)) (\<lambda>_. True) (\<lambda>N n. n = N p)"
  by (simp add: reads_def node_at_nodes)

lemma reads_Lstat: "reads (Lstat p) (\<lambda>_. True) (\<lambda>N n. n = N p)"
  unfolding Lstat_def by (rule reads_mono[OF reads_chain[OF reads_operation reads_node_at]]) auto

lemma reads_option:
  "reads m G X \<Longrightarrow> (\<And>y. reads (f y) (H y) (Y y)) \<Longrightarrow>
   reads (case x of None \<Rightarrow> m | Some y \<Rightarrow> f y) (\<lambda>N. case x of None \<Rightarrow> G N | Some y \<Rightarrow> H y N) (\<lambda>N z. case x of None \<Rightarrow> X N z | Some y \<Rightarrow> Y y N z)"
  by (cases x) simp_all

definition readable :: "Storage \<Rightarrow> fpath \<Rightarrow> (fpath \<Rightarrow> node option) \<Rightarrow> bool" where
  "readable st p N \<longleftrightarrow> (case N p of Some (RegularFile c m) \<Rightarrow> int (length c) \<le> TransactionFileLimit st p | _ \<Rightarrow> False)"

lemma readable_iff: "readable st p N \<longleftrightarrow> (\<exists>c m. N p = Some (RegularFile c m) \<and> int (length c) \<le> TransactionFileLimit st p)"
  by (simp add: readable_def split: option.splits node.splits)

lemma reads_ReadTransactionFile:
  "reads (ReadTransactionFile st p) (readable st p)
     (\<lambda>N c. int (length c) \<le> TransactionFileLimit st p \<and> (\<exists>m. N p = Some (RegularFile c m)))"
  unfolding ReadTransactionFile_def
proof (rule reads_mono[OF reads_chain[OF reads_operation reads_chain[OF reads_node_at]]])
  fix n
  show "reads (case n of None \<Rightarrow> failing ErrNotExist
      | Some (RegularFile contents _) \<Rightarrow>
          (if int (length contents) > TransactionFileLimit st p then failing ErrFileTooLarge else ret contents)
      | Some _ \<Rightarrow> failing ErrNotRegularFile)
    (\<lambda>N. n = N p \<and> readable st p N) (\<lambda>N c. n = N p \<longrightarrow> int (length c) \<le> TransactionFileLimit st p \<and> (\<exists>m. N p = Some (RegularFile c m)))"
    by (cases n) (auto simp: reads_def readable_def split: option.splits node.splits)
qed auto

lemma reads_currentState:
  "reads (currentState st p) (\<lambda>N. N p = None \<or> readable st p N)
     (\<lambda>N x. (x = None \<and> N p = None) \<or>
        (\<exists>c m. N p = Some (RegularFile c m) \<and> x = Some (c, and m 448) \<and> int (length c) \<le> TransactionFileLimit st p))"
  unfolding currentState_def
proof (rule reads_mono[OF reads_chain[OF reads_Lstat]])
  fix info
  show "reads (case info of None \<Rightarrow> ret None
      | Some n \<Rightarrow> chain (ReadTransactionFile st p) (\<lambda>contents.
          ret (Some (contents, (case n of RegularFile _ m \<Rightarrow> and m 448 | Directory m \<Rightarrow> and m 448 | SymbolicLink \<Rightarrow> 448)))))
    (\<lambda>N. info = N p \<and> (N p = None \<or> readable st p N))
    (\<lambda>N x. info = N p \<longrightarrow> (x = None \<and> N p = None) \<or>
        (\<exists>c m. N p = Some (RegularFile c m) \<and> x = Some (c, and m 448) \<and> int (length c) \<le> TransactionFileLimit st p))"
  proof (cases info)
    case None
    then show ?thesis by (simp add: reads_def)
  next
    case (Some n)
    show ?thesis unfolding Some option.case
      by (rule reads_mono[OF reads_chain[OF reads_ReadTransactionFile reads_ret]]) (auto simp: readable_iff Some)
  qed
qed auto

end
