(* ===== verification/StorePlan.thy ===== *)
theory StorePlan
  imports StoreLogic
begin

text \<open>
  What a transaction is to do to the files: the effect of each planned entry, the files after the first
  \<open>k\<close> of them, and what an entry must know of the files before it so that it can be undone.
\<close>

section \<open>Effects\<close>

type_synonym disk = "fpath \<Rightarrow> node option"

definition entry_effect :: "Storage \<Rightarrow> planned_entry \<Rightarrow> disk \<Rightarrow> disk" where
  "entry_effect st x D = (case x of (e, staged, _) \<Rightarrow>
     (case jeAction e of
        actionWrite \<Rightarrow> D(jePath e := Some (view_node st (RegularFile staged (jeMode e))))
      | actionMove \<Rightarrow> (case jeTarget e of None \<Rightarrow> D | Some t \<Rightarrow> D(jePath e := None, t := D (jePath e)))
      | actionRemove \<Rightarrow> D(jePath e := None)
      | _ \<Rightarrow> D))"

definition after :: "Storage \<Rightarrow> planned_entry list \<Rightarrow> disk \<Rightarrow> nat \<Rightarrow> disk" where
  "after st plan D k = fold (entry_effect st) (take k plan) D"

definition footprint :: "journalEntry \<Rightarrow> fpath list" where
  "footprint e = jePath e # (case jeTarget e of Some t \<Rightarrow> [t] | None \<Rightarrow> [])"

definition place_ok :: "Storage \<Rightarrow> disk \<Rightarrow> fpath \<Rightarrow> bool" where
  "place_ok st D p \<longleftrightarrow> visible p \<and> p \<noteq> stRoot st \<and> Contains (stRoot st) p \<and> is_directory (D (butlast p))"

text \<open>The contents, the mode and the digest of a file before the transaction.\<close>

definition file_before :: "Storage \<Rightarrow> disk \<Rightarrow> fpath \<Rightarrow> bytes \<Rightarrow> nat \<Rightarrow> gostring \<Rightarrow> bool" where
  "file_before st D p c m digest \<longleftrightarrow> D p = Some (view_node st (RegularFile c m)) \<and> validOwnerFileMode m \<and>
     digest = stDigest st c \<and> int (length c) \<le> TransactionFileLimit st p"

definition write_planned :: "Storage \<Rightarrow> disk \<Rightarrow> planned_entry \<Rightarrow> bool" where
  "write_planned st D x \<longleftrightarrow> (case x of (e, staged, previous) \<Rightarrow>
     jeTarget e = None \<and> validOwnerFileMode (jeMode e) \<and> jeDigest e = stDigest st staged \<and>
     int (length staged) \<le> TransactionFileLimit st (jePath e) \<and>
     (if jeHadPrevious e then file_before st D (jePath e) previous (jePreviousMode e) (jePreviousDigest e)
      else D (jePath e) = None \<and> jePreviousDigest e = [] \<and> jePreviousMode e = 0))"

definition move_planned :: "Storage \<Rightarrow> disk \<Rightarrow> planned_entry \<Rightarrow> bool" where
  "move_planned st D x \<longleftrightarrow> (case x of (e, _, _) \<Rightarrow>
     jeHadPrevious e \<and> jePreviousMode e = 0 \<and> jePreviousDigest e = jeDigest e \<and>
     (\<exists>t c. jeTarget e = Some t \<and> D t = None \<and> file_before st D (jePath e) c (jeMode e) (jeDigest e) \<and>
        int (length c) \<le> TransactionFileLimit st t))"

definition removal_planned :: "Storage \<Rightarrow> disk \<Rightarrow> planned_entry \<Rightarrow> bool" where
  "removal_planned st D x \<longleftrightarrow> (case x of (e, _, previous) \<Rightarrow>
     jeTarget e = None \<and> jeHadPrevious e \<and> jePreviousMode e = 0 \<and> jePreviousDigest e = jeDigest e \<and>
     file_before st D (jePath e) previous (jeMode e) (jeDigest e))"

definition planned_ok :: "Storage \<Rightarrow> disk \<Rightarrow> planned_entry \<Rightarrow> bool" where
  "planned_ok st D x \<longleftrightarrow> (let e = fst x in
     jeTemp e = None \<and> jeBackup e = None \<and> \<not> jeNoBackup e \<and> list_all (place_ok st D) (footprint e) \<and>
     (case jeAction e of
        actionWrite \<Rightarrow> write_planned st D x
      | actionMove \<Rightarrow> move_planned st D x
      | actionRemove \<Rightarrow> removal_planned st D x
      | _ \<Rightarrow> False))"

definition plan_ok :: "Storage \<Rightarrow> disk \<Rightarrow> planned_entry list \<Rightarrow> bool" where
  "plan_ok st D plan \<longleftrightarrow> list_all (planned_ok st D) plan \<and> distinct (concat (map (\<lambda>x. footprint (fst x)) plan))"

lemma planned_cases [consumes 1, case_names write_new write_over move removal]:
  assumes "planned_ok st D (e, s, previous)"
    and "jeAction e = actionWrite \<Longrightarrow> \<not> jeHadPrevious e \<Longrightarrow> write_planned st D (e, s, previous) \<Longrightarrow> P"
    and "jeAction e = actionWrite \<Longrightarrow> jeHadPrevious e \<Longrightarrow> write_planned st D (e, s, previous) \<Longrightarrow> P"
    and "jeAction e = actionMove \<Longrightarrow> move_planned st D (e, s, previous) \<Longrightarrow> P"
    and "jeAction e = actionRemove \<Longrightarrow> removal_planned st D (e, s, previous) \<Longrightarrow> P"
  shows P
  using assms by (auto simp: planned_ok_def Let_def split: action.splits)

text \<open>Nothing that a plan touches is a directory.\<close>

lemma footprint_no_directory:
  assumes "planned_ok st D x" "p \<in> set (footprint (fst x))" shows "\<not> is_directory (D p)"
proof -
  obtain e s previous where x: "x = (e, s, previous)" by (cases x)
  show ?thesis using assms unfolding x
    by (cases rule: planned_cases)
      (auto simp: write_planned_def move_planned_def removal_planned_def file_before_def footprint_def view_node_def)
qed

lemma effect_outside: "p \<notin> set (footprint (fst x)) \<Longrightarrow> entry_effect st x D p = D p"
  by (auto simp: entry_effect_def footprint_def split: prod.splits action.splits option.splits)

lemma fold_effect_outside:
  "(\<And>x. x \<in> set xs \<Longrightarrow> p \<notin> set (footprint (fst x))) \<Longrightarrow> fold (entry_effect st) xs D p = D p"
  by (induction xs arbitrary: D) (simp_all add: effect_outside)

lemma disjoint_footprints:
  assumes "distinct (concat (map f xs))" "i < length xs" "j < length xs" "i \<noteq> j"
  shows "set (f (xs ! i)) \<inter> set (f (xs ! j)) = {}"
  using assms
proof (induction xs arbitrary: i j)
  case (Cons x xs)
  have "set (f x) \<inter> set (f (xs ! n)) = {}" if "n < length xs" for n
  proof -
    have "set (f (xs ! n)) \<subseteq> set (concat (map f xs))" using nth_mem[OF that] by auto
    then show ?thesis using Cons.prems(1) by auto
  qed
  then show ?case using Cons.IH Cons.prems by (cases i; cases j) auto
qed simp

lemma after_untouched:
  assumes ok: "plan_ok st D plan" and i: "i < length plan" "k \<le> i" and p: "p \<in> set (footprint (fst (plan ! i)))"
  shows "after st plan D k p = D p"
  unfolding after_def
proof (rule fold_effect_outside)
  fix x assume "x \<in> set (take k plan)"
  then obtain j where j: "j < k" "j < length plan" "x = plan ! j" by (auto simp: in_set_conv_nth)
  have "set (footprint (fst (plan ! i))) \<inter> set (footprint (fst (plan ! j))) = {}"
    by (rule disjoint_footprints[of "\<lambda>x. footprint (fst x)"]) (use ok i j in \<open>simp_all add: plan_ok_def\<close>)
  then show "p \<notin> set (footprint (fst x))" using p j by blast
qed

lemma after_directory:
  assumes ok: "plan_ok st D plan" and "is_directory (D p)"
  shows "after st plan D k p = D p"
  unfolding after_def
proof (rule fold_effect_outside)
  fix x assume "x \<in> set (take k plan)"
  then have "planned_ok st D x" using ok in_set_takeD[of x k plan] by (auto simp: plan_ok_def list_all_iff)
  then show "p \<notin> set (footprint (fst x))" using footprint_no_directory assms(2) by blast
qed

lemma after_Suc: "k < length plan \<Longrightarrow> after st plan D (Suc k) = entry_effect st (plan ! k) (after st plan D k)"
  by (simp add: after_def take_Suc_conv_app_nth)

lemma after_0 [simp]: "after st plan D 0 = D"
  by (simp add: after_def)

section \<open>Undoing\<close>

definition restore :: "disk \<Rightarrow> fpath list \<Rightarrow> disk \<Rightarrow> disk" where
  "restore D ps D' = (\<lambda>p. if p \<in> set ps then D p else D' p)"

lemma restore_step:
  assumes "plan_ok st D plan" "i < length plan"
  shows "restore D (footprint (fst (plan ! i))) (after st plan D (Suc i)) = after st plan D i"
proof (rule ext)
  fix p
  show "restore D (footprint (fst (plan ! i))) (after st plan D (Suc i)) p = after st plan D i p"
    using after_untouched[OF assms(1,2) order_refl] effect_outside[of p "plan ! i" st]
    by (simp add: restore_def after_Suc[OF assms(2)])
qed

lemma restore_before:
  assumes "plan_ok st D plan" "i < length plan" "k \<le> i"
  shows "restore D (footprint (fst (plan ! i))) (after st plan D k) = after st plan D k"
proof (rule ext)
  fix p
  show "restore D (footprint (fst (plan ! i))) (after st plan D k) p = after st plan D k p"
    using after_untouched[OF assms] by (simp add: restore_def)
qed

text \<open>What an entry left on its paths.\<close>

lemma after_applied:
  assumes "plan_ok st D plan" "i < k" "k \<le> length plan" "p \<in> set (footprint (fst (plan ! i)))"
  shows "after st plan D k p = entry_effect st (plan ! i) (after st plan D i) p"
  using assms(2,3)
proof (induction k)
  case (Suc k)
  show ?case
  proof (cases "i = k")
    case True
    then show ?thesis using after_Suc[of k plan st D] Suc.prems by simp
  next
    case False
    have "set (footprint (fst (plan ! i))) \<inter> set (footprint (fst (plan ! k))) = {}"
      by (rule disjoint_footprints[of "\<lambda>x. footprint (fst x)"]) (use assms(1) Suc.prems False in \<open>simp_all add: plan_ok_def\<close>)
    then have "p \<notin> set (footprint (fst (plan ! k)))" using assms(4) by blast
    then show ?thesis using Suc False by (simp add: after_Suc effect_outside)
  qed
qed simp

end
