(* ===== verification/StoreUndo.thy ===== *)
theory StoreUndo
  imports StorePlan
begin

text \<open>
  Undoing what a transaction did: one entry, all entries in reverse, and the end of the transaction.
  Everything here is proved for a process that operations may fail or that may be stopped anywhere;
  for a calm world the same lemmas say that nothing fails.
\<close>

section \<open>What a record has to hold\<close>

definition core :: "journalEntry \<Rightarrow> journalEntry" where "core e = e\<lparr>jeTemp := None, jeBackup := None\<rparr>"

definition needs_backup :: "journalEntry \<Rightarrow> bool" where
  "needs_backup e \<longleftrightarrow> jeAction e \<in> {actionWrite, actionRemove} \<and> jeHadPrevious e"

definition unsealed :: "Storage \<Rightarrow> bytes \<Rightarrow> bytes option" where
  "unsealed st c = (case stUnseal st of None \<Rightarrow> Some c | Some unseal \<Rightarrow> unseal c)"

definition backup_holds :: "Storage \<Rightarrow> (fpath \<times> node) list \<Rightarrow> gostring \<Rightarrow> journalEntry \<Rightarrow> bytes \<Rightarrow> bool" where
  "backup_holds st bks identifier e previous \<longleftrightarrow> (case jeBackup e of None \<Rightarrow> True
     | Some b \<Rightarrow> needs_backup e \<and> b = backup_path st identifier (jePath e) \<and>
         (\<exists>c m. map_of bks b = Some (RegularFile c m) \<and>
            int (length c) \<le> 2 * PayloadLimit (drop (length (stRoot st)) (jePath e)) \<and> unsealed st c = Some previous))"

definition temp_holds :: "gostring \<Rightarrow> journalEntry \<Rightarrow> bool" where
  "temp_holds identifier e \<longleftrightarrow> (case jeTemp e of None \<Rightarrow> True
     | Some t \<Rightarrow> jeAction e = actionWrite \<and> (\<exists>name. t = butlast (jePath e) @ [temp_prefix identifier @ name]))"

definition entry_ok :: "Storage \<Rightarrow> (fpath \<times> node) list \<Rightarrow> gostring \<Rightarrow> planned_entry \<Rightarrow> journalEntry \<Rightarrow> bool" where
  "entry_ok st bks identifier x e \<longleftrightarrow>
     core e = fst x \<and> temp_holds identifier e \<and> backup_holds st bks identifier e (snd (snd x))"

text \<open>
  The record of a plan at any moment. Only an atomic record of writes can be read back
  (\<open>validateLoadedJournalEntry\<close>), which is the reason for the condition on \<open>jrAtomic\<close>.
\<close>

definition carries :: "Storage \<Rightarrow> (fpath \<times> node) list \<Rightarrow> planned_entry list \<Rightarrow> gostring \<Rightarrow> journalRecord \<Rightarrow> bool" where
  "carries st bks plan identifier r \<longleftrightarrow>
     jrID r = identifier \<and> validJournalIdentifier identifier \<and> jrVersion r = journalVersion \<and> jrOperation r \<noteq> [] \<and>
     jrStartedAt r \<noteq> 0 \<and> (jrAtomic r \<longrightarrow> list_all (\<lambda>x. jeAction (fst x) = actionWrite) plan) \<and> \<not> jrDiscardBackups r \<and> list_all2 (entry_ok st bks identifier) plan (jrEntries r) \<and>
     plan \<noteq> []"

lemma core_simps [simp]:
  "jeAction (core e) = jeAction e" "jePath (core e) = jePath e" "jeTarget (core e) = jeTarget e" "jeNoBackup (core e) = jeNoBackup e"
  "jeHadPrevious (core e) = jeHadPrevious e" "jeMode (core e) = jeMode e" "jePreviousMode (core e) = jePreviousMode e"
  "jeDigest (core e) = jeDigest e" "jePreviousDigest (core e) = jePreviousDigest e"
  "jeTemp (core e) = None" "jeBackup (core e) = None" "footprint (core e) = footprint e" "needs_backup (core e) = needs_backup e"
  "core (e\<lparr>jeTemp := t\<rparr>) = core e" "core (e\<lparr>jeBackup := t\<rparr>) = core e"
  by (simp_all add: core_def footprint_def needs_backup_def)

section \<open>One entry\<close>

definition undoable :: "disk \<Rightarrow> journalEntry \<Rightarrow> disk \<Rightarrow> bool" where
  "undoable D e D' \<longleftrightarrow>
     (\<forall>p \<in> set (footprint e). is_directory (D' (butlast p)) \<and> \<not> is_directory (D' p)) \<and>
     (case jeAction e of
        actionWrite \<Rightarrow> jeHadPrevious e \<longrightarrow> jeBackup e \<noteq> None \<or> (sameContentsWrite e \<and> D' (jePath e) = D (jePath e))
      | actionRemove \<Rightarrow> jeBackup e \<noteq> None
      | actionMove \<Rightarrow> D' (jePath e) = None \<and> (\<forall>t. jeTarget e = Some t \<longrightarrow> D' t = D (jePath e))
      | _ \<Rightarrow> False)"

lemma directory_of_files: "is_directory (files_of st w p) \<Longrightarrow> is_directory (nodes w p)"
  by (cases "visible p") (simp_all add: files_of_def seen_directory, simp add: seen_def)

lemma files_directory: "visible p \<Longrightarrow> is_directory (files_of st w p) = is_directory (nodes w p)"
  by (simp add: files_of_def seen_directory)

lemma moveFile_is_Rename: "moveFile st a b = Rename a b"
  by (simp add: moveFile_def MovePrivate_def)

text \<open>Reading a backup gives what was there before.\<close>

lemma drop_backup_path: "drop (length (backupRoot st i)) (backup_path st i p) = drop (length (stRoot st)) p"
  by (simp add: backup_path_def)

lemma backup_path_readable:
  assumes "validJournalIdentifier i" "Contains (stRoot st) p" "p \<noteq> stRoot st"
  shows "validBackupReadPath st (backup_path st i p)"
proof -
  have "drop (length (stRoot st)) p \<noteq> []" using assms(2,3) by (auto simp: Contains_def)
  then show ?thesis
    using assms(1) by (auto simp: validBackupReadPath_def Let_def backup_path_def backupRoot_def Contains_def nth_append Suc_le_eq)
qed

lemma wp_previousReader:
  assumes b: "jeBackup e = Some b" and h: "backup_holds st (wdBackups w) i e previous"
    and i: "validJournalIdentifier i" "jrID r = i" "\<not> jrDiscardBackups r"
    and p: "Contains (stRoot st) (jePath e)" "jePath e \<noteq> stRoot st"
  shows "wp (previousReader st r (jeBackup e)) (\<lambda>c w'. still w w' \<and> c = previous)
     (\<lambda>_ w'. still w w' \<and> wdOutcomes w \<noteq> []) (\<lambda>w'. still w w' \<and> wdOutcomes w \<noteq> []) w"
proof -
  obtain c m where c: "map_of (wdBackups w) b = Some (RegularFile c m)" "unsealed st c = Some previous" "b = backup_path st i (jePath e)"
     "int (length c) \<le> 2 * PayloadLimit (drop (length (stRoot st)) (jePath e))"
    using h b by (auto simp: backup_holds_def)
  have v: "validBackupReadPath st b" unfolding c(3) by (rule backup_path_readable[OF i(1) p])
  have bks: "wdBackups w' = wdBackups w" if "still w w'" for w' using that by (simp add: still_def keeps_def)
  have rd: "wp (ReadBackupFile st i b) (\<lambda>x w'. still w w' \<and> x = c) (\<lambda>_ w'. still w w' \<and> wdOutcomes w \<noteq> [])
     (\<lambda>w'. still w w' \<and> wdOutcomes w \<noteq> []) w"
    unfolding ReadBackupFile_def wp_chain[of operation]
  proof (rule wp_op)
    fix w' assume s: "still w w'"
    have lim: "int (length c) \<le> 2 * PayloadLimit (drop (length (backupRoot st i)) b)"
      using c(4) unfolding c(3) drop_backup_path .
    show "wp (chain (get (\<lambda>w. map_of (wdBackups w) b)) (\<lambda>n. case n of
        None \<Rightarrow> failing ErrNotExist
      | Some (RegularFile contents _) \<Rightarrow>
          (if int (length contents) > 2 * PayloadLimit (drop (length (backupRoot st i)) b) then failing ErrFileTooLarge else ret contents)
      | Some _ \<Rightarrow> failing ErrNotRegularFile))
     (\<lambda>x w'. still w w' \<and> x = c) (\<lambda>_ w'. still w w' \<and> wdOutcomes w \<noteq> []) (\<lambda>w'. still w w' \<and> wdOutcomes w \<noteq> []) w'"
      using lim s by (simp add: bks[OF s] c(1))
  qed simp_all
  show ?thesis
  proof (cases "stUnseal st")
    case None
    then have "previousReader st r (jeBackup e) = chain (ReadBackupFile st i b) ret" using v i
      by (simp add: previousReader_def b ReadBackup_def)
    then show ?thesis using c(2) None by (simp add: unsealed_def, intro wp_mono[OF rd]) simp_all
  next
    case (Some unseal)
    then have "previousReader st r (jeBackup e) = chain (ReadBackupFile st i b)
       (\<lambda>contents. case unseal contents of None \<Rightarrow> failing ErrUnseal | Some plaintext \<Rightarrow> ret plaintext)"
      using v i by (simp add: previousReader_def b ReadBackup_def)
    then show ?thesis using c(2) Some by (simp add: unsealed_def, intro wp_mono[OF rd]) simp_all
  qed
qed

text \<open>The state between two operations of a rollback: nothing of the record or the journal moves.\<close>

definition holds_files :: "Storage \<Rightarrow> World \<Rightarrow> disk set \<Rightarrow> World \<Rightarrow> bool" where
  "holds_files st w Ds w' \<longleftrightarrow> keeps w w' \<and> tidy w' \<and> files_of st w' \<in> Ds"

lemma holds_files_still: "tidy w \<Longrightarrow> still w w' \<Longrightarrow> files_of st w \<in> Ds \<Longrightarrow> holds_files st w Ds w'"
  using tidy_nodes[of w' w] by (simp add: holds_files_def still_keeps nodes_still files_of_def)

lemma holds_files_trans: "holds_files st u Ds v \<Longrightarrow> holds_files st v Es w \<Longrightarrow> Es \<subseteq> Ds \<Longrightarrow> holds_files st u Ds w"
  by (auto simp: holds_files_def intro: keeps_trans)

lemma wp_SyncDir_holds:
  assumes "holds_files st w {D} w1" "\<And>n. calm n w0 \<Longrightarrow> calm (f n) w1"
  shows "wp (SyncDir p) (\<lambda>_ w'. holds_files st w {D} w' \<and> (\<forall>n. calm n w0 \<longrightarrow> calm (f n) w'))
     (\<lambda>_ w'. holds_files st w {D} w' \<and> wdOutcomes w \<noteq> []) (\<lambda>w'. holds_files st w {D} w' \<and> wdOutcomes w \<noteq> []) w1"
proof (rule wp_mono[OF looks_surelyD[OF SyncDir_surely]])
  have t: "tidy w1" "files_of st w1 \<in> {D}" using assms(1) by (simp_all add: holds_files_def)
  have h: "holds_files st w {D} w'" if "still w1 w'" for w'
    by (rule holds_files_trans[OF assms(1) holds_files_still[OF t(1) that t(2)]]) simp
  have o: "wdOutcomes w1 \<noteq> [] \<Longrightarrow> wdOutcomes w \<noteq> []" using assms(1) by (auto simp: holds_files_def keeps_def)
  show "holds_files st w {D} w' \<and> (\<forall>n. calm n w0 \<longrightarrow> calm (f n) w')" if "still w1 w' \<and> x = ()" for x w'
    using that h assms(2) calm_still by blast
  show "holds_files st w {D} w' \<and> wdOutcomes w \<noteq> []" if "still w1 w' \<and> wdOutcomes w1 \<noteq> []" for w'
    using that h o by blast
  then show "holds_files st w {D} w' \<and> wdOutcomes w \<noteq> []" if "still w1 w' \<and> wdOutcomes w1 \<noteq> []" for e :: store_failure and w'
    using that by blast
qed

lemma wp_writeFile_holds:
  assumes s: "still w w1" and tidy: "tidy w" and vis: "visible p" and free: "\<not> is_directory (nodes w p)" and dir: "is_directory (nodes w (butlast p))"
  shows "wp (writeFile p c m)
     (\<lambda>_ w'. holds_files st w {(files_of st w)(p := Some (view_node st (RegularFile c m)))} w' \<and> (\<forall>n. calm (Suc n) w \<longrightarrow> calm n w'))
     (\<lambda>_ w'. holds_files st w {files_of st w, (files_of st w)(p := Some (view_node st (RegularFile c m)))} w' \<and> \<not> calm 1 w)
     (\<lambda>w'. holds_files st w {files_of st w, (files_of st w)(p := Some (view_node st (RegularFile c m)))} w' \<and> wdOutcomes w \<noteq> []) w1"
proof (rule wp_mono[OF wp_writeFile[of p w1 c m st]])
  have n1: "nodes w1 = nodes w" by (rule nodes_still[OF s])
  have f1: "files_of st w1 = files_of st w" by (simp add: files_of_def n1)
  have o1: "wdOutcomes w1 \<noteq> [] \<Longrightarrow> wdOutcomes w \<noteq> []" using still_empty[OF s] by blast
  show "visible p" by (rule vis)
  show "tidy w1" using tidy tidy_nodes[OF n1] by simp
  show "\<not> is_directory (nodes w1 p)" using free n1 by simp
  fix w'
  show "holds_files st w {(files_of st w)(p := Some (view_node st (RegularFile c m)))} w' \<and> (\<forall>n. calm (Suc n) w \<longrightarrow> calm n w')"
    if "keeps w1 w' \<and> tidy w' \<and> files_of st w' = (files_of st w1)(p := Some (view_node st (RegularFile c m))) \<and>
        (\<forall>n. calm (Suc n) w1 \<longrightarrow> calm n w')"
    using that f1 keeps_trans[OF still_keeps[OF s]] calm_still[OF s] by (auto simp: holds_files_def)
  show "holds_files st w {files_of st w, (files_of st w)(p := Some (view_node st (RegularFile c m)))} w' \<and> \<not> calm 1 w"
    if "keeps w1 w' \<and> tidy w' \<and> files_of st w' \<in> {files_of st w1, (files_of st w1)(p := Some (view_node st (RegularFile c m)))} \<and>
        \<not> (calm 1 w1 \<and> is_directory (nodes w1 (butlast p)))"
    using that f1 n1 dir keeps_trans[OF still_keeps[OF s]] calm_still[OF s] by (auto simp: holds_files_def)
  show "holds_files st w {files_of st w, (files_of st w)(p := Some (view_node st (RegularFile c m)))} w' \<and> wdOutcomes w \<noteq> []"
    if "keeps w1 w' \<and> tidy w' \<and> files_of st w' \<in> {files_of st w1, (files_of st w1)(p := Some (view_node st (RegularFile c m)))} \<and>
        wdOutcomes w1 \<noteq> []"
    using that f1 o1 keeps_trans[OF still_keeps[OF s]] by (auto simp: holds_files_def)
qed

lemma calm_outcomes: "calm n w \<Longrightarrow> wdOutcomes w = []"
  by (simp add: calm_def)

lemma calm_visible_change:
  assumes "keeps w w'" "wdNames w' = wdNames w" "\<And>p. \<not> visible p \<Longrightarrow> nodes w p = None \<Longrightarrow> nodes w' p = None" "calm n w"
  shows "calm n w'"
  by (rule calm_mono[OF assms(4)]) (use assms in \<open>auto simp: keeps_def calm_def\<close>)

lemma wp_removeCreatedFile:
  assumes tidy: "tidy w" and vis: "visible (jePath e)" and free: "\<not> is_directory (nodes w (jePath e))"
  shows "wp (removeCreatedFile e)
     (\<lambda>_ w'. holds_files st w {(files_of st w)(jePath e := None)} w' \<and> (\<forall>n. calm (Suc n) w \<longrightarrow> calm n w'))
     (\<lambda>_ w'. holds_files st w {files_of st w, (files_of st w)(jePath e := None)} w' \<and> \<not> calm 1 w)
     (\<lambda>w'. holds_files st w {files_of st w, (files_of st w)(jePath e := None)} w' \<and> wdOutcomes w \<noteq> []) w"
  unfolding removeCreatedFile_def wp_chain
proof (rule wp_mono[OF wp_Remove_ignoring])
  let ?p = "jePath e"
  show "wp (SyncDir (butlast ?p)) (\<lambda>_ w'. holds_files st w {(files_of st w)(?p := None)} w' \<and> (\<forall>n. calm (Suc n) w \<longrightarrow> calm n w'))
     (\<lambda>_ w'. holds_files st w {files_of st w, (files_of st w)(?p := None)} w' \<and> \<not> calm 1 w)
     (\<lambda>w'. holds_files st w {files_of st w, (files_of st w)(?p := None)} w' \<and> wdOutcomes w \<noteq> []) w1"
    if a: "keeps w w1 \<and> wdNames w1 = wdNames w \<and> nodes w1 = (nodes w)(?p := None)" for w1
  proof -
    have h: "holds_files st w {(files_of st w)(?p := None)} w1"
      using a tidy_put[OF tidy, of w1 ?p None] vis by (simp add: holds_files_def files_of_def seen_drop)
    have c: "calm n w \<Longrightarrow> calm n w1" for n
      by (rule calm_visible_change[of w]) (use a in auto)
    show ?thesis
      by (rule wp_mono[OF wp_SyncDir_holds[OF h, of w "\<lambda>n. n"]]) (use c calm_less in \<open>auto simp: holds_files_def calm_def\<close>)
  qed
  show "holds_files st w {files_of st w, (files_of st w)(?p := None)} w1 \<and> \<not> calm 1 w"
    if "still w w1 \<and> (wdOutcomes w = [] \<longrightarrow> is_directory (nodes w ?p))" for w1
    using that free holds_files_still[OF tidy, of w1 st] by (auto simp: calm_def)
  show "holds_files st w {files_of st w, (files_of st w)(?p := None)} w1 \<and> wdOutcomes w \<noteq> []"
    if "still w w1 \<and> wdOutcomes w \<noteq> []" for w1
    using that holds_files_still[OF tidy, of w1 st] by auto
qed

lemma wp_rollbackMove:
  assumes t: "jeTarget e = Some t" and tidy: "tidy w" and vis: "visible (jePath e)" "visible t"
    and n: "nodes w t \<noteq> None" "\<not> is_directory (nodes w t)" "\<not> is_directory (nodes w (jePath e))" "is_directory (nodes w (butlast (jePath e)))"
  shows "wp (rollbackMove st e)
     (\<lambda>_ w'. holds_files st w {(files_of st w)(t := None, jePath e := files_of st w t)} w' \<and> (\<forall>n. calm (Suc n) w \<longrightarrow> calm n w'))
     (\<lambda>_ w'. holds_files st w {files_of st w, (files_of st w)(t := None, jePath e := files_of st w t)} w' \<and> \<not> calm 1 w)
     (\<lambda>w'. holds_files st w {files_of st w, (files_of st w)(t := None, jePath e := files_of st w t)} w' \<and> wdOutcomes w \<noteq> []) w"
    (is "wp _ ?Q ?R ?S w")
  unfolding rollbackMove_def t option.case Let_def moveFile_is_Rename wp_chain
proof (rule wp_mono[OF wp_Rename])
  let ?p = "jePath e" let ?new = "(files_of st w)(t := None, jePath e := files_of st w t)"
  show "wp (SyncDir (butlast t)) (\<lambda>_. wp (SyncDir (butlast ?p)) ?Q ?R ?S) ?R ?S w1"
    if a: "keeps w w1 \<and> wdNames w1 = wdNames w \<and>
       (\<exists>n. nodes w t = Some n \<and> \<not> is_directory (Some n) \<and> nodes w1 = (nodes w)(t := None, ?p := Some n))" for w1
  proof -
    obtain n where n1: "nodes w t = Some n" "\<not> is_directory (Some n)" "nodes w1 = (nodes w)(t := None, ?p := Some n)" using a by blast
    have new: "files_of st w1 = ?new"
      using vis n1(1) by (simp add: files_of_def n1(3) seen_put seen_drop, simp add: seen_def)
    have h: "holds_files st w {?new} w1"
      using a new tidy_put[OF tidy, of "drop_node t w" t None] tidy_put[of "drop_node t w" w1 ?p "Some n"] vis n1
      by (simp add: holds_files_def)
    have c: "calm n w \<Longrightarrow> calm n w1" for n
      by (rule calm_visible_change[of w]) (use a vis n1(3) in auto)
    show ?thesis
    proof (rule wp_mono[OF wp_SyncDir_holds[OF h, of w "\<lambda>n. n"]])
      show "wp (SyncDir (butlast ?p)) ?Q ?R ?S w2" if "holds_files st w {?new} w2 \<and> (\<forall>n. calm n w \<longrightarrow> calm n w2)" for w2
        by (rule wp_mono[OF wp_SyncDir_holds[of st w ?new w2 w "\<lambda>n. n"]]) (use that calm_less in \<open>auto simp: holds_files_def calm_def\<close>)
    qed (use c in \<open>auto simp: holds_files_def calm_def\<close>)
  qed
  show "?R e' w1" if "still w w1 \<and> (wdOutcomes w = [] \<longrightarrow> nodes w t = None \<or> is_directory (nodes w t) \<or>
        is_directory (nodes w ?p) \<or> \<not> is_directory (nodes w (butlast ?p)))" for e' w1
    using that n holds_files_still[OF tidy, of w1 st] by (auto simp: calm_def)
  show "?S w1" if "still w w1 \<and> wdOutcomes w \<noteq> []" for w1
    using that holds_files_still[OF tidy, of w1 st] by auto
qed

text \<open>What was there is written again, from the backup or from the file itself.\<close>

lemma wp_restorePrevious:
  assumes tidy: "tidy w" and place: "place_ok st D0 (jePath e)"
    and before: "file_before st D0 (jePath e) previous m digest"
      "m = (if jeAction e = actionWrite then jePreviousMode e else jeMode e)"
    and backup: "backup_holds st (wdBackups w) i e previous" "validJournalIdentifier i" "jrID r = i" "\<not> jrDiscardBackups r"
    and avail: "jeBackup e \<noteq> None \<or> (sameContentsWrite e \<and> files_of st w (jePath e) = D0 (jePath e))"
    and n: "\<not> is_directory (nodes w (jePath e))" "is_directory (nodes w (butlast (jePath e)))"
  shows "wp (restorePrevious st r e)
     (\<lambda>_ w'. holds_files st w {(files_of st w)(jePath e := D0 (jePath e))} w' \<and> (\<forall>n. calm (Suc n) w \<longrightarrow> calm n w'))
     (\<lambda>_ w'. holds_files st w {files_of st w, (files_of st w)(jePath e := D0 (jePath e))} w' \<and> \<not> calm 1 w)
     (\<lambda>w'. holds_files st w {files_of st w, (files_of st w)(jePath e := D0 (jePath e))} w' \<and> wdOutcomes w \<noteq> []) w"
    (is "wp _ ?Q ?R ?S w")
proof -
  let ?p = "jePath e"
  have vis: "visible ?p" using place by (simp add: place_ok_def)
  have view: "Some (view_node st (RegularFile previous m)) = D0 ?p" using before by (simp add: file_before_def)
  have wr: "wp (writeFile ?p previous m) ?Q ?R ?S w1" if "still w w1" for w1
    using wp_writeFile_holds[OF that tidy vis n, of previous m st] unfolding view .
  have unchanged: "?R x w1" "?S w1" if "still w w1" "wdOutcomes w \<noteq> []" for x :: store_failure and w1
    using that holds_files_still[OF tidy that(1), of st] by (auto simp: calm_def)
  show ?thesis
  proof (cases "jeBackup e")
    case (Some b)
    have "wp (chain (previousReader st r (jeBackup e)) (\<lambda>c. writeFile ?p c (if jeAction e = actionWrite then jePreviousMode e else jeMode e))) ?Q ?R ?S w"
      unfolding wp_chain
    proof (rule wp_mono[OF wp_previousReader[OF Some backup]])
      show "Contains (stRoot st) ?p" "?p \<noteq> stRoot st" using place by (simp_all add: place_ok_def)
    qed (use wr before(2) unchanged in auto)
    then show ?thesis by (simp only: restorePrevious_def Some) simp
  next
    case None
    then have same: "sameContentsWrite e" and now: "files_of st w ?p = D0 ?p" using avail by auto
    have act: "jeAction e = actionWrite" using same by (simp add: sameContentsWrite_def)
    show ?thesis
    proof (cases "noOpWrite e")
      case True
      have "(files_of st w)(?p := D0 ?p) = files_of st w" using now by (simp add: fun_upd_idem)
      then show ?thesis using True None holds_files_still[OF tidy still_refl, of st "{files_of st w}"]
        by (simp add: restorePrevious_def calm_less)
    next
      case False
      have old: "\<exists>m'. nodes w ?p = Some (RegularFile previous m')"
        using now vis unfolding view[symmetric]
        by (cases "nodes w ?p") (auto simp: files_of_def seen_def view_node_def split: node.splits)
      have rd: "readable st ?p (nodes w)" using old before(1) by (auto simp: readable_iff file_before_def)
      have "wp (chain (ReadTransactionFile st ?p) (\<lambda>contents. writeFile ?p contents (jePreviousMode e))) ?Q ?R ?S w"
        unfolding wp_chain
      proof (rule wp_reads[OF reads_ReadTransactionFile])
        fix x w1 assume s: "still w w1" and "int (length x) \<le> TransactionFileLimit st ?p \<and> (\<exists>m. nodes w ?p = Some (RegularFile x m))"
        then have "x = previous" using old by auto
        then show "wp (writeFile ?p x (jePreviousMode e)) ?Q ?R ?S w1" using wr[OF s] before(2) act by simp
      qed (use unchanged rd in auto)
      then show ?thesis using None False same by (simp only: restorePrevious_def) simp
    qed
  qed
qed

lemma restore_one: "restore D [p] D' = D'(p := D p)"
  by (rule ext) (simp add: restore_def)

lemma restore_two: "restore D [p, q] D' = D'(q := D q, p := D p)"
  by (rule ext) (simp add: restore_def)

lemma wp_rollbackEntry:
  assumes tidy: "tidy w" and ok: "planned_ok st D0 x" and e: "entry_ok st (wdBackups w) i x e"
    and r: "validJournalIdentifier i" "jrID r = i" "\<not> jrDiscardBackups r"
    and undo: "undoable D0 e (files_of st w)"
  shows "wp (rollbackEntry st r e)
     (\<lambda>_ w'. holds_files st w {restore D0 (footprint e) (files_of st w)} w' \<and> (\<forall>n. calm (Suc n) w \<longrightarrow> calm n w'))
     (\<lambda>_ w'. holds_files st w {files_of st w, restore D0 (footprint e) (files_of st w)} w' \<and> \<not> calm 1 w)
     (\<lambda>w'. holds_files st w {files_of st w, restore D0 (footprint e) (files_of st w)} w' \<and> wdOutcomes w \<noteq> []) w"
proof -
  obtain e0 s previous where x: "x = (e0, s, previous)" by (cases x)
  have c: "core e = e0" and bh: "backup_holds st (wdBackups w) i e previous" using e by (simp_all add: entry_ok_def x)
  have fields: "jeAction e0 = jeAction e" "jePath e0 = jePath e" "jeTarget e0 = jeTarget e" "jeHadPrevious e0 = jeHadPrevious e"
    "jeMode e0 = jeMode e" "jePreviousMode e0 = jePreviousMode e" "jeDigest e0 = jeDigest e" "jePreviousDigest e0 = jePreviousDigest e"
    "footprint e0 = footprint e"
    using c by auto
  have place: "place_ok st D0 p" if "p \<in> set (footprint e)" for p
    using ok that by (simp add: planned_ok_def Let_def x list_all_iff fields)
  have vis: "visible p" if "p \<in> set (footprint e)" for p using place[OF that] by (simp add: place_ok_def)
  have dirs: "\<not> is_directory (nodes w p)" "is_directory (nodes w (butlast p))" if "p \<in> set (footprint e)" for p
    using undo that vis[OF that] directory_of_files[of st w "butlast p"] by (auto simp: undoable_def files_directory)
  have self: "jePath e \<in> set (footprint e)" by (simp add: footprint_def)
  have ok': "planned_ok st D0 (e0, s, previous)" using ok x by simp
  from ok' show ?thesis
  proof (cases rule: planned_cases)
    case write_new
    then have "jeTarget e = None" "D0 (jePath e) = None" "\<not> jeHadPrevious e" by (auto simp: write_planned_def fields)
    then show ?thesis using wp_removeCreatedFile[OF tidy vis[OF self] dirs(1)[OF self], of st] write_new
      by (simp add: rollbackEntry_def fields footprint_def restore_one)
  next
    case write_over
    then have "jeTarget e = None" and before: "file_before st D0 (jePath e) previous (jePreviousMode e) (jePreviousDigest e)"
      by (auto simp: write_planned_def fields)
    then show ?thesis
      using wp_restorePrevious[OF tidy place[OF self] before _ bh r _ dirs[OF self]] undo write_over
      by (simp add: rollbackEntry_def fields footprint_def restore_one undoable_def)
  next
    case removal
    then have "jeTarget e = None" "jeHadPrevious e" and before: "file_before st D0 (jePath e) previous (jeMode e) (jeDigest e)"
      by (auto simp: removal_planned_def fields)
    then show ?thesis
      using wp_restorePrevious[OF tidy place[OF self] before _ bh r _ dirs[OF self]] undo removal
      by (simp add: rollbackEntry_def fields footprint_def restore_one undoable_def)
  next
    case move
    then obtain t cc where t: "jeTarget e = Some t" "D0 t = None" "D0 (jePath e) = Some (view_node st (RegularFile cc (jeMode e)))"
      by (auto simp: move_planned_def fields file_before_def)
    have tf: "t \<in> set (footprint e)" using t by (simp add: footprint_def)
    have now: "files_of st w t = D0 (jePath e)" using undo move t by (simp add: undoable_def fields)
    then have "nodes w t \<noteq> None" using t vis[OF tf] by (auto simp: files_of_def seen_def)
    then have "wp (rollbackMove st e)
     (\<lambda>_ w'. holds_files st w {(files_of st w)(t := None, jePath e := D0 (jePath e))} w' \<and> (\<forall>n. calm (Suc n) w \<longrightarrow> calm n w'))
     (\<lambda>_ w'. holds_files st w {files_of st w, (files_of st w)(t := None, jePath e := D0 (jePath e))} w' \<and> \<not> calm 1 w)
     (\<lambda>w'. holds_files st w {files_of st w, (files_of st w)(t := None, jePath e := D0 (jePath e))} w' \<and> wdOutcomes w \<noteq> []) w"
      using wp_rollbackMove[OF t(1) tidy vis[OF self] vis[OF tf] _ dirs(1)[OF tf] dirs(1)[OF self] dirs(2)[OF self], of st]
      unfolding now by simp
    then show ?thesis using move t by (simp add: rollbackEntry_def fields footprint_def restore_two)
  qed
qed

section \<open>All entries\<close>

lemma entry_at:
  assumes "carries st bks plan i r" "k < length plan"
  shows "k < length (jrEntries r)" "entry_ok st bks i (plan ! k) (jrEntries r ! k)"
    "footprint (jrEntries r ! k) = footprint (fst (plan ! k))"
proof -
  show l: "k < length (jrEntries r)" and e: "entry_ok st bks i (plan ! k) (jrEntries r ! k)"
    using assms by (auto simp: carries_def list_all2_conv_all_nth)
  show "footprint (jrEntries r ! k) = footprint (fst (plan ! k))" using e by (metis entry_ok_def core_simps(12))
qed

lemma carries_length: "carries st bks plan i r \<Longrightarrow> length (jrEntries r) = length plan"
  by (auto simp: carries_def dest: list_all2_lengthD)

lemma planned_nth: "plan_ok st D plan \<Longrightarrow> k < length plan \<Longrightarrow> planned_ok st D (plan ! k)"
  by (simp add: plan_ok_def list_all_iff)

lemma after_no_directory:
  assumes ok: "plan_ok st D plan" and i: "i < length plan" and p: "p \<in> set (footprint (fst (plan ! i)))" and k: "k \<le> length plan"
  shows "\<not> is_directory (after st plan D k p)"
proof (cases "i < k")
  case False
  then show ?thesis using after_untouched[OF ok i _ p] footprint_no_directory[OF planned_nth[OF ok i] p] by simp
next
  case True
  obtain e s previous where x: "plan ! i = (e, s, previous)" by (cases "plan ! i")
  have un: "after st plan D i q = D q" if "q \<in> set (footprint e)" for q using after_untouched[OF ok i order_refl] that x by simp
  have nd: "\<not> is_directory (D q)" if "q \<in> set (footprint e)" for q
    using footprint_no_directory[OF planned_nth[OF ok i]] that x by simp
  show ?thesis unfolding after_applied[OF ok True k p]
    using nd p unfolding x
    by (auto simp: entry_effect_def view_node_def footprint_def un split: action.splits option.splits)
qed

lemma after_parent:
  assumes ok: "plan_ok st D plan" and i: "i < length plan" and p: "p \<in> set (footprint (fst (plan ! i)))"
  shows "is_directory (after st plan D k (butlast p))"
proof -
  have "place_ok st D p" using planned_nth[OF ok i] p by (auto simp: planned_ok_def Let_def list_all_iff)
  then show ?thesis using after_directory[OF ok] by (simp add: place_ok_def)
qed

definition has_backups :: "journalRecord \<Rightarrow> nat \<Rightarrow> bool" where
  "has_backups r k \<longleftrightarrow> (\<forall>i < k. needs_backup (jrEntries r ! i) \<longrightarrow> jeBackup (jrEntries r ! i) \<noteq> None)"

lemma undoable_applied:
  assumes ok: "plan_ok st D plan" and c: "carries st bks plan i r" and k: "k < length plan" and b: "has_backups r (Suc k)"
  shows "undoable D (jrEntries r ! k) (after st plan D (Suc k))"
proof -
  let ?e = "jrEntries r ! k"
  obtain e s previous where x: "plan ! k = (e, s, previous)" by (cases "plan ! k")
  have e: "core ?e = e" and fp: "footprint ?e = footprint (fst (plan ! k))" using entry_at[OF c k] x by (simp_all add: entry_ok_def)
  have fields: "jeAction e = jeAction ?e" "jePath e = jePath ?e" "jeTarget e = jeTarget ?e" "jeHadPrevious e = jeHadPrevious ?e"
    using e by auto
  have nb: "needs_backup ?e \<Longrightarrow> jeBackup ?e \<noteq> None" using b by (simp add: has_backups_def)
  have un: "after st plan D k q = D q" if "q \<in> set (footprint ?e)" for q using after_untouched[OF ok k order_refl] that fp by simp
  have dirs: "is_directory (after st plan D (Suc k) (butlast p)) \<and> \<not> is_directory (after st plan D (Suc k) p)"
    if "p \<in> set (footprint ?e)" for p
    using that after_parent[OF ok k] after_no_directory[OF ok k] k fp by simp
  have "planned_ok st D (e, s, previous)" using planned_nth[OF ok k] x by simp
  then show ?thesis
  proof (cases rule: planned_cases)
    case move
    then obtain t where t: "jeTarget ?e = Some t" "D t = None" "D (jePath ?e) \<noteq> None"
      by (auto simp: move_planned_def fields file_before_def)
    have "after st plan D (Suc k) = (after st plan D k)(jePath ?e := None, t := after st plan D k (jePath ?e))"
      using move t(1) by (simp add: after_Suc[OF k] x entry_effect_def fields)
    moreover have "after st plan D k (jePath ?e) = D (jePath ?e)" by (rule un) (simp add: footprint_def)
    moreover have "t \<noteq> jePath ?e" using t by auto
    ultimately show ?thesis using dirs move t by (simp add: undoable_def fields)
  qed (use dirs nb in \<open>auto simp: undoable_def needs_backup_def fields removal_planned_def\<close>)
qed

lemma undoable_neutral:
  assumes ok: "plan_ok st D plan" and c: "carries st bks plan i r" and k: "j \<le> k" "k < length plan"
    and neutral: "sameContentsWrite (jrEntries r ! k)"
  shows "undoable D (jrEntries r ! k) (after st plan D j)"
proof -
  let ?e = "jrEntries r ! k"
  have fp: "footprint ?e = footprint (fst (plan ! k))" by (rule entry_at(3)[OF c k(2)])
  have dirs: "is_directory (after st plan D j (butlast p)) \<and> \<not> is_directory (after st plan D j p)"
    if "p \<in> set (footprint ?e)" for p
    using that after_parent[OF ok k(2)] after_no_directory[OF ok k(2)] k fp by simp
  have "after st plan D j (jePath ?e) = D (jePath ?e)"
    by (rule after_untouched[OF ok k(2,1)]) (simp add: fp[symmetric], simp add: footprint_def)
  then show ?thesis using dirs neutral by (simp add: undoable_def sameContentsWrite_def)
qed

lemma wp_rollback_entries:
  assumes tidy: "tidy w" and ok: "plan_ok st D plan" and c: "carries st (wdBackups w) plan i r"
    and kh: "k \<le> h" "h \<le> length plan" and files: "files_of st w = after st plan D k"
    and b: "has_backups r k" and neutral: "\<And>j. k \<le> j \<Longrightarrow> j < h \<Longrightarrow> sameContentsWrite (jrEntries r ! j)"
  shows "wp (each (rollbackEntry st r) (rev (take h (jrEntries r))))
     (\<lambda>_ w'. holds_files st w {D} w' \<and> (calm h w \<longrightarrow> calm 0 w'))
     (\<lambda>_ w'. holds_files st w {after st plan D j |j. j \<le> k} w' \<and> \<not> calm h w)
     (\<lambda>w'. holds_files st w {after st plan D j |j. j \<le> k} w' \<and> wdOutcomes w \<noteq> []) w" (is "wp _ ?Q ?R ?S w")
proof (rule wp_each[where I = "\<lambda>xs w'. \<exists>n \<le> h. xs = rev (take n (jrEntries r)) \<and> holds_files st w {after st plan D (min n k)} w' \<and> (calm h w \<longrightarrow> calm n w')"])
  show "\<exists>n\<le>h. rev (take h (jrEntries r)) = rev (take n (jrEntries r)) \<and> holds_files st w {after st plan D (min n k)} w \<and> (calm h w \<longrightarrow> calm n w)"
    using kh files tidy by (intro exI[of _ h]) (simp add: holds_files_def min_def)
next
  fix x ys w1
  assume "\<exists>n\<le>h. x # ys = rev (take n (jrEntries r)) \<and> holds_files st w {after st plan D (min n k)} w1 \<and> (calm h w \<longrightarrow> calm n w1)"
  then obtain n where n: "n \<le> h" "x # ys = rev (take n (jrEntries r))" "holds_files st w {after st plan D (min n k)} w1" "calm h w \<longrightarrow> calm n w1"
    by blast
  then obtain m where m: "n = Suc m" by (cases n) auto
  have ml: "m < length plan" using n m kh by simp
  then have "take n (jrEntries r) = take m (jrEntries r) @ [jrEntries r ! m]"
    using carries_length[OF c] m by (simp add: take_Suc_conv_app_nth)
  then have xs: "x = jrEntries r ! m" "ys = rev (take m (jrEntries r))" using n(2) by simp_all
  have w1: "tidy w1" "files_of st w1 = after st plan D (min n k)" "wdBackups w1 = wdBackups w" "keeps w w1"
    using n(3) by (simp_all add: holds_files_def keeps_def)
  have o1: "wdOutcomes w1 \<noteq> [] \<Longrightarrow> wdOutcomes w \<noteq> []" using w1(4) keeps_calm by blast
  have e: "entry_ok st (wdBackups w1) i (plan ! m) x" using entry_at[OF c ml] xs w1(3) by simp
  have r: "validJournalIdentifier i" "jrID r = i" "\<not> jrDiscardBackups r" using c by (simp_all add: carries_def)
  have undo: "undoable D x (files_of st w1)"
  proof (cases "m < k")
    case True
    then have "has_backups r (Suc m)" using b by (simp add: has_backups_def)
    moreover have "min n k = Suc m" using True m by simp
    ultimately show ?thesis using undoable_applied[OF ok c ml] w1(2) xs by simp
  next
    case False
    then have "min n k = k" using m by simp
    then show ?thesis using undoable_neutral[OF ok c _ ml, of k] neutral[of m] False n m w1(2) xs by simp
  qed
  have eq: "restore D (footprint x) (files_of st w1) = after st plan D (min m k)"
  proof (cases "m < k")
    case True
    then have "min n k = Suc m" "min m k = m" using m by simp_all
    then show ?thesis using restore_step[OF ok ml] entry_at(3)[OF c ml] xs w1(2) by simp
  next
    case False
    then have "min n k = k" "min m k = k" using m by simp_all
    then show ?thesis using restore_before[OF ok ml, of k] False entry_at(3)[OF c ml] xs w1(2) by simp
  qed
  have step: "wp (rollbackEntry st r x)
     (\<lambda>_ w'. holds_files st w1 {after st plan D (min m k)} w' \<and> (\<forall>n. calm (Suc n) w1 \<longrightarrow> calm n w'))
     (\<lambda>_ w'. holds_files st w1 {after st plan D (min n k), after st plan D (min m k)} w' \<and> \<not> calm 1 w1)
     (\<lambda>w'. holds_files st w1 {after st plan D (min n k), after st plan D (min m k)} w' \<and> wdOutcomes w1 \<noteq> []) w1"
    using wp_rollbackEntry[OF w1(1) planned_nth[OF ok ml] e r undo] unfolding w1(2) eq[unfolded w1(2)] .
  have sub: "{after st plan D (min n k), after st plan D (min m k)} \<subseteq> {after st plan D j |j. j \<le> k}" by (auto simp: min_le_iff_disj)
  have n0: "holds_files st w {after st plan D j |j. j \<le> k} w1" using n(3) by (auto simp: holds_files_def min_le_iff_disj)
  show "wp (rollbackEntry st r x)
     (\<lambda>_ w'. \<exists>n\<le>h. ys = rev (take n (jrEntries r)) \<and> holds_files st w {after st plan D (min n k)} w' \<and> (calm h w \<longrightarrow> calm n w'))
     ?R ?S w1"
  proof (rule wp_mono[OF step])
    fix u w2 assume a: "holds_files st w1 {after st plan D (min m k)} w2 \<and> (\<forall>n. calm (Suc n) w1 \<longrightarrow> calm n w2)"
    have "holds_files st w {after st plan D (min m k)} w2"
      using a w1(4) keeps_trans by (auto simp: holds_files_def)
    then show "\<exists>n\<le>h. ys = rev (take n (jrEntries r)) \<and> holds_files st w {after st plan D (min n k)} w2 \<and> (calm h w \<longrightarrow> calm n w2)"
      using a n m xs by (intro exI[of _ m]) auto
  next
    fix u w2 assume a: "holds_files st w1 {after st plan D (min n k), after st plan D (min m k)} w2 \<and> \<not> calm 1 w1"
    then have "\<not> calm h w" using n(4) m calm_less[of n w1 1] by auto
    then show "?R u w2" using holds_files_trans[OF n0 _ sub] a by blast
  next
    fix w2 assume "holds_files st w1 {after st plan D (min n k), after st plan D (min m k)} w2 \<and> wdOutcomes w1 \<noteq> []"
    then show "?S w2" using holds_files_trans[OF n0 _ sub] o1 by blast
  qed
next
  fix w1 assume "\<exists>n\<le>h. [] = rev (take n (jrEntries r)) \<and> holds_files st w {after st plan D (min n k)} w1 \<and> (calm h w \<longrightarrow> calm n w1)"
  then obtain n where n: "n \<le> h" "take n (jrEntries r) = []" "holds_files st w {after st plan D (min n k)} w1" "calm h w \<longrightarrow> calm n w1" by auto
  have "n = 0" using n(2) carries_length[OF c] n(1) kh c by (auto simp: carries_def)
  then show "?Q () w1" using n by simp
qed

section \<open>The end of a transaction\<close>

text \<open>Neither the files nor the backups change.\<close>

definition tidies :: "Storage \<Rightarrow> World \<Rightarrow> World \<Rightarrow> bool" where
  "tidies st w w' \<longleftrightarrow> wdBackups w' = wdBackups w \<and> fails w' \<le> fails w \<and> tidy w' \<and> files_of st w' = files_of st w \<and>
     (\<forall>n. calm n w \<longrightarrow> calm n w') \<and> (wdOutcomes w = [] \<longrightarrow> wdOutcomes w' = [])"

lemma tidies_trans: "tidies st u v \<Longrightarrow> tidies st v w \<Longrightarrow> tidies st u w"
  by (auto simp: tidies_def)

lemma tidies_refl: "tidy w \<Longrightarrow> tidies st w w"
  by (simp add: tidies_def)

lemma tidies_still: "tidy w \<Longrightarrow> still w w' \<Longrightarrow> tidies st w w'"
  using calm_still[of w w'] tidy_nodes[OF nodes_still, of w w']
  by (simp add: tidies_def nodes_still files_of_def) (simp add: still_def keeps_def)

lemma tidies_tidy: "tidies st w w' \<Longrightarrow> tidy w'"
  by (simp add: tidies_def)

lemma tidies_outcomes: "tidies st w w' \<Longrightarrow> wdOutcomes w' \<noteq> [] \<Longrightarrow> wdOutcomes w \<noteq> []"
  by (auto simp: tidies_def)

text \<open>The entries lose at most their temporary files.\<close>

definition same_progress :: "journalRecord \<Rightarrow> journalRecord \<Rightarrow> bool" where
  "same_progress r r' \<longleftrightarrow> jrID r' = jrID r \<and> jrCommitted r' = jrCommitted r \<and> jrStatus r' = jrStatus r \<and> jrFinishedAt r' = jrFinishedAt r \<and>
     jrDiscardBackups r' = jrDiscardBackups r \<and> (\<forall>k. has_backups r k \<longrightarrow> has_backups r' k) \<and>
     (\<forall>st bks plan i. carries st bks plan i r \<longrightarrow> carries st bks plan i r')"

lemma same_progress_refl: "same_progress r r"
  by (simp add: same_progress_def)

lemma same_progress_trans: "same_progress q r \<Longrightarrow> same_progress r s \<Longrightarrow> same_progress q s"
  by (simp add: same_progress_def)

lemma same_progress_forget: "same_progress r (r\<lparr>jrEntries := (jrEntries r)[k := (jrEntries r ! k)\<lparr>jeTemp := None\<rparr>]\<rparr>)"
proof (cases "k < length (jrEntries r)")
  case False
  then show ?thesis by (simp add: list_update_beyond same_progress_refl)
next
  case True
  let ?r = "r\<lparr>jrEntries := (jrEntries r)[k := (jrEntries r ! k)\<lparr>jeTemp := None\<rparr>]\<rparr>"
  have nth: "jrEntries ?r ! j = (if k = j then (jrEntries r ! k)\<lparr>jeTemp := None\<rparr> else jrEntries r ! j)" for j
    using True by (simp add: nth_list_update)
  have "has_backups ?r n" if "has_backups r n" for n
    using that unfolding has_backups_def nth by (auto simp: needs_backup_def)
  moreover have "carries st bks plan i ?r" if "carries st bks plan i r" for st bks plan i
  proof -
    have "entry_ok st bks i x (e\<lparr>jeTemp := None\<rparr>)" if "entry_ok st bks i x e" for x e
      using that by (cases "jeBackup e") (simp_all add: entry_ok_def temp_holds_def backup_holds_def needs_backup_def)
    then have "list_all2 (entry_ok st bks i) plan (jrEntries ?r)"
      using that unfolding carries_def list_all2_conv_all_nth nth by auto
    then show ?thesis using that by (simp add: carries_def)
  qed
  ultimately show ?thesis by (simp add: same_progress_def)
qed

text \<open>The journal and the history stay.\<close>

definition same_documents :: "World \<Rightarrow> World \<Rightarrow> bool" where
  "same_documents w w' \<longleftrightarrow> wdJournal w' = wdJournal w \<and> wdHistory w' = wdHistory w \<and> wdNow w' = wdNow w"

lemma wp_removeStagedTemps:
  assumes tidy: "tidy w" and c: "carries st (wdBackups w) plan i (wdRecord w)"
  shows "wp removeStagedTemps
     (\<lambda>_ w'. tidies st w w' \<and> same_documents w w' \<and> same_progress (wdRecord w) (wdRecord w'))
     (\<lambda>_ w'. tidies st w w' \<and> same_documents w w' \<and> same_progress (wdRecord w) (wdRecord w') \<and> wdOutcomes w \<noteq> [])
     (\<lambda>w'. tidies st w w' \<and> same_documents w w' \<and> same_progress (wdRecord w) (wdRecord w') \<and> wdOutcomes w \<noteq> []) w"
    (is "wp _ ?Q ?R ?S w")
  unfolding removeStagedTemps_def wp_chain wp_get
proof (rule wp_each[where I = "\<lambda>xs w'. set xs \<subseteq> {0..<length plan} \<and> ?Q () w'"])
  show "set (entry_indices w) \<subseteq> {0..<length plan} \<and> ?Q () w"
    using carries_length[OF c] tidies_refl[OF tidy] by (simp add: entry_indices_def same_documents_def same_progress_refl)
next
  fix k ys w1 assume a: "set (k # ys) \<subseteq> {0..<length plan} \<and> ?Q () w1"
  have c1: "carries st (wdBackups w) plan i (wdRecord w1)" using a c unfolding same_progress_def by blast
  have k: "k < length plan" using a by simp
  have t: "temp_holds i (jrEntries (wdRecord w1) ! k)" using entry_at(2)[OF c1 k] by (simp add: entry_ok_def)
  have t1: "tidy w1" and o1: "wdOutcomes w1 \<noteq> [] \<Longrightarrow> wdOutcomes w \<noteq> []" using a tidies_tidy tidies_outcomes by blast+
  show "wp (chain (get_entry k) (\<lambda>e. case jeTemp e of None \<Rightarrow> ret ()
      | Some temp \<Rightarrow> chain (ignoring_missing (Remove temp)) (\<lambda>_. update_entry k (\<lambda>e. e\<lparr>jeTemp := None\<rparr>))))
    (\<lambda>_ w'. set ys \<subseteq> {0..<length plan} \<and> ?Q () w') ?R ?S w1"
  proof (cases "jeTemp (jrEntries (wdRecord w1) ! k)")
    case None
    then show ?thesis using a by (simp add: get_entry_def)
  next
    case (Some temp)
    have hid: "\<not> visible temp" using t Some by (auto simp: temp_holds_def visible_def temp_prefix_def has_prefix_iff)
    have "wp (ignoring_missing (Remove temp)) (\<lambda>_ w'. ?Q () (w'\<lparr>wdRecord := (wdRecord w')\<lparr>jrEntries :=
        (jrEntries (wdRecord w'))[k := (jrEntries (wdRecord w') ! k)\<lparr>jeTemp := None\<rparr>]\<rparr>\<rparr>)) ?R ?S w1"
    proof (rule wp_mono[OF wp_Remove_ignoring])
      fix w2 assume b: "keeps w1 w2 \<and> wdNames w2 = wdNames w1 \<and> nodes w2 = (nodes w1)(temp := None)"
      let ?w3 = "w2\<lparr>wdRecord := (wdRecord w2)\<lparr>jrEntries := (jrEntries (wdRecord w2))[k := (jrEntries (wdRecord w2) ! k)\<lparr>jeTemp := None\<rparr>]\<rparr>\<rparr>"
      have "calm n ?w3" if "calm n w1" for n
        by (rule calm_mono[OF that]) (use b that in \<open>auto simp: keeps_def calm_def\<close>)
      then have "tidies st w1 ?w3"
        using b hid tidy_put[OF t1, of ?w3 temp None] by (simp add: tidies_def keeps_def fails_def files_of_def seen_drop)
      then have "tidies st w ?w3" using a tidies_trans by blast
      moreover have "same_documents w ?w3" using a b by (simp add: same_documents_def keeps_def)
      moreover have "same_progress (wdRecord w) (wdRecord ?w3)"
        using a b same_progress_trans[OF _ same_progress_forget] by (simp add: keeps_def)
      ultimately show "?Q () ?w3" by blast
    next
      fix e w2 assume b: "still w1 w2 \<and> (wdOutcomes w1 = [] \<longrightarrow> is_directory (nodes w1 temp))"
      then have "tidies st w w2" using a tidies_trans[OF _ tidies_still[OF t1]] by blast
      moreover have "wdOutcomes w \<noteq> []" using b hid t1 o1 by (auto simp: tidy_def)
      ultimately show "?R e w2" using a b by (simp add: same_documents_def still_def keeps_def)
    next
      fix w2 assume b: "still w1 w2 \<and> wdOutcomes w1 \<noteq> []"
      then have "tidies st w w2" using a tidies_trans[OF _ tidies_still[OF t1]] by blast
      then show "?S w2" using a b o1 by (simp add: same_documents_def still_def keeps_def)
    qed
    then show ?thesis using Some a by (simp add: get_entry_def update_entry_def update_record_def)
  qed
qed simp

end
