(* ===== verification/StoreFinish.thy ===== *)
theory StoreFinish
  imports StoreUndo
begin

text \<open>
  The end of a transaction and the whole rollback: temporary files are removed, the record moves from the
  journal to the history, and before that every applied entry is undone in reverse.
\<close>

section \<open>Left-over temporary files\<close>

definition cleans :: "Storage \<Rightarrow> World \<Rightarrow> World \<Rightarrow> bool" where
  "cleans st w w' \<longleftrightarrow> tidies st w w' \<and> same_documents w w' \<and> wdRecord w' = wdRecord w"

lemma cleans_trans: "cleans st u v \<Longrightarrow> cleans st v w \<Longrightarrow> cleans st u w"
  by (auto simp: cleans_def same_documents_def intro: tidies_trans)

lemma cleans_still: "tidy w \<Longrightarrow> still w w' \<Longrightarrow> cleans st w w'"
  using tidies_still[of w w'] by (simp add: cleans_def same_documents_def still_def keeps_def)

lemma cleans_refl: "tidy w \<Longrightarrow> cleans st w w"
  by (simp add: cleans_def tidies_refl same_documents_def)

lemma cleans_tidy: "cleans st w w' \<Longrightarrow> tidy w'"
  by (auto simp: cleans_def dest: tidies_tidy)

lemma cleans_outcomes: "cleans st w w' \<Longrightarrow> wdOutcomes w' \<noteq> [] \<Longrightarrow> wdOutcomes w \<noteq> []"
  by (auto simp: cleans_def dest: tidies_outcomes)

lemma cleans_files: "cleans st w w' \<Longrightarrow> files_of st w' = files_of st w"
  by (simp add: cleans_def tidies_def)

lemma cleans_hidden:
  assumes "tidy w" "keeps w w'" "wdNames w' = wdNames w" "nodes w' = (nodes w)(p := None)" "\<not> visible p"
  shows "cleans st w w'"
proof -
  have "calm n w'" if "calm n w" for n
    by (rule calm_mono[OF that]) (use assms that in \<open>auto simp: keeps_def calm_def\<close>)
  moreover have "tidy w'" by (rule tidy_put[OF assms(1,4)]) simp
  ultimately show ?thesis
    using assms by (simp add: cleans_def tidies_def same_documents_def keeps_def files_of_def seen_drop)
qed

lemma reads_ReadDir: "reads (ReadDir p) (\<lambda>N. N p = None \<or> is_directory (N p)) (\<lambda>_ _. True)"
  unfolding ReadDir_def
proof (rule reads_mono[OF reads_chain[OF reads_operation reads_chain[OF reads_node_at]]])
  show "reads (case n of None \<Rightarrow> ret None
    | Some (Directory _) \<Rightarrow> get (\<lambda>w. Some (map (\<lambda>(q, _). last q) (filter (\<lambda>(q, _). q \<noteq> [] \<and> butlast q = p) (wdFiles w))))
    | Some _ \<Rightarrow> failing ErrNotDirectory) (\<lambda>N. N p = n \<and> (N p = None \<or> is_directory (N p))) (\<lambda>_ _. True)" for n
    by (cases n) (auto simp: reads_def is_directory_def split: node.splits)
qed auto

lemma wp_remove_leftovers:
  assumes tidy: "tidy w"
  shows "wp (remove_leftovers i d) (\<lambda>_ w'. cleans st w w')
     (\<lambda>_ w'. cleans st w w' \<and> (wdOutcomes w = [] \<longrightarrow> nodes w d \<noteq> None \<and> \<not> is_directory (nodes w d)))
     (\<lambda>w'. cleans st w w' \<and> wdOutcomes w \<noteq> []) w" (is "wp _ ?Q ?R ?S w")
  unfolding remove_leftovers_def wp_chain
proof (rule wp_reads[OF reads_ReadDir])
  fix children w1 assume s: "still w w1"
  have c1: "cleans st w w1" by (rule cleans_still[OF tidy s])
  have names: "wp (each (\<lambda>name. if has_prefix name (temp_prefix i) then ignoring_missing (Remove (d @ [name])) else ret ()) ns) ?Q ?R ?S w1" for ns
  proof (rule wp_each[where I = "\<lambda>_ w'. cleans st w w'"])
    fix name ys w2 assume c2: "cleans st w w2"
    have o2: "wdOutcomes w2 \<noteq> [] \<Longrightarrow> wdOutcomes w \<noteq> []" using cleans_outcomes[OF c2] by blast
    have t2: "tidy w2" by (rule cleans_tidy[OF c2])
    have st2: "cleans st w w3" if "still w2 w3" for w3 by (rule cleans_trans[OF c2 cleans_still[OF t2 that]])
    show "wp (if has_prefix name (temp_prefix i) then ignoring_missing (Remove (d @ [name])) else ret ()) (\<lambda>_ w'. cleans st w w') ?R ?S w2"
    proof (cases "has_prefix name (temp_prefix i)")
      case True
      then have hid: "\<not> visible (d @ [name])" by (auto simp: visible_def temp_prefix_def has_prefix_iff)
      have "wp (ignoring_missing (Remove (d @ [name]))) (\<lambda>_ w'. cleans st w w') ?R ?S w2"
      proof (rule wp_mono[OF wp_Remove_ignoring])
        show "cleans st w w3" if "keeps w2 w3 \<and> wdNames w3 = wdNames w2 \<and> nodes w3 = (nodes w2)(d @ [name] := None)" for w3
          by (rule cleans_trans[OF c2 cleans_hidden[OF t2 _ _ _ hid]]) (use that in auto)
        show "?R e w3" if "still w2 w3 \<and> (wdOutcomes w2 = [] \<longrightarrow> is_directory (nodes w2 (d @ [name])))" for e w3
          using that st2 o2 hid t2 by (auto simp: tidy_def)
        show "?S w3" if "still w2 w3 \<and> wdOutcomes w2 \<noteq> []" for w3 using that st2 o2 by auto
      qed
      then show ?thesis using True by simp
    qed (use c2 in simp)
  qed (use c1 in simp_all)
  show "wp (case children of None \<Rightarrow> ret ()
      | Some ns \<Rightarrow> each (\<lambda>name. if has_prefix name (temp_prefix i) then ignoring_missing (Remove (d @ [name])) else ret ()) ns) ?Q ?R ?S w1"
    using names c1 by (cases children) simp_all
qed (use cleans_still[OF tidy] in auto)

lemma unscanned_subset: "set (unscanned xs ds) \<subseteq> set ds"
  by (induction xs ds rule: unscanned.induct) auto

lemma wp_removeLeftoverTemps:
  assumes tidy: "tidy w" and dirs: "\<And>e. e \<in> set (jrEntries (wdRecord w)) \<Longrightarrow> jeAction e = actionWrite \<Longrightarrow> is_directory (files_of st w (butlast (jePath e)))"
  shows "wp removeLeftoverTemps (\<lambda>_ w'. cleans st w w') (\<lambda>_ w'. cleans st w w' \<and> wdOutcomes w \<noteq> [])
     (\<lambda>w'. cleans st w w' \<and> wdOutcomes w \<noteq> []) w"
  unfolding removeLeftoverTemps_def wp_chain wp_get
proof (rule wp_each[where I = "\<lambda>xs w'. (\<forall>d \<in> set xs. is_directory (files_of st w d)) \<and> cleans st w w'"])
  show "(\<forall>d \<in> set (unscanned [] (map (\<lambda>e. butlast (jePath e)) (filter (\<lambda>e. jeAction e = actionWrite) (jrEntries (wdRecord w))))).
      is_directory (files_of st w d)) \<and> cleans st w w"
  proof (intro conjI ballI cleans_refl[OF tidy])
    fix d assume "d \<in> set (unscanned [] (map (\<lambda>e. butlast (jePath e)) (filter (\<lambda>e. jeAction e = actionWrite) (jrEntries (wdRecord w)))))"
    then have "d \<in> set (map (\<lambda>e. butlast (jePath e)) (filter (\<lambda>e. jeAction e = actionWrite) (jrEntries (wdRecord w))))"
      using unscanned_subset by blast
    then show "is_directory (files_of st w d)" using dirs by auto
  qed
next
  fix d ys w1 assume a: "(\<forall>d \<in> set (d # ys). is_directory (files_of st w d)) \<and> cleans st w w1"
  then have c1: "cleans st w w1" by blast
  have o1: "wdOutcomes w1 \<noteq> [] \<Longrightarrow> wdOutcomes w \<noteq> []" using cleans_outcomes[OF c1] by blast
  have "is_directory (nodes w1 d)" using a cleans_files[OF c1] directory_of_files[of st w1 d] by simp
  then show "wp (remove_leftovers (jrID (wdRecord w)) d) (\<lambda>_ w'. (\<forall>d \<in> set ys. is_directory (files_of st w d)) \<and> cleans st w w')
     (\<lambda>_ w'. cleans st w w' \<and> wdOutcomes w \<noteq> []) (\<lambda>w'. cleans st w w' \<and> wdOutcomes w \<noteq> []) w1"
    by (intro wp_mono[OF wp_remove_leftovers[OF cleans_tidy[OF c1]]]) (use a o1 cleans_trans[OF c1] in auto)
qed simp

section \<open>Documents\<close>

lemma wp_atomic_document:
  assumes f: "\<And>w. wdOutcomes (f w) = wdOutcomes w"
    and Q: "\<And>w1 w2. still w w1 \<Longrightarrow> still (f w1) w2 \<Longrightarrow> Q () w2"
    and R: "\<And>w1. still w w1 \<Longrightarrow> wdOutcomes w \<noteq> [] \<Longrightarrow> R ErrIO w1" "\<And>w1 w2. still w w1 \<Longrightarrow> still (f w1) w2 \<Longrightarrow> wdOutcomes w \<noteq> [] \<Longrightarrow> R ErrIO w2"
    and S: "\<And>w1. still w w1 \<Longrightarrow> wdOutcomes w \<noteq> [] \<Longrightarrow> S w1" "\<And>w1 w2. still w w1 \<Longrightarrow> still (f w1) w2 \<Longrightarrow> wdOutcomes w \<noteq> [] \<Longrightarrow> S w2"
  shows "wp (atomic_document f) Q R S w"
proof -
  have o: "wdOutcomes w2 \<noteq> [] \<Longrightarrow> still w1 w2 \<Longrightarrow> wdOutcomes w1 \<noteq> []" for w1 w2 using still_empty by blast
  have fin: "wp operation Q R S (f w2)" if s2: "still w w2" for w2
  proof (rule wp_op)
    have o2: "wdOutcomes (f w2) \<noteq> [] \<Longrightarrow> wdOutcomes w \<noteq> []" using o[OF _ s2] f by simp
    show "Q () w3" if "still (f w2) w3" for w3 by (rule Q[OF s2 that])
    show "R ErrIO w3" if "still (f w2) w3" "wdOutcomes (f w2) \<noteq> []" for w3 by (rule R(2)[OF s2 that(1) o2[OF that(2)]])
    show "S w3" if "still (f w2) w3" "wdOutcomes (f w2) \<noteq> []" for w3 by (rule S(2)[OF s2 that(1) o2[OF that(2)]])
  qed
  have undo: "wp operation (\<lambda>_. R ErrIO) (\<lambda>_. R ErrIO) S w2" if s2: "still w w2" "wdOutcomes w \<noteq> []" for w2
    by (rule wp_op) (use s2 R(1) S(1) still_trans[OF s2(1)] in auto)
  have rename: "wp operation (\<lambda>_ w2. wp operation Q R S (f w2)) (\<lambda>e w2. wp operation (\<lambda>_. R e) (\<lambda>_. R e) S w2) S w1" if s1: "still w w1" for w1
  proof (rule wp_op)
    have o1: "wdOutcomes w1 \<noteq> [] \<Longrightarrow> wdOutcomes w \<noteq> []" using o[OF _ s1] by simp
    show "wp operation Q R S (f w2)" if "still w1 w2" for w2 by (rule fin[OF still_trans[OF s1 that]])
    show "wp operation (\<lambda>_. R ErrIO) (\<lambda>_. R ErrIO) S w2" if "still w1 w2" "wdOutcomes w1 \<noteq> []" for w2
      by (rule undo[OF still_trans[OF s1 that(1)] o1[OF that(2)]])
    show "S w2" if "still w1 w2" "wdOutcomes w1 \<noteq> []" for w2 by (rule S(1)[OF still_trans[OF s1 that(1)] o1[OF that(2)]])
  qed
  show ?thesis
    unfolding atomic_document_def wp_chain wp_handle wp_modify wp_ret wp_failing
    by (rule wp_op) (use rename R(1) S(1) in auto)
qed

section \<open>Finishing\<close>

text \<open>The record in memory, up to its status and the time it was finished.\<close>

definition same_work :: "journalRecord \<Rightarrow> journalRecord \<Rightarrow> bool" where
  "same_work r r' \<longleftrightarrow> (\<exists>q. same_progress r q \<and> r' = q\<lparr>jrFinishedAt := jrFinishedAt r', jrStatus := jrStatus r'\<rparr>)"

lemma same_work_carries: "same_work r r' \<Longrightarrow> carries st bks plan i r \<Longrightarrow> carries st bks plan i r'"
proof -
  assume "same_work r r'" "carries st bks plan i r"
  then obtain q where q: "carries st bks plan i q" "r' = q\<lparr>jrFinishedAt := jrFinishedAt r', jrStatus := jrStatus r'\<rparr>"
    unfolding same_work_def same_progress_def by blast
  show ?thesis by (subst q(2)) (use q(1) in \<open>simp add: carries_def\<close>)
qed

lemma same_work_facts:
  assumes "same_work r r'"
  shows "jrID r' = jrID r" "jrCommitted r' = jrCommitted r" "has_backups r k \<Longrightarrow> has_backups r' k"
proof -
  obtain q where q: "same_progress r q" "r' = q\<lparr>jrFinishedAt := jrFinishedAt r', jrStatus := jrStatus r'\<rparr>"
    using assms by (auto simp: same_work_def)
  show "jrID r' = jrID r" "jrCommitted r' = jrCommitted r" by (subst q(2), use q(1) in \<open>simp add: same_progress_def\<close>)+
  show "has_backups r' k" if "has_backups r k"
    by (subst q(2)) (use q(1) that in \<open>simp add: same_progress_def has_backups_def\<close>)
qed

lemma same_progress_work: "same_progress r r' \<Longrightarrow> same_work r r'"
  unfolding same_work_def by (rule exI[of _ r']) simp

definition finish_fails :: "Storage \<Rightarrow> World \<Rightarrow> World \<Rightarrow> record_status \<Rightarrow> bool" where
  "finish_fails st w w' s \<longleftrightarrow> tidies st w w' \<and> same_work (wdRecord w) (wdRecord w') \<and>
     (jrStatus (wdRecord w') = s \<or> (jrStatus (wdRecord w') = jrStatus (wdRecord w) \<and> jrFinishedAt (wdRecord w') = jrFinishedAt (wdRecord w))) \<and>
     (wdJournal w' = wdJournal w \<or> (wdJournal w' = AList.delete (jrID (wdRecord w)) (wdJournal w) \<and> fails w' < fails w))"

definition finish_stops :: "Storage \<Rightarrow> World \<Rightarrow> World \<Rightarrow> bool" where
  "finish_stops st w w' \<longleftrightarrow> tidies st w w' \<and>
     (wdJournal w' = wdJournal w \<or> wdJournal w' = AList.delete (jrID (wdRecord w)) (wdJournal w))"

lemma tidies_documents [simp]:
  "tidies st w (w'\<lparr>wdJournal := j\<rparr>) = tidies st w w'" "tidies st w (w'\<lparr>wdHistory := j\<rparr>) = tidies st w w'"
  "tidies st w (w'\<lparr>wdRecord := r\<rparr>) = tidies st w w'"
  by (simp_all add: tidies_def fails_def tidy_def files_of_def calm_def)

text \<open>The second half: the record goes to the history, and out of the journal.\<close>

lemma wp_publish:
  assumes tidy: "tidy w" and r: "wdRecord w = r" "\<And>q. record_bytes q \<le> maxRecordBytes"
  shows "wp (chain (writeRecord record_bytes InHistory r) (\<lambda>_.
     chain operation (\<lambda>_. chain (modify (\<lambda>w. w\<lparr>wdJournal := AList.delete (jrID r) (wdJournal w)\<rparr>)) (\<lambda>_. operation))))
     (\<lambda>_ w'. tidies st w w' \<and> wdRecord w' = r \<and> wdJournal w' = AList.delete (jrID r) (wdJournal w))
     (\<lambda>_ w'. tidies st w w' \<and> wdRecord w' = r \<and> (wdJournal w' = wdJournal w \<or>
        (wdJournal w' = AList.delete (jrID r) (wdJournal w) \<and> fails w' < fails w)) \<and> wdOutcomes w \<noteq> [])
     (\<lambda>w'. tidies st w w' \<and> (wdJournal w' = wdJournal w \<or> wdJournal w' = AList.delete (jrID r) (wdJournal w)) \<and> wdOutcomes w \<noteq> []) w"
    (is "wp _ ?Q ?R ?S w")
proof -
  define kept where "kept w' \<longleftrightarrow> tidies st w w' \<and> wdRecord w' = r \<and> wdJournal w' = wdJournal w" for w'
  have kept_still: "kept w2" if "kept w1" "still w1 w2" for w1 w2
  proof -
    have t: "tidies st w w1" "wdRecord w1 = r" "wdJournal w1 = wdJournal w" using that(1) by (simp_all add: kept_def)
    have "tidies st w w2" by (rule tidies_trans[OF t(1) tidies_still[OF tidies_tidy[OF t(1)] that(2)]])
    moreover have "wdRecord w2 = wdRecord w1" "wdJournal w2 = wdJournal w1" using that(2) by (simp_all add: still_def keeps_def)
    ultimately show ?thesis using t by (simp add: kept_def)
  qed
  have kept_o: "wdOutcomes w1 \<noteq> [] \<Longrightarrow> wdOutcomes w \<noteq> []" if "kept w1" for w1
    using that tidies_outcomes[of st w w1] by (simp add: kept_def)
  have bad: "?R e w1" "?S w1" if "kept w1" "wdOutcomes w \<noteq> []" for e :: store_failure and w1
    using that by (auto simp: kept_def)
  have last: "wp operation ?Q ?R ?S (w1\<lparr>wdJournal := AList.delete (jrID r) (wdJournal w1)\<rparr>)" if k: "kept w1" for w1
  proof (rule wp_operation)
    let ?w1 = "w1\<lparr>wdJournal := AList.delete (jrID r) (wdJournal w1)\<rparr>"
    have t1: "tidies st w ?w1" "tidy ?w1" "wdJournal ?w1 = AList.delete (jrID r) (wdJournal w)" "wdRecord ?w1 = r"
      using k tidies_tidy by (auto simp: kept_def tidy_def)
    have le: "fails ?w1 \<le> fails w" using t1(1) by (simp add: tidies_def fails_def)
    have t2: "tidies st w (?w1\<lparr>wdOutcomes := os\<rparr>)" if "wdOutcomes ?w1 = [] \<Longrightarrow> os = []" "count_list os Fails \<le> fails ?w1" for os
      by (rule tidies_trans[OF t1(1) tidies_still[OF t1(2)]]) (use that in \<open>auto simp: still_def keeps_def fails_def\<close>)
    show "?Q () (?w1\<lparr>wdOutcomes := os\<rparr>)" if "wdOutcomes ?w1 = [] \<Longrightarrow> os = []" "count_list os Fails \<le> fails ?w1" for os
      using t2[OF that] t1 by simp
    show "?R ErrIO (?w1\<lparr>wdOutcomes := os\<rparr>)" if "wdOutcomes ?w1 \<noteq> []" "count_list os Fails < fails ?w1" for os
    proof -
      have "fails (?w1\<lparr>wdOutcomes := os\<rparr>) < fails w" using that(2) le by (simp add: fails_def)
      moreover have "tidies st w (?w1\<lparr>wdOutcomes := os\<rparr>)" by (rule t2) (use that in simp_all)
      moreover have "wdOutcomes w \<noteq> []" using kept_o[OF k] that(1) by simp
      ultimately show ?thesis using t1(3,4) by simp
    qed
    show "?S (?w1\<lparr>wdOutcomes := os\<rparr>)" if "wdOutcomes ?w1 \<noteq> []" "count_list os Fails \<le> fails ?w1" for os
    proof -
      have "tidies st w (?w1\<lparr>wdOutcomes := os\<rparr>)" by (rule t2) (use that in simp_all)
      moreover have "wdOutcomes w \<noteq> []" using kept_o[OF k] that(1) by simp
      ultimately show ?thesis using t1(3,4) by simp
    qed
  qed
  have hist: "wp (atomic_document (put_record InHistory r)) (\<lambda>_. wp operation (\<lambda>_ w1. wp operation ?Q ?R ?S (w1\<lparr>wdJournal := AList.delete (jrID r) (wdJournal w1)\<rparr>)) ?R ?S) ?R ?S w"
  proof (rule wp_atomic_document)
    have k0: "kept w1" if "still w w1" for w1
      using that tidies_still[OF tidy] r(1) by (auto simp: kept_def still_def keeps_def)
    have k1: "kept w2" if "still w w1" "still (put_record InHistory r w1) w2" for w1 w2
      by (rule kept_still[OF _ that(2)]) (use k0[OF that(1)] in \<open>simp add: kept_def put_record_def\<close>)
    show "wp operation (\<lambda>_ w1. wp operation ?Q ?R ?S (w1\<lparr>wdJournal := AList.delete (jrID r) (wdJournal w1)\<rparr>)) ?R ?S w2"
      if "still w w1" "still (put_record InHistory r w1) w2" for w1 w2
      by (rule wp_op) (use last bad kept_still kept_o k1[OF that] in auto)
    show "wdOutcomes (put_record InHistory r w1) = wdOutcomes w1" for w1 by (simp add: put_record_def)
    show "?R ErrIO w1" "?S w1" if "still w w1" "wdOutcomes w \<noteq> []" for w1 by (rule bad[OF k0[OF that(1)] that(2)])+
    show "?R ErrIO w2" "?S w2" if "still w w1" "still (put_record InHistory r w1) w2" "wdOutcomes w \<noteq> []" for w1 w2
      by (rule bad[OF k1[OF that(1,2)] that(3)])+
  qed
  then show ?thesis using r(2)[of r] by (simp add: writeRecord_def not_less)
qed

lemma carried_entry:
  assumes "carries st bks plan i r" "e \<in> set (jrEntries r)"
  shows "\<exists>x \<in> set plan. core e = fst x"
proof -
  obtain k where k: "k < length (jrEntries r)" "e = jrEntries r ! k" using assms(2) by (auto simp: in_set_conv_nth)
  then have "k < length plan" using carries_length[OF assms(1)] by simp
  then show ?thesis using entry_at(2)[OF assms(1)] k(2) by (auto simp: entry_ok_def)
qed

definition parents_there :: "Storage \<Rightarrow> planned_entry list \<Rightarrow> disk \<Rightarrow> bool" where
  "parents_there st plan D \<longleftrightarrow> (\<forall>x \<in> set plan. is_directory (D (butlast (jePath (fst x)))))"

lemma parents_after:
  assumes "plan_ok st D plan" shows "parents_there st plan (after st plan D k)"
  unfolding parents_there_def
proof
  fix x assume "x \<in> set plan"
  then obtain i where "i < length plan" "x = plan ! i" by (auto simp: in_set_conv_nth)
  then show "is_directory (after st plan D k (butlast (jePath (fst x))))"
    using after_parent[OF assms, of i] by (simp add: footprint_def)
qed

lemma wp_finish:
  assumes tidy: "tidy w" and c: "carries st (wdBackups w) plan i (wdRecord w)" and dirs: "parents_there st plan (files_of st w)"
    and bytes: "\<And>q. record_bytes q \<le> maxRecordBytes"
  shows "wp (finish record_bytes s)
     (\<lambda>_ w'. tidies st w w' \<and> wdJournal w' = AList.delete i (wdJournal w))
     (\<lambda>_ w'. finish_fails st w w' s \<and> wdOutcomes w \<noteq> [])
     (\<lambda>w'. finish_stops st w w' \<and> wdOutcomes w \<noteq> []) w" (is "wp _ ?Q ?R ?S w")
proof -
  have i: "jrID (wdRecord w) = i" using c by (simp add: carries_def)
  define doing where "doing w' \<longleftrightarrow> tidies st w w' \<and> same_documents w w' \<and> same_progress (wdRecord w) (wdRecord w')" for w'
  have bad: "?R e w1" "?S w1" if "doing w1" "wdOutcomes w \<noteq> []" for e :: store_failure and w1
    using that same_progress_work[of "wdRecord w" "wdRecord w1"]
    by (auto simp: doing_def finish_fails_def finish_stops_def same_documents_def same_progress_def)
  let ?tail = "\<lambda>r. chain (if jrDiscardBackups r then discardRollbackBackups else ret ()) (\<lambda>_.
     chain (get wdNow) (\<lambda>now. chain (update_record (\<lambda>r. r\<lparr>jrFinishedAt := Some now, jrStatus := s\<rparr>)) (\<lambda>_.
     chain (get wdRecord) (\<lambda>r. chain (writeRecord record_bytes InHistory r) (\<lambda>_.
     chain operation (\<lambda>_. chain (modify (\<lambda>w. w\<lparr>wdJournal := AList.delete (jrID r) (wdJournal w)\<rparr>)) (\<lambda>_.
     operation)))))))"
  have tail: "wp (?tail (wdRecord w2)) ?Q ?R ?S w2" if d: "doing w2" for w2
  proof -
    define r where "r = (wdRecord w2)\<lparr>jrFinishedAt := Some (wdNow w2), jrStatus := s\<rparr>"
    have sp: "same_progress (wdRecord w) (wdRecord w2)" and t: "tidies st w w2" and sd: "same_documents w w2" using d by (simp_all add: doing_def)
    have nd: "\<not> jrDiscardBackups (wdRecord w2)" using sp c by (simp add: same_progress_def carries_def)
    have id: "jrID r = i" using sp i by (simp add: r_def same_progress_def)
    have work: "same_work (wdRecord w) r" unfolding same_work_def
      by (rule exI[of _ "wdRecord w2"]) (use sp in \<open>simp add: r_def\<close>)
    let ?w2 = "w2\<lparr>wdRecord := r\<rparr>"
    have t2: "tidy ?w2" using tidies_tidy[OF t] by (simp add: tidy_def)
    have tt: "tidies st w w3" if "tidies st ?w2 w3" for w3
    proof -
      have "tidies st w ?w2" using t by simp
      then show ?thesis using that by (rule tidies_trans)
    qed
    have o2: "wdOutcomes ?w2 \<noteq> [] \<Longrightarrow> wdOutcomes w \<noteq> []" using tidies_outcomes[OF t] by simp
    have fl: "fails ?w2 \<le> fails w" using t by (simp add: tidies_def fails_def)
    have jr: "wdJournal ?w2 = wdJournal w" using sd by (simp add: same_documents_def)
    have "wp (chain (writeRecord record_bytes InHistory r) (\<lambda>_.
       chain operation (\<lambda>_. chain (modify (\<lambda>w. w\<lparr>wdJournal := AList.delete (jrID r) (wdJournal w)\<rparr>)) (\<lambda>_. operation)))) ?Q ?R ?S ?w2"
    proof (rule wp_mono[OF wp_publish[OF t2 _ bytes, of r]])
      fix w3 assume "tidies st ?w2 w3 \<and> wdRecord w3 = r \<and> wdJournal w3 = AList.delete (jrID r) (wdJournal ?w2)"
      then show "?Q x w3" for x using tt id jr by simp
    next
      fix e w3 assume a: "tidies st ?w2 w3 \<and> wdRecord w3 = r \<and> (wdJournal w3 = wdJournal ?w2 \<or>
        (wdJournal w3 = AList.delete (jrID r) (wdJournal ?w2) \<and> fails w3 < fails ?w2)) \<and> wdOutcomes ?w2 \<noteq> []"
      then have "jrStatus (wdRecord w3) = s" by (simp add: r_def)
      moreover have "fails w3 < fails ?w2 \<Longrightarrow> fails w3 < fails w" using fl by simp
      ultimately show "?R e w3" using a tt work o2 id i jr unfolding finish_fails_def by metis
    next
      fix w3 assume "tidies st ?w2 w3 \<and> (wdJournal w3 = wdJournal ?w2 \<or> wdJournal w3 = AList.delete (jrID r) (wdJournal ?w2)) \<and> wdOutcomes ?w2 \<noteq> []"
      then show "?S w3" using tt o2 id i jr unfolding finish_stops_def by metis
    qed simp
    then show ?thesis using nd by (simp add: update_record_def r_def)
  qed
  have left: "wp removeLeftoverTemps (\<lambda>_ w2. wp (?tail (wdRecord w2)) ?Q ?R ?S w2) ?R ?S w1" if d: "doing w1" for w1
  proof -
    have t1: "tidies st w w1" "tidy w1" using d tidies_tidy by (auto simp: doing_def)
    have c1: "carries st (wdBackups w) plan i (wdRecord w1)" using d c unfolding doing_def same_progress_def by blast
    have dirs1: "is_directory (files_of st w1 (butlast (jePath e)))" if e: "e \<in> set (jrEntries (wdRecord w1))" for e
    proof -
      obtain x where x: "x \<in> set plan" "core e = fst x" using carried_entry[OF c1 e] by blast
      have "jePath (fst x) = jePath e" by (simp flip: x(2))
      then show ?thesis using dirs x(1) t1(1) by (auto simp: parents_there_def tidies_def)
    qed
    have step: "doing w2" if "cleans st w1 w2" for w2
    proof -
      have "tidies st w w2" using that t1(1) tidies_trans unfolding cleans_def by blast
      then show ?thesis using that d by (simp add: cleans_def doing_def same_documents_def)
    qed
    have o1: "wdOutcomes w1 \<noteq> [] \<Longrightarrow> wdOutcomes w \<noteq> []" by (rule tidies_outcomes[OF t1(1)])
    show ?thesis
      by (rule wp_mono[OF wp_removeLeftoverTemps[OF t1(2), of st]]) (use dirs1 tail step bad o1 in blast)+
  qed
  have "wp removeStagedTemps (\<lambda>_ w1. wp removeLeftoverTemps (\<lambda>_ w2. wp (?tail (wdRecord w2)) ?Q ?R ?S w2) ?R ?S w1) ?R ?S w"
  proof (rule wp_mono[OF wp_removeStagedTemps[OF tidy c]])
    show "wp removeLeftoverTemps (\<lambda>_ w2. wp (?tail (wdRecord w2)) ?Q ?R ?S w2) ?R ?S w1"
      if "tidies st w w1 \<and> same_documents w w1 \<and> same_progress (wdRecord w) (wdRecord w1)" for w1
      using left that by (simp only: doing_def)
    show "?R e w1" if "tidies st w w1 \<and> same_documents w w1 \<and> same_progress (wdRecord w) (wdRecord w1) \<and> wdOutcomes w \<noteq> []" for e w1
      using that by (intro bad) (simp_all add: doing_def)
    show "?S w1" if "tidies st w w1 \<and> same_documents w w1 \<and> same_progress (wdRecord w) (wdRecord w1) \<and> wdOutcomes w \<noteq> []" for w1
      using that by (intro bad) (simp_all add: doing_def)
  qed
  then show ?thesis by (simp only: finish_def wp_chain[of removeStagedTemps] wp_chain[of removeLeftoverTemps] wp_chain[of "get wdRecord"] wp_get)
qed

section \<open>The rollback\<close>

definition rolls :: "Storage \<Rightarrow> planned_entry list \<Rightarrow> disk \<Rightarrow> gostring \<Rightarrow> nat \<Rightarrow> World \<Rightarrow> World \<Rightarrow> bool" where
  "rolls st plan D i k w w' \<longleftrightarrow> tidy w' \<and> wdBackups w' = wdBackups w \<and> fails w' \<le> fails w \<and>
     ((wdJournal w' = wdJournal w \<and> (\<exists>j \<le> k. files_of st w' = after st plan D j)) \<or>
      (wdJournal w' = AList.delete i (wdJournal w) \<and> files_of st w' = D))"

lemma first_irreversible_None: "(\<And>e. e \<in> set es \<Longrightarrow> \<not> jeNoBackup e) \<Longrightarrow> first_irreversible es = None"
  by (induction es) (simp_all add: checkReversible_def)

lemma carried_backups:
  assumes "plan_ok st D plan" "carries st bks plan i r" "e \<in> set (jrEntries r)" shows "\<not> jeNoBackup e"
proof -
  obtain x where x: "x \<in> set plan" "core e = fst x" using carried_entry[OF assms(2,3)] by blast
  have "\<not> jeNoBackup (fst x)" using assms(1) x(1) by (auto simp: plan_ok_def planned_ok_def Let_def list_all_iff)
  then show ?thesis by (simp flip: x(2))
qed

lemma carries_committed: "carries st bks plan i r \<Longrightarrow> carries st bks plan i (r\<lparr>jrCommitted := n\<rparr>)"
  by (simp add: carries_def)

lemma wp_rollbackRecord:
  assumes tidy: "tidy w" and ok: "plan_ok st D plan" and r: "wdRecord w = r" and c: "carries st (wdBackups w) plan i r"
    and kh: "k \<le> jrCommitted r" "jrCommitted r \<le> length plan" and files: "files_of st w = after st plan D k"
    and b: "has_backups r k" and neutral: "\<And>j. k \<le> j \<Longrightarrow> j < jrCommitted r \<Longrightarrow> sameContentsWrite (jrEntries r ! j)"
    and bytes: "\<And>q. record_bytes q \<le> maxRecordBytes"
  shows "wp (rollbackRecord st record_bytes)
     (\<lambda>_ w'. tidy w' \<and> wdJournal w' = AList.delete i (wdJournal w) \<and> files_of st w' = D)
     (\<lambda>_ w'. rolls st plan D i k w w' \<and> \<not> calm (jrCommitted r) w)
     (\<lambda>w'. rolls st plan D i k w w' \<and> wdOutcomes w \<noteq> []) w" (is "wp _ ?Q ?R ?S w")
proof -
  have rev_ok: "first_irreversible (take (jrCommitted r) (jrEntries r)) = None"
    by (rule first_irreversible_None, rule carried_backups[OF ok c], erule in_set_takeD)
  have id: "jrID r = i" using c by (simp add: carries_def)
  have undone: "wp (finish record_bytes statusRolledBack) ?Q ?R ?S (w1\<lparr>wdRecord := (wdRecord w1)\<lparr>jrCommitted := 0\<rparr>\<rparr>)"
    if h: "holds_files st w {D} w1" "calm (jrCommitted r) w \<longrightarrow> calm 0 w1" for w1
  proof -
    let ?w1 = "w1\<lparr>wdRecord := (wdRecord w1)\<lparr>jrCommitted := 0\<rparr>\<rparr>"
    have k1: "keeps w w1" and t1: "tidy w1" and f1: "files_of st w1 = D" using h(1) by (simp_all add: holds_files_def)
    have t1': "tidy ?w1" and f1': "files_of st ?w1 = D" using t1 f1 by (simp_all add: tidy_def files_of_def)
    have j1: "wdJournal ?w1 = wdJournal w" "wdBackups ?w1 = wdBackups w" "wdRecord w1 = r" "fails ?w1 \<le> fails w"
      using k1 r by (simp_all add: keeps_def fails_def)
    have c1: "carries st (wdBackups ?w1) plan i (wdRecord ?w1)" using c carries_committed j1 by simp
    have o1: "wdOutcomes ?w1 \<noteq> [] \<Longrightarrow> wdOutcomes w \<noteq> []" using k1 by (auto simp: keeps_def)
    have dirs: "parents_there st plan (files_of st ?w1)" using parents_after[OF ok, of 0] f1' by simp
    have nc: "wdOutcomes ?w1 \<noteq> [] \<Longrightarrow> \<not> calm (jrCommitted r) w" using h(2) by (auto simp: calm_def)
    show ?thesis
    proof (rule wp_mono[OF wp_finish[OF t1' c1 dirs bytes]])
      show "?Q x w2" if "tidies st ?w1 w2 \<and> wdJournal w2 = AList.delete i (wdJournal ?w1)" for x w2
        using that f1' j1 by (simp add: tidies_def)
      have rolls: "rolls st plan D i k w w2" if "tidies st ?w1 w2" "wdJournal w2 = wdJournal w \<or> wdJournal w2 = AList.delete i (wdJournal w)" for w2
        using that f1' j1 unfolding rolls_def tidies_def by (auto intro: exI[of _ 0])
      show "?R e w2" if "finish_fails st ?w1 w2 statusRolledBack \<and> wdOutcomes ?w1 \<noteq> []" for e w2
        using that rolls[of w2] nc j1 id by (auto simp: finish_fails_def)
      show "?S w2" if "finish_stops st ?w1 w2 \<and> wdOutcomes ?w1 \<noteq> []" for w2
        using that rolls[of w2] o1 j1 id by (auto simp: finish_stops_def)
    qed
  qed
  have some: "rolls st plan D i k w w1" if "holds_files st w {after st plan D j |j. j \<le> k} w1" for w1
    using that by (auto simp: rolls_def holds_files_def keeps_def)
  have "wp (each (rollbackEntry st r) (rev (take (jrCommitted r) (jrEntries r))))
     (\<lambda>_ w1. wp (finish record_bytes statusRolledBack) ?Q ?R ?S (w1\<lparr>wdRecord := (wdRecord w1)\<lparr>jrCommitted := 0\<rparr>\<rparr>)) ?R ?S w"
    by (rule wp_mono[OF wp_rollback_entries[OF tidy ok c kh files b neutral]]) (use undone some in auto)
  then show ?thesis
    using r rev_ok by (simp add: rollbackRecord_def or_fail_def set_committed_def update_record_def)
qed

end
