(* ===== verification/StoreReconcile.thy ===== *)
theory StoreReconcile
  imports StoreFinish
begin

text \<open>
  What recovery finds out. The progress on the disk is exact up to entries whose effect cannot be seen,
  the records that a transaction writes are accepted when they are read back, and a rollback of any of
  them restores the files.
\<close>

section \<open>The evidence of one entry\<close>

lemma reads_targetFileState:
  "reads (targetFileState st p) (\<lambda>N. N p = None \<or> readable st p N)
     (\<lambda>N x. (x = None \<and> N p = None) \<or> (\<exists>c m. N p = Some (RegularFile c m) \<and> x = Some (stDigest st c, and m 448)))"
  unfolding targetFileState_def
  by (rule reads_mono[OF reads_chain[OF reads_currentState reads_ret]]) auto

lemma reads_targetDigest:
  "reads (targetDigest st p) (\<lambda>N. N p = None \<or> readable st p N)
     (\<lambda>N x. (x = None \<and> N p = None) \<or> (\<exists>c m. N p = Some (RegularFile c m) \<and> x = Some (stDigest st c)))"
  unfolding targetDigest_def
  by (rule reads_mono[OF reads_chain[OF reads_targetFileState reads_ret]]) auto

lemma observable_masked [simp]: "observableOwnerMode st (and m 448) = observableOwnerMode st m"
proof -
  have "and (and m 448) 448 = and m (448::nat)" "and (and m 448) 128 = and m (128::nat)"
    by (simp_all add: and.assoc)
  then show ?thesis by (simp add: observableOwnerMode_def)
qed

definition neutral :: "Storage \<Rightarrow> journalEntry \<Rightarrow> bool" where
  "neutral st e \<longleftrightarrow> sameContentsWrite e \<and> ownerModesMatch st (jeMode e) (jePreviousMode e)"

text \<open>The files of a path that is seen.\<close>

lemma seen_file:
  "visible p \<Longrightarrow> seen st N p = Some (view_node st (RegularFile c m)) \<Longrightarrow>
   \<exists>m'. N p = Some (RegularFile c m') \<and> observableOwnerMode st m' = observableOwnerMode st m"
  by (cases "N p") (auto simp: seen_def view_node_def split: node.splits)

lemma seen_none: "visible p \<Longrightarrow> seen st N p = None \<Longrightarrow> N p = None"
  by (simp add: seen_def)

lemma reads_write_evidence:
  assumes act: "jeAction e = actionWrite" and vis: "visible (jePath e)"
    and at: "seen st N (jePath e) = None \<or> (\<exists>c m. seen st N (jePath e) = Some (view_node st (RegularFile c m)) \<and> int (length c) \<le> TransactionFileLimit st (jePath e))"
    and ev: "\<not> neutral st e \<Longrightarrow> seen st N (jePath e) = None \<Longrightarrow> writeEvidence st e None = Some (appliedWhen applied)"
      "\<And>c m. \<not> neutral st e \<Longrightarrow> seen st N (jePath e) = Some (view_node st (RegularFile c m)) \<Longrightarrow> writeEvidence st e (Some (stDigest st c, m)) = Some (appliedWhen applied)"
  shows "reads (entryEvidence_of st e) (\<lambda>N'. N' = N) (\<lambda>N' x. N' = N \<longrightarrow> x = (if neutral st e then evidenceNone else appliedWhen applied))"
proof (cases "neutral st e")
  case True
  then show ?thesis by (simp add: entryEvidence_of_def act neutral_def reads_def)
next
  case False
  then have def: "entryEvidence_of st e = chain (targetFileState st (jePath e)) (\<lambda>state. known (writeEvidence st e state))"
    by (auto simp: entryEvidence_of_def act neutral_def)
  have mode: "writeEvidence st e (Some (d, and m 448)) = writeEvidence st e (Some (d, m'))" if "observableOwnerMode st m = observableOwnerMode st m'" for d m m'
    using that by (simp add: writeEvidence_def ownerModesMatch_def)
  have known: "known (writeEvidence st e x) = ret (appliedWhen applied)"
    if "(x = None \<and> N (jePath e) = None) \<or> (\<exists>c m. N (jePath e) = Some (RegularFile c m) \<and> x = Some (stDigest st c, and m 448))" for x
    using that
  proof (elim disjE exE conjE)
    assume "x = None" "N (jePath e) = None"
    then show ?thesis using ev(1)[OF False] vis by (simp add: known_def seen_def)
  next
    fix c m assume x: "N (jePath e) = Some (RegularFile c m)" "x = Some (stDigest st c, and m 448)"
    then have "seen st N (jePath e) = Some (view_node st (RegularFile c m))" using vis by (simp add: seen_def)
    then show ?thesis using ev(2)[OF False] mode[of m m] x by (simp add: known_def)
  qed
  have ready: "N (jePath e) = None \<or> readable st (jePath e) N"
    using at seen_file[OF vis, of st N] seen_none[OF vis, of st N] by (auto simp: readable_iff)
  have "reads (known (writeEvidence st e x))
     (\<lambda>N'. N' = N \<and> ((x = None \<and> N (jePath e) = None) \<or> (\<exists>c m. N (jePath e) = Some (RegularFile c m) \<and> x = Some (stDigest st c, and m 448))))
     (\<lambda>N' y. N' = N \<longrightarrow> ((x = None \<and> N (jePath e) = None) \<or> (\<exists>c m. N (jePath e) = Some (RegularFile c m) \<and> x = Some (stDigest st c, and m 448))) \<longrightarrow> y = appliedWhen applied)" for x
  proof (cases "(x = None \<and> N (jePath e) = None) \<or> (\<exists>c m. N (jePath e) = Some (RegularFile c m) \<and> x = Some (stDigest st c, and m 448))")
    case True
    show ?thesis unfolding known[OF True] by (rule reads_mono[OF reads_ret]) auto
  next
    case False
    then show ?thesis by (cases "writeEvidence st e x") (auto simp: known_def reads_def)
  qed
  from reads_chain[OF reads_targetFileState this]
  show ?thesis unfolding def by (rule reads_mono) (use ready False in auto)
qed

text \<open>A first step that can only have one kind of result.\<close>

lemma reads_then:
  assumes m: "reads m G X" "G N"
    and f: "\<And>x. X N x \<Longrightarrow> f x = known (Some v)"
    and only: "\<And>x. \<exists>ev. f x = known ev"
  shows "reads (chain m f) (\<lambda>N'. N' = N) (\<lambda>N' y. N' = N \<longrightarrow> y = v)"
proof -
  have "reads (f x) (\<lambda>N'. N' = N \<and> X N x) (\<lambda>N' y. N' = N \<longrightarrow> X N x \<longrightarrow> y = v)" for x
  proof (cases "X N x")
    case True
    then show ?thesis using f[OF True] by (simp add: known_def reads_def)
  next
    case False
    then show ?thesis using only[of x] by (auto simp: known_def reads_def split: option.splits)
  qed
  from reads_chain[OF m(1) this] show ?thesis by (rule reads_mono) (use m(2) in auto)
qed

lemma reads_entryEvidence:
  assumes ok: "plan_ok st D plan" and i: "i < length plan" and e: "core e = fst (plan ! i)"
    and k: "k \<le> length plan" and N: "seen st N = after st plan D k"
  shows "reads (entryEvidence_of st e) (\<lambda>N'. N' = N) (\<lambda>N' x. N' = N \<longrightarrow> x = (if neutral st e then evidenceNone else appliedWhen (i < k)))"
proof -
  obtain e0 s previous where x: "plan ! i = (e0, s, previous)" by (cases "plan ! i")
  have c: "core e = e0" using e x by simp
  have fields: "jeAction e0 = jeAction e" "jePath e0 = jePath e" "jeTarget e0 = jeTarget e" "jeHadPrevious e0 = jeHadPrevious e"
    "jeMode e0 = jeMode e" "jePreviousMode e0 = jePreviousMode e" "jeDigest e0 = jeDigest e" "jePreviousDigest e0 = jePreviousDigest e"
    "footprint e0 = footprint e"
    using c by auto
  have planned: "planned_ok st D (e0, s, previous)" using planned_nth[OF ok i] x by simp
  have vis: "visible p" if "p \<in> set (footprint e)" for p
    using planned that by (auto simp: planned_ok_def Let_def list_all_iff fields place_ok_def)
  have self: "jePath e \<in> set (footprint e)" by (simp add: footprint_def)
  have before: "seen st N p = D p" if "\<not> i < k" "p \<in> set (footprint e)" for p
    using after_untouched[OF ok i, of k p] that x N fields by simp
  have applied: "seen st N p = entry_effect st (e0, s, previous) (after st plan D i) p" if "i < k" "p \<in> set (footprint e)" for p
    using after_applied[OF ok that(1) k, of p] that x N fields by simp
  have old: "after st plan D i p = D p" if "p \<in> set (footprint e)" for p
    using after_untouched[OF ok i order_refl, of p] that x fields by simp
  from planned show ?thesis
  proof (cases rule: planned_cases)
    case write_new
    then have w: "jeHadPrevious e = False" "D (jePath e) = None" "jeDigest e = stDigest st s" "int (length s) \<le> TransactionFileLimit st (jePath e)" "jeAction e = actionWrite"
      by (auto simp: write_planned_def fields)
    have new: "i < k \<Longrightarrow> seen st N (jePath e) = Some (view_node st (RegularFile s (jeMode e)))"
      using applied[OF _ self] w by (simp add: entry_effect_def fields)
    show ?thesis
    proof (rule reads_write_evidence[OF w(5) vis[OF self]])
      show "seen st N (jePath e) = None \<or> (\<exists>c m. seen st N (jePath e) = Some (view_node st (RegularFile c m)) \<and> int (length c) \<le> TransactionFileLimit st (jePath e))"
        using new before[OF _ self] w by (cases "i < k") auto
      show "writeEvidence st e None = Some (appliedWhen (i < k))" if "seen st N (jePath e) = None"
        using that new w by (cases "i < k") (auto simp: writeEvidence_def appliedWhen_def)
      show "writeEvidence st e (Some (stDigest st c, m)) = Some (appliedWhen (i < k))"
        if "seen st N (jePath e) = Some (view_node st (RegularFile c m))" for c m
        using that new before[OF _ self] w by (cases "i < k") (auto simp: writeEvidence_def appliedWhen_def view_node_def ownerModesMatch_def)
    qed
  next
    case write_over
    then have w: "jeHadPrevious e = True" "D (jePath e) = Some (view_node st (RegularFile previous (jePreviousMode e)))"
      "jePreviousDigest e = stDigest st previous" "int (length previous) \<le> TransactionFileLimit st (jePath e)"
      "jeDigest e = stDigest st s" "int (length s) \<le> TransactionFileLimit st (jePath e)" "jeAction e = actionWrite"
      by (auto simp: write_planned_def fields file_before_def)
    have new: "i < k \<Longrightarrow> seen st N (jePath e) = Some (view_node st (RegularFile s (jeMode e)))"
      using applied[OF _ self] w by (simp add: entry_effect_def fields)
    show ?thesis
    proof (rule reads_write_evidence[OF w(7) vis[OF self]])
      show "seen st N (jePath e) = None \<or> (\<exists>c m. seen st N (jePath e) = Some (view_node st (RegularFile c m)) \<and> int (length c) \<le> TransactionFileLimit st (jePath e))"
        using new before[OF _ self] w by (cases "i < k") auto
      show "writeEvidence st e None = Some (appliedWhen (i < k))" if "seen st N (jePath e) = None"
        using that new before[OF _ self] w by (cases "i < k") auto
      show "writeEvidence st e (Some (stDigest st c, m)) = Some (appliedWhen (i < k))"
        if "\<not> neutral st e" "seen st N (jePath e) = Some (view_node st (RegularFile c m))" for c m
        using that new before[OF _ self] w
        by (cases "i < k") (auto simp: writeEvidence_def appliedWhen_def view_node_def ownerModesMatch_def neutral_def sameContentsWrite_def)
    qed
  next
    case removal
    then have w: "D (jePath e) = Some (view_node st (RegularFile previous (jeMode e)))" "jeDigest e = stDigest st previous"
      "int (length previous) \<le> TransactionFileLimit st (jePath e)" "jeAction e = actionRemove"
      by (auto simp: removal_planned_def fields file_before_def)
    have gone: "i < k \<Longrightarrow> N (jePath e) = None"
      using applied[OF _ self] w seen_none[OF vis[OF self]] by (simp add: entry_effect_def fields)
    have there: "\<not> i < k \<Longrightarrow> \<exists>m. N (jePath e) = Some (RegularFile previous m)"
      using before[OF _ self] w(1) seen_file[OF vis[OF self], of st N previous "jeMode e"] by auto
    have nn: "\<not> neutral st e" using w by (simp add: neutral_def sameContentsWrite_def)
    have def: "entryEvidence_of st e = chain (targetDigest st (jePath e)) (\<lambda>state. known (removeEvidence e state))"
      by (simp add: entryEvidence_of_def w)
    show ?thesis unfolding def using nn
    proof (simp, intro reads_then[OF reads_targetDigest])
      show "N (jePath e) = None \<or> readable st (jePath e) N" using gone there w(3) by (cases "i < k") (auto simp: readable_iff)
      show "known (removeEvidence e x) = known (Some (appliedWhen (i < k)))"
        if "x = None \<and> N (jePath e) = None \<or> (\<exists>c m. N (jePath e) = Some (RegularFile c m) \<and> x = Some (stDigest st c))" for x
        using that gone there w(2) by (cases "i < k") (auto simp: removeEvidence_def appliedWhen_def)
    qed blast
  next
    case move
    then obtain t cc where t: "jeTarget e = Some t" "D t = None" "D (jePath e) = Some (view_node st (RegularFile cc (jeMode e)))"
      "jeDigest e = stDigest st cc" "int (length cc) \<le> TransactionFileLimit st (jePath e)" "int (length cc) \<le> TransactionFileLimit st t"
      by (auto simp: move_planned_def fields file_before_def)
    have act: "jeAction e = actionMove" using move fields by simp
    have tf: "t \<in> set (footprint e)" using t by (simp add: footprint_def)
    have pt: "t \<noteq> jePath e" using t by auto
    have eff: "entry_effect st (e0, s, previous) E = E(jePath e := None, t := E (jePath e))" for E
      using act t by (simp add: entry_effect_def fields)
    have moved: "N (jePath e) = None \<and> (\<exists>m. N t = Some (RegularFile cc m))" if "i < k"
    proof -
      have "seen st N (jePath e) = None" "seen st N t = D (jePath e)"
        using applied[OF that self] applied[OF that tf] old[OF self] pt by (simp_all add: eff)
      then show ?thesis using seen_none[OF vis[OF self]] seen_file[OF vis[OF tf], of st N cc "jeMode e"] t(3) by auto
    qed
    have stayed: "N t = None \<and> (\<exists>m. N (jePath e) = Some (RegularFile cc m))" if "\<not> i < k"
      using before[OF that self] before[OF that tf] seen_none[OF vis[OF tf]] seen_file[OF vis[OF self], of st N cc "jeMode e"] t(2,3) by auto
    have nn: "\<not> neutral st e" using act by (simp add: neutral_def sameContentsWrite_def)
    have def: "entryEvidence_of st e = chain (targetDigest st (jePath e)) (\<lambda>source.
        chain (targetDigest st t) (\<lambda>target. known (moveEvidence e source target)))"
      by (simp add: entryEvidence_of_def act t)
    have ready: "N (jePath e) = None \<or> readable st (jePath e) N" "N t = None \<or> readable st t N"
      using moved stayed t(5,6) by (cases "i < k"; auto simp: readable_iff)+
    have one: "reads (chain (targetDigest st t) (\<lambda>target. known (moveEvidence e a target)))
        (\<lambda>N'. N' = N \<and> a = map_option (\<lambda>_. stDigest st cc) (N (jePath e)))
        (\<lambda>N' y. N' = N \<longrightarrow> a = map_option (\<lambda>_. stDigest st cc) (N (jePath e)) \<longrightarrow> y = appliedWhen (i < k))" for a
    proof (cases "a = map_option (\<lambda>_. stDigest st cc) (N (jePath e))")
      case True
      have "reads (chain (targetDigest st t) (\<lambda>target. known (moveEvidence e a target))) (\<lambda>N'. N' = N) (\<lambda>N' y. N' = N \<longrightarrow> y = appliedWhen (i < k))"
      proof (rule reads_then[OF reads_targetDigest ready(2)])
        show "known (moveEvidence e a x) = known (Some (appliedWhen (i < k)))"
          if "x = None \<and> N t = None \<or> (\<exists>c m. N t = Some (RegularFile c m) \<and> x = Some (stDigest st c))" for x
          using that moved stayed t(4) True by (cases "i < k") (auto simp: moveEvidence_def appliedWhen_def)
      qed blast
      then show ?thesis by (rule reads_mono) auto
    next
      case False
      have "reads (known (moveEvidence e a x)) (\<lambda>_. False) (\<lambda>_ _. True)" for x
        by (cases "moveEvidence e a x") (simp_all add: known_def reads_def)
      from reads_chain[OF reads_targetDigest this] show ?thesis by (rule reads_mono) (use False in auto)
    qed
    have det: "a = map_option (\<lambda>_. stDigest st cc) (N (jePath e))"
      if "a = None \<and> N (jePath e) = None \<or> (\<exists>c m. N (jePath e) = Some (RegularFile c m) \<and> a = Some (stDigest st c))" for a
      using that moved stayed by (cases "i < k") auto
    show ?thesis unfolding def using nn
    proof (simp, intro reads_mono[OF reads_chain[OF reads_targetDigest one]])
      show "(N' (jePath e) = None \<or> readable st (jePath e) N') \<and>
        (\<forall>x. x = None \<and> N' (jePath e) = None \<or> (\<exists>c m. N' (jePath e) = Some (RegularFile c m) \<and> x = Some (stDigest st c)) \<longrightarrow>
          N' = N \<and> x = map_option (\<lambda>_. stDigest st cc) (N (jePath e)))" if "N' = N" for N'
        unfolding that using ready(1) det by (intro conjI allI impI) simp_all
      show "N' = N \<longrightarrow> y = appliedWhen (i < k)"
        if ex: "\<exists>x. (x = None \<and> N' (jePath e) = None \<or> (\<exists>c m. N' (jePath e) = Some (RegularFile c m) \<and> x = Some (stDigest st c))) \<and>
          (N' = N \<longrightarrow> x = map_option (\<lambda>_. stDigest st cc) (N (jePath e)) \<longrightarrow> y = appliedWhen (i < k))" for N' y
      proof
        assume n: "N' = N"
        from ex obtain x where x: "x = None \<and> N' (jePath e) = None \<or> (\<exists>c m. N' (jePath e) = Some (RegularFile c m) \<and> x = Some (stDigest st c))"
          "N' = N \<longrightarrow> x = map_option (\<lambda>_. stDigest st cc) (N (jePath e)) \<longrightarrow> y = appliedWhen (i < k)" by (elim exE conjE)
        show "y = appliedWhen (i < k)" using x(2) n det[OF x(1)[unfolded n]] by simp
      qed
    qed
  qed
qed

section \<open>The progress of a record\<close>

text \<open>A program that only looks and whose result at the files \<open>N\<close> is known.\<close>

definition finds :: "'a act \<Rightarrow> disk \<Rightarrow> 'a \<Rightarrow> bool" where
  "finds m N v \<longleftrightarrow> (\<forall>w. nodes w = N \<longrightarrow> wp m (\<lambda>x w'. still w w' \<and> x = v)
     (\<lambda>_ w'. still w w' \<and> wdOutcomes w \<noteq> []) (\<lambda>w'. still w w' \<and> wdOutcomes w \<noteq> []) w)"

lemma reads_finds: "reads m (\<lambda>N'. N' = N) (\<lambda>N' x. N' = N \<longrightarrow> x = v) \<Longrightarrow> finds m N v"
  unfolding finds_def by (intro allI impI, erule wp_reads) auto

lemma finds_ret: "finds (ret x) N x"
  by (simp add: finds_def)

lemma finds_chain:
  assumes "finds m N v" "finds (f v) N u" shows "finds (chain m f) N u"
  unfolding finds_def wp_chain
proof (intro allI impI)
  fix w assume n: "nodes w = N"
  show "wp m (\<lambda>x. wp (f x) (\<lambda>x w'. still w w' \<and> x = u) (\<lambda>_ w'. still w w' \<and> wdOutcomes w \<noteq> []) (\<lambda>w'. still w w' \<and> wdOutcomes w \<noteq> []))
     (\<lambda>_ w'. still w w' \<and> wdOutcomes w \<noteq> []) (\<lambda>w'. still w w' \<and> wdOutcomes w \<noteq> []) w"
  proof (rule wp_mono[OF assms(1)[unfolded finds_def, rule_format, OF n]])
    fix x w' assume a: "still w w' \<and> x = v"
    then have n': "nodes w' = N" using nodes_still n by auto
    show "wp (f x) (\<lambda>x w'. still w w' \<and> x = u) (\<lambda>_ w'. still w w' \<and> wdOutcomes w \<noteq> []) (\<lambda>w'. still w w' \<and> wdOutcomes w \<noteq> []) w'"
      using a still_trans[of w w'] still_empty[of w w']
      by (intro wp_mono[OF assms(2)[unfolded finds_def, rule_format, OF n', folded a[THEN conjunct2]]]) auto
  qed auto
qed

lemma finds_evidence_list:
  "list_all2 (\<lambda>e v. finds (entryEvidence_of st e) N v) es vs \<Longrightarrow> finds (evidence_list st es) N vs"
  by (induction es vs rule: list_all2_induct) (auto intro!: finds_ret finds_chain)

definition evidence_at :: "Storage \<Rightarrow> journalEntry list \<Rightarrow> nat \<Rightarrow> entryEvidence list" where
  "evidence_at st es k = map (\<lambda>i. if neutral st (es ! i) then evidenceNone else appliedWhen (i < k)) [0..<length es]"

lemma finds_evidence:
  assumes ok: "plan_ok st D plan" and c: "carries st bks plan i r" and k: "k \<le> length plan" and N: "seen st N = after st plan D k"
  shows "finds (evidence_list st (jrEntries r)) N (evidence_at st (jrEntries r) k)"
proof (rule finds_evidence_list)
  have "finds (entryEvidence_of st (jrEntries r ! j)) N (evidence_at st (jrEntries r) k ! j)" if j: "j < length (jrEntries r)" for j
  proof -
    have jp: "j < length plan" using j carries_length[OF c] by simp
    have "core (jrEntries r ! j) = fst (plan ! j)" using entry_at(2)[OF c jp] by (simp add: entry_ok_def)
    from reads_finds[OF reads_entryEvidence[OF ok jp this k N]] show ?thesis using j by (simp add: evidence_at_def split: if_splits)
  qed
  then show "list_all2 (\<lambda>e v. finds (entryEvidence_of st e) N v) (jrEntries r) (evidence_at st (jrEntries r) k)"
    by (simp add: list_all2_conv_all_nth evidence_at_def)
qed

text \<open>The two bounds enclose the progress, and between it and the upper bound no entry can be told apart.\<close>

lemma lowest_of_le:
  assumes "\<And>i. i < length xs \<Longrightarrow> xs ! i = evidenceApplied \<Longrightarrow> i < k"
  shows "lowest_of xs \<le> k"
proof -
  have "fold (\<lambda>i low. if xs ! i = evidenceApplied \<and> i + 1 > low then i + 1 else low) [0..<n] 0 \<le> k" if "n \<le> length xs" for n
    using that assms by (induction n) (auto simp: Suc_le_eq)
  then show ?thesis by (simp add: lowest_of_def)
qed

lemma highest_of_bounds:
  assumes "k \<le> length xs" "\<And>i. i < length xs \<Longrightarrow> xs ! i = evidenceUnapplied \<Longrightarrow> k \<le> i"
  shows "k \<le> highest_of xs" "highest_of xs \<le> length xs" "j < highest_of xs \<Longrightarrow> xs ! j \<noteq> evidenceUnapplied"
proof -
  define h where "h n = fold (\<lambda>i high. if xs ! i = evidenceUnapplied \<and> i < high then i else high) [0..<n] (length xs)" for n
  have h: "k \<le> h n \<and> h n \<le> length xs \<and> (\<forall>j < n. xs ! j = evidenceUnapplied \<longrightarrow> h n \<le> j)" if "n \<le> length xs" for n
    using that
  proof (induction n)
    case (Suc n)
    then have IH: "k \<le> h n" "h n \<le> length xs" "\<forall>j < n. xs ! j = evidenceUnapplied \<longrightarrow> h n \<le> j" by simp_all
    have step: "h (Suc n) = (if xs ! n = evidenceUnapplied \<and> n < h n then n else h n)" by (simp add: h_def)
    show ?case using IH assms(2)[of n] Suc.prems unfolding step by (auto simp: less_Suc_eq)
  qed (use assms in \<open>simp add: h_def\<close>)
  have eq: "highest_of xs = h (length xs)" by (simp add: highest_of_def h_def)
  show "k \<le> highest_of xs" "highest_of xs \<le> length xs" unfolding eq using h[of "length xs"] by simp_all
  show "xs ! j \<noteq> evidenceUnapplied" if "j < highest_of xs"
    using that h[of "length xs"] unfolding eq by (metis leD less_le_trans order_refl)
qed

lemma evidence_at_bounds:
  assumes "k \<le> length es" and h_def: "h = highest_of (evidence_at st es k)"
  shows "lowest_of (evidence_at st es k) \<le> h" "k \<le> h" "h \<le> length es" "k \<le> j \<Longrightarrow> j < h \<Longrightarrow> neutral st (es ! j)"
proof -
  let ?xs = "evidence_at st es k"
  have nth: "?xs ! i = (if neutral st (es ! i) then evidenceNone else appliedWhen (i < k))" if "i < length es" for i
    using that by (simp add: evidence_at_def)
  have l: "length ?xs = length es" by (simp add: evidence_at_def)
  have un: "k \<le> i" if "i < length ?xs" "?xs ! i = evidenceUnapplied" for i
    using that nth[of i] l by (auto simp: appliedWhen_def split: if_splits)
  have ap: "i < k" if "i < length ?xs" "?xs ! i = evidenceApplied" for i
    using that nth[of i] l by (auto simp: appliedWhen_def split: if_splits)
  have kl: "k \<le> length ?xs" using assms(1) l by simp
  show k: "k \<le> h" unfolding h_def by (rule highest_of_bounds(1)[OF kl un])
  show h: "h \<le> length es" using highest_of_bounds(2)[OF kl un] l unfolding h_def by simp
  have "lowest_of ?xs \<le> k" by (rule lowest_of_le[OF ap])
  then show "lowest_of ?xs \<le> h" using k by simp
  show "neutral st (es ! j)" if "k \<le> j" "j < h"
  proof (rule ccontr)
    assume "\<not> neutral st (es ! j)"
    then have "?xs ! j = evidenceUnapplied" using nth[of j] that h by (simp add: appliedWhen_def)
    then show False using highest_of_bounds(3)[OF kl un, of j] that(2) unfolding h_def by blast
  qed
qed

end
