(* ===== verification/StoreRollback.thy ===== *)
theory StoreRollback
  imports StoreReconcile
begin

text \<open>
  Rolling back a pending transaction, from the lock to the history, wherever the process is stopped.
\<close>

section \<open>Records that are accepted again\<close>

definition good_record :: "Storage \<Rightarrow> (fpath \<times> node) list \<Rightarrow> planned_entry list \<Rightarrow> gostring \<Rightarrow> journalRecord \<Rightarrow> bool" where
  "good_record st bks plan i r \<longleftrightarrow> carries st bks plan i r \<and> jrCommitted r \<le> length plan \<and> jrFinishedAt r = None \<and>
     ((jrStatus r = statusStaged \<and> has_backups r (length plan)) \<or>
      (jrStatus r = statusStaging \<and> (\<not> jrAtomic r \<longrightarrow> jrCommitted r = 0)))"

definition digests_ok :: "Storage \<Rightarrow> bool" where "digests_ok st \<longleftrightarrow> (\<forall>c. validJournalDigest (stDigest st c))"

lemma owner_mode_0 [simp]: "validOwnerFileMode 0"
  by (simp add: validOwnerFileMode_def)

lemma sibling_in_workspace:
  assumes "Contains root p" "p \<noteq> root"
  shows "Contains root (butlast p @ [name])" "butlast p @ [name] \<noteq> root"
proof -
  obtain rel where p: "p = root @ rel" "rel \<noteq> []"
    using assms append_take_drop_id[of "length root" p] unfolding Contains_def by (metis append_Nil2)
  then have b: "butlast p @ [name] = root @ (butlast rel @ [name])" by (simp add: butlast_append)
  show "Contains root (butlast p @ [name])" "butlast p @ [name] \<noteq> root" unfolding b by (simp_all add: Contains_def)
qed

lemma accepted_entry:
  assumes ok: "planned_ok st D x" and e: "entry_ok st bks i x e" and d: "digests_ok st" and r: "jrID r = i" "jrStatus r \<noteq> statusCompleted"
    and atomic: "jrAtomic r \<Longrightarrow> jeAction e = actionWrite"
    and b: "needs_backup e \<Longrightarrow> jeBackup e = None \<Longrightarrow> jrStatus r = statusStaging"
  shows "validateLoadedJournalEntry st r e True"
proof -
  obtain e0 s previous where x: "x = (e0, s, previous)" by (cases x)
  have c: "core e = e0" and th: "temp_holds i e" and bh: "backup_holds st bks i e previous" using e by (simp_all add: entry_ok_def x)
  have fields: "jeAction e0 = jeAction e" "jePath e0 = jePath e" "jeTarget e0 = jeTarget e" "jeHadPrevious e0 = jeHadPrevious e"
    "jeMode e0 = jeMode e" "jePreviousMode e0 = jePreviousMode e" "jeDigest e0 = jeDigest e" "jePreviousDigest e0 = jePreviousDigest e"
    "jeNoBackup e0 = jeNoBackup e" "footprint e0 = footprint e"
    using c by auto
  have place: "Contains (stRoot st) p \<and> p \<noteq> stRoot st" if "p \<in> set (footprint e)" for p
    using ok that by (simp add: planned_ok_def Let_def x list_all_iff fields place_ok_def)
  have self: "Contains (stRoot st) (jePath e)" "jePath e \<noteq> stRoot st" using place[of "jePath e"] by (simp_all add: footprint_def)
  have nb: "\<not> jeNoBackup e" using ok by (simp add: planned_ok_def Let_def x fields)
  have temp: "case jeTemp e of None \<Rightarrow> True | Some t \<Rightarrow> validLoadedWorkspacePath st t \<and> butlast t = butlast (jePath e) \<and>
      has_prefix (last t) (temp_prefix (jrID r)) \<and> jrStatus r \<noteq> statusCompleted"
    using th r sibling_in_workspace[OF self] by (auto simp: temp_holds_def validLoadedWorkspacePath_def has_prefix_def split: option.splits)
  have target: "case jeTarget e of None \<Rightarrow> True | Some t \<Rightarrow> validLoadedWorkspacePath st t"
    using place by (auto simp: footprint_def validLoadedWorkspacePath_def split: option.splits)
  have backup: "validateLoadedBackup st r e True" if "jeAction e = actionWrite \<or> jeAction e = actionRemove"
    using bh b r self nb that
    by (cases "jeBackup e") (auto simp: validateLoadedBackup_def backup_holds_def needs_backup_def)
  have dig: "validJournalDigest (stDigest st c)" for c using d by (simp add: digests_ok_def)
  have planned: "planned_ok st D (e0, s, previous)" using ok x by simp
  have base: "validateLoadedJournalEntry st r e True" if
    "case jeAction e of
       actionWrite \<Rightarrow> jeTarget e = None \<and> validOwnerFileMode (jeMode e) \<and> validJournalDigest (jeDigest e) \<and>
          jeHadPrevious e = validJournalDigest (jePreviousDigest e) \<and>
          \<not> (\<not> jeHadPrevious e \<and> jePreviousMode e \<noteq> 0) \<and> validOwnerFileMode (jePreviousMode e)
     | actionMove \<Rightarrow> jeTarget e \<noteq> None \<and> jeTemp e = None \<and> jeBackup e = None \<and> jeHadPrevious e \<and>
          jePreviousMode e = 0 \<and> validOwnerFileMode (jeMode e) \<and> validJournalDigest (jeDigest e) \<and>
          jePreviousDigest e = jeDigest e \<and> \<not> jrAtomic r
     | actionRemove \<Rightarrow> jeTarget e = None \<and> jeTemp e = None \<and> jeHadPrevious e \<and> validOwnerFileMode (jeMode e) \<and>
          jePreviousMode e = 0 \<and> validJournalDigest (jeDigest e) \<and> jePreviousDigest e = jeDigest e \<and> \<not> jrAtomic r
     | _ \<Rightarrow> False"
    using that self temp target backup nb unfolding validateLoadedJournalEntry_def
    by (cases "jeTemp e"; cases "jeAction e") (simp_all add: validLoadedWorkspacePath_def)
  have short: "\<not> validJournalDigest []" by (simp add: validJournalDigest_def)
  from planned show ?thesis
  proof (cases rule: planned_cases)
    case write_new
    then show ?thesis using short dig by (intro base) (simp add: write_planned_def fields)
  next
    case write_over
    then show ?thesis using dig by (intro base) (auto simp: write_planned_def fields file_before_def)
  next
    case move
    then have "jeTemp e = None" "jeBackup e = None" "\<not> jrAtomic r"
      using th bh atomic by (auto simp: temp_holds_def backup_holds_def needs_backup_def fields split: option.splits)
    then show ?thesis using move dig by (intro base) (auto simp: move_planned_def fields file_before_def)
  next
    case removal
    then have "jeTemp e = None" "\<not> jrAtomic r" using th atomic by (auto simp: temp_holds_def fields split: option.splits)
    then show ?thesis using removal dig by (intro base) (auto simp: removal_planned_def fields file_before_def)
  qed
qed

lemma claim_distinct:
  "distinct (concat (map footprint es)) \<Longrightarrow> set (concat (map footprint es)) \<inter> set c = {} \<Longrightarrow> claim_entries es c"
  by (induction es arbitrary: c) (auto simp: claim_def footprint_def split: option.splits)

lemma accepted_record:
  assumes ok: "plan_ok st D plan" and g: "good_record st bks plan i r" and d: "digests_ok st"
  shows "validateLoadedJournalRecord st r i InJournal"
proof -
  have c: "carries st bks plan i r" using g by (simp add: good_record_def)
  have facts: "jrID r = i" "validJournalIdentifier i" "jrVersion r = journalVersion" "jrOperation r \<noteq> []" "jrStartedAt r \<noteq> 0" "plan \<noteq> []"
    "\<not> jrDiscardBackups r"
    using c by (simp_all add: carries_def)
  have l: "length (jrEntries r) = length plan" by (rule carries_length[OF c])
  have each: "validateLoadedJournalEntry st r (jrEntries r ! j) True \<and> jeAction (jrEntries r ! j) \<noteq> actionNote" if j: "j < length plan" for j
  proof
    have e: "entry_ok st bks i (plan ! j) (jrEntries r ! j)" by (rule entry_at(2)[OF c j])
    have act: "jeAction (jrEntries r ! j) = jeAction (fst (plan ! j))" using e core_simps(1) by (metis entry_ok_def)
    show "validateLoadedJournalEntry st r (jrEntries r ! j) True"
    proof (rule accepted_entry[OF planned_nth[OF ok j] e d facts(1)])
      show "jrStatus r \<noteq> statusCompleted" using g by (auto simp: good_record_def)
      show "jeAction (jrEntries r ! j) = actionWrite" if "jrAtomic r" using that c act j by (simp add: carries_def list_all_length)
      show "jrStatus r = statusStaging" if "needs_backup (jrEntries r ! j)" "jeBackup (jrEntries r ! j) = None"
        using that g j by (auto simp: good_record_def has_backups_def)
    qed
    show "jeAction (jrEntries r ! j) \<noteq> actionNote"
      unfolding act using planned_nth[OF ok j] by (auto simp: planned_ok_def Let_def split: action.splits)
  qed
  have "map footprint (jrEntries r) = map (\<lambda>x. footprint (fst x)) plan"
    by (rule nth_equalityI) (use l entry_at(3)[OF c] in simp_all)
  then have claims: "claim_entries (jrEntries r) []"
    using ok claim_distinct[of "jrEntries r" "[]"] by (simp add: plan_ok_def)
  have all: "list_all (\<lambda>e. validateLoadedJournalEntry st r e True) (jrEntries r)" "filter (\<lambda>e. jeAction e = actionNote) (jrEntries r) = []"
    using each l by (auto simp: list_all_length filter_empty_conv in_set_conv_nth)
  show ?thesis
    unfolding validateLoadedJournalRecord_def
    using g facts all claims l by (auto simp: good_record_def)
qed

section \<open>A pending transaction\<close>

text \<open>The files are those after \<open>k\<close> entries, and the journal holds one record of the plan.\<close>

definition pending :: "Storage \<Rightarrow> planned_entry list \<Rightarrow> disk \<Rightarrow> gostring \<Rightarrow> World \<Rightarrow> bool" where
  "pending st plan D i w \<longleftrightarrow> tidy w \<and> (\<exists>k r. k \<le> length plan \<and> files_of st w = after st plan D k \<and> wdJournal w = [(i, r)] \<and>
     good_record st (wdBackups w) plan i r \<and> (jrStatus r = statusStaging \<longrightarrow> k = 0))"

definition settled :: "Storage \<Rightarrow> disk \<Rightarrow> World \<Rightarrow> bool" where
  "settled st D w \<longleftrightarrow> tidy w \<and> files_of st w = D \<and> wdJournal w = []"

definition home_ok :: "Storage \<Rightarrow> disk \<Rightarrow> bool" where
  "home_ok st D \<longleftrightarrow> is_directory (D (stRoot st)) \<and> is_directory (D (StateDir st))"

lemma home_after: "plan_ok st D plan \<Longrightarrow> home_ok st D \<Longrightarrow> home_ok st (after st plan D k)"
  by (simp add: home_ok_def after_directory)

lemma wp_MkdirAll_there:
  assumes "is_directory (nodes w p)"
  shows "wp (MkdirAll p) (\<lambda>_ w'. still w w') (\<lambda>_ w'. still w w' \<and> wdOutcomes w \<noteq> []) (\<lambda>w'. still w w' \<and> wdOutcomes w \<noteq> []) w"
  unfolding MkdirAll_def wp_chain[of operation]
proof (rule wp_op)
  fix w' assume s: "still w w'"
  have "is_directory (nodes w' p)" using assms by (simp add: nodes_still[OF s])
  then show "wp (chain (get (node_at p)) (\<lambda>n. case n of
      None \<Rightarrow> modify (put_node p (Directory DirectoryPermission))
    | Some (Directory _) \<Rightarrow> ret ()
    | Some _ \<Rightarrow> failing ErrNotDirectory)) (\<lambda>_ w'. still w w') (\<lambda>_ w'. still w w' \<and> wdOutcomes w \<noteq> []) (\<lambda>w'. still w w' \<and> wdOutcomes w \<noteq> []) w'"
    using s by (simp add: node_at_nodes is_directory_def split: option.splits node.splits)
qed auto

lemma wp_Lstat_there:
  assumes "\<And>w'. still w w' \<Longrightarrow> Q (nodes w p) w'" "\<And>w'. still w w' \<Longrightarrow> wdOutcomes w \<noteq> [] \<Longrightarrow> R ErrIO w'" "\<And>w'. still w w' \<Longrightarrow> wdOutcomes w \<noteq> [] \<Longrightarrow> S w'"
  shows "wp (Lstat p) Q R S w"
  unfolding Lstat_def wp_chain wp_get
  by (rule wp_op) (use assms nodes_still in \<open>auto simp: node_at_nodes\<close>)

lemma wp_lockMutation:
  assumes h: "home_ok st (files_of st w)"
  shows "wp (lockMutation st) (\<lambda>_ w'. still w w') (\<lambda>_ w'. still w w' \<and> wdOutcomes w \<noteq> []) (\<lambda>w'. still w w' \<and> wdOutcomes w \<noteq> []) w"
    (is "wp _ ?Q ?R ?S w")
proof -
  let ?root = "stRoot st" let ?state = "StateDir st"
  obtain m where root: "nodes w ?root = Some (Directory m)"
    using h directory_of_files[of st w ?root] by (auto simp: home_ok_def is_directory_def split: option.splits node.splits)
  obtain n where state: "nodes w ?state = Some (Directory n)"
    using h directory_of_files[of st w ?state] by (auto simp: home_ok_def is_directory_def split: option.splits node.splits)
  have lock: "wp operation ?Q ?R ?S w1" if "still w w1" for w1
    by (rule wp_op) (use that still_trans[OF that] still_empty[OF that] in auto)
  have mk: "wp (MkdirAll ?state) (\<lambda>_. wp operation ?Q ?R ?S) ?R ?S w1" if s: "still w w1" for w1
    by (rule wp_mono[OF wp_MkdirAll_there])
      (use s state lock still_trans[OF s] still_empty[OF s] in \<open>auto simp: nodes_still[OF s]\<close>)
  have look: "wp (Lstat ?state) (\<lambda>info. wp (case info of
          None \<Rightarrow> chain (MkdirAll ?state) ret
        | Some SymbolicLink \<Rightarrow> failing ErrSymlinkPath
        | Some (RegularFile _ _) \<Rightarrow> failing ErrNotDirectory
        | Some (Directory _) \<Rightarrow>
            chain (MkdirAll ?state) ret)
      (\<lambda>_. wp operation ?Q ?R ?S) ?R ?S) ?R ?S w1" if s: "still w w1" for w1
  proof (rule wp_Lstat_there)
    fix w2 assume s2: "still w1 w2"
    show "wp (case nodes w1 ?state of
          None \<Rightarrow> chain (MkdirAll ?state) ret
        | Some SymbolicLink \<Rightarrow> failing ErrSymlinkPath
        | Some (RegularFile _ _) \<Rightarrow> failing ErrNotDirectory
        | Some (Directory _) \<Rightarrow>
            chain (MkdirAll ?state) ret)
      (\<lambda>_. wp operation ?Q ?R ?S) ?R ?S w2"
      using mk[OF still_trans[OF s s2]] state by (simp add: nodes_still[OF s] Contains_def)
  qed (use still_trans[OF s] still_empty[OF s] in auto)
  have "Contains ?root ?state" "drop (length ?root) ?state = [StateDirectoryName]" "?root @ [StateDirectoryName] = ?state" "Contains ?state ?state"
    by (simp_all add: StateDir_def Contains_def)
  then have ens: "EnsureDirectory st ?state = chain (Lstat ?root) (\<lambda>info.
        chain (case info of
            None \<Rightarrow> MkdirAll ?root
          | Some SymbolicLink \<Rightarrow> failing ErrSymlinkPath
          | Some (Directory _) \<Rightarrow> ret ()
          | Some (RegularFile _ _) \<Rightarrow> failing ErrNotDirectory)
        (\<lambda>_. chain (Lstat ?state) (\<lambda>info. case info of
          None \<Rightarrow> chain (MkdirAll ?state) ret
        | Some SymbolicLink \<Rightarrow> failing ErrSymlinkPath
        | Some (RegularFile _ _) \<Rightarrow> failing ErrNotDirectory
        | Some (Directory _) \<Rightarrow>
            chain (MkdirAll ?state) ret)))"
    by (simp add: EnsureDirectory_def Let_def)
  show ?thesis
    unfolding lockMutation_def ens wp_chain[of "chain _ _" ] wp_chain[of "Lstat ?root"]
  proof (rule wp_Lstat_there)
    fix w1 assume s: "still w w1"
    show "wp (chain (case nodes w ?root of
            None \<Rightarrow> MkdirAll ?root
          | Some SymbolicLink \<Rightarrow> failing ErrSymlinkPath
          | Some (Directory _) \<Rightarrow> ret ()
          | Some (RegularFile _ _) \<Rightarrow> failing ErrNotDirectory)
        (\<lambda>_. chain (Lstat ?state) (\<lambda>info. case info of
          None \<Rightarrow> chain (MkdirAll ?state) ret
        | Some SymbolicLink \<Rightarrow> failing ErrSymlinkPath
        | Some (RegularFile _ _) \<Rightarrow> failing ErrNotDirectory
        | Some (Directory _) \<Rightarrow>
            chain (MkdirAll ?state) ret)))
      (\<lambda>_. wp operation ?Q ?R ?S) ?R ?S w1"
      using look[OF s] by (simp only: root option.case node.case wp_chain[of "ret ()"] wp_ret wp_chain[of "Lstat ?state"])
  qed auto
qed

section \<open>Loading the record\<close>

lemma carries_update_committed [simp]: "carries st bks plan i (r\<lparr>jrCommitted := n\<rparr>) = carries st bks plan i r"
  by (simp add: carries_def)

lemma has_backups_committed [simp]: "has_backups (r\<lparr>jrCommitted := n\<rparr>) k = has_backups r k"
  by (simp add: has_backups_def)

text \<open>How far the record says the transaction got: never short of the truth.\<close>

definition reconciled :: "Storage \<Rightarrow> nat \<Rightarrow> journalRecord \<Rightarrow> journalRecord \<Rightarrow> bool" where
  "reconciled st k r r' \<longleftrightarrow> jrEntries r' = jrEntries r \<and> jrStatus r' = jrStatus r \<and> k \<le> jrCommitted r' \<and>
     (\<forall>j. k \<le> j \<longrightarrow> j < jrCommitted r' \<longrightarrow> neutral st (jrEntries r ! j))"

lemma chain_ret: "chain (ret x) f = f x"
  by (rule ext) (simp add: chain_def ret_def)

lemma finds_reconcile:
  assumes ok: "plan_ok st D plan" and g: "good_record st bks plan i r" and k: "k \<le> length plan" and N: "seen st N = after st plan D k"
    and start: "jrStatus r = statusStaging \<Longrightarrow> k = 0"
  shows "\<exists>r'. finds (reconcileRecord st r) N (r' \<noteq> r, r') \<and> reconciled st k r r' \<and> good_record st bks plan i r'"
proof (cases "jrAtomic r \<or> jrStatus r = statusStaged")
  case True
  have c: "carries st bks plan i r" using g by (simp add: good_record_def)
  have l: "length (jrEntries r) = length plan" by (rule carries_length[OF c])
  define h where "h = highest_of (evidence_at st (jrEntries r) k)"
  have bounds: "lowest_of (evidence_at st (jrEntries r) k) \<le> h" "k \<le> h" "h \<le> length plan"
    "\<And>j. k \<le> j \<Longrightarrow> j < h \<Longrightarrow> neutral st (jrEntries r ! j)"
    using evidence_at_bounds[of k "jrEntries r" h st] k l by (simp_all add: h_def)
  have st: "jrStatus r = statusStaging \<or> jrStatus r = statusStaged" using g by (auto simp: good_record_def)
  have "finds (reconcileRecord st r) N (jrCommitted r \<noteq> h, r\<lparr>jrCommitted := h\<rparr>)"
  proof -
    have "reconcileRecord st r = chain (evidence_list st (jrEntries r)) (\<lambda>xs.
        if lowest_of xs > highest_of xs then failing ErrRecoveryStateUnknown
        else ret (jrCommitted r \<noteq> highest_of xs, r\<lparr>jrCommitted := highest_of xs\<rparr>))"
      using st by (elim disjE) (use True in \<open>auto simp: reconcileRecord_def reconcile_status_def reconcile_rest_def reconcile_progress_def chain_ret cong: if_cong\<close>)
    moreover have "finds \<dots> N (jrCommitted r \<noteq> h, r\<lparr>jrCommitted := h\<rparr>)"
      by (rule finds_chain[OF finds_evidence[OF ok c k N]])
        (use bounds(1) finds_ret in \<open>simp add: h_def[symmetric] not_less[symmetric]\<close>)
    ultimately show ?thesis by simp
  qed
  moreover have "(jrCommitted r \<noteq> h) = (r\<lparr>jrCommitted := h\<rparr> \<noteq> r)" by (cases r) auto
  moreover have "reconciled st k r (r\<lparr>jrCommitted := h\<rparr>)" using bounds by (simp add: reconciled_def)
  moreover have "good_record st bks plan i (r\<lparr>jrCommitted := h\<rparr>)" using g bounds True by (auto simp: good_record_def)
  ultimately show ?thesis by (intro exI[of _ "r\<lparr>jrCommitted := h\<rparr>"]) simp
next
  case False
  then have st: "jrStatus r = statusStaging" "jrCommitted r = 0" "\<not> jrAtomic r" using g by (auto simp: good_record_def)
  have "reconcileRecord st r = ret (False, r)"
    using st by (simp add: reconcileRecord_def reconcile_status_def reconcile_rest_def reconcile_progress_def chain_ret)
  then have "finds (reconcileRecord st r) N (False, r)" by (simp add: finds_ret)
  then show ?thesis using st start g by (intro exI[of _ r]) (auto simp: reconciled_def)
qed

text \<open>The files are as after \<open>k\<close> entries, and the process holds a record that is right about it.\<close>

definition loaded :: "Storage \<Rightarrow> planned_entry list \<Rightarrow> disk \<Rightarrow> gostring \<Rightarrow> World \<Rightarrow> World \<Rightarrow> bool" where
  "loaded st plan D i w w' \<longleftrightarrow> tidies st w w' \<and> (\<exists>k r q. k \<le> length plan \<and> files_of st w' = after st plan D k \<and>
     wdJournal w' = [(i, q)] \<and> good_record st (wdBackups w') plan i q \<and> (jrStatus q = statusStaging \<longrightarrow> k = 0) \<and>
     wdRecord w' = r \<and> good_record st (wdBackups w') plan i r \<and> jrStatus r = jrStatus q \<and>
     k \<le> jrCommitted r \<and> (\<forall>j. k \<le> j \<longrightarrow> j < jrCommitted r \<longrightarrow> neutral st (jrEntries r ! j)))"

lemma pending_tidies:
  assumes "pending st plan D i w" "tidies st w w'" "wdJournal w' = wdJournal w" shows "pending st plan D i w'"
  using assms unfolding pending_def tidies_def by auto

lemma tidies_put_journal [simp]: "tidies st w (put_record InJournal r w') = tidies st w w'"
  by (simp add: put_record_def)

lemma wp_loadPending:
  assumes ok: "plan_ok st D plan" and d: "digests_ok st" and bytes: "\<And>q. record_bytes q \<le> maxRecordBytes" and p: "pending st plan D i w"
  shows "wp (loadPending st record_bytes i) (\<lambda>_ w'. loaded st plan D i w w')
     (\<lambda>_ w'. tidies st w w' \<and> pending st plan D i w' \<and> wdOutcomes w \<noteq> [])
     (\<lambda>w'. tidies st w w' \<and> pending st plan D i w' \<and> wdOutcomes w \<noteq> []) w" (is "wp _ ?Q ?R ?S w")
proof -
  obtain k r where k: "k \<le> length plan" "files_of st w = after st plan D k" "wdJournal w = [(i, r)]"
     "good_record st (wdBackups w) plan i r" "jrStatus r = statusStaging \<longrightarrow> k = 0" and tidy: "tidy w"
    using p by (auto simp: pending_def)
  obtain r' where r': "finds (reconcileRecord st r) (nodes w) (r' \<noteq> r, r')" "reconciled st k r r'" "good_record st (wdBackups w) plan i r'"
    using finds_reconcile[OF ok k(4,1) _, of "nodes w"] k(2,5) by (auto simp: files_of_def)
  have id: "jrID r' = i" "validJournalIdentifier i" using r'(3) by (simp_all add: good_record_def carries_def)
  have bad: "?R e w1" "?S w1" if "still w w1" "wdOutcomes w \<noteq> []" for e :: store_failure and w1
    using that pending_tidies[OF p tidies_still[OF tidy that(1)]] tidies_still[OF tidy that(1)] by (auto simp: still_def keeps_def)
  have good: "?Q () (w2\<lparr>wdRecord := r'\<rparr>)" if "tidies st w w2" "wdJournal w2 = [(i, q)]" "q = r \<or> q = r'" for w2 q
    unfolding loaded_def
    by (intro conjI exI[of _ k] exI[of _ r'] exI[of _ q])
      (use that k r' in \<open>auto simp: tidies_def files_of_def reconciled_def tidy_def calm_def fails_def\<close>)
  have writing: "wp (if r' \<noteq> r then (if validateLoadedJournalRecord st r' i InJournal then writeRecord record_bytes InJournal r' else failing ErrInvalidJournal)
            else ret ()) (\<lambda>_ w2. ?Q () (w2\<lparr>wdRecord := r'\<rparr>)) ?R ?S w1" if s: "still w w1" for w1
  proof (cases "r' = r")
    case True
    then show ?thesis using good[OF tidies_still[OF tidy s], of r] s k(3) by (simp add: still_def keeps_def)
  next
    case False
    have t1: "tidies st w w1" "tidy w1" "wdJournal w1 = [(i, r)]"
      using tidies_still[OF tidy s] tidies_tidy[OF tidies_still[OF tidy s]] s k(3) by (simp_all add: still_def keeps_def)
    have o1: "wdOutcomes w1 \<noteq> [] \<Longrightarrow> wdOutcomes w \<noteq> []" using still_empty[OF s] by blast
    have "wp (atomic_document (put_record InJournal r')) (\<lambda>_ w2. ?Q () (w2\<lparr>wdRecord := r'\<rparr>)) ?R ?S w1"
    proof (rule wp_atomic_document)
      show "wdOutcomes (put_record InJournal r' w2) = wdOutcomes w2" for w2 by (simp add: put_record_def)
      show "?R ErrIO w2" "?S w2" if "still w1 w2" "wdOutcomes w1 \<noteq> []" for w2
        using bad[OF still_trans[OF s that(1)] o1[OF that(2)]] by blast+
      have put: "tidies st w w3 \<and> wdJournal w3 = [(i, r')]" if "still w1 w2" "still (put_record InJournal r' w2) w3" for w2 w3
      proof
        have "tidies st w w2" by (rule tidies_still[OF tidy still_trans[OF s that(1)]])
        then have t2: "tidies st w (put_record InJournal r' w2)" by simp
        show "tidies st w w3" by (rule tidies_trans[OF t2 tidies_still[OF tidies_tidy[OF t2] that(2)]])
        show "wdJournal w3 = [(i, r')]"
          using that t1(3) id(1) by (simp add: still_def keeps_def put_record_def)
      qed
      show "?Q () (w3\<lparr>wdRecord := r'\<rparr>)" if "still w1 w2" "still (put_record InJournal r' w2) w3" for w2 w3
        using put[OF that] good by blast
      show "?R ErrIO w3" "?S w3" if "still w1 w2" "still (put_record InJournal r' w2) w3" "wdOutcomes w1 \<noteq> []" for w2 w3
      proof -
        have "pending st plan D i w3"
          using put[OF that(1,2)] k r' tidies_tidy[of st w w3] unfolding pending_def
          by (intro conjI exI[of _ k] exI[of _ r']) (auto simp: tidies_def reconciled_def)
        then show "?R ErrIO w3" "?S w3" using put[OF that(1,2)] o1[OF that(3)] by blast+
      qed
    qed
    then show ?thesis using False accepted_record[OF ok r'(3) d] bytes[of r'] by (simp add: writeRecord_def not_less)
  qed
  have rec: "wp (reconcileRecord st r) (\<lambda>x. wp (case x of (changed, r) \<Rightarrow>
       chain (if changed then (if validateLoadedJournalRecord st r i InJournal then writeRecord record_bytes InJournal r else failing ErrInvalidJournal)
              else ret ()) (\<lambda>_. update_record (\<lambda>_. r))) ?Q ?R ?S) ?R ?S w1" if s: "still w w1" for w1
  proof (rule wp_mono[OF r'(1)[unfolded finds_def, rule_format, OF nodes_still[OF s]]])
    fix x w2 assume a: "still w1 w2 \<and> x = (r' \<noteq> r, r')"
    have "wp (case (r' \<noteq> r, r') of (changed, r) \<Rightarrow>
       chain (if changed then (if validateLoadedJournalRecord st r i InJournal then writeRecord record_bytes InJournal r else failing ErrInvalidJournal)
              else ret ()) (\<lambda>_. update_record (\<lambda>_. r))) ?Q ?R ?S w2"
      using writing[of w2] still_trans[OF s] a by (simp only: prod.case wp_chain update_record_def wp_modify)
    then show "wp (case x of (changed, r) \<Rightarrow>
       chain (if changed then (if validateLoadedJournalRecord st r i InJournal then writeRecord record_bytes InJournal r else failing ErrInvalidJournal)
              else ret ()) (\<lambda>_. update_record (\<lambda>_. r))) ?Q ?R ?S w2" using a by blast
  qed (use bad still_trans[OF s] still_empty[OF s] in blast)+
  have rd: "wp (readPendingRecord st i) (\<lambda>x w1. still w w1 \<and> x = r) ?R ?S w"
  proof -
    have "wp (chain operation (\<lambda>_. chain (get (\<lambda>w. map_of (wdJournal w) i)) (\<lambda>found. case found of
          None \<Rightarrow> failing ErrUnknownTransaction
        | Some r \<Rightarrow> (if validateLoadedJournalRecord st r i InJournal then ret r else failing ErrInvalidJournal))))
       (\<lambda>x w1. still w w1 \<and> x = r) ?R ?S w"
      unfolding wp_chain[of operation]
    proof (rule wp_op)
      fix w1 assume s: "still w w1"
      have "wdJournal w1 = [(i, r)]" using s k(3) by (simp add: still_def keeps_def)
      then show "wp (chain (get (\<lambda>w. map_of (wdJournal w) i)) (\<lambda>found. case found of
          None \<Rightarrow> failing ErrUnknownTransaction
        | Some r \<Rightarrow> (if validateLoadedJournalRecord st r i InJournal then ret r else failing ErrInvalidJournal)))
       (\<lambda>x w1. still w w1 \<and> x = r) ?R ?S w1"
        using s accepted_record[OF ok k(4) d] by simp
    qed (use bad in blast)+
    then show ?thesis using id(2) by (simp only: readPendingRecord_def not_True_eq_False if_False)
  qed
  show ?thesis
    unfolding loadPending_def wp_chain[of "readPendingRecord _ _"] wp_chain[of "reconcileRecord _ _"]
    by (rule wp_mono[OF rd]) (use rec in blast)+
qed

section \<open>Rolling back\<close>

lemma AList_delete_single [simp]: "AList.delete i [(i, r)] = []"
  by (simp add: AList.delete_eq)

lemma pending_I:
  "tidy w \<Longrightarrow> k \<le> length plan \<Longrightarrow> files_of st w = after st plan D k \<Longrightarrow> wdJournal w = [(i, r)] \<Longrightarrow>
   good_record st (wdBackups w) plan i r \<Longrightarrow> (jrStatus r = statusStaging \<Longrightarrow> k = 0) \<Longrightarrow> pending st plan D i w"
  unfolding pending_def by blast

text \<open>
  A pending transaction that is rolled back is gone, or it is pending still; if nothing disturbs the rollback
  and the random names are fresh, it is gone.
\<close>

lemma wp_rollback:
  assumes ok: "plan_ok st D plan" and d: "digests_ok st" and bytes: "\<And>q. record_bytes q \<le> maxRecordBytes" and h: "home_ok st D"
    and p: "pending st plan D i w"
  shows "wp (rollback st record_bytes i) (\<lambda>_ w'. settled st D w')
     (\<lambda>_ w'. (pending st plan D i w' \<or> settled st D w') \<and> \<not> calm (length plan) w)
     (\<lambda>w'. (pending st plan D i w' \<or> settled st D w') \<and> wdOutcomes w \<noteq> []) w" (is "wp _ ?Q ?R ?S w")
proof -
  obtain k0 where "files_of st w = after st plan D k0" and tidy: "tidy w" using p by (auto simp: pending_def)
  then have home: "home_ok st (files_of st w)" using home_after[OF ok h] by simp
  have bad: "?R e w1" "?S w1" if "pending st plan D i w1" "wdOutcomes w \<noteq> []" for e :: store_failure and w1
    using that by (auto simp: calm_def)
  have roll: "wp (rollbackRecord st record_bytes) ?Q ?R ?S w2" if l: "loaded st plan D i w1 w2" and s: "still w w1" for w1 w2
  proof -
    obtain k r q where k: "k \<le> length plan" "files_of st w2 = after st plan D k" "wdJournal w2 = [(i, q)]"
      "good_record st (wdBackups w2) plan i q" "jrStatus q = statusStaging \<longrightarrow> k = 0" "wdRecord w2 = r"
      "good_record st (wdBackups w2) plan i r" "jrStatus r = jrStatus q" "k \<le> jrCommitted r"
      "\<And>j. k \<le> j \<Longrightarrow> j < jrCommitted r \<Longrightarrow> neutral st (jrEntries r ! j)" and t12: "tidies st w1 w2"
      using l by (auto simp: loaded_def)
    have t2: "tidy w2" using t12 by (rule tidies_tidy)
    have tw: "tidies st w w2" by (rule tidies_trans[OF tidies_still[OF tidy s] t12])
    have c: "carries st (wdBackups w2) plan i r" and n: "jrCommitted r \<le> length plan" using k(7) by (simp_all add: good_record_def)
    have hb: "has_backups r k" using k(1,5,7,8) by (auto simp: good_record_def has_backups_def)
    have same: "sameContentsWrite (jrEntries r ! j)" if "k \<le> j" "j < jrCommitted r" for j using k(10)[OF that] by (simp add: neutral_def)
    have after: "pending st plan D i w3 \<or> settled st D w3" if "rolls st plan D i k w2 w3" for w3
      using that unfolding rolls_def
    proof (elim conjE disjE exE)
      fix j assume "tidy w3" "wdBackups w3 = wdBackups w2" "wdJournal w3 = wdJournal w2" "j \<le> k" "files_of st w3 = after st plan D j"
      then have "pending st plan D i w3" using k by (intro pending_I[of w3 j]) auto
      then show ?thesis ..
    next
      assume "tidy w3" "wdJournal w3 = AList.delete i (wdJournal w2)" "files_of st w3 = D"
      then show ?thesis using k(3) by (simp add: settled_def)
    qed
    have o: "wdOutcomes w2 \<noteq> [] \<Longrightarrow> wdOutcomes w \<noteq> []" by (rule tidies_outcomes[OF tw])
    have cc: "calm (length plan) w \<Longrightarrow> calm (jrCommitted r) w2" using tw n calm_less by (auto simp: tidies_def)
    show ?thesis
    proof (rule wp_mono[OF wp_rollbackRecord[OF t2 ok k(6) c k(9) n k(2) hb same bytes]])
      show "?Q x w3" if "tidy w3 \<and> wdJournal w3 = AList.delete i (wdJournal w2) \<and> files_of st w3 = D" for x w3
        using that k(3) by (simp add: settled_def)
      show "?R e w3" if "rolls st plan D i k w2 w3 \<and> \<not> calm (jrCommitted r) w2" for e w3 using that after cc by blast
      show "?S w3" if "rolls st plan D i k w2 w3 \<and> wdOutcomes w2 \<noteq> []" for w3 using that after o by blast
    qed
  qed
  have load: "wp (loadPending st record_bytes i) (\<lambda>_ w2. wp (chain (get wdRecord) (\<lambda>r.
       if jrStatus r = statusApplied then failing ErrCannotRollback else rollbackRecord st record_bytes)) ?Q ?R ?S w2) ?R ?S w1" if s: "still w w1" for w1
  proof -
    have p1: "pending st plan D i w1" by (rule pending_tidies[OF p tidies_still[OF tidy s]]) (use s in \<open>simp add: still_def keeps_def\<close>)
    show ?thesis
    proof (rule wp_mono[OF wp_loadPending[OF ok d bytes p1]])
      fix x w2 assume l: "loaded st plan D i w1 w2"
      then have "jrStatus (wdRecord w2) \<noteq> statusApplied" by (auto simp: loaded_def good_record_def)
      then show "wp (chain (get wdRecord) (\<lambda>r. if jrStatus r = statusApplied then failing ErrCannotRollback else rollbackRecord st record_bytes)) ?Q ?R ?S w2"
        using roll[OF l s] by simp
    qed (use bad still_empty[OF s] in blast)+
  qed
  show ?thesis
    unfolding rollback_def wp_chain[of "lockMutation st"] wp_chain[of "loadPending _ _ _"]
  proof (rule wp_mono[OF wp_lockMutation[OF home]])
    have p1: "pending st plan D i w1" if "still w w1" for w1
      by (rule pending_tidies[OF p tidies_still[OF tidy that]]) (use that in \<open>simp add: still_def keeps_def\<close>)
    show "?R e w1" if "still w w1 \<and> wdOutcomes w \<noteq> []" for e w1 using that p1 bad by blast
    show "?S w1" if "still w w1 \<and> wdOutcomes w \<noteq> []" for w1 using that p1 bad by blast
  qed (use load in blast)
qed

end
