(* ===== verification/StoreStage.thy ===== *)
theory StoreStage
  imports StoreRollback
begin

text \<open>
  Planning a request (commit_builder.go) changes nothing, and the plan says of every path what is true of
  the disk; its entries together are what the request asks for.
\<close>

section \<open>What is asked for\<close>

definition wanted_mode :: "disk \<Rightarrow> Change \<Rightarrow> nat" where
  "wanted_mode D ch = (if chMode ch \<noteq> 0 then chMode ch
     else (case D (chPath ch) of Some (RegularFile _ m) \<Rightarrow> m | _ \<Rightarrow> FilePermission))"

definition want_change :: "Storage \<Rightarrow> disk \<Rightarrow> Change \<Rightarrow> disk \<Rightarrow> disk" where
  "want_change st D ch E = E(chPath ch := Some (view_node st (RegularFile (chContents ch) (wanted_mode D ch))))"

definition want_move :: "Move \<Rightarrow> disk \<Rightarrow> disk" where "want_move mv E = E(mvFrom mv := None, mvTo mv := E (mvFrom mv))"

definition want_removal :: "Removal \<Rightarrow> disk \<Rightarrow> disk" where "want_removal rm E = E(rmPath rm := None)"

text \<open>The files that a request asks for, in the order in which the source applies its parts.\<close>

definition requested :: "Storage \<Rightarrow> Request \<Rightarrow> disk \<Rightarrow> disk" where
  "requested st r D = fold (want_change st D) (rqFinalChanges r) (fold want_removal (rqRemovals r)
     (fold want_move (rqMoves r) (fold (want_change st D) (rqChanges r) D)))"

text \<open>Paths that are neither temporary files nor backups of the journal.\<close>

definition ordinary :: "Storage \<Rightarrow> fpath \<Rightarrow> bool" where
  "ordinary st p \<longleftrightarrow> visible p \<and> TransactionFileLimit st p = PayloadLimit (drop (length (stRoot st)) p)"

section \<open>Programs that see\<close>

definition sees :: "'a act \<Rightarrow> (disk \<Rightarrow> 'a \<Rightarrow> bool) \<Rightarrow> bool" where "sees m X \<longleftrightarrow> reads m (\<lambda>_. False) X"

lemma reads_sees: "reads m G X \<Longrightarrow> (\<And>N x. X N x \<Longrightarrow> Y N x) \<Longrightarrow> sees m Y"
  unfolding sees_def by (erule reads_mono) auto

lemma sees_all:
  assumes "\<And>t. sees m (X t)" shows "sees m (\<lambda>N y. \<forall>t. X t N y)"
  unfolding sees_def reads_def
proof
  fix w
  have "wp m (\<lambda>x w'. still w w' \<and> X t (nodes w) x) (\<lambda>_ w'. still w w') (\<lambda>w'. still w w' \<and> wdOutcomes w \<noteq> []) w" for t
    using assms[of t] by (simp add: sees_def reads_def)
  then show "wp m (\<lambda>x w'. still w w' \<and> (\<forall>t. X t (nodes w) x)) (\<lambda>_ w'. still w w' \<and> (wdOutcomes w = [] \<longrightarrow> \<not> False)) (\<lambda>w'. still w w' \<and> wdOutcomes w \<noteq> []) w"
    unfolding wp_def by (cases "m w"; cases "fst (m w)") auto
qed

lemma sees_ret: "(\<And>N. X N x) \<Longrightarrow> sees (ret x) X"
  by (simp add: sees_def reads_def)

lemma sees_failing [simp]: "sees (failing e) X"
  by (simp add: sees_def reads_def)

lemma sees_if: "(c \<Longrightarrow> sees m X) \<Longrightarrow> (\<not> c \<Longrightarrow> sees n X) \<Longrightarrow> sees (if c then m else n) X"
  by simp

lemma sees_chain:
  assumes "sees m X" and "\<And>x. sees (f x) (\<lambda>N y. X N x \<longrightarrow> Y N y)"
  shows "sees (chain m f) Y"
  using reads_chain[OF assms(1)[unfolded sees_def] assms(2)[unfolded sees_def]] unfolding sees_def
  by (rule reads_mono) auto

lemma sees_mono: "sees m X \<Longrightarrow> (\<And>N x. X N x \<Longrightarrow> Y N x) \<Longrightarrow> sees m Y"
  unfolding sees_def by (erule reads_mono) auto

lemma wp_sees:
  assumes "sees m X" "\<And>x w'. still w w' \<Longrightarrow> X (nodes w) x \<Longrightarrow> Q x w'" "\<And>e w'. still w w' \<Longrightarrow> R e w'" "\<And>w'. still w w' \<Longrightarrow> S w'"
  shows "wp m Q R S w"
  by (rule wp_reads[OF assms(1)[unfolded sees_def]]) (use assms(2-4) in auto)

lemma sees_each_with:
  assumes "\<And>x b s. x \<in> set xs \<Longrightarrow> sees (f x b) (\<lambda>N b'. I N b s \<longrightarrow> I N b' (g N x s))"
  shows "sees (each_with f xs b) (\<lambda>N b'. \<forall>s. I N b s \<longrightarrow> I N b' (fold (g N) xs s))"
  using assms
proof (induction xs arbitrary: b)
  case Nil
  show ?case by (auto intro: sees_ret)
next
  case (Cons x xs)
  have head: "sees (f x b) (\<lambda>N b'. \<forall>s. I N b s \<longrightarrow> I N b' (g N x s))" by (rule sees_all, rule Cons.prems) simp
  have tail: "sees (each_with f xs b') (\<lambda>N y. \<forall>s. I N b' s \<longrightarrow> I N y (fold (g N) xs s))" for b'
    by (rule Cons.IH) (use Cons.prems in auto)
  show ?case unfolding each_with.simps
    by (rule sees_chain[OF head], rule sees_mono[OF tail]) auto
qed

section \<open>Looking at paths\<close>

lemma sees_Lstat: "sees (Lstat p) (\<lambda>N n. N p = n)"
  by (rule reads_sees[OF reads_Lstat]) simp

lemma sees_validateRoot: "sees (validateRoot st False) (\<lambda>N _. is_directory (N (stRoot st)))"
  unfolding validateRoot_def
proof (rule sees_chain[OF sees_Lstat])
  show "sees (case info of None \<Rightarrow> (if False then ret () else failing ErrMissingDirectory)
    | Some SymbolicLink \<Rightarrow> failing ErrSymlinkPath | Some (Directory _) \<Rightarrow> ret () | Some (RegularFile _ _) \<Rightarrow> failing ErrNotDirectory)
    (\<lambda>N y. N (stRoot st) = info \<longrightarrow> is_directory (N (stRoot st)))" for info
    by (cases info) (auto intro: sees_ret simp: is_directory_def split: node.splits)
qed

lemma sees_resolve_write:
  "segments \<noteq> [] \<Longrightarrow> sees (resolve_write (\<lambda>_. False) current segments) (\<lambda>N _. is_directory (N current) \<longrightarrow>
     is_directory (N (current @ butlast segments)) \<and> (N (current @ segments) = None \<or> (\<exists>c m. N (current @ segments) = Some (RegularFile c m))))"
proof (induction segments arbitrary: current)
  case (Cons segment segments)
  let ?next = "current @ [segment]"
  show ?case unfolding resolve_write.simps Let_def
  proof (rule sees_chain[OF sees_Lstat])
    fix info
    show "sees (case info of
          None \<Rightarrow> (if segments = [] then ret ()
                   else if False then resolve_write (\<lambda>_. False) ?next segments else failing ErrMissingDirectory)
        | Some SymbolicLink \<Rightarrow> failing ErrSymlinkPath
        | Some (Directory _) \<Rightarrow> (if segments = [] then failing ErrNotRegularFile else resolve_write (\<lambda>_. False) ?next segments)
        | Some (RegularFile _ _) \<Rightarrow> (if segments = [] then ret () else failing ErrNotDirectory))
      (\<lambda>N y. N ?next = info \<longrightarrow> is_directory (N current) \<longrightarrow>
     is_directory (N (current @ butlast (segment # segments))) \<and>
       (N (current @ segment # segments) = None \<or> (\<exists>c m. N (current @ segment # segments) = Some (RegularFile c m))))"
    proof (cases "segments = []")
      case True
      then show ?thesis by (cases info) (auto intro!: sees_ret split: node.splits)
    next
      case False
      show ?thesis
      proof (cases info)
        case (Some n)
        then show ?thesis
        proof (cases n)
          case (Directory m)
          have "sees (resolve_write (\<lambda>_. False) ?next segments) (\<lambda>N y. N ?next = info \<longrightarrow> is_directory (N current) \<longrightarrow>
     is_directory (N (current @ butlast (segment # segments))) \<and>
       (N (current @ segment # segments) = None \<or> (\<exists>c m. N (current @ segment # segments) = Some (RegularFile c m))))"
            by (rule sees_mono[OF Cons.IH[OF False, of ?next]]) (use False Some Directory in \<open>auto simp: is_directory_def\<close>)
          then show ?thesis using Some Directory False by simp
        qed (use Some False in simp_all)
      qed (use False in simp)
    qed
  qed
qed simp

text \<open>An accepted path lies in a directory of the workspace, and is a file or free.\<close>

lemma sees_ResolveForWriteUnder:
  "sees (ResolveForWriteUnder st p (\<lambda>_. False)) (\<lambda>N q. q = p \<and> Contains (stRoot st) p \<and> p \<noteq> stRoot st \<and>
     is_directory (N (butlast p)) \<and> (N p = None \<or> (\<exists>c m. N p = Some (RegularFile c m))))"
proof (cases "Contains (stRoot st) p \<and> p \<noteq> stRoot st")
  case True
  let ?rel = "drop (length (stRoot st)) p"
  have p: "p = stRoot st @ ?rel" "?rel \<noteq> []" using True append_take_drop_id[of "length (stRoot st)" p] by (auto simp: Contains_def)
  have b: "butlast p = stRoot st @ butlast ?rel" using p by (metis butlast_append)
  have "sees (chain (validateRoot st False) (\<lambda>_. chain (resolve_write (\<lambda>_. False) (stRoot st) ?rel) (\<lambda>_. ret p)))
    (\<lambda>N q. q = p \<and> Contains (stRoot st) p \<and> p \<noteq> stRoot st \<and> is_directory (N (butlast p)) \<and> (N p = None \<or> (\<exists>c m. N p = Some (RegularFile c m))))"
    by (rule sees_chain[OF sees_validateRoot], rule sees_chain[OF sees_resolve_write[OF p(2)]], rule sees_ret)
      (use True p(1) b in auto)
  then show ?thesis using True by (simp add: ResolveForWriteUnder_def)
next
  case False
  have "sees (chain (validateRoot st False) (\<lambda>_. failing ErrOutsideWorkspace :: fpath act)) X" for X
    by (rule sees_chain[OF sees_validateRoot]) simp
  then show ?thesis using False by (auto simp: ResolveForWriteUnder_def)
qed

section \<open>The plan grows\<close>

definition tidy_files :: "disk \<Rightarrow> bool" where "tidy_files N \<longleftrightarrow> (\<forall>p. \<not> visible p \<longrightarrow> \<not> is_directory (N p))"

text \<open>What the plan does so far, how many entries it has, and whether they are all writes.\<close>

definition planning :: "Storage \<Rightarrow> bool \<Rightarrow> disk \<Rightarrow> commitBuilder \<Rightarrow> disk \<times> nat \<Rightarrow> bool" where
  "planning st writes N b s \<longleftrightarrow> tidy_files N \<and> list_all (planned_ok st (seen st N)) (cbPlan b) \<and>
     distinct (concat (map (\<lambda>x. footprint (fst x)) (cbPlan b))) \<and>
     set (concat (map (\<lambda>x. footprint (fst x)) (cbPlan b))) \<subseteq> set (cbClaimed b) \<and>
     fold (entry_effect st) (cbPlan b) (seen st N) = fst s \<and> length (cbPlan b) = snd s \<and>
     list_all (\<lambda>x. ordinary st (jePath (fst x))) (cbPlan b) \<and>
     (writes \<longrightarrow> list_all (\<lambda>x. jeAction (fst x) = actionWrite) (cbPlan b))"

lemma planning_add:
  assumes p: "planning st writes N b (E, n)" and x: "planned_ok st (seen st N) x"
    and fp: "distinct (footprint (fst x))" "set (footprint (fst x)) \<inter> set (cbClaimed b) = {}"
    and b': "cbPlan b' = cbPlan b @ [x]" "set (cbClaimed b) \<union> set (footprint (fst x)) \<subseteq> set (cbClaimed b')"
    and ord: "ordinary st (jePath (fst x))" and w: "writes \<Longrightarrow> jeAction (fst x) = actionWrite" and E: "E' = entry_effect st x E"
  shows "planning st writes N b' (E', Suc n)"
proof -
  have sub: "set (concat (map (\<lambda>x. footprint (fst x)) (cbPlan b))) \<subseteq> set (cbClaimed b)" using p by (simp add: planning_def)
  then have "set (concat (map (\<lambda>x. footprint (fst x)) (cbPlan b))) \<inter> set (footprint (fst x)) = {}" using fp(2) by blast
  moreover have "set (concat (map (\<lambda>x. footprint (fst x)) (cbPlan b @ [x]))) \<subseteq> set (cbClaimed b')" using sub b'(2) by auto
  ultimately show ?thesis using p x fp(1) ord w E unfolding planning_def b'(1) by simp
qed

lemma sees_builder_claim:
  "sees (builder_claim p b) (\<lambda>N b'. p \<notin> set (cbClaimed b) \<and> b' = b\<lparr>cbClaimed := p # cbClaimed b\<rparr>)"
  by (auto simp: builder_claim_def claim_def intro: sees_ret)

lemma sees_currentState:
  "sees (currentState st p) (\<lambda>N x. (x = None \<and> N p = None) \<or>
     (\<exists>c m. N p = Some (RegularFile c m) \<and> x = Some (c, and m 448) \<and> int (length c) \<le> TransactionFileLimit st p))"
  by (rule reads_sees[OF reads_currentState])

lemma parent_seen: "tidy_files N \<Longrightarrow> is_directory (N p) \<Longrightarrow> is_directory (seen st N p)"
  by (cases "visible p") (simp_all add: seen_directory, auto simp: tidy_files_def)

lemma owner_mode_masked [simp]: "validOwnerFileMode (and m 448)"
  by (simp add: validOwnerFileMode_def and.assoc)

lemma view_masked: "view_node st (RegularFile c m) = view_node st (RegularFile c (and m 448))"
  by (simp add: view_node_def)

lemma view_observed [simp]: "view_node st (RegularFile c (observableOwnerMode st m)) = view_node st (RegularFile c m)"
  by (simp add: view_node_def observableOwnerMode_def and.assoc)

text \<open>An entry for a change.\<close>

lemma planned_change:
  assumes tidy: "tidy_files N" and vis: "visible p" and place: "Contains (stRoot st) p" "p \<noteq> stRoot st" "is_directory (N (butlast p))"
    and p: "p = chPath ch" and skip: "\<not> chSkipBackup ch"
    and size: "int (length (chContents ch)) \<le> TransactionFileLimit st p"
    and cur: "(current = None \<and> N p = None) \<or> (\<exists>c m. N p = Some (RegularFile c m) \<and> current = Some (c, and m 448) \<and> int (length c) \<le> TransactionFileLimit st p)"
    and mode: "chMode ch = 0 \<or> chMode ch = FilePermission \<or> chMode ch = DirectoryPermission"
    and target: "targetMode = (if chMode ch \<noteq> 0 then chMode ch else (case current of None \<Rightarrow> FilePermission | Some (_, mode) \<Rightarrow> mode))"
  shows "planned_ok st (seen st N) (change_entry st ch p current targetMode)"
    "entry_effect st (change_entry st ch p current targetMode) E = want_change st (seen st N) ch E"
    "footprint (fst (change_entry st ch p current targetMode)) = [p]" "jePath (fst (change_entry st ch p current targetMode)) = p"
    "jeAction (fst (change_entry st ch p current targetMode)) = actionWrite"
proof -
  have "place_ok st (seen st N) p" using vis place parent_seen[OF tidy] by (simp add: place_ok_def)
  moreover have valid: "validOwnerFileMode targetMode"
    using mode cur by (auto simp: target validOwnerFileMode_def FilePermission_def DirectoryPermission_def and.assoc)
  moreover have "file_before st (seen st N) p c (and m 448) (stDigest st c)"
    if "N p = Some (RegularFile c m)" "int (length c) \<le> TransactionFileLimit st p" for c m
    using that vis by (simp add: file_before_def seen_def view_masked[symmetric])
  ultimately show "planned_ok st (seen st N) (change_entry st ch p current targetMode)"
    using cur size skip vis
    by (auto simp: planned_ok_def Let_def change_entry_def empty_entry_def footprint_def write_planned_def seen_def)
  have "view_node st (RegularFile (chContents ch) targetMode) = view_node st (RegularFile (chContents ch) (wanted_mode (seen st N) ch))"
    using cur vis by (auto simp: target wanted_mode_def seen_def p[symmetric] view_node_def split: option.splits)
      (simp_all add: observableOwnerMode_def and.assoc)
  then show "entry_effect st (change_entry st ch p current targetMode) E = want_change st (seen st N) ch E"
    by (auto simp: entry_effect_def change_entry_def Let_def empty_entry_def want_change_def p split: option.splits)
  show "footprint (fst (change_entry st ch p current targetMode)) = [p]" "jePath (fst (change_entry st ch p current targetMode)) = p"
    "jeAction (fst (change_entry st ch p current targetMode)) = actionWrite"
    by (auto simp: change_entry_def Let_def empty_entry_def footprint_def split: option.splits)
qed

lemma sees_stageChange:
  assumes ord: "ordinary st (chPath ch)" and skip: "\<not> chSkipBackup ch"
  shows "sees (stageChange st (\<lambda>_. False) ch b) (\<lambda>N b'. planning st writes N b s \<longrightarrow>
     planning st writes N b' (want_change st (seen st N) ch (fst s), Suc (snd s)))"
    (is "sees _ ?goal")
  unfolding stageChange_def
proof (rule sees_chain[OF sees_ResolveForWriteUnder], rule sees_chain[OF sees_builder_claim])
  fix target b1
  have vis: "visible (chPath ch)" using ord by (simp add: ordinary_def)
  let ?p = "chPath ch"
  let ?pre = "\<lambda>N. (target = ?p \<and> Contains (stRoot st) ?p \<and> ?p \<noteq> stRoot st \<and> is_directory (N (butlast ?p)) \<and>
       (N ?p = None \<or> (\<exists>c m. N ?p = Some (RegularFile c m)))) \<and> target \<notin> set (cbClaimed b) \<and> b1 = b\<lparr>cbClaimed := target # cbClaimed b\<rparr>"
  have body: "sees (if int (length (chContents ch)) > TransactionFileLimit st target then failing ErrFileTooLarge
     else chain (currentState st target) (\<lambda>current.
       (let actual = (case current of None \<Rightarrow> [] | Some (previous, _) \<Rightarrow> stDigest st previous);
            expected = (if pcExists (chPrecondition ch) then pcDigest (chPrecondition ch) else []);
            wanted = pcMode (chPrecondition ch) in
        if actual \<noteq> expected then failing (ErrConflict target)
        else if wanted \<noteq> 0 \<and> (case current of None \<Rightarrow> True | Some (_, mode) \<Rightarrow> \<not> ownerModesMatch st mode wanted)
        then failing (ErrConflict target)
        else if chMode ch \<noteq> 0 \<and> chMode ch \<noteq> FilePermission \<and> chMode ch \<noteq> DirectoryPermission then failing ErrInvalidJournal
        else
          (let targetMode = (if chMode ch \<noteq> 0 then chMode ch else (case current of None \<Rightarrow> FilePermission | Some (_, mode) \<Rightarrow> mode)) in
           ret ((plan_add (change_entry st ch target current targetMode) b1)\<lparr>cbWritten := cbWritten b1 @ [target]\<rparr>)))))
      (\<lambda>N b'. ?pre N \<longrightarrow> ?goal N b')"
  proof (cases "int (length (chContents ch)) > TransactionFileLimit st target")
    case True
    then show ?thesis by simp
  next
    case size: False
    have fin: "?goal N ((plan_add (change_entry st ch target current
           (if chMode ch \<noteq> 0 then chMode ch else (case current of None \<Rightarrow> FilePermission | Some (_, mode) \<Rightarrow> mode))) b1)\<lparr>cbWritten := ws\<rparr>)"
      if pre: "?pre N" and mode: "chMode ch = 0 \<or> chMode ch = FilePermission \<or> chMode ch = DirectoryPermission"
        and cur: "(current = None \<and> N target = None) \<or> (\<exists>c m. N target = Some (RegularFile c m) \<and> current = Some (c, and m 448) \<and> int (length c) \<le> TransactionFileLimit st target)"
      for N current ws
    proof
      assume pl: "planning st writes N b s"
      then have tidy: "tidy_files N" by (simp add: planning_def)
      have t: "target = ?p" using pre by blast
      note c = planned_change[OF tidy vis _ _ _ refl skip, of st, OF _ _ _ _ _ mode refl]
      have pl': "planning st writes N b (fst s, snd s)" using pl by simp
      show "planning st writes N ((plan_add (change_entry st ch target current
           (if chMode ch \<noteq> 0 then chMode ch else (case current of None \<Rightarrow> FilePermission | Some (_, mode) \<Rightarrow> mode))) b1)\<lparr>cbWritten := ws\<rparr>)
         (want_change st (seen st N) ch (fst s), Suc (snd s))"
        unfolding t
        by (rule planning_add[OF pl' c(1)]) (use pre size cur c t ord in \<open>auto simp: plan_add_def\<close>)
    qed
    show ?thesis using size
    proof (simp only: if_False, intro sees_chain[OF sees_currentState])
      fix current
      show "sees (let actual = (case current of None \<Rightarrow> [] | Some (previous, _) \<Rightarrow> stDigest st previous);
            expected = (if pcExists (chPrecondition ch) then pcDigest (chPrecondition ch) else []);
            wanted = pcMode (chPrecondition ch) in
        if actual \<noteq> expected then failing (ErrConflict target)
        else if wanted \<noteq> 0 \<and> (case current of None \<Rightarrow> True | Some (_, mode) \<Rightarrow> \<not> ownerModesMatch st mode wanted)
        then failing (ErrConflict target)
        else if chMode ch \<noteq> 0 \<and> chMode ch \<noteq> FilePermission \<and> chMode ch \<noteq> DirectoryPermission then failing ErrInvalidJournal
        else
          (let targetMode = (if chMode ch \<noteq> 0 then chMode ch else (case current of None \<Rightarrow> FilePermission | Some (_, mode) \<Rightarrow> mode)) in
           ret ((plan_add (change_entry st ch target current targetMode) b1)\<lparr>cbWritten := cbWritten b1 @ [target]\<rparr>)))
        (\<lambda>N y. (current = None \<and> N target = None \<or> (\<exists>c m. N target = Some (RegularFile c m) \<and> current = Some (c, and m 448) \<and>
           int (length c) \<le> TransactionFileLimit st target)) \<longrightarrow> ?pre N \<longrightarrow> ?goal N y)"
        unfolding Let_def
        by (rule sees_if, rule sees_failing, rule sees_if, rule sees_failing, rule sees_if, rule sees_failing, rule sees_ret)
          (intro impI, rule fin[THEN mp], blast+)
    qed
  qed
  then show "sees (if int (length (chContents ch)) > TransactionFileLimit st target then failing ErrFileTooLarge
     else chain (currentState st target) (\<lambda>current.
       (let actual = (case current of None \<Rightarrow> [] | Some (previous, _) \<Rightarrow> stDigest st previous);
            expected = (if pcExists (chPrecondition ch) then pcDigest (chPrecondition ch) else []);
            wanted = pcMode (chPrecondition ch) in
        if actual \<noteq> expected then failing (ErrConflict target)
        else if wanted \<noteq> 0 \<and> (case current of None \<Rightarrow> True | Some (_, mode) \<Rightarrow> \<not> ownerModesMatch st mode wanted)
        then failing (ErrConflict target)
        else if chMode ch \<noteq> 0 \<and> chMode ch \<noteq> FilePermission \<and> chMode ch \<noteq> DirectoryPermission then failing ErrInvalidJournal
        else
          (let targetMode = (if chMode ch \<noteq> 0 then chMode ch else (case current of None \<Rightarrow> FilePermission | Some (_, mode) \<Rightarrow> mode)) in
           ret ((plan_add (change_entry st ch target current targetMode) b1)\<lparr>cbWritten := cbWritten b1 @ [target]\<rparr>)))))
    (\<lambda>N y. (target \<notin> set (cbClaimed b) \<and> b1 = b\<lparr>cbClaimed := target # cbClaimed b\<rparr>) \<longrightarrow>
       (target = ?p \<and> Contains (stRoot st) ?p \<and> ?p \<noteq> stRoot st \<and> is_directory (N (butlast ?p)) \<and>
       (N ?p = None \<or> (\<exists>c m. N ?p = Some (RegularFile c m)))) \<longrightarrow> ?goal N y)"
    by (rule sees_mono) blast
qed

lemma sees_sourceState:
  "sees (sourceState st p pre) (\<lambda>N (digest, mode). \<exists>c m. N p = Some (RegularFile c m) \<and> digest = stDigest st c \<and>
     mode = and m 448 \<and> int (length c) \<le> TransactionFileLimit st p)"
  unfolding sourceState_def
proof (rule sees_chain[OF sees_currentState])
  fix current
  show "sees (case current of
      None \<Rightarrow> failing ErrMissingSource
    | Some (contents, mode) \<Rightarrow>
        (let digest = stDigest st contents; expected = (if pcExists pre then pcDigest pre else []) in
         if digest \<noteq> expected then failing (ErrConflict p)
         else if pcMode pre \<noteq> 0 \<and> \<not> ownerModesMatch st mode (pcMode pre) then failing (ErrConflict p)
         else ret (digest, mode)))
    (\<lambda>N y. (current = None \<and> N p = None \<or> (\<exists>c m. N p = Some (RegularFile c m) \<and> current = Some (c, and m 448) \<and>
        int (length c) \<le> TransactionFileLimit st p)) \<longrightarrow>
      (case y of (digest, mode) \<Rightarrow> \<exists>c m. N p = Some (RegularFile c m) \<and> digest = stDigest st c \<and>
         mode = and m 448 \<and> int (length c) \<le> TransactionFileLimit st p))"
  proof (cases current)
    case (Some x)
    obtain c mode where x: "x = (c, mode)" by (cases x)
    show ?thesis unfolding Some x option.case prod.case Let_def
      by (rule sees_if, rule sees_failing, rule sees_if, rule sees_failing, rule sees_ret) auto
  qed simp
qed

lemma file_before_seen:
  assumes "visible p" "N p = Some (RegularFile c m)" "int (length c) \<le> TransactionFileLimit st p"
  shows "file_before st (seen st N) p c (and m 448) (stDigest st c)"
  using assms by (simp add: file_before_def seen_def view_masked[symmetric])

lemma sees_stageMove:
  assumes ord: "ordinary st (mvFrom mv)" and vis: "visible (mvTo mv)" and room: "TransactionFileLimit st (mvFrom mv) \<le> TransactionFileLimit st (mvTo mv)"
  shows "sees (stageMove st (\<lambda>_. False) mv b) (\<lambda>N b'. planning st False N b s \<longrightarrow>
     planning st False N b' (want_move mv (fst s), Suc (snd s)))"
  unfolding stageMove_def ResolveForWrite_def
proof (rule sees_chain[OF sees_ResolveForWriteUnder], rule sees_chain[OF sees_ResolveForWriteUnder],
    rule sees_chain[OF sees_builder_claim], rule sees_chain[OF sees_builder_claim], rule sees_chain[OF sees_Lstat],
    rule sees_if, rule sees_failing, rule sees_chain[OF sees_sourceState])
  fix source target b1 b2 and info :: "node option" and x :: "gostring \<times> nat"
  assume "\<not> info \<noteq> None"
  obtain digest mode where x: "x = (digest, mode)" by (cases x)
  let ?e = "(empty_entry actionMove source)\<lparr>jeTarget := Some target, jeHadPrevious := True, jeMode := mode,
                 jeDigest := digest, jePreviousDigest := digest\<rparr>"
  let ?b = "(plan_add (?e, [], []) b2)\<lparr>cbWritten := cbWritten b2 @ [target]\<rparr>"
  have "planning st False N ?b (want_move mv (fst s), Suc (snd s))"
    if pl: "planning st False N b s" and src: "source = mvFrom mv" "Contains (stRoot st) source" "source \<noteq> stRoot st" "is_directory (N (butlast source))"
      and tgt: "target = mvTo mv" "Contains (stRoot st) target" "target \<noteq> stRoot st" "is_directory (N (butlast target))" "N target = None"
      and b1: "source \<notin> set (cbClaimed b)" "b1 = b\<lparr>cbClaimed := source # cbClaimed b\<rparr>"
      and b2: "target \<notin> set (cbClaimed b1)" "b2 = b1\<lparr>cbClaimed := target # cbClaimed b1\<rparr>"
      and st: "N source = Some (RegularFile c m)" "digest = stDigest st c" "mode = and m 448" "int (length c) \<le> TransactionFileLimit st source"
    for N c m
  proof -
    have tidy: "tidy_files N" and pl': "planning st False N b (fst s, snd s)" using pl by (simp_all add: planning_def)
    have place: "place_ok st (seen st N) source" "place_ok st (seen st N) target"
      using vis ord src tgt parent_seen[OF tidy] by (simp_all add: place_ok_def ordinary_def)
    have "seen st N target = None" using tgt(5) by (simp add: seen_def)
    moreover have "file_before st (seen st N) source c mode digest"
      using file_before_seen[of source N c m st] ord src(1) st by (simp add: ordinary_def)
    ultimately have "move_planned st (seen st N) (?e, [], [])"
      using st(4) room src(1) tgt(1) by (auto simp: move_planned_def empty_entry_def intro!: exI[of _ c])
    then have ok: "planned_ok st (seen st N) (?e, [], [])"
      using place by (simp add: planned_ok_def Let_def empty_entry_def footprint_def)
    have claimed: "cbPlan ?b = cbPlan b @ [(?e, [], [])]" "cbClaimed ?b = target # source # cbClaimed b"
      by (simp_all add: plan_add_def b2(2) b1(2))
    show ?thesis
      by (rule planning_add[OF pl' ok _ _ claimed(1)])
        (use b1 b2 src tgt ord claimed(2) in \<open>auto simp: footprint_def empty_entry_def entry_effect_def want_move_def\<close>)
  qed
  then show "sees (case x of (digest, mode) \<Rightarrow>
         ret ((plan_add ((empty_entry actionMove source)\<lparr>jeTarget := Some target, jeHadPrevious := True, jeMode := mode,
                 jeDigest := digest, jePreviousDigest := digest\<rparr>, [], []) b2)\<lparr>cbWritten := cbWritten b2 @ [target]\<rparr>))
     (\<lambda>N y. (case x of (digest, mode) \<Rightarrow> \<exists>c m. N source = Some (RegularFile c m) \<and> digest = stDigest st c \<and>
         mode = and m 448 \<and> int (length c) \<le> TransactionFileLimit st source) \<longrightarrow> N target = info \<longrightarrow>
      target \<notin> set (cbClaimed b1) \<and> b2 = b1\<lparr>cbClaimed := target # cbClaimed b1\<rparr> \<longrightarrow>
      source \<notin> set (cbClaimed b) \<and> b1 = b\<lparr>cbClaimed := source # cbClaimed b\<rparr> \<longrightarrow>
      target = mvTo mv \<and> Contains (stRoot st) (mvTo mv) \<and> mvTo mv \<noteq> stRoot st \<and> is_directory (N (butlast (mvTo mv))) \<and>
        (N (mvTo mv) = None \<or> (\<exists>c m. N (mvTo mv) = Some (RegularFile c m))) \<longrightarrow>
      source = mvFrom mv \<and> Contains (stRoot st) (mvFrom mv) \<and> mvFrom mv \<noteq> stRoot st \<and> is_directory (N (butlast (mvFrom mv))) \<and>
        (N (mvFrom mv) = None \<or> (\<exists>c m. N (mvFrom mv) = Some (RegularFile c m))) \<longrightarrow>
      planning st False N b s \<longrightarrow> planning st False N y (want_move mv (fst s), Suc (snd s)))"
    unfolding x prod.case using \<open>\<not> info \<noteq> None\<close> by (intro sees_ret) blast
qed

lemma sees_stageRemoval:
  assumes ord: "ordinary st (rmPath rm)" and kept: "rmBackup rm"
  shows "sees (stageRemoval st rm b) (\<lambda>N b'. planning st False N b s \<longrightarrow>
     planning st False N b' (want_removal rm (fst s), Suc (snd s)))"
  unfolding stageRemoval_def ResolveForWrite_def
proof (rule sees_chain[OF sees_ResolveForWriteUnder], rule sees_chain[OF sees_builder_claim], rule sees_chain[OF sees_sourceState])
  fix target b1 and x :: "gostring \<times> nat"
  obtain digest mode where x: "x = (digest, mode)" by (cases x)
  let ?e = "(empty_entry actionRemove target)\<lparr>jeNoBackup := \<not> rmBackup rm, jeHadPrevious := True, jeMode := mode,
               jeDigest := digest, jePreviousDigest := digest\<rparr>"
  let ?b = "\<lambda>previous. (plan_add (?e, [], previous) b1)\<lparr>cbWritten := cbWritten b1 @ [target]\<rparr>"
  have pl: "planning st False N (?b previous) (want_removal rm (fst s), Suc (snd s))"
    if pl: "planning st False N b s" and tgt: "target = rmPath rm" "Contains (stRoot st) target" "target \<noteq> stRoot st" "is_directory (N (butlast target))"
      and b1: "target \<notin> set (cbClaimed b)" "b1 = b\<lparr>cbClaimed := target # cbClaimed b\<rparr>"
      and st: "N target = Some (RegularFile previous m)" "digest = stDigest st previous" "mode = and m 448"
        "int (length previous) \<le> TransactionFileLimit st target"
    for N m previous
  proof -
    have tidy: "tidy_files N" and pl': "planning st False N b (fst s, snd s)" using pl by (simp_all add: planning_def)
    have place: "place_ok st (seen st N) target" using ord tgt parent_seen[OF tidy] by (simp add: place_ok_def ordinary_def)
    have "file_before st (seen st N) target previous mode digest"
      using file_before_seen[of target N previous m st] ord tgt(1) st by (simp add: ordinary_def)
    then have "removal_planned st (seen st N) (?e, [], previous)" by (simp add: removal_planned_def empty_entry_def)
    then have ok: "planned_ok st (seen st N) (?e, [], previous)"
      using place kept by (simp add: planned_ok_def Let_def empty_entry_def footprint_def)
    have claimed: "cbPlan (?b previous) = cbPlan b @ [(?e, [], previous)]" "cbClaimed (?b previous) = target # cbClaimed b"
      by (simp_all add: plan_add_def b1(2))
    show ?thesis
      by (rule planning_add[OF pl' ok _ _ claimed(1)])
        (use b1 tgt ord claimed(2) in \<open>auto simp: footprint_def empty_entry_def entry_effect_def want_removal_def\<close>)
  qed
  show "sees (case x of (digest, mode) \<Rightarrow>
     chain (if rmBackup rm then ReadTransactionFile st target else ret []) (\<lambda>previous.
       ret ((plan_add ((empty_entry actionRemove target)\<lparr>jeNoBackup := \<not> rmBackup rm, jeHadPrevious := True, jeMode := mode,
               jeDigest := digest, jePreviousDigest := digest\<rparr>, [], previous) b1)\<lparr>cbWritten := cbWritten b1 @ [target]\<rparr>)))
     (\<lambda>N y. (case x of (digest, mode) \<Rightarrow> \<exists>c m. N target = Some (RegularFile c m) \<and> digest = stDigest st c \<and>
         mode = and m 448 \<and> int (length c) \<le> TransactionFileLimit st target) \<longrightarrow>
      target \<notin> set (cbClaimed b) \<and> b1 = b\<lparr>cbClaimed := target # cbClaimed b\<rparr> \<longrightarrow>
      target = rmPath rm \<and> Contains (stRoot st) (rmPath rm) \<and> rmPath rm \<noteq> stRoot st \<and> is_directory (N (butlast (rmPath rm))) \<and>
        (N (rmPath rm) = None \<or> (\<exists>c m. N (rmPath rm) = Some (RegularFile c m))) \<longrightarrow>
      planning st False N b s \<longrightarrow> planning st False N y (want_removal rm (fst s), Suc (snd s)))"
    unfolding x prod.case if_P[OF kept]
  proof (rule sees_chain[OF reads_sees[OF reads_ReadTransactionFile]], assumption)
    fix previous
    show "sees (ret ((plan_add ((empty_entry actionRemove target)\<lparr>jeNoBackup := \<not> rmBackup rm, jeHadPrevious := True, jeMode := mode,
               jeDigest := digest, jePreviousDigest := digest\<rparr>, [], previous) b1)\<lparr>cbWritten := cbWritten b1 @ [target]\<rparr>))
       (\<lambda>N y. int (length previous) \<le> TransactionFileLimit st target \<and> (\<exists>m. N target = Some (RegularFile previous m)) \<longrightarrow>
        (\<exists>c m. N target = Some (RegularFile c m) \<and> digest = stDigest st c \<and>
         mode = and m 448 \<and> int (length c) \<le> TransactionFileLimit st target) \<longrightarrow>
      target \<notin> set (cbClaimed b) \<and> b1 = b\<lparr>cbClaimed := target # cbClaimed b\<rparr> \<longrightarrow>
      target = rmPath rm \<and> Contains (stRoot st) (rmPath rm) \<and> rmPath rm \<noteq> stRoot st \<and> is_directory (N (butlast (rmPath rm))) \<and>
        (N (rmPath rm) = None \<or> (\<exists>c m. N (rmPath rm) = Some (RegularFile c m))) \<longrightarrow>
      planning st False N b s \<longrightarrow> planning st False N y (want_removal rm (fst s), Suc (snd s)))"
      by (rule sees_ret, intro impI, elim conjE exE, rule pl) simp_all
  qed
qed

section \<open>The whole plan\<close>

text \<open>
  Requests whose plan can be undone exactly: nothing is left without a backup, no directories come or go, and
  a file is not moved to a place whose limit it may exceed.
\<close>

definition plain :: "Storage \<Rightarrow> Request \<Rightarrow> bool" where
  "plain st r \<longleftrightarrow> rqDirectories r = [] \<and> rqRemoveDirectories r = [] \<and>
     list_all (\<lambda>ch. ordinary st (chPath ch) \<and> \<not> chSkipBackup ch) (rqChanges r @ rqFinalChanges r) \<and>
     list_all (\<lambda>mv. ordinary st (mvFrom mv) \<and> visible (mvTo mv) \<and> TransactionFileLimit st (mvFrom mv) \<le> TransactionFileLimit st (mvTo mv)) (rqMoves r) \<and>
     list_all (\<lambda>rm. ordinary st (rmPath rm) \<and> rmBackup rm) (rqRemovals r)"

lemma fold_counted: "fold (\<lambda>x s. (g x (fst s), Suc (snd s))) xs (a, n) = (fold g xs a, n + length xs)"
  by (induction xs arbitrary: a n) simp_all

lemma sees_planCommit:
  assumes plain: "plain st r"
  shows "sees (planCommit st r) (\<lambda>N b. tidy_files N \<longrightarrow>
     planning st (rqMoves r = [] \<and> rqRemovals r = []) N b (requested st r (seen st N), request_size r))"
proof (cases "request_size r > maxTransactionEntries")
  case True
  then show ?thesis by (simp add: planCommit_def)
next
  case False
  let ?w = "rqMoves r = [] \<and> rqRemovals r = []" let ?b0 = "\<lparr>cbPlan = [], cbWritten = [], cbClaimed = []\<rparr>"
  have none: "rqDirectories r = []" "rqRemoveDirectories r = []" using plain by (simp_all add: plain_def)
  have planned: "is_planned st [] = (\<lambda>_. False)" by (simp add: is_planned_def fun_eq_iff)
  have changes: "sees (each_with (stageChange st (\<lambda>_. False)) chs b) (\<lambda>N b'. \<forall>s. planning st ?w N b s \<longrightarrow>
      planning st ?w N b' (fold (\<lambda>ch s. (want_change st (seen st N) ch (fst s), Suc (snd s))) chs s))"
    if "list_all (\<lambda>ch. ordinary st (chPath ch) \<and> \<not> chSkipBackup ch) chs" for chs b
    using that by (intro sees_each_with sees_stageChange) (auto simp: list_all_iff)
  have moves: "sees (each_with (stageMove st (\<lambda>_. False)) (rqMoves r) b) (\<lambda>N b'. \<forall>s. planning st ?w N b s \<longrightarrow>
      planning st ?w N b' (fold (\<lambda>mv s. (want_move mv (fst s), Suc (snd s))) (rqMoves r) s))" for b
  proof (rule sees_each_with)
    fix mv b s assume m: "mv \<in> set (rqMoves r)"
    then have "?w = False" by auto
    then show "sees (stageMove st (\<lambda>_. False) mv b) (\<lambda>N b'. planning st ?w N b s \<longrightarrow> planning st ?w N b' (want_move mv (fst s), Suc (snd s)))"
      using m plain by (simp only:) (intro sees_stageMove, auto simp: plain_def list_all_iff)
  qed
  have removals: "sees (each_with (stageRemoval st) (rqRemovals r) b) (\<lambda>N b'. \<forall>s. planning st ?w N b s \<longrightarrow>
      planning st ?w N b' (fold (\<lambda>rm s. (want_removal rm (fst s), Suc (snd s))) (rqRemovals r) s))" for b
  proof (rule sees_each_with)
    fix rm b s assume m: "rm \<in> set (rqRemovals r)"
    then have "?w = False" by auto
    then show "sees (stageRemoval st rm b) (\<lambda>N b'. planning st ?w N b s \<longrightarrow> planning st ?w N b' (want_removal rm (fst s), Suc (snd s)))"
      using m plain by (simp only:) (intro sees_stageRemoval, auto simp: plain_def list_all_iff)
  qed
  have lists: "list_all (\<lambda>ch. ordinary st (chPath ch) \<and> \<not> chSkipBackup ch) (rqChanges r)"
    "list_all (\<lambda>ch. ordinary st (chPath ch) \<and> \<not> chSkipBackup ch) (rqFinalChanges r)" using plain by (simp_all add: plain_def)
  have start: "tidy_files N \<Longrightarrow> planning st ?w N ?b0 (seen st N, 0)" for N by (simp add: planning_def)
  have "sees (chain (each_with (stageChange st (\<lambda>_. False)) (rqChanges r) ?b0) (\<lambda>b.
      chain (each_with (stageMove st (\<lambda>_. False)) (rqMoves r) b) (\<lambda>b.
      chain (each_with (stageRemoval st) (rqRemovals r) b) (\<lambda>b.
      each_with (stageChange st (\<lambda>_. False)) (rqFinalChanges r) b))))
    (\<lambda>N b. tidy_files N \<longrightarrow> planning st ?w N b (requested st r (seen st N), request_size r))"
  proof (rule sees_chain[OF changes[OF lists(1)]], rule sees_chain[OF moves], rule sees_chain[OF removals],
      rule sees_mono[OF changes[OF lists(2)]], intro impI)
    fix b1 b2 b3 N b4
    let ?n1 = "length (rqChanges r)" let ?D1 = "fold (want_change st (seen st N)) (rqChanges r) (seen st N)"
    let ?n2 = "?n1 + length (rqMoves r)" let ?D2 = "fold want_move (rqMoves r) ?D1"
    let ?n3 = "?n2 + length (rqRemovals r)" let ?D3 = "fold want_removal (rqRemovals r) ?D2"
    assume t: "tidy_files N"
      and c1: "\<forall>s. planning st ?w N ?b0 s \<longrightarrow> planning st ?w N b1 (fold (\<lambda>ch s. (want_change st (seen st N) ch (fst s), Suc (snd s))) (rqChanges r) s)"
      and c2: "\<forall>s. planning st ?w N b1 s \<longrightarrow> planning st ?w N b2 (fold (\<lambda>mv s. (want_move mv (fst s), Suc (snd s))) (rqMoves r) s)"
      and c3: "\<forall>s. planning st ?w N b2 s \<longrightarrow> planning st ?w N b3 (fold (\<lambda>rm s. (want_removal rm (fst s), Suc (snd s))) (rqRemovals r) s)"
      and c4: "\<forall>s. planning st ?w N b3 s \<longrightarrow> planning st ?w N b4 (fold (\<lambda>ch s. (want_change st (seen st N) ch (fst s), Suc (snd s))) (rqFinalChanges r) s)"
    have "planning st ?w N b1 (?D1, ?n1)" using c1[rule_format, OF start[OF t]] unfolding fold_counted by simp
    then have "planning st ?w N b2 (?D2, ?n2)" by (rule c2[rule_format, of "(?D1, ?n1)", unfolded fold_counted])
    then have "planning st ?w N b3 (?D3, ?n3)" by (rule c3[rule_format, of "(?D2, ?n2)", unfolded fold_counted])
    then have "planning st ?w N b4 (requested st r (seen st N), ?n3 + length (rqFinalChanges r))"
      unfolding requested_def by (rule c4[rule_format, of "(?D3, ?n3)", unfolded fold_counted])
    then show "planning st ?w N b4 (requested st r (seen st N), request_size r)" using none by (simp add: request_size_def ac_simps)
  qed
  then show ?thesis using False none unfolding planCommit_def stage_def Let_def
    by (simp add: planned chain_ret deepest_first_def)
qed

text \<open>What the rest of the development needs of a plan.\<close>

lemma planning_plan:
  assumes "planning st writes N b (E, n)"
  shows "plan_ok st (seen st N) (cbPlan b)" "after st (cbPlan b) (seen st N) n = E" "length (cbPlan b) = n"
    "list_all (\<lambda>x. ordinary st (jePath (fst x))) (cbPlan b)" "writes \<Longrightarrow> list_all (\<lambda>x. jeAction (fst x) = actionWrite) (cbPlan b)"
  using assms by (auto simp: planning_def plan_ok_def after_def)

end
