(* ===== verification/StoreForward.thy ===== *)
theory StoreForward
  imports StoreStage
begin

text \<open>
  The run of a commit (commit_run.go): at every moment the files are those after the first entries of the
  plan, the journal holds a record from which that can be undone, and a failure or a stop leaves one of
  three things: the transaction is pending, nothing was done, or everything was.
\<close>

section \<open>Between two operations of a run\<close>

definition marked :: "planned_entry list \<Rightarrow> nat \<Rightarrow> journalRecord \<Rightarrow> bool" where
  "marked plan k r \<longleftrightarrow> jrCommitted r = k \<and> ((jrStatus r = statusStaging \<and> k = 0 \<and> jrFinishedAt r = None) \<or>
     (has_backups r (length plan) \<and> ((jrStatus r = statusStaged \<and> jrFinishedAt r = None) \<or> jrStatus r = statusCompleted)))"

definition noted :: "Storage \<Rightarrow> planned_entry list \<Rightarrow> gostring \<Rightarrow> nat \<Rightarrow> World \<Rightarrow> bool" where
  "noted st plan i k w \<longleftrightarrow> (\<exists>q. wdJournal w = [(i, q)] \<and> good_record st (wdBackups w) plan i q \<and> (jrStatus q = statusStaging \<longrightarrow> k = 0))"

definition at_work :: "Storage \<Rightarrow> planned_entry list \<Rightarrow> disk \<Rightarrow> gostring \<Rightarrow> nat \<Rightarrow> World \<Rightarrow> bool" where
  "at_work st plan D i k w \<longleftrightarrow> tidy w \<and> k \<le> length plan \<and> files_of st w = after st plan D k \<and>
     carries st (wdBackups w) plan i (wdRecord w) \<and> marked plan k (wdRecord w)"

definition running :: "Storage \<Rightarrow> planned_entry list \<Rightarrow> disk \<Rightarrow> gostring \<Rightarrow> nat \<Rightarrow> World \<Rightarrow> bool" where
  "running st plan D i k w \<longleftrightarrow> at_work st plan D i k w \<and> noted st plan i k w"

text \<open>
  When the last operation of a commit fails its record is gone already. An atomic commit then takes
  everything back, which is safe as long as no second operation fails.
\<close>

definition troubled :: "bool \<Rightarrow> Storage \<Rightarrow> planned_entry list \<Rightarrow> disk \<Rightarrow> gostring \<Rightarrow> nat \<Rightarrow> World \<Rightarrow> bool" where
  "troubled atomic st plan D i k w \<longleftrightarrow> at_work st plan D i k w \<and> (noted st plan i k w \<or>
     (wdJournal w = [] \<and> k = length plan \<and> (atomic \<longrightarrow> fails w = 0)))"

definition ended :: "Storage \<Rightarrow> planned_entry list \<Rightarrow> disk \<Rightarrow> gostring \<Rightarrow> World \<Rightarrow> bool" where
  "ended st plan D i w \<longleftrightarrow> pending st plan D i w \<or> settled st D w \<or> settled st (after st plan D (length plan)) w"

lemma noted_pending:
  "noted st plan i k w \<Longrightarrow> tidy w \<Longrightarrow> k \<le> length plan \<Longrightarrow> files_of st w = after st plan D k \<Longrightarrow> ended st plan D i w"
  unfolding noted_def ended_def pending_def by blast

lemma noted_tidies: "noted st plan i k w \<Longrightarrow> tidies st w w' \<Longrightarrow> wdJournal w' = wdJournal w \<Longrightarrow> noted st plan i k w'"
  by (simp add: noted_def tidies_def)

lemma troubled_ended:
  assumes "troubled a st plan D i k w" "tidies st w w'" "wdJournal w' = wdJournal w" shows "ended st plan D i w'"
proof -
  have f: "tidy w'" "k \<le> length plan" "files_of st w' = after st plan D k"
    using assms by (simp_all add: troubled_def at_work_def tidies_def)
  show ?thesis
  proof (cases "noted st plan i k w")
    case True
    then show ?thesis using noted_pending[OF noted_tidies[OF True assms(2,3)] f] by simp
  next
    case False
    then show ?thesis using assms f by (simp add: troubled_def ended_def settled_def)
  qed
qed

lemma running_troubled: "running st plan D i k w \<Longrightarrow> troubled a st plan D i k w"
  by (simp add: running_def troubled_def)

lemma marked_good:
  "carries st bks plan i r \<Longrightarrow> marked plan k r \<Longrightarrow> k \<le> length plan \<Longrightarrow> jrStatus r \<noteq> statusCompleted \<Longrightarrow>
   good_record st bks plan i r \<and> (jrStatus r = statusStaging \<longrightarrow> k = 0)"
  by (auto simp: marked_def good_record_def)

section \<open>The record is written again\<close>

lemma fails_outcomes [simp]: "fails (w\<lparr>wdOutcomes := os\<rparr>) = count_list os Fails"
  by (simp add: fails_def)

lemma atomic_document_fails:
  assumes f: "\<And>w. wdOutcomes (f w) = wdOutcomes w"
  shows "wp (atomic_document f) (\<lambda>_ _. True) (\<lambda>_ _. 0 < fails w) (\<lambda>_. True) w"
proof -
  have op: "wp operation (\<lambda>_ w'. fails w' \<le> fails w) (\<lambda>_ _. 0 < fails w) (\<lambda>_. True) w1" if "fails w1 \<le> fails w" for w1
    by (rule wp_operation) (use that in auto)
  have ff: "fails (f w1) = fails w1" for w1 by (simp add: fails_def f)
  have last: "wp operation (\<lambda>_ _. True) (\<lambda>_ _. 0 < fails w) (\<lambda>_. True) (f w1)" if "fails w1 \<le> fails w" for w1
    by (rule wp_mono[OF op]) (use that ff in auto)
  have clean: "wp operation (\<lambda>_ _. 0 < fails w) (\<lambda>_ _. 0 < fails w) (\<lambda>_. True) w1" if "0 < fails w" for w1
    using that by (auto simp: wp_def split: completion.splits prod.splits)
  have mid: "wp operation (\<lambda>_ w1. wp operation (\<lambda>_ _. True) (\<lambda>_ _. 0 < fails w) (\<lambda>_. True) (f w1))
     (\<lambda>_ w1. wp operation (\<lambda>_ _. 0 < fails w) (\<lambda>_ _. 0 < fails w) (\<lambda>_. True) w1) (\<lambda>_. True) w1" if "fails w1 \<le> fails w" for w1
    by (rule wp_mono[OF op[OF that]]) (use last clean in auto)
  show ?thesis
    unfolding atomic_document_def wp_chain wp_handle wp_modify wp_ret wp_failing
    by (rule wp_mono[OF op]) (use mid in auto)
qed

definition rerecords :: "Storage \<Rightarrow> World \<Rightarrow> World \<Rightarrow> bool" where
  "rerecords st w w' \<longleftrightarrow> tidies st w w' \<and> wdRecord w' = wdRecord w \<and> nodes w' = nodes w"

lemma wp_write_current:
  assumes tidy: "tidy w" and j: "wdJournal w = [] \<or> (\<exists>q. wdJournal w = [(i, q)])" and id: "jrID (wdRecord w) = i"
    and bytes: "\<And>q. meRecordBytes me q \<le> maxRecordBytes"
  shows "wp (write_current me) (\<lambda>_ w'. rerecords st w w' \<and> wdJournal w' = [(i, wdRecord w)])
     (\<lambda>_ w'. rerecords st w w' \<and> wdJournal w' \<in> {wdJournal w, [(i, wdRecord w)]} \<and> 0 < fails w)
     (\<lambda>w'. rerecords st w w' \<and> wdJournal w' \<in> {wdJournal w, [(i, wdRecord w)]}) w"
proof -
  let ?put = "put_record InJournal (wdRecord w)"
  have o: "wdOutcomes (?put w1) = wdOutcomes w1" for w1 by (simp add: put_record_def)
  have same: "rerecords st w w1 \<and> wdJournal w1 = wdJournal w" if "still w w1" for w1
    using tidies_still[OF tidy that] nodes_still[OF that] that by (simp add: rerecords_def still_def keeps_def)
  have put: "rerecords st w w2 \<and> wdJournal w2 = [(i, wdRecord w)]" if s: "still w w1" "still (?put w1) w2" for w1 w2
  proof -
    have t1: "tidies st w (?put w1)" using tidies_still[OF tidy s(1)] by simp
    have "tidies st w w2" by (rule tidies_trans[OF t1 tidies_still[OF tidies_tidy[OF t1] s(2)]])
    moreover have "wdRecord w2 = wdRecord w" "wdJournal w2 = AList.update i (wdRecord w) (wdJournal w)"
      using s id by (simp_all add: still_def keeps_def put_record_def)
    moreover have "nodes w2 = nodes w" using nodes_still[OF s(1)] nodes_still[OF s(2)] by (simp add: put_record_def)
    ultimately show ?thesis using j by (auto simp: rerecords_def)
  qed
  have "wp (atomic_document ?put) (\<lambda>_ w'. rerecords st w w' \<and> wdJournal w' = [(i, wdRecord w)])
     (\<lambda>_ w'. rerecords st w w' \<and> wdJournal w' \<in> {wdJournal w, [(i, wdRecord w)]})
     (\<lambda>w'. rerecords st w w' \<and> wdJournal w' \<in> {wdJournal w, [(i, wdRecord w)]}) w"
    by (rule wp_atomic_document[OF o]) (use same put in blast)+
  then have "wp (atomic_document ?put) (\<lambda>_ w'. rerecords st w w' \<and> wdJournal w' = [(i, wdRecord w)])
     (\<lambda>_ w'. rerecords st w w' \<and> wdJournal w' \<in> {wdJournal w, [(i, wdRecord w)]} \<and> 0 < fails w)
     (\<lambda>w'. rerecords st w w' \<and> wdJournal w' \<in> {wdJournal w, [(i, wdRecord w)]}) w"
    by (rule wp_mono[OF wp_conj[OF _ atomic_document_fails[OF o]]]) auto
  then show ?thesis using bytes[of "wdRecord w"] by (simp add: write_current_def writeRecord_def not_less)
qed

section \<open>A failed run\<close>

lemma wp_quietly [simp]: "wp (quietly m) Q R S = wp m Q (\<lambda>_. Q ()) S"
  by (rule ext) (simp add: quietly_def)

lemma rolled_back:
  assumes w: "at_work st plan D i k w" "noted st plan i k w" and ok: "plan_ok st D plan" and bytes: "\<And>q. record_bytes q \<le> maxRecordBytes"
  shows "wp (rollbackRecord st record_bytes) (\<lambda>_. ended st plan D i) (\<lambda>_. ended st plan D i) (ended st plan D i) w"
proof -
  obtain q where q: "wdJournal w = [(i, q)]" "good_record st (wdBackups w) plan i q" "jrStatus q = statusStaging \<longrightarrow> k = 0"
    using w(2) by (auto simp: noted_def)
  have t: "tidy w" and kn: "k \<le> length plan" and f: "files_of st w = after st plan D k" and c: "carries st (wdBackups w) plan i (wdRecord w)"
    and k: "jrCommitted (wdRecord w) = k" and hb: "has_backups (wdRecord w) k"
    using w(1) by (auto simp: at_work_def marked_def has_backups_def)
  have rolls: "ended st plan D i w'" if r: "rolls st plan D i k w w'" for w'
  proof -
    have t': "tidy w'" and b: "wdBackups w' = wdBackups w" using r by (simp_all add: rolls_def)
    from r consider j where "wdJournal w' = wdJournal w" "j \<le> k" "files_of st w' = after st plan D j"
      | "wdJournal w' = []" "files_of st w' = D" using q(1) by (auto simp: rolls_def)
    then show ?thesis
    proof cases
      case 1
      then have "pending st plan D i w'" using t' b q kn by (intro pending_I[of w' j]) auto
      then show ?thesis by (simp add: ended_def)
    next
      case 2
      then show ?thesis using t' by (simp add: ended_def settled_def)
    qed
  qed
  have "k \<le> jrCommitted (wdRecord w)" "jrCommitted (wdRecord w) \<le> length plan" using k kn by simp_all
  then show ?thesis
    by (rule wp_mono[OF wp_rollbackRecord[OF t ok refl c _ _ f hb _ bytes]]) (use k q(1) rolls in \<open>auto simp: ended_def settled_def\<close>)
qed

lemma wp_run_fail:
  assumes w: "troubled (cmRollbackOnError mode) st plan D i k w" and ok: "plan_ok st D plan"
    and me: "meStorage me = st" "\<And>q. meRecordBytes me q \<le> maxRecordBytes"
  shows "wp (run_fail me mode e) (\<lambda>_ _. False) (\<lambda>_. ended st plan D i) (ended st plan D i) w" (is "wp _ ?Q ?R ?S w")
proof -
  let ?r = "wdRecord w"
  have a: "at_work st plan D i k w" using w by (simp add: troubled_def)
  have t: "tidy w" and kn: "k \<le> length plan" and f: "files_of st w = after st plan D k" and c: "carries st (wdBackups w) plan i ?r" and m: "marked plan k ?r"
    using a by (simp_all add: at_work_def)
  have id: "jrID ?r = i" using c by (simp add: carries_def)
  have j: "wdJournal w = [] \<or> (\<exists>q. wdJournal w = [(i, q)])" using w by (auto simp: troubled_def noted_def)
  have unchanged: "ended st plan D i w'" if "tidies st w w'" "wdJournal w' = wdJournal w" for w' by (rule troubled_ended[OF w that])
  show ?thesis
  proof (cases "cmRollbackOnError mode")
    case False
    consider "jrStatus ?r = statusStaging" | "jrStatus ?r = statusStaged" | "jrStatus ?r = statusCompleted" using m by (auto simp: marked_def)
    then show ?thesis
    proof cases
      case 1
      have "wp removeStagedTemps (\<lambda>_. ended st plan D i) (\<lambda>_. ended st plan D i) (ended st plan D i) w"
        by (rule wp_mono[OF wp_removeStagedTemps[OF t c]]) (use unchanged in \<open>auto simp: same_documents_def\<close>)
      then show ?thesis using False 1 by (simp add: run_fail_def)
    next
      case 2
      have good: "good_record st (wdBackups w) plan i ?r" using marked_good[OF c m kn] 2 by simp
      have "ended st plan D i w'" if "rerecords st w w' \<and> wdJournal w' \<in> {wdJournal w, [(i, ?r)]}" for w'
      proof (cases "wdJournal w' = wdJournal w")
        case True
        then show ?thesis using that unchanged by (simp add: rerecords_def)
      next
        case False
        then have "noted st plan i k w'" using that good 2 by (simp add: noted_def rerecords_def tidies_def)
        then show ?thesis using that kn f by (intro noted_pending[of st plan i k]) (simp_all add: rerecords_def tidies_def)
      qed
      then have "wp (write_current me) (\<lambda>_. ended st plan D i) (\<lambda>_. ended st plan D i) (ended st plan D i) w"
        by (intro wp_mono[OF wp_write_current[OF t j id me(2)]]) auto
      then show ?thesis using False 2 by (simp add: run_fail_def)
    next
      case 3
      then show ?thesis using False unchanged[OF tidies_refl[OF t]] by (simp add: run_fail_def)
    qed
  next
    case True
    define r1 where "r1 = (if jrStatus ?r \<in> {statusCompleted, statusRolledBack, statusApplied} then ?r\<lparr>jrStatus := statusStaged, jrFinishedAt := None\<rparr> else ?r)"
    let ?w1 = "w\<lparr>wdRecord := r1\<rparr>"
    have c1: "carries st (wdBackups w) plan i r1" using c by (simp add: r1_def carries_def)
    have m1: "marked plan k r1" and s1: "jrStatus r1 \<noteq> statusCompleted" using m by (auto simp: r1_def marked_def has_backups_def)
    have good: "good_record st (wdBackups w) plan i r1 \<and> (jrStatus r1 = statusStaging \<longrightarrow> k = 0)" by (rule marked_good[OF c1 m1 kn s1])
    have t1: "tidy ?w1" "jrID (wdRecord ?w1) = i" using t c1 by (simp_all add: tidy_def carries_def)
    have j1: "wdJournal ?w1 = [] \<or> (\<exists>q. wdJournal ?w1 = [(i, q)])" using j by simp
    have tid: "tidies st w w' \<and> tidy w' \<and> wdBackups w' = wdBackups w \<and> files_of st w' = after st plan D k \<and> wdRecord w' = r1"
      if "rerecords st ?w1 w'" for w'
      using that f by (auto simp: rerecords_def tidies_def files_of_def fails_def calm_def)
    have work: "at_work st plan D i k w'" if "rerecords st ?w1 w'" for w' using tid[OF that] kn c1 m1 by (simp add: at_work_def)
    have new: "noted st plan i k w'" if "rerecords st ?w1 w'" "wdJournal w' = [(i, r1)]" for w'
      using tid[OF that(1)] that(2) good by (simp add: noted_def)
    have old: "noted st plan i k w'" if "rerecords st ?w1 w'" "wdJournal w' = wdJournal w" "noted st plan i k w" for w'
      using tid[OF that(1)] that(2,3) noted_tidies by blast
    have roll: "wp (rollbackRecord st (meRecordBytes me)) (\<lambda>_. ?R e) (\<lambda>_. ?R e) ?S w'" if "rerecords st ?w1 w'" "noted st plan i k w'" for w'
      by (rule rolled_back[OF work[OF that(1)] that(2) ok me(2)])
    have noted: "noted st plan i k w" if "0 < fails w" using w that True by (auto simp: troubled_def)
    have "wp (write_current me) (\<lambda>_. wp (quietly (rollbackRecord st (meRecordBytes me))) (\<lambda>_. ?R e) ?R ?S)
       (\<lambda>_. wp (quietly (rollbackRecord st (meRecordBytes me))) (\<lambda>_. ?R e) ?R ?S) ?S ?w1"
    proof (rule wp_mono[OF wp_write_current[OF t1(1) j1 t1(2) me(2)]])
      show "wp (quietly (rollbackRecord st (meRecordBytes me))) (\<lambda>_. ?R e) ?R ?S w'"
        if "rerecords st ?w1 w' \<and> wdJournal w' = [(i, wdRecord ?w1)]" for w'
        using that roll new by simp
      show "wp (quietly (rollbackRecord st (meRecordBytes me))) (\<lambda>_. ?R e) ?R ?S w'"
        if "rerecords st ?w1 w' \<and> wdJournal w' \<in> {wdJournal ?w1, [(i, wdRecord ?w1)]} \<and> 0 < fails ?w1" for w'
        using that roll new old noted by (auto simp: fails_def)
      show "?S w'" if "rerecords st ?w1 w' \<and> wdJournal w' \<in> {wdJournal ?w1, [(i, wdRecord ?w1)]}" for w'
      proof (cases "wdJournal w' = wdJournal w")
        case True
        then show ?thesis using that tid unchanged by blast
      next
        case False
        then have "noted st plan i k w'" using that new by simp
        then show ?thesis using tid[of w'] that kn by (intro noted_pending[of st plan i k]) auto
      qed
    qed
    moreover have "wp (run_fail me mode e) ?Q ?R ?S w = wp (chain (quietly (write_current me)) (\<lambda>_.
       chain (quietly (rollbackRecord (meStorage me) (meRecordBytes me))) (\<lambda>_. failing e))) ?Q ?R ?S ?w1"
      using True by (simp add: run_fail_def r1_def update_record_def)
    ultimately show ?thesis by (simp add: me(1))
  qed
qed

section \<open>The end of a run\<close>

lemma wp_handle_R: "wp m Q R' S w \<Longrightarrow> (\<And>e w'. R' e w' \<Longrightarrow> wp (h e) Q R S w') \<Longrightarrow> wp (handle m h) Q R S w"
  unfolding wp_handle by (erule wp_mono)

lemma wp_run_fail': 
  assumes "troubled (cmRollbackOnError mode) st plan D i k w" "plan_ok st D plan" "meStorage me = st" "\<And>q. meRecordBytes me q \<le> maxRecordBytes"
  shows "wp (run_fail me mode e) Q (\<lambda>_. ended st plan D i) (ended st plan D i) w"
  by (rule wp_mono[OF wp_run_fail[OF assms]]) auto

lemma wp_run_finish:
  assumes w: "running st plan D i (length plan) w" and staged: "jrStatus (wdRecord w) = statusStaged" and ok: "plan_ok st D plan"
    and me: "meStorage me = st" "\<And>q. meRecordBytes me q \<le> maxRecordBytes" and one: "cmRollbackOnError mode \<Longrightarrow> fails w \<le> 1"
  shows "wp (handle (finish (meRecordBytes me) statusCompleted) (run_fail me mode))
     (\<lambda>_. settled st (after st plan D (length plan))) (\<lambda>_. ended st plan D i) (ended st plan D i) w"
proof -
  let ?n = "length plan" let ?r = "wdRecord w"
  have a: "at_work st plan D i ?n w" and nt: "noted st plan i ?n w" using w by (simp_all add: running_def)
  have t: "tidy w" and f: "files_of st w = after st plan D ?n" and c: "carries st (wdBackups w) plan i ?r" and m: "marked plan ?n ?r"
    using a by (simp_all add: at_work_def)
  have id: "jrID ?r = i" using c by (simp add: carries_def)
  obtain q where q: "wdJournal w = [(i, q)]" using nt by (auto simp: noted_def)
  have dirs: "parents_there st plan (files_of st w)" using parents_after[OF ok] f by simp
  have hb: "has_backups ?r ?n" "jrFinishedAt ?r = None" "jrCommitted ?r = ?n" using m staged by (auto simp: marked_def)
  show ?thesis
  proof (rule wp_handle_R, rule wp_mono[OF wp_finish[OF t c dirs me(2)]])
    show "settled st (after st plan D ?n) w'" if "tidies st w w' \<and> wdJournal w' = AList.delete i (wdJournal w)" for x w'
      using that q f by (simp add: settled_def tidies_def)
    show "ended st plan D i w'" if s: "finish_stops st w w' \<and> wdOutcomes w \<noteq> []" for w'
    proof -
      have tw: "tidies st w w'" using s by (simp add: finish_stops_def)
      consider "wdJournal w' = wdJournal w" | "wdJournal w' = []" using s id q by (auto simp: finish_stops_def)
      then show ?thesis
      proof cases
        case 1
        then show ?thesis using troubled_ended[OF running_troubled[OF w] tw] by simp
      next
        case 2
        then show ?thesis using tw f by (simp add: ended_def settled_def tidies_def)
      qed
    qed
    show "finish_fails st w w' statusCompleted" if "finish_fails st w w' statusCompleted \<and> wdOutcomes w \<noteq> []" for e :: store_failure and w'
      using that by simp
    fix e w' assume s: "finish_fails st w w' statusCompleted"
    have tw: "tidies st w w'" and sw: "same_work ?r (wdRecord w')" using s by (simp_all add: finish_fails_def)
    have c': "carries st (wdBackups w') plan i (wdRecord w')" using same_work_carries[OF sw c] tw by (simp add: tidies_def)
    have m': "marked plan ?n (wdRecord w')"
      using same_work_facts[OF sw] hb s staged by (auto simp: marked_def finish_fails_def)
    have a': "at_work st plan D i ?n w'" using tw f c' m' by (simp add: at_work_def tidies_def)
    have "troubled (cmRollbackOnError mode) st plan D i ?n w'"
    proof (cases "wdJournal w' = wdJournal w")
      case True
      then show ?thesis using a' noted_tidies[OF nt tw] by (simp add: troubled_def)
    next
      case False
      then have "wdJournal w' = []" "fails w' < fails w" using s id q by (auto simp: finish_fails_def)
      then show ?thesis using a' one by (auto simp: troubled_def)
    qed
    then show "wp (run_fail me mode e) (\<lambda>_. settled st (after st plan D ?n)) (\<lambda>_. ended st plan D i) (ended st plan D i) w'"
      by (rule wp_run_fail'[OF _ ok me])
  qed
qed

section \<open>Applying the entries\<close>

text \<open>The temporary files of the entries that are still to be applied.\<close>

definition is_write :: "planned_entry \<Rightarrow> bool" where "is_write x \<longleftrightarrow> jeAction (fst x) = actionWrite"

definition temp_of :: "World \<Rightarrow> nat \<Rightarrow> fpath option" where "temp_of w j = jeTemp (jrEntries (wdRecord w) ! j)"

definition readied :: "planned_entry list \<Rightarrow> nat set \<Rightarrow> World \<Rightarrow> bool" where
  "readied plan A w \<longleftrightarrow>
     (\<forall>j \<in> A. is_write (plan ! j) \<longrightarrow> (\<exists>t. temp_of w j = Some t \<and> \<not> visible t \<and>
        nodes w t = Some (RegularFile (fst (snd (plan ! j))) (jeMode (fst (plan ! j)))))) \<and>
     (\<forall>j \<in> A. \<forall>l \<in> A. j \<noteq> l \<longrightarrow> is_write (plan ! j) \<longrightarrow> is_write (plan ! l) \<longrightarrow> temp_of w j \<noteq> temp_of w l)"

text \<open>The record says that it is staged, and the entries from \<open>k\<close> on are ready.\<close>

definition going :: "nat \<Rightarrow> Storage \<Rightarrow> planned_entry list \<Rightarrow> disk \<Rightarrow> gostring \<Rightarrow> nat \<Rightarrow> World \<Rightarrow> bool" where
  "going f st plan D i k w \<longleftrightarrow> at_work st plan D i k w \<and> jrStatus (wdRecord w) = statusStaged \<and> fails w \<le> f \<and>
     (\<exists>q. wdJournal w = [(i, q)] \<and> good_record st (wdBackups w) plan i q \<and> jrStatus q = statusStaged)"

lemma going_running: "going f st plan D i k w \<Longrightarrow> running st plan D i k w"
  by (auto simp: going_def running_def noted_def)

lemma at_work_still: "at_work st plan D i k w \<Longrightarrow> still w w' \<Longrightarrow> at_work st plan D i k w'"
  using tidy_nodes[OF nodes_still, of w w'] by (simp add: at_work_def nodes_still files_of_def) (simp add: still_def keeps_def)

lemma running_still: "running st plan D i k w \<Longrightarrow> still w w' \<Longrightarrow> running st plan D i k w'"
  using at_work_still by (auto simp: running_def noted_def still_def keeps_def)

lemma going_still: "going f st plan D i k w \<Longrightarrow> still w w' \<Longrightarrow> going f st plan D i k w'"
  using at_work_still by (auto simp: going_def still_def keeps_def)

lemma readied_still: "readied plan A w \<Longrightarrow> still w w' \<Longrightarrow> readied plan A w'"
  using nodes_still[of w w'] by (auto simp: readied_def temp_of_def still_def keeps_def)

lemma running_ended: "running st plan D i k w \<Longrightarrow> ended st plan D i w"
  using noted_pending by (auto simp: running_def at_work_def)

lemma going_ended: "going f st plan D i k w \<Longrightarrow> ended st plan D i w"
  by (rule running_ended, rule going_running)

text \<open>The effect of an entry on the disk.\<close>

definition does :: "Storage \<Rightarrow> planned_entry \<Rightarrow> fpath option \<Rightarrow> World \<Rightarrow> World \<Rightarrow> bool" where
  "does st x temp w w' \<longleftrightarrow> keeps w w' \<and> tidy w' \<and> files_of st w' = entry_effect st x (files_of st w) \<and>
     (\<forall>p. \<not> visible p \<longrightarrow> Some p \<noteq> temp \<longrightarrow> nodes w' p = nodes w p)"

lemma wp_apply_entry:
  assumes tidy: "tidy w" and ok: "planned_ok st D x" and e: "entry_ok st bks i x e"
    and ready: "is_write x \<Longrightarrow> \<exists>t. jeTemp e = Some t \<and> \<not> visible t \<and> nodes w t = Some (RegularFile (fst (snd x)) (jeMode (fst x)))"
  shows "wp (apply_entry st e) (\<lambda>_ w'. does st x (jeTemp e) w w') (\<lambda>_ w'. still w w') (\<lambda>w'. still w w') w"
proof -
  obtain e0 s previous where x: "x = (e0, s, previous)" by (cases x)
  have c: "core e = e0" using e by (simp add: entry_ok_def x)
  have fields: "jeAction e0 = jeAction e" "jePath e0 = jePath e" "jeTarget e0 = jeTarget e" "jeMode e0 = jeMode e" "footprint e0 = footprint e"
    using c by auto
  have vis: "visible p" if "p \<in> set (footprint e)" for p
    using ok that by (simp add: planned_ok_def Let_def x list_all_iff fields place_ok_def)
  have vp: "visible (jePath e)" by (rule vis) (simp add: footprint_def)
  have "planned_ok st D (e0, s, previous)" using ok x by simp
  then consider (writing) "jeAction e = actionWrite" | (move) t where "jeAction e = actionMove" "jeTarget e = Some t" | (removal) "jeAction e = actionRemove"
    by (cases rule: planned_cases) (auto simp: fields move_planned_def)
  then show ?thesis
  proof cases
    case writing
    then obtain t where t: "jeTemp e = Some t" "\<not> visible t" "nodes w t = Some (RegularFile s (jeMode e))"
      using ready by (auto simp: is_write_def x fields)
    have "does st x (jeTemp e) w w'" if "keeps w w'" "nodes w' = (nodes w)(t := None, jePath e := Some (RegularFile s (jeMode e)))" for w'
    proof -
      have "tidy w'" using tidy_put[OF tidy_put[OF tidy, of "drop_node t w" t None], of w' "jePath e"] that(2) by simp
      then show ?thesis using that t vp writing
        by (auto simp: does_def files_of_def seen_put seen_drop entry_effect_def x fields)
    qed
    then show ?thesis using writing t unfolding apply_entry_def by (auto intro!: wp_mono[OF wp_Rename])
  next
    case (move t)
    have vt: "visible t" by (rule vis) (use move in \<open>simp add: footprint_def\<close>)
    have "does st x (jeTemp e) w w'" if "keeps w w'" "nodes w (jePath e) = Some n" "\<not> is_directory (Some n)"
      "nodes w' = (nodes w)(jePath e := None, t := Some n)" for w' n
    proof -
      have "tidy w'" using tidy_put[OF tidy_put[OF tidy, of "drop_node (jePath e) w" "jePath e" None], of w' t] that vt by simp
      moreover have "files_of st w (jePath e) = Some (view_node st n)" using that(2) vp by (simp add: files_of_def seen_def)
      ultimately show ?thesis using that vp vt move
        by (auto simp: does_def files_of_def seen_put seen_drop entry_effect_def x fields)
    qed
    then show ?thesis using move unfolding apply_entry_def by (auto simp: moveFile_is_Rename intro!: wp_mono[OF wp_Rename])
  next
    case removal
    have "does st x (jeTemp e) w w'" if "keeps w w'" "nodes w' = (nodes w)(jePath e := None)" for w'
    proof -
      have "tidy w'" using tidy_put[OF tidy, of w' "jePath e" None] that(2) by simp
      then show ?thesis using that vp removal
        by (auto simp: does_def files_of_def seen_drop entry_effect_def x fields)
    qed
    then show ?thesis using removal unfolding apply_entry_def by (auto intro!: wp_mono[OF wp_Remove])
  qed
qed

text \<open>The record after the entry.\<close>

definition counted :: "nat \<Rightarrow> journalRecord \<Rightarrow> journalRecord" where
  "counted k r = (if jeAction (jrEntries r ! k) \<in> {actionWrite, actionNote}
     then r\<lparr>jrEntries := (jrEntries r)[k := (jrEntries r ! k)\<lparr>jeTemp := None\<rparr>]\<rparr> else r)\<lparr>jrCommitted := k + 1\<rparr>"

lemma wp_counted:
  assumes "jrEntries (wdRecord w) ! k = e"
  shows "wp (forget_temp e k) (\<lambda>_. wp (set_committed (k + 1)) Q R S) R S w = Q () (w\<lparr>wdRecord := counted k (wdRecord w)\<rparr>)"
  using assms by (simp add: forget_temp_def set_committed_def update_entry_def update_record_def counted_def)

lemma counted_simps [simp]: "jrCommitted (counted k r) = Suc k" "jrStatus (counted k r) = jrStatus r" "jrFinishedAt (counted k r) = jrFinishedAt r"
  by (simp_all add: counted_def)

lemma counted_carries: "carries st bks plan i r \<Longrightarrow> carries st bks plan i (counted k r)"
  using same_progress_forget[of r k] carries_committed by (auto simp: counted_def same_progress_def)

lemma counted_backups:
  assumes "has_backups r n" shows "has_backups (counted k r) n"
proof -
  have "has_backups (r\<lparr>jrEntries := (jrEntries r)[k := (jrEntries r ! k)\<lparr>jeTemp := None\<rparr>]\<rparr>) n"
    using assms same_progress_forget[of r k] by (simp add: same_progress_def)
  then show ?thesis using assms by (simp add: counted_def has_backups_def)
qed

lemma counted_entry: "j \<noteq> k \<Longrightarrow> jrEntries (counted k r) ! j = jrEntries r ! j"
  by (simp add: counted_def)

lemma going_next:
  assumes g: "going f st plan D i k w" and k: "k < length plan" and d: "does st (plan ! k) (jeTemp (jrEntries (wdRecord w) ! k)) w w1"
  shows "going f st plan D i (Suc k) (w1\<lparr>wdRecord := counted k (wdRecord w1)\<rparr>)"
proof -
  let ?r = "wdRecord w"
  have same: "wdRecord w1 = ?r" "wdBackups w1 = wdBackups w" "wdJournal w1 = wdJournal w" "fails w1 \<le> fails w"
    using d by (simp_all add: does_def keeps_def)
  have w: "files_of st w = after st plan D k" "carries st (wdBackups w) plan i ?r" "marked plan k ?r" "jrStatus ?r = statusStaged" "fails w \<le> f"
    "\<exists>q. wdJournal w = [(i, q)] \<and> good_record st (wdBackups w) plan i q \<and> jrStatus q = statusStaged"
    using g by (simp_all add: going_def at_work_def)
  have m: "marked plan (Suc k) (counted k ?r)" using w(3,4) counted_backups by (auto simp: marked_def)
  have files: "files_of st w1 = after st plan D (Suc k)" using d w(1) after_Suc[OF k] by (simp add: does_def)
  show ?thesis
    using d k m files w(4-6) same counted_carries[OF w(2)]
    by (simp add: going_def at_work_def does_def tidy_def files_of_def fails_def)
qed

lemma readied_next:
  assumes r: "readied plan {k..<n} w" and k: "k < n" and d: "does st (plan ! k) (temp_of w k) w w1"
    and act: "jeAction (jrEntries (wdRecord w) ! k) \<noteq> actionNote" "is_write (plan ! k) = (jeAction (jrEntries (wdRecord w) ! k) = actionWrite)"
    and none: "\<not> is_write (plan ! k) \<Longrightarrow> temp_of w k = None"
  shows "readied plan {Suc k..<n} (w1\<lparr>wdRecord := counted k (wdRecord w1)\<rparr>)"
proof -
  let ?w = "w1\<lparr>wdRecord := counted k (wdRecord w1)\<rparr>"
  have same: "wdRecord w1 = wdRecord w" using d by (simp add: does_def keeps_def)
  have temps: "temp_of ?w j = temp_of w j" if "j \<in> {Suc k..<n}" for j
    using that counted_entry[of j k] by (simp add: temp_of_def same)
  have sub: "j \<in> {k..<n}" if "j \<in> {Suc k..<n}" for j using that by simp
  have kk: "k \<in> {k..<n}" using k by simp
  have other: "nodes ?w t = nodes w t" if "j \<in> {Suc k..<n}" "is_write (plan ! j)" "temp_of w j = Some t" "\<not> visible t" for j t
  proof -
    have "Some t \<noteq> temp_of w k"
    proof (cases "is_write (plan ! k)")
      case True
      have "temp_of w j \<noteq> temp_of w k" using r sub[OF that(1)] kk that(1,2) True unfolding readied_def by (metis Suc_n_not_le_n atLeastLessThan_iff)
      then show ?thesis using that(3) by simp
    qed (use none in simp)
    then show ?thesis using d that(4) by (simp add: does_def)
  qed
  show ?thesis unfolding readied_def
  proof (intro conjI ballI impI)
    fix j assume j: "j \<in> {Suc k..<n}" "is_write (plan ! j)"
    then obtain t where "temp_of w j = Some t \<and> \<not> visible t \<and> nodes w t = Some (RegularFile (fst (snd (plan ! j))) (jeMode (fst (plan ! j))))"
      using r sub unfolding readied_def by blast
    then show "\<exists>t. temp_of ?w j = Some t \<and> \<not> visible t \<and> nodes ?w t = Some (RegularFile (fst (snd (plan ! j))) (jeMode (fst (plan ! j))))"
      using other[OF j] temps[OF j(1)] by auto
  next
    fix j l assume "j \<in> {Suc k..<n}" "l \<in> {Suc k..<n}" "j \<noteq> l" "is_write (plan ! j)" "is_write (plan ! l)"
    then show "temp_of ?w j \<noteq> temp_of ?w l" using r sub temps unfolding readied_def by simp
  qed
qed

lemma wp_flush:
  assumes "\<And>w'. still w w' \<Longrightarrow> Q () w'" "\<And>e w'. still w w' \<Longrightarrow> R e w'" "\<And>w'. still w w' \<Longrightarrow> S w'"
  shows "wp (flush_entry e) Q R S w"
proof -
  have sync: "wp (SyncDir p) Q' R S w1" if "still w w1" "\<And>w'. still w w' \<Longrightarrow> Q' () w'" for p Q' w1
    unfolding SyncDir_def by (rule wp_op) (use that assms still_trans[OF that(1)] in auto)
  have one: "wp (SyncDir p) Q R S w" for p by (rule sync) (use assms in auto)
  show ?thesis
    by (cases "jeAction e"; cases "jeTarget e") (simp_all add: flush_entry_def one, rule sync, simp, rule sync, use assms in auto)
qed

lemma wp_commit_entry:
  assumes g: "going f st plan D i k w" and r: "readied plan {k..<length plan} w" and k: "k < length plan" and ok: "plan_ok st D plan"
  shows "wp (commit_entry st k) (\<lambda>_ w'. going f st plan D i (Suc k) w' \<and> readied plan {Suc k..<length plan} w')
     (\<lambda>_ w'. \<exists>j. going f st plan D i j w') (ended st plan D i) w"
proof -
  let ?e = "jrEntries (wdRecord w) ! k"
  have c: "carries st (wdBackups w) plan i (wdRecord w)" and t: "tidy w" using g by (simp_all add: going_def at_work_def)
  have e: "entry_ok st (wdBackups w) i (plan ! k) ?e" by (rule entry_at(2)[OF c k])
  have p: "planned_ok st D (plan ! k)" by (rule planned_nth[OF ok k])
  have core: "core ?e = fst (plan ! k)" and th: "temp_holds i ?e" using e by (simp_all add: entry_ok_def)
  have "jeAction ?e = jeAction (fst (plan ! k))" using core by (metis core_simps(1))
  then have act: "jeAction ?e \<noteq> actionNote" "is_write (plan ! k) = (jeAction ?e = actionWrite)"
    using p by (auto simp: planned_ok_def Let_def is_write_def split: action.splits)
  have none: "\<not> is_write (plan ! k) \<Longrightarrow> temp_of w k = None" using th act by (auto simp: temp_holds_def temp_of_def split: option.splits)
  have ready: "is_write (plan ! k) \<Longrightarrow> \<exists>t. jeTemp ?e = Some t \<and> \<not> visible t \<and>
      nodes w t = Some (RegularFile (fst (snd (plan ! k))) (jeMode (fst (plan ! k))))"
    using r k by (auto simp: readied_def temp_of_def)
  have step: "wp (forget_temp ?e k) (\<lambda>_. wp (set_committed (k + 1)) (\<lambda>_. wp (flush_entry ?e)
       (\<lambda>_ w'. going f st plan D i (Suc k) w' \<and> readied plan {Suc k..<length plan} w')
       (\<lambda>_ w'. \<exists>j. going f st plan D i j w') (ended st plan D i)) (\<lambda>_ w'. \<exists>j. going f st plan D i j w') (ended st plan D i))
       (\<lambda>_ w'. \<exists>j. going f st plan D i j w') (ended st plan D i) w1"
    if d: "does st (plan ! k) (jeTemp ?e) w w1" for w1
  proof -
    have rec: "jrEntries (wdRecord w1) ! k = ?e" using d by (simp add: does_def keeps_def)
    let ?w2 = "w1\<lparr>wdRecord := counted k (wdRecord w1)\<rparr>"
    have g2: "going f st plan D i (Suc k) ?w2" by (rule going_next[OF g k d])
    have r2: "readied plan {Suc k..<length plan} ?w2" by (rule readied_next[OF r k _ act none]) (use d in \<open>simp_all add: temp_of_def\<close>)
    show ?thesis unfolding wp_counted[OF rec]
    proof (rule wp_flush)
      fix w3 assume s: "still ?w2 w3"
      show "going f st plan D i (Suc k) w3 \<and> readied plan {Suc k..<length plan} w3" using going_still[OF g2 s] readied_still[OF r2 s] ..
      then show "\<exists>j. going f st plan D i j w3" by blast
      show "ended st plan D i w3" by (rule going_ended[OF going_still[OF g2 s]])
    qed
  qed
  have "wp (apply_entry st ?e) (\<lambda>_. wp (forget_temp ?e k) (\<lambda>_. wp (set_committed (k + 1)) (\<lambda>_. wp (flush_entry ?e)
       (\<lambda>_ w'. going f st plan D i (Suc k) w' \<and> readied plan {Suc k..<length plan} w')
       (\<lambda>_ w'. \<exists>j. going f st plan D i j w') (ended st plan D i)) (\<lambda>_ w'. \<exists>j. going f st plan D i j w') (ended st plan D i))
       (\<lambda>_ w'. \<exists>j. going f st plan D i j w') (ended st plan D i)) (\<lambda>_ w'. \<exists>j. going f st plan D i j w') (ended st plan D i) w"
  proof (rule wp_mono[OF wp_apply_entry[OF t p e ready]])
    show "\<exists>j. going f st plan D i j w'" if "still w w'" for e :: store_failure and w' using going_still[OF g that] by blast
    show "ended st plan D i w'" if "still w w'" for w' by (rule going_ended[OF going_still[OF g that]])
  qed (assumption, rule step)
  then show ?thesis unfolding commit_entry_def wp_chain get_entry_def wp_get .
qed

lemma wp_commitStaged:
  assumes g: "going f st plan D i 0 w" and r: "readied plan {0..<length plan} w" and ok: "plan_ok st D plan"
  shows "wp (commitStaged st) (\<lambda>_. going f st plan D i (length plan)) (\<lambda>_ w'. \<exists>j. going f st plan D i j w') (ended st plan D i) w"
proof -
  have "jrCommitted (wdRecord w) = 0" "length (jrEntries (wdRecord w)) = length plan"
    using g carries_length by (auto simp: going_def at_work_def marked_def)
  moreover have "wp (each (commit_entry st) [0..<length plan]) (\<lambda>_. going f st plan D i (length plan))
      (\<lambda>_ w'. \<exists>j. going f st plan D i j w') (ended st plan D i) w"
  proof (rule wp_each[where I = "\<lambda>xs w'. \<exists>k \<le> length plan. xs = [k..<length plan] \<and> going f st plan D i k w' \<and> readied plan {k..<length plan} w'"])
    show "\<exists>k \<le> length plan. [0..<length plan] = [k..<length plan] \<and> going f st plan D i k w \<and> readied plan {k..<length plan} w"
      using g r by blast
  next
    fix x ys w1 assume "\<exists>k \<le> length plan. x # ys = [k..<length plan] \<and> going f st plan D i k w1 \<and> readied plan {k..<length plan} w1"
    then obtain k where k: "x # ys = [k..<length plan]" "going f st plan D i k w1" "readied plan {k..<length plan} w1" by blast
    then have lt: "k < length plan" by (metis list.distinct(1) upt_eq_Nil_conv not_le)
    then have xs: "x = k" "ys = [Suc k..<length plan]" using k(1) upt_conv_Cons[OF lt] by simp_all
    show "wp (commit_entry st x) (\<lambda>_ w'. \<exists>k \<le> length plan. ys = [k..<length plan] \<and> going f st plan D i k w' \<and> readied plan {k..<length plan} w')
        (\<lambda>_ w'. \<exists>j. going f st plan D i j w') (ended st plan D i) w1"
      unfolding xs by (rule wp_mono[OF wp_commit_entry[OF k(2,3) lt ok]]) (use lt in \<open>auto intro!: exI[of _ "Suc k"]\<close>)
  next
    fix w1 assume "\<exists>k \<le> length plan. [] = [k..<length plan] \<and> going f st plan D i k w1 \<and> readied plan {k..<length plan} w1"
    then obtain k where "k \<le> length plan" "[] = [k..<length plan]" "going f st plan D i k w1" by blast
    moreover then have "k = length plan" by (metis le_antisym upt_eq_Nil_conv le_0_eq)
    ultimately show "going f st plan D i (length plan) w1" by simp
  qed
  ultimately show ?thesis by (simp add: commitStaged_def)
qed

end
