(* ===== verification/StoreRun.thy ===== *)
theory StoreRun
  imports StoreForward
begin

text \<open>
  A commit from the lock to its last operation (commit_run.go, transaction.go): the preparation leaves the
  files alone, and after it every entry is applied from what was prepared.
\<close>

section \<open>Preparing\<close>

text \<open>The record that the journal holds until everything is staged.\<close>

definition first_record :: "Storage \<Rightarrow> planned_entry list \<Rightarrow> gostring \<Rightarrow> journalRecord \<Rightarrow> bool" where
  "first_record st plan i r \<longleftrightarrow> jrEntries r = map fst plan \<and> jrStatus r = statusStaging \<and> jrCommitted r = 0 \<and> jrFinishedAt r = None \<and>
     (\<forall>bks. carries st bks plan i r)"

definition preparing :: "nat \<Rightarrow> Storage \<Rightarrow> planned_entry list \<Rightarrow> disk \<Rightarrow> gostring \<Rightarrow> World \<Rightarrow> bool" where
  "preparing f st plan D i w \<longleftrightarrow> tidy w \<and> files_of st w = D \<and> fails w \<le> f \<and> (\<exists>q. wdJournal w = [(i, q)] \<and> first_record st plan i q) \<and>
     carries st (wdBackups w) plan i (wdRecord w) \<and> jrStatus (wdRecord w) = statusStaging \<and> jrCommitted (wdRecord w) = 0 \<and>
     jrFinishedAt (wdRecord w) = None"

lemma preparing_running: "preparing f st plan D i w \<Longrightarrow> running st plan D i 0 w"
  by (auto simp: preparing_def running_def at_work_def noted_def marked_def first_record_def good_record_def)

lemma preparing_ended: "preparing f st plan D i w \<Longrightarrow> ended st plan D i w"
  by (rule running_ended, rule preparing_running)

lemma preparing_unseen:
  assumes "preparing f st plan D i w" "unseen w w'" shows "preparing f st plan D i w'"
proof -
  have "files_of st w' = files_of st w" "keeps w w'" "tidy w'" using assms(2) unseen_files by (auto simp: unseen_def)
  then show ?thesis using assms(1) by (simp add: preparing_def keeps_def)
qed

lemma preparing_still:
  assumes "preparing f st plan D i w" "still w w'" shows "preparing f st plan D i w'"
proof -
  have "tidy w" using assms(1) by (simp add: preparing_def)
  then show ?thesis using preparing_unseen[OF assms(1) unseen_still] assms(2) by blast
qed

lemma carries_first:
  assumes ok: "plan_ok st D plan" and r: "jrEntries r = map fst plan" "jrID r = i" "validJournalIdentifier i" "jrVersion r = journalVersion"
    "jrOperation r \<noteq> []" "jrStartedAt r \<noteq> 0" "jrAtomic r \<longrightarrow> list_all (\<lambda>x. jeAction (fst x) = actionWrite) plan" "\<not> jrDiscardBackups r" "plan \<noteq> []"
  shows "carries st bks plan i r"
proof -
  have "entry_ok st bks i (plan ! k) (fst (plan ! k))" if "k < length plan" for k
    using planned_nth[OF ok that] by (simp add: entry_ok_def planned_ok_def Let_def temp_holds_def backup_holds_def core_def)
  then have "list_all2 (entry_ok st bks i) plan (map fst plan)" by (simp add: list_all2_conv_all_nth)
  then show ?thesis using r by (simp add: carries_def)
qed

subsection \<open>Backups\<close>

text \<open>Sealing can be undone and adds at most as much as a backup has room for.\<close>

definition seal_ok :: "Storage \<Rightarrow> bool" where
  "seal_ok st \<longleftrightarrow> (case stSeal st of None \<Rightarrow> stUnseal st = None
     | Some seal \<Rightarrow> (\<forall>c s. seal c = Some s \<longrightarrow> unsealed st s = Some c \<and> int (length s) \<le> int (length c) + MaxFileSize))"

lemma backup_path_inject:
  "Contains (stRoot st) p \<Longrightarrow> Contains (stRoot st) q \<Longrightarrow> backup_path st i p = backup_path st i q \<Longrightarrow> p = q"
  unfolding backup_path_def Contains_def by (metis append_take_drop_id same_append_eq)

lemma paths_differ:
  assumes ok: "plan_ok st D plan" and jk: "j < length plan" "k < length plan" "j \<noteq> k"
  shows "jePath (fst (plan ! j)) \<noteq> jePath (fst (plan ! k))"
proof -
  have "set (footprint (fst (plan ! j))) \<inter> set (footprint (fst (plan ! k))) = {}"
    by (rule disjoint_footprints[of "\<lambda>x. footprint (fst x)"]) (use ok jk in \<open>simp_all add: plan_ok_def\<close>)
  then show ?thesis by (auto simp: footprint_def)
qed

definition backed :: "Storage \<Rightarrow> planned_entry \<Rightarrow> bytes \<Rightarrow> bool" where
  "backed st x c \<longleftrightarrow> needs_backup (fst x) \<and> unsealed st c = Some (snd (snd x)) \<and>
     int (length c) \<le> 2 * PayloadLimit (drop (length (stRoot st)) (jePath (fst x)))"

lemma carries_backup:
  assumes ok: "plan_ok st D plan" and c: "carries st bks plan i r" and k: "k < length plan" and b: "backed st (plan ! k) contents"
  shows "carries st (AList.update (backup_path st i (jePath (fst (plan ! k)))) (RegularFile contents m) bks) plan i r"
proof -
  let ?p = "backup_path st i (jePath (fst (plan ! k)))"
  let ?bks = "AList.update ?p (RegularFile contents m) bks"
  have "entry_ok st ?bks i (plan ! j) (jrEntries r ! j)" if j: "j < length plan" for j
  proof -
    have e: "entry_ok st bks i (plan ! j) (jrEntries r ! j)" by (rule entry_at(2)[OF c j])
    have path: "jePath (jrEntries r ! j) = jePath (fst (plan ! j))" using e core_simps(2) by (metis entry_ok_def)
    have root: "Contains (stRoot st) (jePath (fst (plan ! l)))" if "l < length plan" for l
      using planned_nth[OF ok that] by (simp add: planned_ok_def Let_def footprint_def place_ok_def)
    have other: "backup_path st i (jePath (fst (plan ! j))) \<noteq> ?p" if "j \<noteq> k"
      using backup_path_inject[OF root[OF j] root[OF k]] paths_differ[OF ok j k that] by blast
    have "backup_holds st ?bks i (jrEntries r ! j) (snd (snd (plan ! j)))"
    proof (cases "jeBackup (jrEntries r ! j)")
      case (Some q)
      then have q: "q = backup_path st i (jePath (fst (plan ! j)))" using e path by (simp add: entry_ok_def backup_holds_def)
      show ?thesis
      proof (cases "j = k")
        case True
        then show ?thesis using e b q Some path by (simp add: entry_ok_def backup_holds_def backed_def update_conv')
      next
        case False
        then show ?thesis using e Some other q by (auto simp: entry_ok_def backup_holds_def update_conv')
      qed
    qed (simp add: backup_holds_def)
    then show ?thesis using e by (simp add: entry_ok_def)
  qed
  moreover have "length (jrEntries r) = length plan" by (rule carries_length[OF c])
  ultimately show ?thesis using c by (simp add: carries_def list_all2_conv_all_nth)
qed

lemma carries_entry:
  assumes c: "carries st bks plan i r" and k: "k < length plan" and e: "entry_ok st bks i (plan ! k) e"
  shows "carries st bks plan i (r\<lparr>jrEntries := (jrEntries r)[k := e]\<rparr>)"
  using c k e carries_length[OF c] by (auto simp: carries_def list_all2_conv_all_nth nth_list_update)

lemma sealed_backed:
  assumes seal: "seal_ok st" and ok: "planned_ok st D x" and ord: "ordinary st (jePath (fst x))" and n: "needs_backup (fst x)"
    and s: "(case stSeal st of None \<Rightarrow> Some (snd (snd x)) | Some f \<Rightarrow> f (snd (snd x))) = Some c"
  shows "backed st x c"
proof -
  obtain e s previous where x: "x = (e, s, previous)" by (cases x)
  have "planned_ok st D (e, s, previous)" using ok x by simp
  then have "\<exists>m g. file_before st D (jePath e) previous m g"
    by (cases rule: planned_cases) (use n in \<open>auto simp: x needs_backup_def write_planned_def removal_planned_def\<close>)
  then have len: "int (length previous) \<le> PayloadLimit (drop (length (stRoot st)) (jePath e))"
    using ord by (auto simp: file_before_def ordinary_def x)
  have big: "MaxFileSize \<le> PayloadLimit q" "0 \<le> PayloadLimit q" for q by (simp_all add: PayloadLimit_def MaxFileSize_def MaxAssetFileSize_def)
  show ?thesis
  proof (cases "stSeal st")
    case None
    have "0 \<le> PayloadLimit (drop (length (stRoot st)) (jePath e))" by (rule big)
    then have "int (length previous) \<le> 2 * PayloadLimit (drop (length (stRoot st)) (jePath e))" using len by linarith
    then show ?thesis using None assms x by (simp add: backed_def seal_ok_def unsealed_def)
  next
    case (Some f)
    have "unsealed st c = Some previous \<and> int (length c) \<le> int (length previous) + MaxFileSize"
      using seal s Some x by (simp add: seal_ok_def)
    moreover have "MaxFileSize \<le> PayloadLimit (drop (length (stRoot st)) (jePath e))" by (rule big)
    ultimately show ?thesis using len n x by (simp add: backed_def)
  qed
qed

lemma wp_write_backup:
  assumes w: "preparing f st plan D i w" and hb: "has_backups (wdRecord w) k" and k: "k < length plan" and ok: "plan_ok st D plan"
    and ord: "list_all (\<lambda>x. ordinary st (jePath (fst x))) plan" and seal: "seal_ok st" and mode: "\<not> cmDiscardBackups mode"
  shows "wp (write_backup st mode (map (\<lambda>(_, _, p). p) plan) k) (\<lambda>_ w'. preparing f st plan D i w' \<and> has_backups (wdRecord w') (Suc k))
     (\<lambda>_. preparing f st plan D i) (ended st plan D i) w" (is "wp _ ?Q ?R ?S w")
proof -
  let ?e = "jrEntries (wdRecord w) ! k" let ?x = "plan ! k" let ?r = "wdRecord w"
  have c: "carries st (wdBackups w) plan i ?r" using w by (simp add: preparing_def)
  have id: "jrID ?r = i" using c by (simp add: carries_def)
  have e: "entry_ok st (wdBackups w) i ?x ?e" by (rule entry_at(2)[OF c k])
  have core: "core ?e = fst ?x" using e by (simp add: entry_ok_def)
  have fields: "jeNoBackup ?e = jeNoBackup (fst ?x)" "jePath ?e = jePath (fst ?x)" "needs_backup ?e = needs_backup (fst ?x)"
    unfolding core[symmetric] by simp_all
  have nb: "\<not> jeNoBackup ?e" using planned_nth[OF ok k] fields(1) by (simp add: planned_ok_def Let_def)
  show ?thesis
  proof (cases "needs_backup ?e")
    case False
    then have "has_backups ?r (Suc k)" using hb by (auto simp: has_backups_def less_Suc_eq)
    then show ?thesis using False nb w by (auto simp: write_backup_def get_entry_def needs_backup_def)
  next
    case True
    define p where "p = backup_path st i (jePath (fst ?x))"
    define m where "m = (if jeAction ?e = actionWrite then jePreviousMode ?e else jeMode ?e)"
    have ordk: "ordinary st (jePath (fst ?x))" using ord k by (simp add: list_all_length)
    let ?put = "\<lambda>contents w. w\<lparr>wdBackups := AList.update p (RegularFile contents m) (wdBackups w)\<rparr>"
    have prep: "preparing f st plan D i w2" if s: "still w w1" "still (?put cs w1) w2" and b: "backed st ?x cs" for w1 w2 cs
    proof -
      have p1: "preparing f st plan D i w1" by (rule preparing_still[OF w s(1)])
      then have "preparing f st plan D i (?put cs w1)"
        using carries_backup[OF ok _ k b, of "wdBackups w1" i "wdRecord w1" m]
        by (auto simp: preparing_def p_def tidy_def files_of_def fails_def)
      then show ?thesis by (rule preparing_still[OF _ s(2)])
    qed
    have mark: "?Q () (w2\<lparr>wdRecord := (wdRecord w2)\<lparr>jrEntries := (jrEntries (wdRecord w2))[k := (jrEntries (wdRecord w2) ! k)\<lparr>jeBackup := Some p\<rparr>]\<rparr>\<rparr>)"
      if s: "still w w1" "still (?put cs w1) w2" and b: "backed st ?x cs" for w1 w2 cs
    proof -
      have p2: "preparing f st plan D i w2" by (rule prep[OF s b])
      have rec: "wdRecord w2 = ?r" using s by (simp add: still_def keeps_def)
      have bks: "map_of (wdBackups w2) p = Some (RegularFile cs m)" using s by (simp add: still_def keeps_def update_conv')
      have c2: "carries st (wdBackups w2) plan i ?r" using p2 rec by (simp add: preparing_def)
      have "entry_ok st (wdBackups w2) i ?x (?e\<lparr>jeBackup := Some p\<rparr>)"
        using entry_at(2)[OF c2 k] b bks True fields
        by (auto simp: entry_ok_def backup_holds_def backed_def p_def needs_backup_def temp_holds_def split: option.splits)
      then have c3: "carries st (wdBackups w2) plan i (?r\<lparr>jrEntries := (jrEntries ?r)[k := ?e\<lparr>jeBackup := Some p\<rparr>]\<rparr>)"
        by (rule carries_entry[OF c2 k])
      moreover have "has_backups (?r\<lparr>jrEntries := (jrEntries ?r)[k := ?e\<lparr>jeBackup := Some p\<rparr>]\<rparr>) (Suc k)"
        using hb k carries_length[OF c] by (auto simp: has_backups_def less_Suc_eq nth_list_update)
      ultimately show ?thesis using p2 rec by (auto simp: preparing_def tidy_def files_of_def fails_def)
    qed
    have doc: "wp (atomic_document (?put cs)) (\<lambda>_ w2. ?Q () (w2\<lparr>wdRecord := (wdRecord w2)\<lparr>jrEntries :=
         (jrEntries (wdRecord w2))[k := (jrEntries (wdRecord w2) ! k)\<lparr>jeBackup := Some p\<rparr>]\<rparr>\<rparr>)) ?R ?S w1"
      if s: "still w w1" and b: "backed st ?x cs" for w1 cs
    proof (rule wp_atomic_document)
      show "?R ErrIO w2" "?S w2" if "still w1 w2" for w2
        using preparing_still[OF w still_trans[OF s that]] preparing_ended by blast+
      show "?R ErrIO w3" "?S w3" if "still w1 w2" "still (?put cs w2) w3" for w2 w3
        using prep[OF still_trans[OF s that(1)] that(2) b] preparing_ended by blast+
      show "?Q () (w3\<lparr>wdRecord := (wdRecord w3)\<lparr>jrEntries := (jrEntries (wdRecord w3))[k := (jrEntries (wdRecord w3) ! k)\<lparr>jeBackup := Some p\<rparr>]\<rparr>\<rparr>)"
        if "still w1 w2" "still (?put cs w2) w3" for w2 w3
        by (rule mark[OF still_trans[OF s that(1)] that(2) b])
    qed simp
    have sealing: "wp (sealed st mode (snd (snd ?x))) (\<lambda>cs. wp (atomic_document (?put cs)) (\<lambda>_ w2. ?Q () (w2\<lparr>wdRecord := (wdRecord w2)\<lparr>jrEntries :=
         (jrEntries (wdRecord w2))[k := (jrEntries (wdRecord w2) ! k)\<lparr>jeBackup := Some p\<rparr>]\<rparr>\<rparr>)) ?R ?S) ?R ?S w1" if s: "still w w1" for w1
    proof -
      have b: "(case stSeal st of None \<Rightarrow> Some (snd (snd ?x)) | Some f \<Rightarrow> f (snd (snd ?x))) = Some cs \<Longrightarrow> backed st ?x cs" for cs
        by (rule sealed_backed[OF seal planned_nth[OF ok k] ordk]) (use True fields in simp_all)
      show ?thesis
        using b doc[OF s] mode preparing_still[OF w s] by (auto simp: sealed_def split: option.split)
    qed
    have op: "wp operation (\<lambda>_. wp (sealed st mode (snd (snd ?x))) (\<lambda>cs. wp (atomic_document (?put cs)) (\<lambda>_ w2. ?Q () (w2\<lparr>wdRecord := (wdRecord w2)\<lparr>jrEntries :=
         (jrEntries (wdRecord w2))[k := (jrEntries (wdRecord w2) ! k)\<lparr>jeBackup := Some p\<rparr>]\<rparr>\<rparr>)) ?R ?S) ?R ?S) ?R ?S w"
    proof (rule wp_op)
      show "?R e w1" if "still w w1" for e :: store_failure and w1 by (rule preparing_still[OF w that])
      show "?S w1" if "still w w1" for w1 by (rule preparing_ended[OF preparing_still[OF w that]])
    qed (rule sealing)
    have prev: "map (\<lambda>(_, _, p). p) plan ! k = snd (snd ?x)" using k by (simp add: split_beta)
    have act: "(jeAction ?e \<notin> {actionWrite, actionRemove} \<or> \<not> jeHadPrevious ?e \<or> jeNoBackup ?e) = False"
      using True nb by (auto simp: needs_backup_def)
    show ?thesis using op
      by (simp only: write_backup_def get_entry_def Let_def prev update_entry_def update_record_def p_def m_def fields(2)
          wp_chain wp_get wp_modify act if_False id)
  qed
qed

lemma indices_prepared: "preparing f st plan D i w \<Longrightarrow> entry_indices w = [0..<length plan]"
  using carries_length by (auto simp: preparing_def entry_indices_def)

text \<open>A loop over the entries.\<close>

lemma wp_entries:
  assumes "I 0 w" and "\<And>k w. k < n \<Longrightarrow> I k w \<Longrightarrow> wp (g k) (\<lambda>_. I (Suc k)) R S w" and "\<And>w. I n w \<Longrightarrow> Q () w"
  shows "wp (each g [0..<n]) Q R S w"
proof (rule wp_each[where I = "\<lambda>xs w'. \<exists>k \<le> n. xs = [k..<n] \<and> I k w'"])
  show "\<exists>k \<le> n. [0..<n] = [k..<n] \<and> I k w" using assms(1) by blast
next
  fix x ys w1 assume "\<exists>k \<le> n. x # ys = [k..<n] \<and> I k w1"
  then obtain k where k: "x # ys = [k..<n]" "I k w1" by blast
  then have lt: "k < n" by (metis list.distinct(1) upt_eq_Nil_conv not_le)
  then have xs: "x = k" "ys = [Suc k..<n]" using k(1) upt_conv_Cons[OF lt] by simp_all
  show "wp (g x) (\<lambda>_ w'. \<exists>k \<le> n. ys = [k..<n] \<and> I k w') R S w1"
    unfolding xs by (rule wp_mono[OF assms(2)[OF lt k(2)]]) (use lt in \<open>auto intro!: exI[of _ "Suc k"]\<close>)
next
  fix w1 assume "\<exists>k \<le> n. [] = [k..<n] \<and> I k w1"
  then obtain k where "k \<le> n" "[] = [k..<n]" "I k w1" by blast
  moreover then have "k = n" by (metis le_antisym upt_eq_Nil_conv le_0_eq)
  ultimately show "Q () w1" using assms(3) by simp
qed

lemma wp_writeBackups:
  assumes w: "preparing f st plan D i w" and ok: "plan_ok st D plan"
    and ord: "list_all (\<lambda>x. ordinary st (jePath (fst x))) plan" and seal: "seal_ok st" and mode: "\<not> cmDiscardBackups mode"
  shows "wp (writeBackups st mode (map (\<lambda>(_, _, p). p) plan)) (\<lambda>_ w'. preparing f st plan D i w' \<and> has_backups (wdRecord w') (length plan))
     (\<lambda>_. preparing f st plan D i) (ended st plan D i) w"
  unfolding writeBackups_def wp_chain wp_get indices_prepared[OF w]
  by (rule wp_entries[where I = "\<lambda>k w'. preparing f st plan D i w' \<and> has_backups (wdRecord w') k"])
    (use w wp_write_backup[OF _ _ _ ok ord seal mode] in \<open>auto simp: has_backups_def[of _ 0]\<close>)

subsection \<open>Temporary files\<close>

lemma has_backups_entry:
  "has_backups r n \<Longrightarrow> needs_backup e = needs_backup (jrEntries r ! k) \<Longrightarrow> jeBackup e = jeBackup (jrEntries r ! k) \<Longrightarrow>
   has_backups (r\<lparr>jrEntries := (jrEntries r)[k := e]\<rparr>) n"
  unfolding has_backups_def by (cases "k < length (jrEntries r)") (auto simp: nth_list_update list_update_beyond)

text \<open>What is staged is in a new file, under a name that no entry before has.\<close>

lemma readied_Suc:
  assumes r: "readied plan {0..<k} w" and k: "k < length (jrEntries (wdRecord w))"
    and w': "nodes w' = (nodes w)(t := Some (RegularFile (fst (snd (plan ! k))) (jeMode (fst (plan ! k)))))" "\<not> visible t" "nodes w t = None"
      "jrEntries (wdRecord w') = (jrEntries (wdRecord w))[k := e]" "jeTemp e = Some t"
  shows "readied plan {0..<Suc k} w'"
proof -
  have new: "temp_of w' k = Some t" using k w' by (simp add: temp_of_def)
  have old: "temp_of w' j = temp_of w j" if "j < k" for j using that w' by (simp add: temp_of_def)
  have early: "\<exists>u. temp_of w j = Some u \<and> u \<noteq> t \<and> \<not> visible u \<and> nodes w u = Some (RegularFile (fst (snd (plan ! j))) (jeMode (fst (plan ! j))))"
    if jk: "j < k" "is_write (plan ! j)" for j
  proof -
    obtain u where u: "temp_of w j = Some u \<and> \<not> visible u \<and> nodes w u = Some (RegularFile (fst (snd (plan ! j))) (jeMode (fst (plan ! j))))"
      using conjunct1[OF r[unfolded readied_def], rule_format, of j] jk by (meson atLeastLessThan_iff le0)
    then have "u \<noteq> t" using w'(3) by auto
    then show ?thesis using u by blast
  qed
  show ?thesis unfolding readied_def
  proof (intro conjI ballI impI)
    fix j assume j: "j \<in> {0..<Suc k}" "is_write (plan ! j)"
    show "\<exists>u. temp_of w' j = Some u \<and> \<not> visible u \<and> nodes w' u = Some (RegularFile (fst (snd (plan ! j))) (jeMode (fst (plan ! j))))"
    proof (cases "j = k")
      case True
      then show ?thesis using new w' by simp
    next
      case False
      then have "j < k" using j by simp
      then show ?thesis using early[of j] j old[of j] w'(1) by auto
    qed
  next
    fix j l assume a: "j \<in> {0..<Suc k}" "l \<in> {0..<Suc k}" "j \<noteq> l" "is_write (plan ! j)" "is_write (plan ! l)"
    consider "j < k" "l < k" | "j = k" "l < k" | "j < k" "l = k" using a by fastforce
    then show "temp_of w' j \<noteq> temp_of w' l"
    proof cases
      case 1
      then have "temp_of w j \<noteq> temp_of w l" using r a(3-5) unfolding readied_def by simp
      then show ?thesis using old 1 by simp
    next
      case 2
      then show ?thesis using new old early[of l] a by auto
    next
      case 3
      then show ?thesis using new old early[of j] a by auto
    qed
  qed
qed

lemma readied_skip: "readied plan {0..<k} w \<Longrightarrow> \<not> is_write (plan ! k) \<Longrightarrow> readied plan {0..<Suc k} w"
  unfolding readied_def by (auto simp: less_Suc_eq)

lemma wp_stage_write:
  assumes w: "preparing f st plan D i w" and hb: "has_backups (wdRecord w) (length plan)" and r: "readied plan {0..<k} w"
    and k: "k < length plan" and ok: "plan_ok st D plan"
  shows "wp (stage_write (map (\<lambda>(_, s, _). s) plan) k)
     (\<lambda>_ w'. preparing f st plan D i w' \<and> has_backups (wdRecord w') (length plan) \<and> readied plan {0..<Suc k} w')
     (\<lambda>_. preparing f st plan D i) (ended st plan D i) w" (is "wp _ ?Q ?R ?S w")
proof -
  let ?e = "jrEntries (wdRecord w) ! k" let ?x = "plan ! k" let ?r = "wdRecord w"
  have c: "carries st (wdBackups w) plan i ?r" and t: "tidy w" using w by (simp_all add: preparing_def)
  have id: "jrID ?r = i" using c by (simp add: carries_def)
  have l: "length (jrEntries ?r) = length plan" by (rule carries_length[OF c])
  have e: "entry_ok st (wdBackups w) i ?x ?e" by (rule entry_at(2)[OF c k])
  have core: "core ?e = fst ?x" using e by (simp add: entry_ok_def)
  have fields: "jeAction ?e = jeAction (fst ?x)" "jePath ?e = jePath (fst ?x)" "jeMode ?e = jeMode (fst ?x)"
    unfolding core[symmetric] by simp_all
  show ?thesis
  proof (cases "is_write ?x")
    case False
    then show ?thesis using w hb readied_skip[OF r False] fields(1) by (simp add: stage_write_def get_entry_def is_write_def)
  next
    case True
    let ?d = "butlast (jePath ?e)" let ?pre = "temp_prefix i" let ?staged = "fst (snd ?x)"
    have pre: "has_prefix ?pre temporaryPrefix" by (simp add: temp_prefix_def has_prefix_iff)
    have fin: "?Q () (w1\<lparr>wdRecord := (wdRecord w1)\<lparr>jrEntries := (jrEntries (wdRecord w1))[k := (jrEntries (wdRecord w1) ! k)\<lparr>jeTemp := Some t\<rparr>]\<rparr>\<rparr>)"
      if a: "keeps w w1" "t = ?d @ [?pre @ name]" "nodes w t = None" "nodes w1 = (nodes w)(t := Some (RegularFile ?staged (jeMode ?e)))" for w1 t name
    proof -
      have hid: "\<not> visible t" unfolding a(2) by (rule hidden_name[OF pre])
      have u: "unseen w w1" by (rule unseen_change[OF t a(1,4) hid]) simp
      have p1: "preparing f st plan D i w1" by (rule preparing_unseen[OF w u])
      have rec: "wdRecord w1 = ?r" "wdBackups w1 = wdBackups w" using a(1) by (simp_all add: keeps_def)
      let ?e' = "?e\<lparr>jeTemp := Some t\<rparr>" let ?r' = "?r\<lparr>jrEntries := (jrEntries ?r)[k := ?e']\<rparr>"
      have "entry_ok st (wdBackups w) i ?x ?e'"
        using e a(2) True fields(1) by (simp add: entry_ok_def temp_holds_def is_write_def backup_holds_def needs_backup_def split: option.splits)
      then have c': "carries st (wdBackups w) plan i ?r'" by (rule carries_entry[OF c k])
      have hb': "has_backups ?r' (length plan)" by (rule has_backups_entry[OF hb]) (simp_all add: needs_backup_def)
      have "readied plan {0..<Suc k} (w1\<lparr>wdRecord := ?r'\<rparr>)"
        by (rule readied_Suc[OF r, of _ t ?e']) (use a k l hid fields in simp_all)
      then show ?thesis using p1 c' hb' rec by (auto simp: preparing_def tidy_def files_of_def fails_def)
    qed
    have "wp (WriteTemp ?d ?pre (jeMode ?e) ?staged) (\<lambda>t w1. ?Q () (w1\<lparr>wdRecord := (wdRecord w1)\<lparr>jrEntries :=
        (jrEntries (wdRecord w1))[k := (jrEntries (wdRecord w1) ! k)\<lparr>jeTemp := Some t\<rparr>]\<rparr>\<rparr>)) ?R ?S w"
    proof (rule wp_mono[OF wp_WriteTemp[OF pre t]])
      show "?R e' w1" if "unseen w w1 \<and> \<not> (calm 1 w \<and> ?pre = temporaryPrefix \<and> is_directory (nodes w ?d))" for e' w1
        by (rule preparing_unseen[OF w]) (use that in simp)
      show "?S w1" if "unseen w w1 \<and> wdOutcomes w \<noteq> []" for w1
        by (rule preparing_ended, rule preparing_unseen[OF w]) (use that in simp)
    qed (use fin in blast)
    moreover have "map (\<lambda>(_, s, _). s) plan ! k = ?staged" using k by (simp add: split_beta)
    ultimately show ?thesis using True fields id
      by (simp add: stage_write_def get_entry_def update_entry_def update_record_def is_write_def)
  qed
qed

lemma wp_stageWrites:
  assumes w: "preparing f st plan D i w" and hb: "has_backups (wdRecord w) (length plan)" and ok: "plan_ok st D plan"
  shows "wp (stageWrites (map (\<lambda>(_, s, _). s) plan))
     (\<lambda>_ w'. preparing f st plan D i w' \<and> has_backups (wdRecord w') (length plan) \<and> readied plan {0..<length plan} w')
     (\<lambda>_. preparing f st plan D i) (ended st plan D i) w"
  unfolding stageWrites_def wp_chain wp_get indices_prepared[OF w]
  by (rule wp_entries[where I = "\<lambda>k w'. preparing f st plan D i w' \<and> has_backups (wdRecord w') (length plan) \<and> readied plan {0..<k} w'"])
    (use w hb wp_stage_write[OF _ _ _ _ ok] in \<open>auto simp: readied_def[of _ "{}"]\<close>)

lemma wp_makeDirectories:
  assumes w: "preparing f st plan D i w" and ok: "plan_ok st D plan" and Q: "Q () w"
  shows "wp (makeDirectories st) Q R S w"
  unfolding makeDirectories_def wp_chain wp_get indices_prepared[OF w]
proof (rule wp_entries[where I = "\<lambda>_ w'. w' = w"])
  fix k w1 assume k: "k < length plan" and "w1 = w"
  have c: "carries st (wdBackups w) plan i (wdRecord w)" using w by (simp add: preparing_def)
  have "core (jrEntries (wdRecord w) ! k) = fst (plan ! k)" using entry_at(2)[OF c k] by (simp add: entry_ok_def)
  then have "jeAction (jrEntries (wdRecord w) ! k) = jeAction (fst (plan ! k))" by (metis core_simps(1))
  then have "jeAction (jrEntries (wdRecord w) ! k) \<noteq> actionMakeDir"
    using planned_nth[OF ok k] by (auto simp: planned_ok_def Let_def split: action.splits)
  then show "wp (make_directory st k) (\<lambda>_ w'. w' = w) R S w1" using \<open>w1 = w\<close> by (simp add: make_directory_def get_entry_def)
qed (use Q in auto)

subsection \<open>Marked as staged\<close>

lemma wp_markStaged:
  assumes w: "preparing f st plan D i w" and hb: "has_backups (wdRecord w) (length plan)" and r: "readied plan {0..<length plan} w"
    and bytes: "\<And>q. meRecordBytes me q \<le> maxRecordBytes"
  shows "wp (markStaged me mode) (\<lambda>_ w'. going f st plan D i 0 w' \<and> readied plan {0..<length plan} w')
     (\<lambda>_ w'. running st plan D i 0 w' \<and> fails w' \<le> f) (ended st plan D i) w" (is "wp _ ?Q ?R ?S w")
proof -
  let ?r = "(wdRecord w)\<lparr>jrStatus := statusStaged\<rparr>" let ?w1 = "w\<lparr>wdRecord := ?r\<rparr>"
  have c: "carries st (wdBackups w) plan i (wdRecord w)" and t: "tidy w" and f: "files_of st w = D" "fails w \<le> f"
    and m: "jrCommitted (wdRecord w) = 0" "jrFinishedAt (wdRecord w) = None"
    using w by (simp_all add: preparing_def)
  obtain q where q: "wdJournal w = [(i, q)]" "first_record st plan i q" using w by (auto simp: preparing_def)
  have c1: "carries st (wdBackups w) plan i ?r" using c by (simp add: carries_def)
  have hb1: "has_backups ?r (length plan)" using hb by (simp add: has_backups_def)
  have m1: "marked plan 0 ?r" using m hb1 by (simp add: marked_def)
  have good: "good_record st (wdBackups w) plan i ?r" using marked_good[OF c1 m1] by simp
  have good0: "good_record st (wdBackups w) plan i q" "jrStatus q = statusStaging" using q(2) by (auto simp: first_record_def good_record_def)
  have t1: "tidy ?w1" "jrID (wdRecord ?w1) = i" "wdJournal ?w1 = [] \<or> (\<exists>q. wdJournal ?w1 = [(i, q)])"
    using t q c1 by (simp_all add: tidy_def carries_def)
  have kept: "tidy w' \<and> wdBackups w' = wdBackups w \<and> files_of st w' = D \<and> fails w' \<le> f \<and> wdRecord w' = ?r \<and> nodes w' = nodes w"
    if "rerecords st ?w1 w'" for w'
    using that f by (auto simp: rerecords_def tidies_def files_of_def fails_def)
  have noted: "noted st plan i 0 w'" if "rerecords st ?w1 w'" "wdJournal w' \<in> {wdJournal ?w1, [(i, wdRecord ?w1)]}" for w'
    using kept[OF that(1)] that(2) good good0 q(1) by (auto simp: noted_def)
  have run: "running st plan D i 0 w' \<and> fails w' \<le> f" if "rerecords st ?w1 w'" "wdJournal w' \<in> {wdJournal ?w1, [(i, wdRecord ?w1)]}" for w'
    using kept[OF that(1)] noted[OF that] c1 m1 by (simp add: running_def at_work_def)
  have unmarked: "running st plan D i 0 (w'\<lparr>wdRecord := (wdRecord w')\<lparr>jrStatus := statusStaging\<rparr>\<rparr>) \<and> fails w' \<le> f"
    if a: "rerecords st ?w1 w'" "wdJournal w' \<in> {wdJournal ?w1, [(i, wdRecord ?w1)]}" for w'
  proof -
    have "carries st (wdBackups w) plan i (?r\<lparr>jrStatus := statusStaging\<rparr>)" "marked plan 0 (?r\<lparr>jrStatus := statusStaging\<rparr>)"
      using c1 m by (simp_all add: carries_def marked_def)
    moreover have "tidy (w'\<lparr>wdRecord := r\<rparr>) = tidy w'" "files_of st (w'\<lparr>wdRecord := r\<rparr>) = files_of st w'" for r
      by (simp_all add: tidy_def files_of_def)
    ultimately show ?thesis using kept[OF a(1)] noted[OF a] by (simp add: running_def at_work_def noted_def)
  qed
  have "wp (write_current me) ?Q (\<lambda>e w'. wp (chain (if cmRollbackOnError mode then ret () else set_status statusStaging) (\<lambda>_. failing e)) ?Q ?R ?S w') ?S ?w1"
  proof (rule wp_mono[OF wp_write_current[OF t1(1,3,2) bytes]])
    show "?Q x w'" if a: "rerecords st ?w1 w' \<and> wdJournal w' = [(i, wdRecord ?w1)]" for x w'
    proof -
      have "at_work st plan D i 0 w'" using kept[of w'] a c1 m1 by (simp add: at_work_def)
      moreover have "temp_of w' = temp_of w" using kept[of w'] a by (simp add: temp_of_def fun_eq_iff)
      ultimately show ?thesis using kept[of w'] a good r by (auto simp: going_def readied_def)
    qed
    show "wp (chain (if cmRollbackOnError mode then ret () else set_status statusStaging) (\<lambda>_. failing e)) ?Q ?R ?S w'"
      if "rerecords st ?w1 w' \<and> wdJournal w' \<in> {wdJournal ?w1, [(i, wdRecord ?w1)]} \<and> 0 < fails ?w1" for e w'
    proof (cases "cmRollbackOnError mode")
      case True
      then show ?thesis using run[of w'] that by simp
    next
      case False
      have "fails (w'\<lparr>wdRecord := (wdRecord w')\<lparr>jrStatus := statusStaging\<rparr>\<rparr>) = fails w'" by (simp add: fails_def)
      then show ?thesis using False unmarked[of w'] that by (simp add: set_status_def update_record_def)
    qed
    show "?S w'" if "rerecords st ?w1 w' \<and> wdJournal w' \<in> {wdJournal ?w1, [(i, wdRecord ?w1)]}" for w'
      by (rule running_ended[of st plan D i 0]) (use run[of w'] that in blast)
  qed
  then show ?thesis unfolding markStaged_def wp_chain set_status_def update_record_def wp_modify wp_handle .
qed

section \<open>The run\<close>

lemma wp_run_apply:
  assumes w: "preparing f st plan D i w" and ok: "plan_ok st D plan" and me: "meStorage me = st" "\<And>q. meRecordBytes me q \<le> maxRecordBytes"
    and ord: "list_all (\<lambda>x. ordinary st (jePath (fst x))) plan" and seal: "seal_ok st" and mode: "\<not> cmDiscardBackups mode"
    and one: "cmRollbackOnError mode \<Longrightarrow> f \<le> 1"
  shows "wp (run_apply me mode (map (\<lambda>(_, s, _). s) plan) (map (\<lambda>(_, _, p). p) plan))
     (\<lambda>_. settled st (after st plan D (length plan))) (\<lambda>_. ended st plan D i) (ended st plan D i) w"
    (is "wp _ ?Q ?R ?S w")
proof -
  let ?bad = "\<lambda>_ w'. (\<exists>k. running st plan D i k w') \<and> fails w' \<le> f"
  let ?all_done = "\<lambda>_ w'. going f st plan D i (length plan) w'"
  have fail: "wp (run_fail me mode e) Q ?R ?S w'" if b: "?bad e w'" for e Q w'
  proof -
    obtain k where "running st plan D i k w'" using b by blast
    then show ?thesis by (rule wp_run_fail'[OF running_troubled ok me])
  qed
  have commit: "wp (commitStaged st) ?all_done ?bad ?S w'" if "going f st plan D i 0 w' \<and> readied plan {0..<length plan} w'" for w'
  proof (rule wp_mono[OF wp_commitStaged[of f st plan D i w']])
    show "?bad e w2" if g: "\<exists>j. going f st plan D i j w2" for e :: store_failure and w2
    proof -
      obtain j where j: "going f st plan D i j w2" using g by blast
      then show ?thesis using going_running[OF j] by (auto simp: going_def)
    qed
  qed (use that ok in auto)
  have prep_bad: "?bad e w'" if "preparing f st plan D i w'" for e :: store_failure and w'
    using preparing_running[OF that] that by (auto simp: preparing_def)
  have mark: "wp (markStaged me mode) (\<lambda>_. wp (commitStaged st) ?all_done ?bad ?S) ?bad ?S w'"
    if "preparing f st plan D i w' \<and> has_backups (wdRecord w') (length plan) \<and> readied plan {0..<length plan} w'" for w'
    by (rule wp_mono[OF wp_markStaged[of f st plan D i w' me mode]]) (use that me commit in blast)+
  have temps: "wp (stageWrites (map (\<lambda>(_, s, _). s) plan)) (\<lambda>_. wp (markStaged me mode) (\<lambda>_. wp (commitStaged st) ?all_done ?bad ?S) ?bad ?S) ?bad ?S w'"
    if "preparing f st plan D i w' \<and> has_backups (wdRecord w') (length plan)" for w'
    by (rule wp_mono[OF wp_stageWrites[of f st plan D i w']]) (use that ok mark prep_bad in blast)+
  have all: "wp (chain (makeDirectories st) (\<lambda>_. chain (writeBackups st mode (map (\<lambda>(_, _, p). p) plan)) (\<lambda>_.
       chain (stageWrites (map (\<lambda>(_, s, _). s) plan)) (\<lambda>_. chain (markStaged me mode) (\<lambda>_. commitStaged st))))) ?all_done ?bad ?S w"
    unfolding wp_chain
    by (rule wp_makeDirectories[OF w ok], rule wp_mono[OF wp_writeBackups[OF w ok ord seal mode]]) (use temps prep_bad in blast)+
  have finish: "wp (handle (finish (meRecordBytes me) statusCompleted) (run_fail me mode)) ?Q ?R ?S w'"
    if g: "going f st plan D i (length plan) w'" for w'
    by (rule wp_run_finish[OF going_running[OF g] _ ok me]) (use g one in \<open>auto simp: going_def\<close>)
  have "wp (handle (chain (makeDirectories st) (\<lambda>_. chain (writeBackups st mode (map (\<lambda>(_, _, p). p) plan)) (\<lambda>_.
       chain (stageWrites (map (\<lambda>(_, s, _). s) plan)) (\<lambda>_. chain (markStaged me mode) (\<lambda>_. commitStaged st))))) (run_fail me mode)) ?all_done ?R ?S w"
    by (rule wp_handle_R[OF all]) (rule fail)
  then have "wp (chain (handle (chain (makeDirectories st) (\<lambda>_. chain (writeBackups st mode (map (\<lambda>(_, _, p). p) plan)) (\<lambda>_.
       chain (stageWrites (map (\<lambda>(_, s, _). s) plan)) (\<lambda>_. chain (markStaged me mode) (\<lambda>_. commitStaged st))))) (run_fail me mode))
      (\<lambda>_. handle (finish (meRecordBytes me) statusCompleted) (run_fail me mode))) ?Q ?R ?S w"
    unfolding wp_chain[of "handle _ _"] by (rule wp_mono) (use finish in blast)+
  then show ?thesis using mode by (simp only: run_apply_def Let_def me(1) if_False)
qed

end
