(* ===== verification/StoreSafety.thy ===== *)
theory StoreSafety
  imports StoreRun
begin

text \<open>
  What a commit and the recovery after it promise together: whatever fails and wherever the process is
  stopped, the files are in the end those before the request or those that it asks for.
\<close>

section \<open>The record of a transaction is opened\<close>

text \<open>The time in an identifier, as \<open>20060102T150405.000\<close>.\<close>

definition clock_ok :: "(int \<Rightarrow> gostring) \<Rightarrow> bool" where
  "clock_ok format_time \<longleftrightarrow> (\<forall>t. length (format_time t) = 19 \<and> list_all is_digit (take 8 (format_time t)) \<and> format_time t ! 8 = CHR ''T'' \<and>
     list_all is_digit (take 6 (drop 9 (format_time t))) \<and> format_time t ! 15 = CHR ''.'' \<and> list_all is_digit (drop 16 (format_time t)))"

lemma lower_hex_digit: "n < 16 \<Longrightarrow> is_lower_hex (digit_char n)"
proof -
  assume "n < 16"
  then have "n \<in> set [0..<16]" by simp
  moreover have "list_all (\<lambda>n. is_lower_hex (digit_char n)) [0..<16]"
    by (simp add: upt_rec digit_char_def is_lower_hex_def is_digit_def)
  ultimately show ?thesis unfolding list_all_iff by blast
qed

lemma hex_encode_lower: "list_all is_lower_hex (hex_encode bytes) \<and> length (hex_encode bytes) = 2 * length bytes"
proof (induction bytes)
  case (Cons b bytes)
  have "unat b < 256" using unsigned_less[of b] by simp
  then have "unat b div 16 < 16" "unat b mod 16 < 16" by simp_all
  then show ?case using Cons lower_hex_digit by (simp add: hex_encode_def)
qed (simp add: hex_encode_def)

lemma identifier_valid:
  assumes "clock_ok format_time" "length bytes = 4"
  shows "validJournalIdentifier (format_time t @ ''-'' @ hex_encode bytes)"
proof -
  let ?f = "format_time t"
  have f: "length ?f = 19" "list_all is_digit (take 8 ?f)" "?f ! 8 = CHR ''T''" "list_all is_digit (take 6 (drop 9 ?f))" "?f ! 15 = CHR ''.''"
    "list_all is_digit (drop 16 ?f)"
    using assms(1) by (simp_all add: clock_ok_def)
  have h: "list_all is_lower_hex (hex_encode bytes)" "length (hex_encode bytes) = 8"
    using hex_encode_lower[of bytes] assms(2) by simp_all
  show ?thesis using f h by (simp add: validJournalIdentifier_def nth_append)
qed

definition env_ok :: "Manager_env \<Rightarrow> bool" where
  "env_ok me \<longleftrightarrow> clock_ok (meFormatTime me) \<and> digests_ok (meStorage me) \<and> seal_ok (meStorage me) \<and>
     (\<forall>r. meRecordBytes me r \<le> maxRecordBytes)"

text \<open>Before the record is written nothing has happened.\<close>

definition untouched :: "nat \<Rightarrow> Storage \<Rightarrow> disk \<Rightarrow> World \<Rightarrow> bool" where
  "untouched f st D w \<longleftrightarrow> tidy w \<and> files_of st w = D \<and> wdJournal w = [] \<and> fails w \<le> f \<and> wdNow w \<noteq> 0"

lemma untouched_still:
  assumes "untouched f st D w" "still w w'" shows "untouched f st D w'"
proof -
  have "nodes w' = nodes w" "tidy w'" using nodes_still[OF assms(2)] tidy_nodes[of w' w] assms(1) by (simp_all add: untouched_def)
  then show ?thesis using assms by (simp add: untouched_def still_def keeps_def files_of_def)
qed

lemma untouched_settled: "untouched f st D w \<Longrightarrow> settled st D w"
  by (simp add: untouched_def settled_def)

lemma untouched_random: "untouched f st D w \<Longrightarrow> untouched f st D (w\<lparr>wdRandom := rs\<rparr>)"
  by (simp add: untouched_def tidy_def files_of_def fails_def)

lemma wp_begin_run:
  assumes w: "untouched f st D w" and env: "env_ok me" "meStorage me = st" and ok: "plan_ok st D plan" "plan \<noteq> []" and op: "op \<noteq> []"
    and atomic: "cmRollbackOnError mode \<Longrightarrow> list_all (\<lambda>x. jeAction (fst x) = actionWrite) plan" and mode: "\<not> cmDiscardBackups mode"
  shows "wp (begin_run me mode op (map fst plan)) (\<lambda>_ w'. \<exists>i. preparing f st plan D i w')
     (\<lambda>_ w'. \<exists>i. ended st plan D i w') (\<lambda>w'. \<exists>i. ended st plan D i w') w" (is "wp _ ?Q ?R ?S w")
proof -
  have idle: "?R e w'" "?S w'" if "untouched f st D w'" for e :: store_failure and w'
    using untouched_settled[OF that] by (auto simp: ended_def)
  define initial where "initial j now = \<lparr>jrID = j, jrVersion = journalVersion, jrOperation = op, jrStatus = statusStaging, jrStartedAt = now,
      jrFinishedAt = None, jrCommitted = 0, jrAtomic = cmRollbackOnError mode, jrDiscardBackups = cmDiscardBackups mode, jrEntries = map fst plan\<rparr>" for j now
  have carried: "carries st bks plan j (initial j now)" if "validJournalIdentifier j" "now \<noteq> 0" for bks j now
    by (rule carries_first[OF ok(1)]) (use that ok op atomic mode in \<open>simp_all add: initial_def\<close>)
  have opened: "wp (writeRecord (meRecordBytes me) InJournal (initial j (wdNow w1))) ?Q ?R ?S (w1\<lparr>wdRecord := initial j (wdNow w1)\<rparr>)"
    if u: "untouched f st D w1" and v: "validJournalIdentifier j" for w1 j
  proof -
    let ?r = "initial j (wdNow w1)" let ?w1 = "w1\<lparr>wdRecord := ?r\<rparr>" let ?put = "put_record InJournal ?r"
    have u1: "untouched f st D ?w1" using u by (simp add: untouched_def tidy_def files_of_def fails_def)
    have c: "carries st bks plan j ?r" for bks by (rule carried[OF v]) (use u in \<open>simp add: untouched_def\<close>)
    have first: "first_record st plan j ?r" using c by (simp add: first_record_def initial_def)
    have prep: "preparing f st plan D j w3" if s: "still ?w1 w2" "still (?put w2) w3" for w2 w3
    proof (rule preparing_still[OF _ s(2)])
      have u2: "untouched f st D w2" by (rule untouched_still[OF u1 s(1)])
      have rec: "wdRecord w2 = ?r" using s(1) by (simp add: still_def keeps_def)
      have "wdJournal (?put w2) = [(j, ?r)]" using u2 by (simp add: put_record_def untouched_def initial_def)
      moreover have "wdRecord (?put w2) = ?r" using rec by (simp add: put_record_def)
      ultimately show "preparing f st plan D j (?put w2)"
        using u2 first c unfolding preparing_def
        by (auto simp: untouched_def tidy_def files_of_def fails_def put_record_def initial_def)
    qed
    have "wp (atomic_document ?put) ?Q ?R ?S ?w1"
    proof (rule wp_atomic_document)
      show "wdOutcomes (?put w2) = wdOutcomes w2" for w2 by (simp add: put_record_def)
      show "?R ErrIO w2" "?S w2" if "still ?w1 w2" for w2 using idle[OF untouched_still[OF u1 that]] by blast+
      show "?Q () w3" "?R ErrIO w3" "?S w3" if "still ?w1 w2" "still (?put w2) w3" for w2 w3
        using prep[OF that] preparing_ended by blast+
    qed
    moreover have "\<not> meRecordBytes me ?r > maxRecordBytes" using env(1) by (simp add: env_ok_def not_less)
    ultimately show ?thesis by (simp add: writeRecord_def)
  qed
  have go: "wp operation (\<lambda>_. wp operation (\<lambda>_ w2. wp (writeRecord (meRecordBytes me) InJournal (initial j (wdNow w2))) ?Q ?R ?S
      (w2\<lparr>wdRecord := initial j (wdNow w2)\<rparr>)) ?R ?S) ?R ?S w1"
    if u: "untouched f st D w1" and v: "validJournalIdentifier j" for w1 j
  proof (rule wp_op)
    fix w2 assume s: "still w1 w2"
    have u2: "untouched f st D w2" by (rule untouched_still[OF u s])
    show "wp operation (\<lambda>_ w2. wp (writeRecord (meRecordBytes me) InJournal (initial j (wdNow w2))) ?Q ?R ?S
      (w2\<lparr>wdRecord := initial j (wdNow w2)\<rparr>)) ?R ?S w2"
    proof (rule wp_op)
      fix w3 assume s3: "still w2 w3"
      show "wp (writeRecord (meRecordBytes me) InJournal (initial j (wdNow w3))) ?Q ?R ?S (w3\<lparr>wdRecord := initial j (wdNow w3)\<rparr>)"
        by (rule opened[OF untouched_still[OF u2 s3] v])
    qed (rule idle, erule untouched_still[OF u2])+
  qed (rule idle, erule untouched_still[OF u])+
  have ident: "wp (newIdentifier (meFormatTime me)) (\<lambda>j w1. validJournalIdentifier j \<and> untouched f st D w1) (\<lambda>_. untouched f st D) (\<lambda>_. False) w"
  proof (cases "length (wdRandom w) < 4")
    case True
    then show ?thesis using untouched_random[OF w] by (simp add: newIdentifier_def ReadFull_def)
  next
    case False
    then have "length (take 4 (wdRandom w)) = 4" by simp
    then have "validJournalIdentifier (meFormatTime me (wdNow w) @ ''-'' @ hex_encode (take 4 (wdRandom w)))"
      using identifier_valid env(1) unfolding env_ok_def by blast
    then show ?thesis using False untouched_random[OF w] by (simp add: newIdentifier_def ReadFull_def)
  qed
  have "wp (newIdentifier (meFormatTime me)) (\<lambda>j. wp operation (\<lambda>_. wp operation (\<lambda>_ w2.
      wp (writeRecord (meRecordBytes me) InJournal (initial j (wdNow w2))) ?Q ?R ?S (w2\<lparr>wdRecord := initial j (wdNow w2)\<rparr>)) ?R ?S) ?R ?S) ?R ?S w"
    by (rule wp_mono[OF ident]) (use go idle in blast)+
  then show ?thesis
    unfolding begin_run_def Let_def wp_chain wp_get update_record_def wp_modify initial_def .
qed

section \<open>A commit\<close>

text \<open>The transaction of the request is pending: the files are between those before it and those it asks for.\<close>

definition half_done :: "Storage \<Rightarrow> Request \<Rightarrow> disk \<Rightarrow> World \<Rightarrow> bool" where
  "half_done st r D w \<longleftrightarrow> (\<exists>plan i. plan_ok st D plan \<and> length plan = request_size r \<and>
     after st plan D (length plan) = requested st r D \<and> pending st plan D i w)"

definition safe :: "Storage \<Rightarrow> Request \<Rightarrow> disk \<Rightarrow> World \<Rightarrow> bool" where
  "safe st r D w \<longleftrightarrow> settled st D w \<or> settled st (requested st r D) w \<or> half_done st r D w"

text \<open>An atomic commit is known to be recoverable when it only writes files; see \<open>accepted_atomic_writes\<close>.\<close>

definition commits_safely :: "commitMode \<Rightarrow> Request \<Rightarrow> nat \<Rightarrow> bool" where
  "commits_safely mode r f \<longleftrightarrow> \<not> cmDiscardBackups mode \<and>
     (cmRollbackOnError mode \<longrightarrow> f \<le> 1 \<and> rqMoves r = [] \<and> rqRemovals r = [])"

lemma wp_or_fail [simp]: "wp (or_fail e) Q R S = (case e of None \<Rightarrow> Q () | Some x \<Rightarrow> R x)"
  by (rule ext) (simp add: or_fail_def split: option.split)

lemma wp_ensureNoPendingTransaction:
  assumes u: "untouched f st D w"
    and Q: "\<And>w'. untouched f st D w' \<Longrightarrow> Q () w'" and R: "\<And>e w'. untouched f st D w' \<Longrightarrow> R e w'" and S: "\<And>w'. untouched f st D w' \<Longrightarrow> S w'"
  shows "wp (ensureNoPendingTransaction st) Q R S w"
  unfolding ensureNoPendingTransaction_def readRecords_def wp_chain[of operation] wp_chain[of "chain operation _"]
proof (rule wp_op)
  fix w' assume "still w w'"
  then have u': "untouched f st D w'" by (rule untouched_still[OF u])
  then have "wdJournal w' = []" by (simp add: untouched_def)
  then show "wp (chain (get (case InJournal of InJournal \<Rightarrow> wdJournal | InHistory \<Rightarrow> wdHistory))
       (\<lambda>docs. if list_ex (\<lambda>(identifier, _). \<not> validJournalIdentifier identifier) docs then failing ErrInvalidJournal
               else read_documents st InJournal False docs)) (\<lambda>rs. wp (unless_fails (rs = []) ErrPendingTransaction) Q R S) R S w'"
    using Q[OF u'] by simp
qed (use R S untouched_still[OF u] in blast)+

lemma wp_commit_request:
  assumes u: "untouched f st D w" and home: "home_ok st D" and plain: "plain st r" and env: "env_ok me" "meStorage me = st"
    and mode: "commits_safely mode r f"
  shows "wp (commit_request me r mode) (\<lambda>_. settled st (requested st r D)) (\<lambda>_. safe st r D) (safe st r D) w" (is "wp _ ?Q ?R ?S w")
proof -
  have idle: "?R e w'" "?S w'" if "untouched f st D w'" for e :: store_failure and w'
    using untouched_settled[OF that] by (simp_all add: safe_def)
  show ?thesis
  proof (cases "validateRequestShape r")
    case (Some e)
    then show ?thesis using idle[OF u] by (simp add: commit_request_def)
  next
    case None
    then have op: "rqOperation r \<noteq> []" and size: "request_size r \<noteq> 0" by (auto simp: validateRequestShape_def split: if_splits)
    have run: "wp (begin_run me mode (rqOperation r) (map fst (cbPlan b))) (\<lambda>_. wp (run_apply me mode (map (\<lambda>(_, s, _). s) (cbPlan b))
        (map (\<lambda>(_, _, p). p) (cbPlan b))) ?Q ?R ?S) ?R ?S w'"
      if u': "untouched f st D w'" and p: "planning st (rqMoves r = [] \<and> rqRemovals r = []) (nodes w') b (requested st r D, request_size r)" for b w'
    proof -
      have D: "seen st (nodes w') = D" using u' by (simp add: untouched_def files_of_def)
      note facts = planning_plan[OF p, unfolded D]
      let ?plan = "cbPlan b"
      have n: "length ?plan = request_size r" "?plan \<noteq> []" using facts(3) size by auto
      have over: "ended st ?plan D i w2 \<Longrightarrow> safe st r D w2" for i w2
        using facts(1,2) n unfolding ended_def safe_def half_done_def by auto
      have nd: "\<not> cmDiscardBackups mode" and one: "cmRollbackOnError mode \<Longrightarrow> f \<le> 1"
        and writes: "cmRollbackOnError mode \<Longrightarrow> list_all (\<lambda>x. jeAction (fst x) = actionWrite) ?plan"
        using mode facts(5) by (simp_all add: commits_safely_def)
      have seal: "seal_ok st" and bytes: "meRecordBytes me q \<le> maxRecordBytes" for q using env by (auto simp: env_ok_def)
      show ?thesis
      proof (rule wp_mono[OF wp_begin_run[OF u' env facts(1) n(2) op writes nd]])
        fix x w2 assume "\<exists>i. preparing f st ?plan D i w2"
        then obtain i where i: "preparing f st ?plan D i w2" by blast
        show "wp (run_apply me mode (map (\<lambda>(_, s, _). s) ?plan) (map (\<lambda>(_, _, p). p) ?plan)) ?Q ?R ?S w2"
          by (rule wp_mono[OF wp_run_apply[OF i facts(1) env(2) bytes facts(4) seal nd one]]) (use facts(2) n over in auto)
      qed (use over in blast)+
    qed
    have plan: "wp (planCommit st r) (\<lambda>b. wp (unless_fails (meValidate me r) ErrValidation) (\<lambda>_. wp (begin_run me mode (rqOperation r) (map fst (cbPlan b)))
        (\<lambda>_. wp (run_apply me mode (map (\<lambda>(_, s, _). s) (cbPlan b)) (map (\<lambda>(_, _, p). p) (cbPlan b))) ?Q ?R ?S) ?R ?S) ?R ?S) ?R ?S w'"
      if u': "untouched f st D w'" for w'
    proof (rule wp_sees[OF sees_planCommit[OF plain]])
      fix b w2 assume s: "still w' w2" and p: "tidy_files (nodes w') \<longrightarrow>
        planning st (rqMoves r = [] \<and> rqRemovals r = []) (nodes w') b (requested st r (seen st (nodes w')), request_size r)"
      have u2: "untouched f st D w2" by (rule untouched_still[OF u' s])
      have "tidy_files (nodes w')" "seen st (nodes w') = D" using u' by (simp_all add: untouched_def tidy_def tidy_files_def files_of_def)
      then have "planning st (rqMoves r = [] \<and> rqRemovals r = []) (nodes w2) b (requested st r D, request_size r)"
        using p nodes_still[OF s] by simp
      then show "wp (unless_fails (meValidate me r) ErrValidation) (\<lambda>_. wp (begin_run me mode (rqOperation r) (map fst (cbPlan b)))
        (\<lambda>_. wp (run_apply me mode (map (\<lambda>(_, s, _). s) (cbPlan b)) (map (\<lambda>(_, _, p). p) (cbPlan b))) ?Q ?R ?S) ?R ?S) ?R ?S w2"
        using run[OF u2] idle[OF u2] by simp
    qed (rule idle, erule untouched_still[OF u'])+
    have built: "wp (commitBuilt me (ret r) mode) ?Q ?R ?S w"
      unfolding commitBuilt_def env(2) wp_chain wp_ret wp_or_fail None option.case
    proof (rule wp_mono[OF wp_lockMutation])
      show "home_ok st (files_of st w)" using home u by (simp add: untouched_def)
      fix x w1 assume "still w w1"
      then have u1: "untouched f st D w1" by (rule untouched_still[OF u])
      show "wp (ensureNoPendingTransaction st) (\<lambda>_. wp (planCommit st r) (\<lambda>b. wp (unless_fails (meValidate me r) ErrValidation) (\<lambda>_. wp (begin_run me mode (rqOperation r) (map fst (cbPlan b)))
        (\<lambda>_. wp (run_apply me mode (map (\<lambda>(_, s, _). s) (cbPlan b)) (map (\<lambda>(_, _, p). p) (cbPlan b))) ?Q ?R ?S) ?R ?S) ?R ?S) ?R ?S) ?R ?S w1"
        by (rule wp_ensureNoPendingTransaction[OF u1]) (rule plan idle, assumption)+
    qed (use idle untouched_still[OF u] in blast)+
    then show ?thesis using None by (simp add: commit_request_def)
  qed
qed

section \<open>Recovery\<close>

text \<open>
  The process starts again: other operations will fail or stop, other names will be drawn, and the pending
  transaction, if there is one, is rolled back.
\<close>

definition recover_once :: "Storage \<Rightarrow> (journalRecord \<Rightarrow> int) \<Rightarrow> outcome list \<times> gostring list \<Rightarrow> World \<Rightarrow> World" where
  "recover_once st record_bytes x w = (case wdJournal w of
      [] \<Rightarrow> w
    | (identifier, _) # _ \<Rightarrow> snd (rollback st record_bytes identifier (w\<lparr>wdOutcomes := fst x, wdNames := snd x\<rparr>)))"

lemma wp_snd: "wp m (\<lambda>_. P) (\<lambda>_. P) P w \<Longrightarrow> P (snd (m w))"
  by (cases "m w"; cases "fst (m w)") (auto simp: wp_def)

lemma pending_restart: "pending st plan D i w \<Longrightarrow> pending st plan D i (w\<lparr>wdOutcomes := os, wdNames := ns\<rparr>)"
  by (simp add: pending_def tidy_def files_of_def)

lemma recover_settled: "settled st D w \<Longrightarrow> recover_once st record_bytes x w = w"
  by (simp add: recover_once_def settled_def)

lemma recover_safe:
  assumes s: "safe st r D w" and d: "digests_ok st" and bytes: "\<And>q. record_bytes q \<le> maxRecordBytes" and h: "home_ok st D"
  shows "safe st r D (recover_once st record_bytes x w)"
proof (cases "half_done st r D w")
  case False
  then have "settled st D w \<or> settled st (requested st r D) w" using s by (simp add: safe_def)
  then have "recover_once st record_bytes x w = w" by (elim disjE) (erule recover_settled)+
  then show ?thesis using s by simp
next
  case True
  then obtain plan i where p: "plan_ok st D plan" "length plan = request_size r" "after st plan D (length plan) = requested st r D" "pending st plan D i w"
    by (auto simp: half_done_def)
  obtain q where j: "wdJournal w = [(i, q)]" using p(4) by (auto simp: pending_def)
  let ?w = "w\<lparr>wdOutcomes := fst x, wdNames := snd x\<rparr>"
  have "safe st r D (snd (rollback st record_bytes i ?w))"
    by (rule wp_snd, rule wp_mono[OF wp_rollback[OF p(1) d bytes h pending_restart[OF p(4)]]])
      (use p in \<open>auto simp: safe_def half_done_def\<close>)
  then show ?thesis by (simp add: recover_once_def j)
qed

lemma recover_calm:
  assumes s: "safe st r D w" and d: "digests_ok st" and bytes: "\<And>q. record_bytes q \<le> maxRecordBytes" and h: "home_ok st D"
    and calm: "calm (request_size r) (w\<lparr>wdOutcomes := [], wdNames := ns\<rparr>)"
  shows "\<exists>D' \<in> {D, requested st r D}. settled st D' (recover_once st record_bytes ([], ns) w)"
proof (cases "half_done st r D w")
  case False
  then have w: "settled st D w \<or> settled st (requested st r D) w" using s by (simp add: safe_def)
  then have "recover_once st record_bytes ([], ns) w = w" by (elim disjE) (erule recover_settled)+
  then show ?thesis using w by auto
next
  case True
  then obtain plan i where p: "plan_ok st D plan" "length plan = request_size r" "pending st plan D i w" by (auto simp: half_done_def)
  obtain q where j: "wdJournal w = [(i, q)]" using p(3) by (auto simp: pending_def)
  let ?w = "w\<lparr>wdOutcomes := [], wdNames := ns\<rparr>"
  have "settled st D (snd (rollback st record_bytes i ?w))"
    by (rule wp_snd, rule wp_mono[OF wp_rollback[OF p(1) d bytes h pending_restart[OF p(3)]]]) (use calm p(2) in auto)
  then show ?thesis by (simp add: recover_once_def j)
qed

lemma recoveries_safe:
  assumes "safe st r D w" "digests_ok st" "\<And>q. record_bytes q \<le> maxRecordBytes" "home_ok st D"
  shows "safe st r D (fold (recover_once st record_bytes) attempts w)"
  using assms by (induction attempts arbitrary: w) (simp_all add: recover_safe)

lemma commit_request_safe:
  assumes "tidy w" "wdJournal w = []" "wdNow w \<noteq> 0" "home_ok st (files_of st w)" "plain st r" "env_ok me" "meStorage me = st"
    "commits_safely mode r (fails w)"
  shows "wp (commit_request me r mode) (\<lambda>_. settled st (requested st r (files_of st w))) (\<lambda>_. safe st r (files_of st w)) (safe st r (files_of st w)) w"
  by (rule wp_commit_request[of "fails w"]) (use assms in \<open>simp_all add: untouched_def\<close>)

lemma interrupted_recovers:
  assumes "tidy w" "wdJournal w = []" "wdNow w \<noteq> 0" "home_ok st (files_of st w)" "plain st r" "env_ok me" "meStorage me = st"
    "commits_safely mode r (fails w)" "w1 = fold (recover_once st (meRecordBytes me)) attempts (snd (commit_request me r mode w))"
    "calm (request_size r) (w1\<lparr>wdOutcomes := [], wdNames := ns\<rparr>)"
  shows "\<exists>D \<in> {files_of st w, requested st r (files_of st w)}. settled st D (recover_once st (meRecordBytes me) ([], ns) w1)"
proof -
  have env: "digests_ok st" "\<And>q. meRecordBytes me q \<le> maxRecordBytes" using assms(6,7) by (auto simp: env_ok_def)
  have "safe st r (files_of st w) (snd (commit_request me r mode w))"
    by (rule wp_snd, rule wp_mono[OF commit_request_safe[OF assms(1-8)]]) (simp_all add: safe_def)
  then have "safe st r (files_of st w) w1" unfolding assms(9) by (rule recoveries_safe[OF _ env assms(4)])
  then show ?thesis by (rule recover_calm[OF _ env assms(4,10)])
qed

section \<open>Programs that leave the journal alone\<close>

definition keeps_journal :: "'a act \<Rightarrow> bool" where
  "keeps_journal m \<longleftrightarrow> (\<forall>w. wp m (\<lambda>_ w'. wdJournal w' = wdJournal w) (\<lambda>_ w'. wdJournal w' = wdJournal w) (\<lambda>w'. wdJournal w' = wdJournal w) w)"

lemma keeps_journal_basic:
  "keeps_journal (ret x)" "keeps_journal (failing e)" "keeps_journal (get g)"
  by (simp_all add: keeps_journal_def)

lemma keeps_journal_operation: "keeps_journal operation"
  unfolding keeps_journal_def by (intro allI, rule wp_op) (auto simp: still_def keeps_def)

lemma keeps_journal_chain: "keeps_journal m \<Longrightarrow> (\<And>x. keeps_journal (g x)) \<Longrightarrow> keeps_journal (chain m g)"
  unfolding keeps_journal_def wp_chain
proof (intro allI)
  fix w :: World assume a: "\<forall>w. wp m (\<lambda>_ w'. wdJournal w' = wdJournal w) (\<lambda>_ w'. wdJournal w' = wdJournal w) (\<lambda>w'. wdJournal w' = wdJournal w) w"
    and b: "\<And>x. \<forall>w. wp (g x) (\<lambda>_ w'. wdJournal w' = wdJournal w) (\<lambda>_ w'. wdJournal w' = wdJournal w) (\<lambda>w'. wdJournal w' = wdJournal w) w"
  have "wp (g x) (\<lambda>_ w'. wdJournal w' = wdJournal w) (\<lambda>_ w'. wdJournal w' = wdJournal w) (\<lambda>w'. wdJournal w' = wdJournal w) w1"
    if "wdJournal w1 = wdJournal w" for x w1
    using b[rule_format, of x w1] unfolding that .
  then show "wp m (\<lambda>x. wp (g x) (\<lambda>_ w'. wdJournal w' = wdJournal w) (\<lambda>_ w'. wdJournal w' = wdJournal w) (\<lambda>w'. wdJournal w' = wdJournal w))
     (\<lambda>_ w'. wdJournal w' = wdJournal w) (\<lambda>w'. wdJournal w' = wdJournal w) w"
    by (rule wp_mono[OF a[rule_format]])
qed

lemma keeps_journal_Lstat: "keeps_journal (Lstat p)"
  unfolding Lstat_def by (rule keeps_journal_chain[OF keeps_journal_operation]) (rule keeps_journal_basic)

lemma keeps_journal_MkdirAll: "keeps_journal (MkdirAll p)"
  unfolding MkdirAll_def
proof (rule keeps_journal_chain[OF keeps_journal_operation], rule keeps_journal_chain[OF keeps_journal_basic(3)])
  show "keeps_journal (case n of None \<Rightarrow> modify (put_node p (Directory DirectoryPermission)) | Some (Directory _) \<Rightarrow> ret () | Some _ \<Rightarrow> failing ErrNotDirectory)" for n
    by (auto simp: keeps_journal_def put_node_def split: option.split node.split)
qed

lemma keeps_journal_ensure_segments: "keeps_journal (ensure_segments st current segments)"
proof (induction segments arbitrary: current)
  case (Cons segment segments)
  have made: "keeps_journal (chain (MkdirAll p) (\<lambda>_. ensure_segments st p segments))" for p
    by (rule keeps_journal_chain[OF keeps_journal_MkdirAll Cons.IH])
  show ?case unfolding ensure_segments.simps Let_def
  proof (rule keeps_journal_chain[OF keeps_journal_Lstat])
    let ?next = "current @ [segment]"
    show "keeps_journal (case info of
          None \<Rightarrow> chain (MkdirAll ?next) (\<lambda>_. ensure_segments st ?next segments)
        | Some SymbolicLink \<Rightarrow> failing ErrSymlinkPath
        | Some (RegularFile _ _) \<Rightarrow> failing ErrNotDirectory
        | Some (Directory _) \<Rightarrow>
            (if Contains (StateDir st) ?next then chain (MkdirAll ?next) (\<lambda>_. ensure_segments st ?next segments)
             else ensure_segments st ?next segments))" for info
      using made Cons.IH by (auto simp: keeps_journal_basic split: option.split node.split)
  qed
qed (simp add: keeps_journal_basic)

lemma keeps_journal_lockMutation: "keeps_journal (lockMutation st)"
  unfolding lockMutation_def
proof (rule keeps_journal_chain[OF _ keeps_journal_operation])
  show "keeps_journal (EnsureDirectory st (StateDir st))"
    unfolding EnsureDirectory_def
    by (auto intro!: keeps_journal_chain keeps_journal_Lstat keeps_journal_ensure_segments keeps_journal_MkdirAll
        simp: keeps_journal_basic split: option.split node.split)
qed

text \<open>An atomic record that does more than write files is not accepted when it is read back.\<close>

lemma atomic_move_rejected:
  assumes "jrAtomic r" "e \<in> set (jrEntries r)" "jeAction e \<in> {actionMove, actionRemove, actionRemoveDir}"
  shows "\<not> validateLoadedJournalRecord st r i place"
proof
  assume "validateLoadedJournalRecord st r i place"
  then have "validateLoadedJournalEntry st r e (place = InJournal)"
    using assms(2) by (simp add: validateLoadedJournalRecord_def list_all_iff)
  then show False using assms by (auto simp: validateLoadedJournalEntry_def)
qed

lemma rejected_stays:
  assumes "map_of (wdJournal w) i = Some r" "\<not> validateLoadedJournalRecord st r i InJournal"
  shows "wp (rollback st record_bytes i) (\<lambda>_ _. False) (\<lambda>_ w'. wdJournal w' = wdJournal w) (\<lambda>w'. wdJournal w' = wdJournal w) w"
    (is "wp _ ?Q ?R ?S w")
proof -
  have load: "wp (loadPending st record_bytes i) Q ?R ?S w1" if j: "wdJournal w1 = wdJournal w" for Q w1
  proof (cases "validJournalIdentifier i")
    case False
    then show ?thesis using j by (simp add: loadPending_def readPendingRecord_def)
  next
    case True
    have "wp operation (\<lambda>_ w1. wp (case map_of (wdJournal w1) i of None \<Rightarrow> failing ErrUnknownTransaction
        | Some r \<Rightarrow> (if validateLoadedJournalRecord st r i InJournal then ret r else failing ErrInvalidJournal)) Q' ?R ?S w1) ?R ?S w1" for Q'
      by (rule wp_op) (use j assms in \<open>auto simp: still_def keeps_def\<close>)
    then show ?thesis using True by (simp add: loadPending_def readPendingRecord_def)
  qed
  show ?thesis
    unfolding rollback_def wp_chain[of "lockMutation st"] wp_chain[of "loadPending _ _ _"]
    by (rule wp_mono[OF keeps_journal_lockMutation[unfolded keeps_journal_def, rule_format]]) (use load in auto)
qed

end
