(* ===== verification/StoreProperties.thy ===== *)
theory StoreProperties
  imports StoreSafety
begin

text \<open>
  The properties of the storage transactions as a whole, each at a small workspace.
\<close>

section \<open>A workspace\<close>

definition demo_storage :: Storage where
  "demo_storage = \<lparr>stRoot = [''c''], stDigest = (\<lambda>c. replicate 64 (if c = [1] then CHR ''1'' else if c = [5] then CHR ''5'' else CHR ''2'')), stSeal = None, stUnseal = None,
     stReportsExecutableBit = True\<rparr>"

definition demo_manager :: Manager_env where
  "demo_manager = \<lparr>meStorage = demo_storage, meValidate = (\<lambda>_. True), meRecordBytes = (\<lambda>_. 0), meFormatTime = (\<lambda>_. ''20240102T030405.678'')\<rparr>"

definition demo_exists :: "bytes \<Rightarrow> Precondition" where
  "demo_exists contents = \<lparr>pcExists = True, pcDigest = stDigest demo_storage contents, pcMode = 0\<rparr>"

text \<open>One file is changed.\<close>

definition demo_edit :: Request where
  "demo_edit = \<lparr>rqOperation = ''edit'', rqDirectories = [], rqChanges = [\<lparr>chPath = [''c'', ''config''], chContents = [2],
     chPrecondition = demo_exists [1], chMode = 0, chSkipBackup = False\<rparr>],
     rqMoves = [], rqRemovals = [], rqRemoveDirectories = [], rqFinalChanges = []\<rparr>"

text \<open>One file is changed and a key is renamed.\<close>

definition demo_rename :: Request where
  "demo_rename = demo_edit\<lparr>rqMoves := [\<lparr>mvFrom = [''c'', ''key''], mvTo = [''c'', ''new''], mvPrecondition = demo_exists [5]\<rparr>]\<rparr>"

definition demo_world :: "outcome list \<Rightarrow> World" where
  "demo_world os = \<lparr>wdFiles = [([''c''], Directory 448), ([''c'', ''sshc''], Directory 448), ([''c'', ''config''], RegularFile [1] 384),
       ([''c'', ''key''], RegularFile [5] 384)],
     wdJournal = [], wdHistory = [], wdBackups = [],
     wdRecord = \<lparr>jrID = [], jrVersion = 0, jrOperation = [], jrStatus = statusCompleted, jrStartedAt = 0, jrFinishedAt = None,
       jrCommitted = 0, jrAtomic = False, jrDiscardBackups = False, jrEntries = []\<rparr>,
     wdOutcomes = os, wdNames = [''x'', ''y'', ''z''], wdRandom = [1, 2, 3, 4], wdNow = 7\<rparr>"

lemma demo_home: "home_ok demo_storage (files_of demo_storage (demo_world os))"
  by (simp add: home_ok_def files_of_def seen_def nodes_def node_at_def demo_world_def demo_storage_def StateDir_def StateDirectoryName_def
      visible_def has_prefix_def temporaryPrefix_def view_node_def)

lemma demo_tidy: "tidy (demo_world os)"
  by (auto simp: tidy_def nodes_def node_at_def demo_world_def visible_def has_prefix_def temporaryPrefix_def split: if_splits)

lemma demo_ordinary: "x \<noteq> [] \<Longrightarrow> hd x \<noteq> CHR ''.'' \<Longrightarrow> ordinary demo_storage [''c'', x]"
  by (cases x) (simp_all add: ordinary_def visible_def has_prefix_def temporaryPrefix_def TransactionFileLimit_def Contains_def demo_storage_def)

lemma demo_plain: "plain demo_storage demo_edit" "plain demo_storage demo_rename"
  by (simp_all add: plain_def demo_edit_def demo_rename_def demo_ordinary)
    (simp_all add: visible_def has_prefix_def temporaryPrefix_def TransactionFileLimit_def Contains_def demo_storage_def PayloadLimit_def)

lemma demo_env: "env_ok demo_manager" "meStorage demo_manager = demo_storage"
proof -
  have "digests_ok demo_storage"
    by (simp add: digests_ok_def demo_storage_def validJournalDigest_def list_all_iff is_lower_hex_def is_digit_def)
  then show "env_ok demo_manager" "meStorage demo_manager = demo_storage"
    by (simp_all add: env_ok_def demo_manager_def clock_ok_def is_digit_def demo_storage_def seal_ok_def maxRecordBytes_def)
qed

lemma demo_size: "request_size demo_edit = 1" "request_size demo_rename = 2"
  by (simp_all add: request_size_def demo_edit_def demo_rename_def)

lemma demo_basic: "wdJournal (demo_world os) = []" "wdNow (demo_world os) \<noteq> 0"
  by (simp_all add: demo_world_def)

text \<open>Names that nothing in a small workspace has.\<close>

lemma calm_files:
  assumes "wdFiles w = files" "n \<le> length names"
    and fresh: "list_all (\<lambda>name. list_all (\<lambda>x. fst x = [] \<or> last (fst x) \<noteq> temporaryPrefix @ name) files) names"
  shows "calm n (w\<lparr>wdOutcomes := [], wdNames := names\<rparr>)"
proof -
  have "map_of files (d @ [temporaryPrefix @ name]) = None" if n: "name \<in> set names" for name d
  proof (rule ccontr)
    assume "map_of files (d @ [temporaryPrefix @ name]) \<noteq> None"
    then obtain x where "x \<in> set files" "fst x = d @ [temporaryPrefix @ name]" by (auto simp: map_of_eq_None_iff)
    then show False using fresh n by (force simp: list_all_iff)
  qed
  then show ?thesis using assms by (simp add: calm_def nodes_def node_at_def)
qed

section \<open>All or nothing\<close>

text \<open>
  C1. For a \<open>plain\<close> request, one that makes and removes no directory, keeps a backup of everything it changes
  or removes, names no temporary file and no backup of the journal, and moves no file to a place with a lower
  limit: whatever operation of \<open>Commit\<close> fails and wherever the process is stopped, and however often the
  rollback of the pending transaction is itself disturbed or stopped, once a rollback is left alone, the files
  are exactly those before the request or exactly those that it asks for, and nothing is pending. (A rollback of
  what kept no backup is refused by the code, and one of directories can stop at evidence that is ambiguous.)
  The commit starts with nothing pending and no directory under a temporary name.
\<close>

theorem interrupted_Commit_is_all_or_nothing:
  assumes "tidy w" "wdJournal w = []" "wdNow w \<noteq> 0" "home_ok st (files_of st w)" "plain st r" "env_ok me" "meStorage me = st"
    and "w1 = fold (recover_once st (meRecordBytes me)) attempts (snd (Commit me r w))"
    and "calm (request_size r) (w1\<lparr>wdOutcomes := [], wdNames := names\<rparr>)"
  shows "\<exists>D \<in> {files_of st w, requested st r (files_of st w)}. settled st D (recover_once st (meRecordBytes me) ([], names) w1)"
  by (rule interrupted_recovers[OF assms(1-7) _ assms(8)[unfolded Commit_def] assms(9)]) (simp add: commits_safely_def)

definition demo_stopped :: World where
  "demo_stopped = fold (recover_once demo_storage (\<lambda>_. 0)) [(replicate 4 Works @ [Stops], [''u''])]
     (snd (Commit demo_manager demo_edit (demo_world (replicate 25 Works @ [Stops]))))"



lemma demo_stopped_files: "wdFiles demo_stopped = [([''c''], Directory 448), ([''c'', ''sshc''], Directory 448),
    ([''c'', ''config''], RegularFile [2] 384), ([''c'', ''key''], RegularFile [5] 384)]"
  by code_simp

theorem interrupted_Commit_is_all_or_nothing_witness:
  "\<exists>D \<in> {files_of demo_storage (demo_world (replicate 25 Works @ [Stops])),
      requested demo_storage demo_edit (files_of demo_storage (demo_world (replicate 25 Works @ [Stops])))}.
     settled demo_storage D (recover_once demo_storage (meRecordBytes demo_manager) ([], [''s'']) demo_stopped)"
proof (rule interrupted_Commit_is_all_or_nothing[OF demo_tidy demo_basic demo_home demo_plain(1) demo_env])
  show "demo_stopped = fold (recover_once demo_storage (meRecordBytes demo_manager))
     [(replicate 4 Works @ [Stops], [''u''])]
     (snd (Commit demo_manager demo_edit (demo_world (replicate 25 Works @ [Stops]))))"
    by (simp add: demo_stopped_def demo_manager_def)
  show "calm (request_size demo_edit) (demo_stopped\<lparr>wdOutcomes := [], wdNames := [''s'']\<rparr>)"
    by (rule calm_files[OF demo_stopped_files]) (simp_all add: demo_size temporaryPrefix_def)
qed




text \<open>
  C2. The same for \<open>CommitAtomic\<close> on requests that only write files, if at most one operation of the commit
  itself fails; the process may be stopped anywhere.
\<close>

theorem interrupted_CommitAtomic_is_all_or_nothing:
  assumes "tidy w" "wdJournal w = []" "wdNow w \<noteq> 0" "home_ok st (files_of st w)" "plain st r" "env_ok me" "meStorage me = st"
    and "rqMoves r = []" "rqRemovals r = []" "fails w \<le> 1"
    and "w1 = fold (recover_once st (meRecordBytes me)) attempts (snd (CommitAtomic me r w))"
    and "calm (request_size r) (w1\<lparr>wdOutcomes := [], wdNames := names\<rparr>)"
  shows "\<exists>D \<in> {files_of st w, requested st r (files_of st w)}. settled st D (recover_once st (meRecordBytes me) ([], names) w1)"
proof -
  let ?mode = "\<lparr>cmRollbackOnError = True, cmDiscardBackups = False\<rparr>"
  let ?D = "files_of st w"
  have mode: "commits_safely ?mode r (fails w)" using assms(8-10) by (simp add: commits_safely_def)
  have env: "digests_ok st" "\<And>q. meRecordBytes me q \<le> maxRecordBytes" using assms(6,7) by (auto simp: env_ok_def)
  have run: "wp (commit_request me r ?mode) (\<lambda>_. safe st r ?D) (\<lambda>_. safe st r ?D) (safe st r ?D) w"
    by (rule wp_mono[OF commit_request_safe[OF assms(1-7) mode]]) (simp_all add: safe_def)
  have "settled st ?D w" using assms(1,2) by (simp add: settled_def)
  then have "wp (CommitAtomic me r) (\<lambda>_. safe st r ?D) (\<lambda>_. safe st r ?D) (safe st r ?D) w"
    using run by (simp add: CommitAtomic_def safe_def split: option.split)
  then have "safe st r ?D (snd (CommitAtomic me r w))" by (rule wp_snd)
  then have "safe st r ?D w1" unfolding assms(11) by (rule recoveries_safe[OF _ env assms(4)])
  then show ?thesis by (rule recover_calm[OF _ env assms(4,12)])
qed

definition demo_failed :: World where
  "demo_failed = snd (CommitAtomic demo_manager demo_edit (demo_world (replicate 24 Works @ [Fails, Works, Works, Works, Stops])))"

lemma demo_failed_files: "wdFiles demo_failed = [([''c''], Directory 448), ([''c'', ''sshc''], Directory 448),
    ([''c'', ''config''], RegularFile [2] 384), ([''c'', ''key''], RegularFile [5] 384)]"
  by code_simp

theorem interrupted_CommitAtomic_is_all_or_nothing_witness:
  "let w = demo_world (replicate 24 Works @ [Fails, Works, Works, Works, Stops]) in
   \<exists>D \<in> {files_of demo_storage w, requested demo_storage demo_edit (files_of demo_storage w)}.
     settled demo_storage D (recover_once demo_storage (meRecordBytes demo_manager) ([], [''s'']) demo_failed)"
  unfolding Let_def
proof (rule interrupted_CommitAtomic_is_all_or_nothing[OF demo_tidy demo_basic demo_home demo_plain(1) demo_env, where attempts = "[]"])
  show "calm (request_size demo_edit) (demo_failed\<lparr>wdOutcomes := [], wdNames := [''s'']\<rparr>)"
    by (rule calm_files[OF demo_failed_files]) (simp_all add: demo_size temporaryPrefix_def)
qed (simp_all add: demo_edit_def fails_def demo_world_def demo_failed_def)

text \<open>
  C3. A \<open>Commit\<close> of a \<open>plain\<close> request (as in the first property: no directory made or removed, everything
  with its backup) that succeeds has made the files exactly those that the request asks for, every change, move
  and removal of a file in it, and leaves nothing pending. The directories of a request are not covered.
\<close>

theorem finished_Commit_did_the_request:
  assumes "tidy w" "wdJournal w = []" "wdNow w \<noteq> 0" "home_ok st (files_of st w)" "plain st r" "env_ok me" "meStorage me = st"
    and "fst (Commit me r w) = Done ()"
  shows "settled st (requested st r (files_of st w)) (snd (Commit me r w))"
proof -
  have "wp (Commit me r) (\<lambda>_. settled st (requested st r (files_of st w))) (\<lambda>_ _. True) (\<lambda>_. True) w"
    unfolding Commit_def by (rule wp_mono[OF commit_request_safe[OF assms(1-7)]]) (simp_all add: commits_safely_def)
  then show ?thesis using assms(8) by (cases "Commit me r w") (simp add: wp_def)
qed

lemma demo_done: "fst (Commit demo_manager demo_rename (demo_world [])) = Done ()"
  by code_simp

theorem finished_Commit_did_the_request_witness:
  "settled demo_storage (requested demo_storage demo_rename (files_of demo_storage (demo_world [])))
     (snd (Commit demo_manager demo_rename (demo_world [])))"
  by (rule finished_Commit_did_the_request[OF demo_tidy demo_basic demo_home demo_plain(2) demo_env demo_done])

text \<open>
  C4. The record of an atomic transaction that moves or removes a file is refused when it is read back, although
  \<open>validateAtomicRequest\<close> accepts the request: if the process stops during it, \<open>Rollback\<close> can never succeed, and
  the record stays in the way of every later transaction.
\<close>

theorem atomic_move_cannot_be_rolled_back:
  assumes "map_of (wdJournal w) identifier = Some r" "jrAtomic r" "e \<in> set (jrEntries r)"
    "jeAction e \<in> {actionMove, actionRemove, actionRemoveDir}"
  shows "fst (rollback st record_bytes identifier w) \<noteq> Done () \<and> wdJournal (snd (rollback st record_bytes identifier w)) = wdJournal w"
  using rejected_stays[OF assms(1) atomic_move_rejected[OF assms(2-4)], of st record_bytes]
  by (cases "rollback st record_bytes identifier w"; cases "fst (rollback st record_bytes identifier w)") (auto simp: wp_def)

definition demo_halted :: World where
  "demo_halted = snd (CommitAtomic demo_manager demo_rename (demo_world (replicate 32 Works @ [Stops])))"

text \<open>Here the edit is in place and the rename is not.\<close>

lemma demo_halted_files: "wdFiles demo_halted = [([''c''], Directory 448), ([''c'', ''sshc''], Directory 448),
    ([''c'', ''config''], RegularFile [2] 384), ([''c'', ''key''], RegularFile [5] 384)]"
  by code_simp

lemma demo_halted_record:
  "map_option (\<lambda>r. jrAtomic r \<and> list_ex (\<lambda>e. jeAction e = actionMove) (jrEntries r)) (map_of (wdJournal demo_halted) ''20240102T030405.678-01020304'') = Some True"
  by code_simp

theorem atomic_move_cannot_be_rolled_back_witness:
  "wdFiles demo_halted = [([''c''], Directory 448), ([''c'', ''sshc''], Directory 448),
     ([''c'', ''config''], RegularFile [2] 384), ([''c'', ''key''], RegularFile [5] 384)] \<and>
   fst (rollback demo_storage (\<lambda>_. 0) ''20240102T030405.678-01020304'' demo_halted) \<noteq> Done ()"
proof -
  obtain r e where "map_of (wdJournal demo_halted) ''20240102T030405.678-01020304'' = Some r" "jrAtomic r"
    "e \<in> set (jrEntries r)" "jeAction e \<in> {actionMove, actionRemove, actionRemoveDir}"
    using demo_halted_record by (auto simp: list_ex_iff)
  then show ?thesis
    using demo_halted_files atomic_move_cannot_be_rolled_back[of demo_halted _ r e demo_storage "\<lambda>_. 0"] by blast
qed

end
