(* ===== verification/Spec2Isabelle.thy ===== *)
theory Spec2Isabelle
  imports ConfigUnknown ConfigEdit EffDanger EffJump TelnetDial Ring BrowserReplay StoreProperties
begin

text \<open>
  sshc: an engine that edits the user's OpenSSH configuration, explains what it means for a host,
  opens connections in terminals, and serves a browser on the loopback interface. This development
  models the parts of its Go code (under src/internal/) whose correctness is a matter of data and
  order and not of the operating system, and proves what they promise. Each theory is translated
  from the source file it names; the definitions keep the source's names.

  The parts and how they depend on each other:

  \<^item> Prelude: bytes of text as \<open>string\<close>, bytes on the wire as \<open>8 word\<close>, the functions of Go's
    \<open>strings\<close> and \<open>slices\<close> packages that several parts use, and lemmas on lists.
  \<^item> Sshmatch (sshmatch/sshmatch.go): OpenSSH's patterns. \<open>pattern_loop\<close> has the four variables of
    the loop in \<open>Pattern\<close>; \<open>glob\<close> is the reference. The locale \<open>negatable_patterns\<close> is the contract of
    a list of patterns of which some are negated, interpreted on \<open>PatternList\<close> and, in EffMatch, on
    the patterns of a Host line.
  \<^item> ConfigSyntax (config/token.go, line.go, parse.go): a configuration file as lines that keep all
    their bytes, words and quoting. ConfigBlocks (config/block.go): Host and Match blocks, criteria,
    the comment above a block. ConfigUnknown (config/unknown_directive.go and the keyword table):
    which unknown keywords IgnoreUnknown covers.
  \<^item> EffDirective, EffMatch, EffLoadOrder, EffTokens, EffResolve, EffDanger, EffJump
    (effective/directive.go, match.go, loadorder.go, tokens.go, environment.go, resolve.go,
    blocknotes.go, danger.go, provenance.go, jump.go): what the files mean. \<open>walkLoadOrder\<close> reads
    the graph of files in OpenSSH's order and calls a visitor; \<open>Resolve\<close>, \<open>ScanForAlias\<close> and \<open>Project\<close>
    are visitors of it; \<open>ExpandRoute\<close> follows ProxyJump through resolved hosts.
  \<^item> ConfigEdit (application/edit.go, restofline.go): the edits of a block that the editor makes.
    GoText and Validate (validate/): the names that are accepted.
  \<^item> ByteStream (iowrite/iowrite.go): machines that read bytes, and writers. TelnetProtocol, Telnet,
    TelnetStream, TelnetDial (telnet/protocol.go, inbound.go, telnet.go): the Telnet client. Its
    connection is the record \<open>Conn\<close> with the transport inside it; \<open>decodeInboundByte\<close> is the step of
    the decoder, and the locales of ByteStream (\<open>stream_codec\<close>, \<open>kept_invariant\<close>, \<open>honest_writer\<close>) are
    interpreted on it and on the encoder. Ring (terminal/ring.go): the kept output of a terminal.
  \<^item> RandomId (randomid/randomid.go), Sessions and SessionSafety (session/), BrowserAuth,
    BrowserAuthSafety and BrowserReplay (browserauth/, handoff/engine_port.go): who may talk to the
    engine. A session manager with CSRF tokens and confirmations, and the registrations by which a
    browser comes back after a restart. \<open>entrance_Recover\<close> composes the two.
  \<^item> StoreWorld, StoreJournal, StoreCommit, StoreRecovery (storage/: filesystem.go, workspace.go,
    journal.go, backup.go, commit_builder.go, commit_run.go, transaction.go, recovery.go,
    pending_contents.go): transactions on the files of the workspace. A program is a function on
    \<open>World\<close>, which holds the files, the journal, the history, the backups, the record in memory and,
    for each operation on the disk to come, whether it works, fails, or never happens because the
    process stops. StoreLogic has the weakest preconditions by which such programs are proved;
    StorePlan says what a transaction is to do to the files; StoreUndo, StoreFinish, StoreReconcile and
    StoreRollback prove the rollback, StoreStage the planning, StoreForward and StoreRun the commit,
    StoreSafety the two together; StoreProperties states the results at a small workspace.

  What the lemmas show. Per component an invariant and that every operation keeps it
  (\<open>manager_ok\<close>, \<open>store_ok\<close>, \<open>ring_ok\<close>, the bounds of \<open>Conn\<close>), the behaviour on every branch, errors
  included, and round trips between a writer and the reader of the same program. Runs are
  inductive relations (\<open>session_run\<close>, \<open>auth_run\<close>) whose steps are the operations and what the
  surroundings may do: the clock, failing writes, a restart. \<open>noting\<close> turns a visitor into one that also
  records the lines it is offered, so that what \<open>Resolve\<close> accepts is stated of the walk itself; \<open>descends\<close>
  says where the registrations of a later state come from, so that a hash that was rotated away is
  followed through any run. Refinements: a ring is the tail of a log,
  a capped buffer is a prefix, a pattern is a glob, a decoder does not see how its input was cut. The
  abstract specification of a storage transaction is \<open>requested\<close>, one update of the map from paths to
  files for each part of the request; \<open>after\<close> is the map after the first entries of the plan. A commit
  and its recovery refine it: between any two operations the files are those \<open>after\<close> some entries and
  the journal holds a record from which that can be undone (\<open>running\<close>, \<open>pending\<close>), and at the end the
  files are the old ones or the requested ones (\<open>settled\<close>).

  Bounds and fuel. \<open>unused_loop\<close> has the eight attempts of the source as its fuel. \<open>walkLoadOrder\<close> ends
  because no file is read inside itself; \<open>route_expand\<close> counts down the depth and number of stages of the source. The
  readers of Telnet recurse over the input that is left; \<open>DiscardPending\<close> has the bound of its
  liveness property. \<open>create_temp\<close> has the
  128 attempts of the source. No other function has fuel.

  Parameters. SHA-1 of a connection (\<open>sha1_hex\<close>), SHA-256 (\<open>sha\<close>), the environment, the dialler and the
  peer's bytes are arguments. Where a theorem needs it, it assumes that a SHA-256 digest has 32 bytes and
  that the random source does not repeat a token (\<open>draws_fresh\<close>), which are hypotheses with witnesses.
  Of the storage the digest, the sealing of backups, the size of a journal document, the format of its
  time and the callers' validation are parameters (\<open>Storage\<close>, \<open>Manager_env\<close>); \<open>env_ok\<close> is what is
  assumed of them: a digest is 64 hexadecimal digits, sealing can be undone and adds at most a
  mebibyte, a record is within its limit, a time has its nineteen characters.

  Limits of the storage properties. What an operation did is on the disk when it returns, so a lost
  write-back is not modelled. They are about requests without directories whose changes and removals
  keep a backup (\<open>plain\<close>), and atomic ones that only write: a rollback of directories can stop where the
  evidence is ambiguous, and an atomic record with a move is not accepted again. For an atomic commit at most one operation fails, because after
  a failed last operation the record is gone from the journal.

  Not modelled, and why. Building the graph of configuration files and everything else that reads the file
  system (config/graph.go walk, include.go, platform/, filelock/), because the effects are the
  operating system's; of storage/ the Windows file system, staged uploads, and the pruning of the
  history and its backups, which cannot fail a transaction. Network clients and servers (sshclient/, sftp/, httpserver/, remoteengine/, vpn/,
  remotesync/), whose logic is interleaved with goroutines and third-party protocols. Encryption
  (envelope/, secret/). The command line, the generated API types, build tools, demo, mobile and web
  clients. Mutexes are not modelled: an operation that holds one is a single step.
\<close>

end
